(* ===== verification/Prelude.thy ===== *)
theory Prelude
  imports Main "HOL-Library.Word" "HOL-Library.Multiset"
begin

text \<open>
  The prelude of the development: the names of Go's machine types, the outcome of a Go call
  that may return an error or panic, the theorem collections the component theories fill, and
  the generic facts about bit lists, lists and integers of fixed width they share.
\<close>

unbundle bit_operations_syntax

section \<open>Machine types and outcomes\<close>

type_synonym u8 = "8 word"
type_synonym u16 = "16 word"
type_synonym u32 = "32 word"
type_synonym u64 = "64 word"

text \<open>
  \<^verbatim>\<open>float64\<close> values are only moved around, compared bit by bit and stored through
  \<^verbatim>\<open>math.Float64bits\<close>, so they are modelled by their IEEE 754 bit pattern.
\<close>

type_synonym f64 = "64 word"

text \<open>
  Errors the code returns as values. A run-time panic of Go (an index or slice out of range, a
  division by zero) is no error value: it is the separate outcome \<open>Panic\<close>.
\<close>

datatype go_error =
    EOF
  | ErrUnexpectedEOF
  | ErrOverflow
  | ErrInvalidSize
  | ErrInvalidChecksum
  | ErrNotFound
  | ErrOutOfOrderSample
  | ErrAmendSample
  | ErrOutOfBounds
  | ErrMsg string

datatype 'a outcome = Ok 'a | Fail go_error | Panic

fun bind_outcome :: "'a outcome \<Rightarrow> ('a \<Rightarrow> 'b outcome) \<Rightarrow> 'b outcome" where
  "bind_outcome (Ok x) f = f x"
| "bind_outcome (Fail e) f = Fail e"
| "bind_outcome Panic f = Panic"

named_theorems bits_simps \<open>bit lists and machine words\<close>
named_theorems codec_simps \<open>decoding what an encoder appended\<close>

lemma bind_outcome_Ok_iff [simp]:
  "bind_outcome m f = Ok y \<longleftrightarrow> (\<exists>x. m = Ok x \<and> f x = Ok y)"
  by (cases m) auto

lemma bind_outcome_cong [fundef_cong]:
  "m = m' \<Longrightarrow> (\<And>x. m' = Ok x \<Longrightarrow> f x = g x) \<Longrightarrow> bind_outcome m f = bind_outcome m' g"
  by (cases m') auto

section \<open>Signed 64-bit arithmetic on the integers\<close>

text \<open>
  \<^verbatim>\<open>int64\<close> values are either words read by \<^const>\<open>sint\<close>, or integers whose
  wrap-around is written out with \<open>i64\<close>.
\<close>

definition i64 :: "int \<Rightarrow> int" where
  "i64 x = (x + 2 ^ 63) mod 2 ^ 64 - 2 ^ 63"

definition in_i64 :: "int \<Rightarrow> bool" where
  "in_i64 x \<longleftrightarrow> - (2 ^ 63) \<le> x \<and> x < 2 ^ 63"

abbreviation MinInt64 :: int where "MinInt64 \<equiv> - (2 ^ 63)"
abbreviation MaxInt64 :: int where "MaxInt64 \<equiv> 2 ^ 63 - 1"

lemma i64_id [simp]: "in_i64 x \<Longrightarrow> i64 x = x"
  by (simp add: i64_def in_i64_def)

lemma in_i64_i64 [simp]: "in_i64 (i64 x)"
proof -
  have "0 \<le> (x + 2 ^ 63) mod 2 ^ 64" and "(x + 2 ^ 63) mod 2 ^ 64 < 2 ^ 64" by simp_all
  then show ?thesis by (simp add: i64_def in_i64_def)
qed

text \<open>Go's integer division truncates towards zero.\<close>

definition go_div :: "int \<Rightarrow> int \<Rightarrow> int" where
  "go_div a b = sgn a * sgn b * (\<bar>a\<bar> div \<bar>b\<bar>)"

definition go_mod :: "int \<Rightarrow> int \<Rightarrow> int" where
  "go_mod a b = a - b * go_div a b"

lemma go_div_nonneg [simp]: "0 \<le> a \<Longrightarrow> 0 < b \<Longrightarrow> go_div a b = a div b"
  by (cases "a = 0") (simp_all add: go_div_def)

lemma go_div_neg: "a < 0 \<Longrightarrow> 0 < b \<Longrightarrow> go_div a b = - ((- a) div b)"
  by (simp add: go_div_def)

section \<open>Words as bit lists, most significant bit first\<close>

definition to_bits :: "nat \<Rightarrow> 'a::len word \<Rightarrow> bool list" where
  "to_bits n w = map (bit w) (rev [0..<n])"

definition of_bits :: "bool list \<Rightarrow> 'a::len word" where
  "of_bits bs = horner_sum of_bool 2 (rev bs)"

lemma length_to_bits [simp]: "length (to_bits n w) = n"
  by (simp add: to_bits_def)

lemma nth_to_bits [simp]: "i < n \<Longrightarrow> to_bits n w ! i = bit w (n - Suc i)"
  by (simp add: to_bits_def rev_nth)

lemma to_bits_0 [simp]: "to_bits 0 w = []"
  by (simp add: to_bits_def)

lemma to_bits_Suc: "to_bits (Suc n) w = bit w n # to_bits n w"
  by (simp add: to_bits_def)

lemma bit_of_bits [bits_simps]:
  "bit (of_bits bs :: 'a::len word) k \<longleftrightarrow> k < LENGTH('a) \<and> k < length bs \<and> bs ! (length bs - Suc k)"
  by (auto simp: of_bits_def bit_horner_sum_bit_word_iff rev_nth)

lemma to_bits_add: "to_bits (m + n) w = to_bits m (drop_bit n w) @ to_bits n w"
proof (rule nth_equalityI)
  fix i assume i: "i < length (to_bits (m + n) w)"
  show "to_bits (m + n) w ! i = (to_bits m (drop_bit n w) @ to_bits n w) ! i"
  proof (cases "i < m")
    case True
    then have "n + (m - Suc i) = m + n - Suc i" by simp
    with True i show ?thesis by (simp add: nth_append bit_drop_bit_eq add.commute)
  next
    case False
    then have "n - Suc (i - m) = m + n - Suc i" by simp
    with False i show ?thesis by (simp add: nth_append)
  qed
qed simp

lemma of_bits_to_bits [simp]: "of_bits (to_bits n w) = take_bit n (w :: 'a::len word)"
proof (rule bit_word_eqI)
  fix k assume "k < LENGTH('a)"
  then show "bit (of_bits (to_bits n w) :: 'a word) k \<longleftrightarrow> bit (take_bit n w) k"
    by (auto simp: bit_of_bits bit_take_bit_iff)
qed

lemma of_bits_append:
  "(of_bits (xs @ ys) :: 'a::len word) = push_bit (length ys) (of_bits xs) OR of_bits ys"
proof (rule bit_word_eqI)
  fix k assume k: "k < LENGTH('a)"
  show "bit (of_bits (xs @ ys) :: 'a word) k \<longleftrightarrow> bit (push_bit (length ys) (of_bits xs) OR of_bits ys :: 'a word) k"
  proof (cases "k < length ys")
    case True
    then have "length xs + length ys - Suc k = length xs + (length ys - Suc k)" by simp
    with True k show ?thesis by (auto simp: bit_of_bits bit_or_iff bit_push_bit_iff nth_append)
  next
    case False
    then have "length xs + length ys - Suc k = length xs - Suc (k - length ys)" by simp
    with False k show ?thesis
      by (auto simp: bit_of_bits bit_or_iff bit_push_bit_iff nth_append less_diff_conv)
  qed
qed

lemma of_bits_Nil [simp]: "of_bits [] = 0"
  by (simp add: of_bits_def)

lemma to_bits_of_bits: "length bs \<le> LENGTH('a) \<Longrightarrow> to_bits (length bs) (of_bits bs :: 'a::len word) = bs"
  by (rule nth_equalityI) (auto simp: bit_of_bits)

lemma to_bits_ucast [bits_simps]:
  "n \<le> LENGTH('b) \<Longrightarrow> to_bits n (ucast (w :: 'a::len word) :: 'b::len word) = to_bits n w"
  by (rule nth_equalityI) (auto simp: bit_simps)

lemma take_bit_self_iff: "take_bit n w = w \<longleftrightarrow> unat (w :: 'a::len word) < 2 ^ n"
proof -
  have "take_bit n w = w \<longleftrightarrow> unat (take_bit n w) = unat w" by (simp add: word_unat_eq_iff)
  also have "\<dots> \<longleftrightarrow> unat w < 2 ^ n" by (simp only: unsigned_take_bit_eq take_bit_nat_eq_self_iff)
  finally show ?thesis .
qed

lemma take_bit_full [simp]: "LENGTH('a) \<le> n \<Longrightarrow> take_bit n (w :: 'a::len word) = w"
  by (rule bit_word_eqI) (simp add: bit_take_bit_iff)

lemma packed_word:
  assumes "unat hi < 2 ^ (LENGTH('a) - n)" "unat lo < 2 ^ n" "n \<le> LENGTH('a)"
  shows "drop_bit n (push_bit n hi OR lo) = hi" "drop_bit (LENGTH('a) - n) (push_bit (LENGTH('a) - n) (push_bit n hi OR lo)) = (lo :: 'a::len word)"
proof -
  have t: "take_bit (LENGTH('a) - n) hi = hi" "take_bit n lo = lo" using assms by (simp_all only: take_bit_self_iff)
  have s: "bit hi i \<Longrightarrow> i < LENGTH('a) - n" for i using t(1) by (metis bit_take_bit_iff)
  have c: "bit lo i \<Longrightarrow> i < n" for i using t(2) by (metis bit_take_bit_iff)
  show "drop_bit n (push_bit n hi OR lo) = hi"
    by (rule bit_word_eqI) (auto simp: bit_simps dest: s c)
  show "drop_bit (LENGTH('a) - n) (push_bit (LENGTH('a) - n) (push_bit n hi OR lo)) = lo"
    by (rule bit_word_eqI) (use assms(3) in \<open>auto simp: bit_simps dest: s c\<close>)
qed

section \<open>Lists\<close>

lemma concat_map_const_length:
  "(\<And>x. x \<in> set xs \<Longrightarrow> length (f x) = k) \<Longrightarrow> length (concat (map f xs)) = k * length xs"
  by (induction xs) auto

lemma concat_map_concat_map: "concat (map f (concat (map g xs))) = concat (map (\<lambda>x. concat (map f (g x))) xs)"
  by (induction xs) auto

lemma butlast_last_update: "xs \<noteq> [] \<Longrightarrow> xs[length xs - 1 := y] = butlast xs @ [y]"
  by (induction xs rule: rev_induct) (auto simp: list_update_append)

section \<open>Slices\<close>

text \<open>The built-in \<^verbatim>\<open>copy(dst[off:], src)\<close>.\<close>

definition copy_at :: "'a list \<Rightarrow> nat \<Rightarrow> 'a list \<Rightarrow> 'a list" where
  "copy_at dst off src =
     (let n = min (length dst - off) (length src) in take off dst @ take n src @ drop (off + n) dst)"

section \<open>Sorting with a comparison\<close>

text \<open>
  \<^verbatim>\<open>sort.Slice\<close> and \<^verbatim>\<open>sort.Sort\<close> with a comparison given by the caller. Go does not say how
  equal elements end up; here they keep their order. Where the comparison is a strict linear order
  on the elements there is only one result.
\<close>

fun insert_by :: "('a \<Rightarrow> 'a \<Rightarrow> bool) \<Rightarrow> 'a \<Rightarrow> 'a list \<Rightarrow> 'a list" where
  "insert_by lt x [] = [x]"
| "insert_by lt x (y # ys) = (if lt y x then y # insert_by lt x ys else x # y # ys)"

definition sort_Slice :: "('a \<Rightarrow> 'a \<Rightarrow> bool) \<Rightarrow> 'a list \<Rightarrow> 'a list" where
  "sort_Slice lt xs = foldr (insert_by lt) xs []"

lemma sort_Slice_simps [simp]: "sort_Slice lt [] = []" "sort_Slice lt (x # xs) = insert_by lt x (sort_Slice lt xs)"
  by (simp_all add: sort_Slice_def)

lemma mset_insert_by [simp]: "mset (insert_by lt x ys) = add_mset x (mset ys)"
  by (induction ys) auto

lemma mset_sort_Slice [simp]: "mset (sort_Slice lt xs) = mset xs"
  by (induction xs) auto

lemma set_sort_Slice [simp]: "set (sort_Slice lt xs) = set xs"
  by (metis mset_sort_Slice set_mset_mset)

lemma length_sort_Slice [simp]: "length (sort_Slice lt xs) = length xs"
  by (metis mset_sort_Slice size_mset)

lemma distinct_sort_Slice [simp]: "distinct (sort_Slice lt xs) = distinct xs"
  by (metis mset_sort_Slice mset_eq_imp_distinct_iff)

text \<open>The result of sorting by a key.\<close>

lemma sorted_insert_by:
  fixes f :: "'a \<Rightarrow> 'b::linorder"
  assumes "\<forall>y \<in> insert x (set ys). \<forall>z \<in> insert x (set ys). lt y z \<longleftrightarrow> f y < f z" "sorted (map f ys)"
  shows "sorted (map f (insert_by lt x ys))"
  using assms
proof (induction ys)
  case (Cons y ys)
  have "set (insert_by lt x ys) = insert x (set ys)" by (metis mset_insert_by set_mset_add_mset_insert set_mset_mset)
  then show ?case using Cons by (auto simp: not_less)
qed simp

lemma sorted_sort_Slice:
  fixes f :: "'a \<Rightarrow> 'b::linorder"
  shows "\<forall>y \<in> set xs. \<forall>z \<in> set xs. lt y z \<longleftrightarrow> f y < f z \<Longrightarrow> sorted (map f (sort_Slice lt xs))"
  by (induction xs) (auto intro!: sorted_insert_by)

end
