(* ===== verification/Binary.thy ===== *)
theory Binary
  imports Prelude
begin

text \<open>
  What the code uses of Go's standard package \<^verbatim>\<open>encoding/binary\<close>: variable-length
  integers (\<^verbatim>\<open>PutUvarint\<close>, \<^verbatim>\<open>PutVarint\<close>, \<^verbatim>\<open>Uvarint\<close>, \<^verbatim>\<open>Varint\<close>,
  \<^verbatim>\<open>ReadUvarint\<close>, \<^verbatim>\<open>ReadVarint\<close>) and fixed-width big-endian integers. The
  \<^verbatim>\<open>io.ByteReader\<close> that \<^verbatim>\<open>ReadUvarint\<close> reads from is the interface
  \<open>byte_reader\<close>; the bit stream of \<^verbatim>\<open>chunkenc\<close> implements it.
\<close>

section \<open>Writing varints\<close>

lemma drop_bit_7_less: "0x80 \<le> (x :: u64) \<Longrightarrow> unat (drop_bit 7 x) < unat x"
proof -
  assume "0x80 \<le> x"
  then have "128 \<le> unat x" by (simp add: word_le_nat_alt)
  moreover have "unat (drop_bit 7 x) = unat x div 128"
    by (simp only: unat_drop_bit_eq) (simp add: drop_bit_eq_div)
  ultimately show ?thesis by simp
qed

function PutUvarint :: "u64 \<Rightarrow> u8 list" where
  "PutUvarint x =
     (if 0x80 \<le> x then (ucast x OR 0x80) # PutUvarint (drop_bit 7 x) else [ucast x])"
  by pat_completeness auto

termination
  by (relation "measure unat") (simp_all add: drop_bit_7_less)

declare PutUvarint.simps [simp del]

definition zigzag :: "u64 \<Rightarrow> u64" where
  "zigzag x = (let ux = push_bit 1 x in if x <s 0 then NOT ux else ux)"

definition PutVarint :: "u64 \<Rightarrow> u8 list" where
  "PutVarint x = PutUvarint (zigzag x)"

section \<open>Reading varints from a byte reader\<close>

text \<open>
  The loop of \<^verbatim>\<open>ReadUvarint\<close>: \<open>left\<close> counts the iterations up to
  \<^verbatim>\<open>MaxVarintLen64\<close> = 10 that remain, \<open>x\<close> and \<open>s\<close> are the loop's variables.
\<close>

fun ReadUvarint_loop ::
  "('s \<Rightarrow> u8 outcome \<times> 's) \<Rightarrow> nat \<Rightarrow> u64 \<Rightarrow> nat \<Rightarrow> 's \<Rightarrow> u64 outcome \<times> 's" where
  "ReadUvarint_loop rd 0 x s r = (Fail ErrOverflow, r)"
| "ReadUvarint_loop rd (Suc left) x s r =
     (case rd r of
        (Panic, r') \<Rightarrow> (Panic, r')
      | (Fail e, r') \<Rightarrow> (Fail e, r')
      | (Ok b, r') \<Rightarrow>
          if b < 0x80 then
            (if left = 0 \<and> b > 1 then (Fail ErrOverflow, r') else (Ok (x OR push_bit s (ucast b)), r'))
          else ReadUvarint_loop rd left (x OR push_bit s (ucast (b AND 0x7f))) (s + 7) r')"

definition ReadUvarint :: "('s \<Rightarrow> u8 outcome \<times> 's) \<Rightarrow> 's \<Rightarrow> u64 outcome \<times> 's" where
  "ReadUvarint rd r = ReadUvarint_loop rd 10 0 0 r"

definition unzigzag :: "u64 \<Rightarrow> u64" where
  "unzigzag ux = (let x = drop_bit 1 ux in if ux AND 1 \<noteq> 0 then NOT x else x)"

definition ReadVarint :: "('s \<Rightarrow> u8 outcome \<times> 's) \<Rightarrow> 's \<Rightarrow> u64 outcome \<times> 's" where
  "ReadVarint rd r =
     (case ReadUvarint rd r of
        (Ok ux, r') \<Rightarrow> (Ok (unzigzag ux), r')
      | (Fail e, r') \<Rightarrow> (Fail e, r')
      | (Panic, r') \<Rightarrow> (Panic, r'))"

section \<open>Reading varints from a byte slice\<close>

text \<open>
  \<^verbatim>\<open>Uvarint\<close> returns the value and the number of bytes read, 0 for a buffer that is too
  small and a negative number on overflow.
\<close>

fun Uvarint_loop :: "nat \<Rightarrow> u64 \<Rightarrow> nat \<Rightarrow> u8 list \<Rightarrow> u64 \<times> int" where
  "Uvarint_loop i x s [] = (0, 0)"
| "Uvarint_loop i x s (b # bs) =
     (if b < 0x80 then
        (if i > 9 \<or> i = 9 \<and> b > 1 then (0, - (int i + 1))
         else (x OR push_bit s (ucast b), int i + 1))
      else Uvarint_loop (Suc i) (x OR push_bit s (ucast (b AND 0x7f))) (s + 7) bs)"

definition Uvarint :: "u8 list \<Rightarrow> u64 \<times> int" where
  "Uvarint bs = Uvarint_loop 0 0 0 bs"

definition Varint :: "u8 list \<Rightarrow> u64 \<times> int" where
  "Varint bs = (case Uvarint bs of (ux, n) \<Rightarrow> (unzigzag ux, n))"

section \<open>Big-endian integers\<close>

definition be_bytes :: "nat \<Rightarrow> 'a::len word \<Rightarrow> u8 list" where
  "be_bytes n w = map (\<lambda>i. ucast (drop_bit (8 * i) w)) (rev [0..<n])"

fun be_value :: "u8 list \<Rightarrow> 'a::len word" where
  "be_value [] = 0"
| "be_value (b # bs) = push_bit (8 * length bs) (ucast b) OR be_value bs"

definition PutUint16 :: "u16 \<Rightarrow> u8 list" where "PutUint16 w = be_bytes 2 w"
definition PutUint32 :: "u32 \<Rightarrow> u8 list" where "PutUint32 w = be_bytes 4 w"
definition PutUint64 :: "u64 \<Rightarrow> u8 list" where "PutUint64 w = be_bytes 8 w"

text \<open>Reading panics when the slice is too short.\<close>

definition Uint16 :: "u8 list \<Rightarrow> u16 outcome" where
  "Uint16 bs = (if length bs < 2 then Panic else Ok (be_value (take 2 bs)))"
definition Uint32 :: "u8 list \<Rightarrow> u32 outcome" where
  "Uint32 bs = (if length bs < 4 then Panic else Ok (be_value (take 4 bs)))"
definition Uint64 :: "u8 list \<Rightarrow> u64 outcome" where
  "Uint64 bs = (if length bs < 8 then Panic else Ok (be_value (take 8 bs)))"

section \<open>Round trips\<close>

lemma length_be_bytes [simp]: "length (be_bytes n w) = n"
  by (simp add: be_bytes_def)

lemma be_bytes_Suc: "be_bytes (Suc n) w = ucast (drop_bit (8 * n) w) # be_bytes n w"
  by (simp add: be_bytes_def)

lemma be_value_be_bytes [simp]: "be_value (be_bytes n w) = take_bit (8 * n) (w :: 'a::len word)"
proof (induction n)
  case (Suc n)
  have "push_bit (8 * n) (ucast (ucast (drop_bit (8 * n) w) :: u8)) OR take_bit (8 * n) w
      = take_bit (8 * Suc n) w"
    by (rule bit_word_eqI) (auto simp: bit_simps)
  with Suc show ?case by (simp add: be_bytes_Suc)
qed (simp add: be_bytes_def)

lemma Uint16_PutUint16 [simp]: "Uint16 (PutUint16 w @ bs) = Ok w"
  by (simp add: Uint16_def PutUint16_def)
lemma Uint32_PutUint32 [simp]: "Uint32 (PutUint32 w @ bs) = Ok w"
  by (simp add: Uint32_def PutUint32_def)
lemma Uint64_PutUint64 [simp]: "Uint64 (PutUint64 w @ bs) = Ok w"
  by (simp add: Uint64_def PutUint64_def)

lemma length_PutUint [simp]:
  "length (PutUint16 x) = 2" "length (PutUint32 y) = 4" "length (PutUint64 z) = 8"
  by (simp_all add: PutUint16_def PutUint32_def PutUint64_def)

lemma PutUint_not_Nil [simp]: "PutUint16 x \<noteq> []" "PutUint32 y \<noteq> []" "PutUint64 z \<noteq> []"
  by (auto simp flip: length_greater_0_conv)

lemma PutUvarint_small: "x < 0x80 \<Longrightarrow> PutUvarint x = [ucast x]"
  by (subst PutUvarint.simps) (simp only: not_le [symmetric] if_False)

lemma PutUvarint_big: "0x80 \<le> x \<Longrightarrow> PutUvarint x = (ucast x OR 0x80) # PutUvarint (drop_bit 7 x)"
  by (subst PutUvarint.simps) simp

lemma PutUvarint_not_Nil [simp]: "PutUvarint x \<noteq> []"
  by (subst PutUvarint.simps) simp

lemma PutVarint_not_Nil [simp]: "PutVarint x \<noteq> []"
  by (simp add: PutVarint_def)

text \<open>A byte below 0x80 has seven significant bits; a continuation byte has bit 7 set.\<close>

lemma less_0x80_iff_take_bit:
  "7 < LENGTH('a) \<Longrightarrow> (x :: 'a::len word) < 0x80 \<longleftrightarrow> take_bit 7 x = x"
proof -
  assume "7 < LENGTH('a)"
  then have "(2 :: nat) ^ 7 < 2 ^ LENGTH('a)" by (intro power_strict_increasing) simp_all
  then have "unat (0x80 :: 'a word) = 2 ^ 7" by (simp add: unat_numeral take_bit_nat_eq_self)
  then show ?thesis by (simp only: word_less_nat_alt take_bit_self_iff)
qed

lemma small_byte: "(x :: u64) < 0x80 \<Longrightarrow> (ucast x :: u8) < 0x80 \<and> ucast (ucast x :: u8) = x"
proof -
  assume "x < 0x80"
  then have x: "take_bit 7 x = x" by (simp add: less_0x80_iff_take_bit)
  have "take_bit 7 (ucast x :: u8) = ucast (take_bit 7 x)" and "ucast (ucast (take_bit 7 x) :: u8) = take_bit 7 x"
    by (rule bit_word_eqI; auto simp: bit_simps)+
  with x show ?thesis by (simp add: less_0x80_iff_take_bit)
qed

lemma continued_byte_ge: "\<not> (b :: u8) OR 0x80 < 0x80"
proof
  assume "b OR 0x80 < 0x80"
  then have "take_bit 7 (b OR 0x80) = b OR 0x80" by (simp add: less_0x80_iff_take_bit)
  then have "bit (take_bit 7 (b OR 0x80)) 7 = bit (b OR 0x80) 7" by simp
  then show False by (simp add: bit_simps)
qed

text \<open>One step of either reading loop undoes one step of \<open>PutUvarint\<close>.\<close>

lemma low_bits_of_continued:
  "k \<le> 8 \<Longrightarrow> ucast ((ucast (y :: u64) OR 2 ^ k :: u8) AND mask k) = (take_bit k y :: u64)"
  by (rule bit_word_eqI) (auto simp: bit_simps)

lemma varint_step:
  "(x OR push_bit s (ucast ((ucast (y :: u64) OR 0x80 :: u8) AND 0x7f))) OR push_bit (7 + s) (drop_bit 7 y)
   = x OR push_bit s (y :: u64)"
proof -
  have *: "ucast ((ucast y OR 0x80 :: u8) AND 0x7f) = (take_bit 7 y :: u64)"
    using low_bits_of_continued [of 7 y] by (simp add: mask_eq_exp_minus_1)
  have "push_bit s (take_bit 7 y) OR push_bit (7 + s) (drop_bit 7 y) = push_bit s y"
  proof (rule bit_word_eqI)
    fix n assume "n < LENGTH(64)"
    moreover have "7 + (n - (7 + s)) = n - s" if "7 + s \<le> n" using that by simp
    ultimately show "bit (push_bit s (take_bit 7 y) OR push_bit (7 + s) (drop_bit 7 y)) n = bit (push_bit s y) n"
      by (cases "7 + s \<le> n") (auto simp: bit_simps)
  qed
  then show ?thesis by (simp add: * or.assoc)
qed

lemma drop_bit_7_bound:
  "take_bit (64 - 7 * i) (y :: u64) = y \<Longrightarrow> take_bit (64 - 7 * Suc i) (drop_bit 7 y) = drop_bit 7 y"
proof -
  assume y: "take_bit (64 - 7 * i) y = y"
  have "take_bit (64 - 7 * Suc i) (drop_bit 7 y) = drop_bit 7 (take_bit (64 - 7 * i) y)"
    by (rule bit_word_eqI) (auto simp: bit_simps)
  with y show ?thesis by simp
qed

lemma ge_0x80_exponent: "0x80 \<le> (y :: u64) \<Longrightarrow> take_bit (64 - 7 * i) y = y \<Longrightarrow> i < 9"
proof -
  assume y: "0x80 \<le> y" "take_bit (64 - 7 * i) y = y"
  then have "128 \<le> unat y" "unat y < 2 ^ (64 - 7 * i)"
    by (simp_all add: word_le_nat_alt take_bit_self_iff)
  then have "(2 :: nat) ^ 7 < 2 ^ (64 - 7 * i)" by simp
  then have "7 < 64 - 7 * i" by (rule power_less_imp_less_exp [rotated]) simp
  then show ?thesis by simp
qed

lemma top_byte: "take_bit 1 (y :: u64) = y \<Longrightarrow> \<not> (ucast y :: u8) > 1"
proof -
  assume "take_bit 1 y = y"
  then have "unat y < 2 ^ 1" by (simp only: take_bit_self_iff)
  then have "unat y < 2" by simp
  then have "y = 0 \<or> y = 1" by (auto simp: word_unat_eq_iff)
  then show ?thesis by auto
qed

lemma Uvarint_loop_PutUvarint:
  "i \<le> 9 \<Longrightarrow> take_bit (64 - 7 * i) y = y \<Longrightarrow>
   Uvarint_loop i x (7 * i) (PutUvarint y @ bs) = (x OR push_bit (7 * i) y, int (i + length (PutUvarint y)))"
proof (induction y arbitrary: i x rule: PutUvarint.induct)
  case (1 y)
  show ?case
  proof (cases "0x80 \<le> y")
    case True
    from ge_0x80_exponent [OF this "1.prems"(2)] have "Suc i \<le> 9" by simp
    from "1.IH" [OF True this drop_bit_7_bound [OF "1.prems"(2)]] True show ?thesis
      by (simp add: PutUvarint_big continued_byte_ge varint_step add.commute)
  next
    case False
    then have "y < 0x80" by simp
    moreover have "i = 9 \<Longrightarrow> \<not> (ucast y :: u8) > 1" using "1.prems"(2) by (simp add: top_byte)
    ultimately show ?thesis using small_byte [of y] "1.prems"(1) by (auto simp: PutUvarint_small)
  qed
qed

lemma Uvarint_PutUvarint [codec_simps]:
  "Uvarint (PutUvarint y @ bs) = (y, int (length (PutUvarint y)))"
  using Uvarint_loop_PutUvarint [of 0 y 0 bs] by (simp add: Uvarint_def)

lemma drop_push_clear:
  assumes "\<And>i. i < LENGTH('a) \<Longrightarrow> LENGTH('a) \<le> i + k \<Longrightarrow> \<not> bit (x :: 'a::len word) i"
  shows "drop_bit k (push_bit k x) = x"
proof (rule bit_word_eqI)
  fix i assume "i < LENGTH('a)"
  then show "bit (drop_bit k (push_bit k x)) i = bit x i"
    using assms [of i] by (cases "i + k < LENGTH('a)") (auto simp: bit_simps add.commute)
qed

lemma not_drop_not_push_set:
  assumes "\<And>i. i < LENGTH('a) \<Longrightarrow> LENGTH('a) \<le> i + k \<Longrightarrow> bit (x :: 'a::len word) i"
  shows "NOT (drop_bit k (NOT (push_bit k x))) = x"
proof (rule bit_word_eqI)
  fix i assume "i < LENGTH('a)"
  then show "bit (NOT (drop_bit k (NOT (push_bit k x)))) i = bit x i"
    using assms [of i] by (cases "i + k < LENGTH('a)") (auto simp: bit_simps add.commute)
qed

lemma and_1_of_bool: "(w :: 'a::len word) AND 1 = of_bool (bit w 0)"
  by (simp add: and_one_eq bit_0 mod_2_eq_odd)

lemma unzigzag_zigzag: "unzigzag (zigzag x) = x"
proof -
  have s: "x <s 0 \<longleftrightarrow> bit x 63" using bit_last_iff [of x] by (simp add: word_sless_alt)
  have only63: "i < LENGTH(64) \<Longrightarrow> LENGTH(64) \<le> i + 1 \<Longrightarrow> i = 63" for i :: nat by simp
  have "drop_bit 1 (push_bit 1 x) = x" if b: "\<not> bit x 63"
    by (rule drop_push_clear) (drule (1) only63, simp add: b)
  moreover have "NOT (drop_bit 1 (NOT (push_bit 1 x))) = x" if b: "bit x 63"
    by (rule not_drop_not_push_set) (drule (1) only63, simp add: b)
  moreover have "push_bit 1 x AND 1 = 0" and "NOT (push_bit 1 x) AND 1 \<noteq> 0"
    by (simp_all only: and_1_of_bool bit_not_iff bit_push_bit_iff) simp_all
  ultimately show ?thesis by (simp add: unzigzag_def zigzag_def Let_def s del: push_bit_of_1 push_bit_Suc)
qed

lemma Varint_PutVarint [codec_simps]:
  "Varint (PutVarint y @ bs) = (y, int (length (PutVarint y)))"
  by (simp add: Varint_def PutVarint_def codec_simps unzigzag_zigzag)

section \<open>The byte reader interface\<close>

text \<open>
  A byte reader, seen from its client: the bits it has yet to deliver, an invariant, and the
  promise that whenever these start with the eight bits of a byte, that byte is read and the
  rest is left. This is all that reading a varint relies on.
\<close>

locale byte_reader =
  fixes readByte :: "'s \<Rightarrow> u8 outcome \<times> 's"
    and rbits :: "'s \<Rightarrow> bool list"
    and rinv :: "'s \<Rightarrow> bool"
  assumes read_byte: "rinv s \<Longrightarrow> rbits s = to_bits 8 b @ rest \<Longrightarrow>
      \<exists>s'. readByte s = (Ok b, s') \<and> rinv s' \<and> rbits s' = rest"
begin

lemma ReadUvarint_loop_PutUvarint:
  "i \<le> 9 \<Longrightarrow> take_bit (64 - 7 * i) y = y \<Longrightarrow> rinv s \<Longrightarrow>
   rbits s = concat (map (to_bits 8) (PutUvarint y)) @ rest \<Longrightarrow>
   \<exists>s'. ReadUvarint_loop readByte (10 - i) x (7 * i) s = (Ok (x OR push_bit (7 * i) y), s')
        \<and> rinv s' \<and> rbits s' = rest"
proof (induction y arbitrary: i x s rule: PutUvarint.induct)
  case (1 y)
  from "1.prems"(1) have left: "10 - i = Suc (9 - i)" by simp
  show ?case
  proof (cases "0x80 \<le> y")
    case True
    from ge_0x80_exponent [OF this "1.prems"(2)] have i: "Suc i \<le> 9" by simp
    from "1.prems"(4) True obtain s1 where s1: "readByte s = (Ok (ucast y OR 0x80), s1)" "rinv s1"
      "rbits s1 = concat (map (to_bits 8) (PutUvarint (drop_bit 7 y))) @ rest"
      using read_byte [OF "1.prems"(3)] by (auto simp: PutUvarint_big)
    from i have "10 - Suc i = 9 - i" by simp
    with "1.IH" [OF True i drop_bit_7_bound [OF "1.prems"(2)] s1(2,3),
        of "x OR push_bit (7 * i) (ucast ((ucast y OR 0x80 :: u8) AND 0x7f))"] s1(1)
    show ?thesis by (simp add: left continued_byte_ge varint_step add.commute)
  next
    case False
    then have y: "y < 0x80" by simp
    moreover have "i = 9 \<Longrightarrow> \<not> (ucast y :: u8) > 1" using "1.prems"(2) by (simp add: top_byte)
    moreover from "1.prems"(4) y obtain s1 where "readByte s = (Ok (ucast y), s1)" "rinv s1" "rbits s1 = rest"
      using read_byte [OF "1.prems"(3)] by (auto simp: PutUvarint_small)
    ultimately show ?thesis using small_byte [of y] "1.prems"(1) by (auto simp: left)
  qed
qed

lemma ReadUvarint_PutUvarint:
  "rinv s \<Longrightarrow> rbits s = concat (map (to_bits 8) (PutUvarint y)) @ rest \<Longrightarrow>
   \<exists>s'. ReadUvarint readByte s = (Ok y, s') \<and> rinv s' \<and> rbits s' = rest"
  using ReadUvarint_loop_PutUvarint [of 0 y s rest 0] by (simp add: ReadUvarint_def)

lemma ReadVarint_PutVarint:
  "rinv s \<Longrightarrow> rbits s = concat (map (to_bits 8) (PutVarint y)) @ rest \<Longrightarrow>
   \<exists>s'. ReadVarint readByte s = (Ok y, s') \<and> rinv s' \<and> rbits s' = rest"
  using ReadUvarint_PutUvarint [of s "zigzag y" rest]
  by (auto simp: ReadVarint_def PutVarint_def unzigzag_zigzag)

end

end
