(* ===== verification/Bstream.thy ===== *)
theory Bstream
  imports Binary
begin

text \<open>
  The bit stream of \<^verbatim>\<open>chunkenc/bstream.go\<close>: bits are appended to and read from a byte
  slice, most significant bit first. A writer and a reader are related through the bits they
  hold (\<open>wbits\<close>, \<open>rbits\<close>): every write appends bits, every read takes them off the front.
\<close>

section \<open>The stream and its operations\<close>

text \<open>
  \<open>count\<close> is the number of bits of the current byte that are still free (in a writer, whose
  current byte is the last one) or still unread (in a reader, whose current byte is the first).
  It is a \<^verbatim>\<open>uint8\<close> that the code keeps between 0 and 8.
\<close>

record bstream =
  stream :: "u8 list"
  count :: nat

definition newBReader :: "u8 list \<Rightarrow> bstream" where
  "newBReader b = \<lparr>stream = b, count = 8\<rparr>"

definition newBWriter :: "bstream" where
  "newBWriter = \<lparr>stream = [], count = 0\<rparr>"

definition clone :: "bstream \<Rightarrow> bstream" where
  "clone b = \<lparr>stream = stream b, count = count b\<rparr>"

text \<open>
  The index \<^verbatim>\<open>len(b.stream)-1\<close> of the current byte is in range in every stream with
  \<open>wf_writer\<close> below: \<open>count\<close> is only positive when a byte was appended.
\<close>

definition grow :: "bstream \<Rightarrow> bstream" where
  "grow b = (if count b = 0 then b\<lparr>stream := stream b @ [0], count := 8\<rparr> else b)"

definition writeBit :: "bool \<Rightarrow> bstream \<Rightarrow> bstream" where
  "writeBit x b0 =
     (let b = grow b0;
          i = length (stream b) - 1;
          b = (if x then b\<lparr>stream := (stream b)[i := stream b ! i OR push_bit (count b - 1) 1]\<rparr> else b)
      in b\<lparr>count := count b - 1\<rparr>)"

definition writeByte :: "u8 \<Rightarrow> bstream \<Rightarrow> bstream" where
  "writeByte byt b0 =
     (let b = grow b0;
          i = length (stream b) - 1;
          s = (stream b)[i := stream b ! i OR drop_bit (8 - count b) byt];
          s = s @ [0]
      in b\<lparr>stream := s[i + 1 := push_bit (count b) byt]\<rparr>)"

fun writeBits_bytes :: "u64 \<Rightarrow> nat \<Rightarrow> bstream \<Rightarrow> u64 \<times> nat \<times> bstream" where
  "writeBits_bytes u nbits b =
     (if nbits \<ge> 8
      then writeBits_bytes (push_bit 8 u) (nbits - 8) (writeByte (ucast (drop_bit 56 u)) b)
      else (u, nbits, b))"

declare writeBits_bytes.simps [simp del]

fun writeBits_bits :: "u64 \<Rightarrow> nat \<Rightarrow> bstream \<Rightarrow> bstream" where
  "writeBits_bits u 0 b = b"
| "writeBits_bits u (Suc nbits) b =
     writeBits_bits (push_bit 1 u) nbits (writeBit (drop_bit 63 u = 1) b)"

text \<open>Go's shift by \<^verbatim>\<open>64 - uint(nbits)\<close> gives 0 when the unsigned difference wraps.\<close>

definition writeBits :: "u64 \<Rightarrow> nat \<Rightarrow> bstream \<Rightarrow> bstream" where
  "writeBits u0 nbits b =
     (let u = (if nbits \<le> 64 then push_bit (64 - nbits) u0 else 0)
      in case writeBits_bytes u nbits b of (u', nbits', b') \<Rightarrow> writeBits_bits u' nbits' b')"

definition readBit :: "bstream \<Rightarrow> bool outcome \<times> bstream" where
  "readBit b =
     (if stream b = [] then (Fail EOF, b)
      else
        let b1 = (if count b = 0 then b\<lparr>stream := tl (stream b)\<rparr> else b)
        in if count b = 0 \<and> stream b1 = [] then (Fail EOF, b1)
           else
             let b2 = (if count b = 0 then b1\<lparr>count := 8\<rparr> else b1);
                 d = push_bit (8 - count b2) (hd (stream b2)) AND 0x80
             in (Ok (d \<noteq> 0), b2\<lparr>count := count b2 - 1\<rparr>))"

definition readByte :: "bstream \<Rightarrow> u8 outcome \<times> bstream" where
  "readByte b =
     (if stream b = [] then (Fail EOF, b)
      else if count b = 0 then
        (let b1 = b\<lparr>stream := tl (stream b)\<rparr>
         in if stream b1 = [] then (Fail EOF, b1) else (Ok (hd (stream b1)), b1))
      else if count b = 8 then (Ok (hd (stream b)), b\<lparr>count := 0\<rparr>)
      else
        let byt = push_bit (8 - count b) (hd (stream b));
            b1 = b\<lparr>stream := tl (stream b)\<rparr>
        in if stream b1 = [] then (Fail EOF, b1)
           else (Ok (byt OR drop_bit (count b1) (hd (stream b1))), b1))"

fun readBits_bytes :: "u64 \<Rightarrow> nat \<Rightarrow> bstream \<Rightarrow> (u64 \<times> nat) outcome \<times> bstream" where
  "readBits_bytes u nbits b =
     (if nbits \<ge> 8 then
        (case readByte b of
           (Panic, b') \<Rightarrow> (Panic, b')
         | (Fail e, b') \<Rightarrow> (Fail e, b')
         | (Ok byt, b') \<Rightarrow> readBits_bytes (push_bit 8 u OR ucast byt) (nbits - 8) b')
      else (Ok (u, nbits), b))"

declare readBits_bytes.simps [simp del]

text \<open>The part of \<^verbatim>\<open>readBits\<close> after the loop; an empty stream makes the index panic.\<close>

definition readBits_tail :: "u64 \<Rightarrow> nat \<Rightarrow> bstream \<Rightarrow> u64 outcome \<times> bstream" where
  "readBits_tail u nbits b =
     (let c = count b in
      if stream b = [] then (Panic, b)
      else
        let u' = push_bit nbits u OR ucast (drop_bit (8 - nbits) (push_bit (8 - c) (hd (stream b))))
        in (Ok u', b\<lparr>count := c - nbits\<rparr>))"

definition readBits :: "nat \<Rightarrow> bstream \<Rightarrow> u64 outcome \<times> bstream" where
  "readBits nbits0 b0 =
     (case readBits_bytes 0 nbits0 b0 of
        (Panic, b) \<Rightarrow> (Panic, b)
      | (Fail e, b) \<Rightarrow> (Fail e, b)
      | (Ok (u, nbits), b) \<Rightarrow>
          if nbits = 0 then (Ok u, b)
          else if nbits > count b then
            (if stream b = [] then (Panic, b)
             else
               let c = count b;
                   u1 = push_bit c u OR ucast (drop_bit (8 - c) (push_bit (8 - c) (hd (stream b))));
                   b1 = b\<lparr>stream := tl (stream b)\<rparr>
               in if stream b1 = [] then (Fail EOF, b1)
                  else readBits_tail u1 (nbits - c) (b1\<lparr>count := 8\<rparr>))
          else readBits_tail u nbits b)"

section \<open>The bits a stream holds\<close>

definition bytes_bits :: "u8 list \<Rightarrow> bool list" where
  "bytes_bits bs = concat (map (to_bits 8) bs)"

definition wbits :: "bstream \<Rightarrow> bool list" where
  "wbits b = take (8 * length (stream b) - count b) (bytes_bits (stream b))"

definition wf_writer :: "bstream \<Rightarrow> bool" where
  "wf_writer b \<longleftrightarrow> count b \<le> 8 \<and> (stream b = [] \<longrightarrow> count b = 0) \<and>
     (\<forall>i < count b. \<not> bit (last (stream b)) i)"

definition rbits :: "bstream \<Rightarrow> bool list" where
  "rbits b = drop (8 - count b) (bytes_bits (stream b))"

definition wf_reader :: "bstream \<Rightarrow> bool" where
  "wf_reader b \<longleftrightarrow> count b \<le> 8"

lemma bytes_bits_simps [simp]:
  "bytes_bits [] = []"
  "bytes_bits (x # xs) = to_bits 8 x @ bytes_bits xs"
  "bytes_bits (xs @ ys) = bytes_bits xs @ bytes_bits ys"
  by (simp_all add: bytes_bits_def)

lemma length_bytes_bits [simp]: "length (bytes_bits bs) = 8 * length bs"
  by (induction bs) simp_all

subsection \<open>Writing\<close>

lemma wf_newBWriter [simp]: "wf_writer newBWriter" "wbits newBWriter = []"
  by (simp_all add: newBWriter_def wf_writer_def wbits_def)

text \<open>
  After \<open>grow\<close> the stream is a full prefix and a current byte whose low \<open>count\<close> bits are
  clear.
\<close>

lemma grow_split:
  assumes "wf_writer b"
  obtains pre cur where "stream (grow b) = pre @ [cur]" "0 < count (grow b)" "count (grow b) \<le> 8"
    "\<forall>i < count (grow b). \<not> bit cur i"
    "wbits b = bytes_bits pre @ take (8 - count (grow b)) (to_bits 8 cur)"
proof (cases "count b = 0")
  case True
  then have "wbits b = bytes_bits (stream b) @ take (8 - 8) (to_bits 8 (0 :: u8))"
    by (simp add: wbits_def)
  with True that [of "stream b" 0] show ?thesis by (simp add: grow_def)
next
  case False
  with assms have ne: "stream b \<noteq> []" by (auto simp: wf_writer_def)
  then have s: "stream b = butlast (stream b) @ [last (stream b)]" by simp
  let ?pre = "butlast (stream b)" and ?cur = "last (stream b)"
  have len: "8 * length (stream b) - count b = 8 * length ?pre + (8 - count b)"
    using assms ne by (cases "stream b" rule: rev_cases) (auto simp: wf_writer_def)
  have "wbits b = take (8 * length ?pre + (8 - count b)) (bytes_bits (?pre @ [?cur]))"
    unfolding wbits_def len using s by simp
  also have "\<dots> = bytes_bits ?pre @ take (8 - count b) (to_bits 8 ?cur)"
    by simp
  finally show ?thesis using False assms s that [of ?pre ?cur] by (auto simp: grow_def wf_writer_def)
qed

lemma writeBit_wbits:
  assumes "wf_writer b"
  shows "wf_writer (writeBit x b)" and "wbits (writeBit x b) = wbits b @ [x]"
proof -
  obtain pre cur where s: "stream (grow b) = pre @ [cur]" and c: "0 < count (grow b)" "count (grow b) \<le> 8"
    and low: "\<forall>i < count (grow b). \<not> bit cur i"
    and w: "wbits b = bytes_bits pre @ take (8 - count (grow b)) (to_bits 8 cur)"
    using grow_split [OF assms] .
  define c where "c = count (grow b)"
  define cur' where "cur' = (if x then cur OR push_bit (c - 1) 1 else cur)"
  have st: "stream (writeBit x b) = pre @ [cur']" and ct: "count (writeBit x b) = c - 1"
    using s by (simp_all add: writeBit_def Let_def cur'_def c_def)
  have low': "\<not> bit cur' i" if "i < c - 1" for i
    using low that by (auto simp: cur'_def c_def bit_simps)
  have "take (8 - (c - 1)) (to_bits 8 cur') = take (8 - c) (to_bits 8 cur) @ [x]"
  proof (rule nth_equalityI)
    fix i assume i: "i < length (take (8 - (c - 1)) (to_bits 8 cur'))"
    show "take (8 - (c - 1)) (to_bits 8 cur') ! i = (take (8 - c) (to_bits 8 cur) @ [x]) ! i"
    proof (cases "i < 8 - c")
      case True
      then show ?thesis using c low by (auto simp: nth_append cur'_def bit_simps c_def)
    next
      case False
      with i c have "i = 8 - c" by (auto simp: c_def)
      moreover have "8 - Suc (8 - c) = c - 1" using c by (auto simp: c_def)
      moreover have "\<not> bit cur (c - 1)" using low c by (simp add: c_def)
      ultimately show ?thesis using c by (auto simp: nth_append cur'_def bit_simps c_def)
    qed
  qed (use c in \<open>auto simp: c_def\<close>)
  moreover have "wbits (writeBit x b) = bytes_bits pre @ take (8 - (c - 1)) (to_bits 8 cur')"
    using c by (simp add: wbits_def st ct c_def)
  ultimately show "wbits (writeBit x b) = wbits b @ [x]" by (simp add: w c_def)
  show "wf_writer (writeBit x b)"
    using c low' by (auto simp: wf_writer_def st ct c_def)
qed

lemma writeByte_wbits:
  assumes "wf_writer b"
  shows "wf_writer (writeByte x b)" and "wbits (writeByte x b) = wbits b @ to_bits 8 x"
proof -
  obtain pre cur where s: "stream (grow b) = pre @ [cur]" and c: "0 < count (grow b)" "count (grow b) \<le> 8"
    and low: "\<forall>i < count (grow b). \<not> bit cur i"
    and w: "wbits b = bytes_bits pre @ take (8 - count (grow b)) (to_bits 8 cur)"
    using grow_split [OF assms] .
  define c where "c = count (grow b)"
  define cur' where "cur' = cur OR drop_bit (8 - c) x"
  have st: "stream (writeByte x b) = pre @ [cur', push_bit c x]" and ct: "count (writeByte x b) = c"
    using s by (simp_all add: writeByte_def Let_def cur'_def c_def list_update_append nth_append)
  have "to_bits 8 cur' @ take (8 - c) (to_bits 8 (push_bit c x)) = take (8 - c) (to_bits 8 cur) @ to_bits 8 x"
  proof (rule nth_equalityI)
    fix i assume "i < length (to_bits 8 cur' @ take (8 - c) (to_bits 8 (push_bit c x)))"
    then have i: "i < 8 + (8 - c)" using c by (simp add: c_def)
    consider "i < 8 - c" | "8 - c \<le> i" "i < 8" | "8 \<le> i" by linarith
    then show "(to_bits 8 cur' @ take (8 - c) (to_bits 8 (push_bit c x))) ! i
        = (take (8 - c) (to_bits 8 cur) @ to_bits 8 x) ! i"
    proof cases
      case 1
      then show ?thesis using c by (auto simp: nth_append cur'_def bit_simps c_def dest: bit_imp_le_length)
    next
      case 2
      moreover have "8 - c + (8 - Suc i) = 8 - Suc (i - (8 - c))" using 2 c by (simp add: c_def)
      moreover have "\<not> bit cur (8 - Suc i)" using low 2 by (simp add: c_def)
      ultimately show ?thesis using c by (auto simp: nth_append cur'_def bit_simps c_def)
    next
      case 3
      moreover have "8 - Suc (i - 8) - c = 8 - Suc (i - (8 - c))" "c \<le> 8 - Suc (i - 8)"
        using 3 i c by (auto simp: c_def)
      ultimately show ?thesis using c i by (auto simp: nth_append bit_simps c_def)
    qed
  qed (use c in \<open>auto simp: c_def\<close>)
  moreover have "wbits (writeByte x b) = bytes_bits pre @ to_bits 8 cur' @ take (8 - c) (to_bits 8 (push_bit c x))"
    using c by (simp add: wbits_def st ct c_def)
  ultimately show "wbits (writeByte x b) = wbits b @ to_bits 8 x" by (simp add: w c_def)
  show "wf_writer (writeByte x b)"
    using c by (auto simp: wf_writer_def st ct c_def bit_simps)
qed

text \<open>
  \<open>writeBits\<close> shifts its argument to the top of the word and then emits from the top, byte by
  byte and bit by bit.
\<close>

lemma to_bits_push_bit:
  "k \<le> LENGTH('a) \<Longrightarrow>
   to_bits LENGTH('a) (push_bit k (u :: 'a::len word)) = drop k (to_bits LENGTH('a) u) @ replicate k False"
  by (rule nth_equalityI) (auto simp: nth_append bit_simps add.commute)

lemmas to_bits_push_bit64 = to_bits_push_bit [where 'a = 64, simplified]

lemma take_to_bits_top: "n \<le> 64 \<Longrightarrow> take n (to_bits 64 (push_bit (64 - n) (u :: u64))) = to_bits n u"
  by (rule nth_equalityI) (auto simp: bit_simps)

lemma writeBits_bits_wbits:
  "wf_writer b \<Longrightarrow> n \<le> 64 \<Longrightarrow> wf_writer (writeBits_bits u n b) \<and>
     wbits (writeBits_bits u n b) = wbits b @ take n (to_bits 64 u)"
proof (induction n arbitrary: u b)
  case (Suc n)
  have "drop_bit 63 u = of_bool (bit u 63)"
  proof (rule bit_word_eqI)
    fix i show "bit (drop_bit 63 u) i = bit (of_bool (bit u 63) :: u64) i"
      by (cases "i = 0") (auto simp: bit_simps bit_1_iff dest: bit_imp_le_length)
  qed
  then have top: "drop_bit 63 u = 1 \<longleftrightarrow> bit u 63" by simp
  have "take n (to_bits 64 (push_bit 1 u)) = take n (drop 1 (to_bits 64 u))"
    using Suc.prems by (simp only: to_bits_push_bit64) simp
  moreover have "to_bits 64 u = bit u 63 # drop 1 (to_bits 64 u)"
    using to_bits_Suc [of 63 u] by simp
  ultimately have "bit u 63 # take n (to_bits 64 (push_bit 1 u)) = take (Suc n) (to_bits 64 u)"
    by (metis take_Suc_Cons)
  with Suc show ?case by (simp add: writeBit_wbits top)
qed simp

lemma writeBits_bytes_wbits:
  "wf_writer b \<Longrightarrow> n \<le> 64 \<Longrightarrow> writeBits_bytes u n b = (u', n', b') \<Longrightarrow>
   n' < 8 \<and> wf_writer b' \<and> wbits b' @ take n' (to_bits 64 u') = wbits b @ take n (to_bits 64 u)"
proof (induction u n b rule: writeBits_bytes.induct)
  case (1 u n b)
  show ?case
  proof (cases "n \<ge> 8")
    case True
    have byte: "to_bits 8 (ucast (drop_bit 56 u) :: u8) = take 8 (to_bits 64 u)"
      by (rule nth_equalityI) (auto simp: bit_simps)
    have "take (n - 8) (to_bits 64 (push_bit 8 u)) = take (n - 8) (drop 8 (to_bits 64 u))"
      using "1.prems"(2) by (simp only: to_bits_push_bit64) simp
    then have "to_bits 8 (ucast (drop_bit 56 u) :: u8) @ take (n - 8) (to_bits 64 (push_bit 8 u)) = take n (to_bits 64 u)"
      unfolding byte using True by (metis le_add_diff_inverse take_add)
    with True "1.prems" "1.IH" [OF True] show ?thesis
      by (simp add: writeByte_wbits writeBits_bytes.simps [of u n b])
  next
    case False
    with "1.prems" show ?thesis by (simp add: writeBits_bytes.simps [of u n b])
  qed
qed

lemma writeBits_wbits:
  assumes "wf_writer b" and "n \<le> 64"
  shows "wf_writer (writeBits u n b)" and "wbits (writeBits u n b) = wbits b @ to_bits n u"
proof -
  obtain u' n' b' where eq: "writeBits_bytes (push_bit (64 - n) u) n b = (u', n', b')"
    by (metis prod_cases3)
  from writeBits_bytes_wbits [OF assms eq]
  have *: "n' < 8" "wf_writer b'" "wbits b' @ take n' (to_bits 64 u') = wbits b @ to_bits n u"
    using assms(2) by (simp_all add: take_to_bits_top)
  with writeBits_bits_wbits [of b' n' u'] eq assms(2)
  show "wf_writer (writeBits u n b)" and "wbits (writeBits u n b) = wbits b @ to_bits n u"
    by (simp_all add: writeBits_def)
qed

subsection \<open>Reading\<close>

lemma drop_to_bits: "k \<le> n \<Longrightarrow> drop (n - k) (to_bits n w) = to_bits k w"
  using to_bits_add [of "n - k" k w] by simp

lemma take_to_bits: "k \<le> n \<Longrightarrow> take k (to_bits n w) = to_bits k (drop_bit (n - k) w)"
  using to_bits_add [of k "n - k" w] by simp

lemma rbits_Cons: "c \<le> 8 \<Longrightarrow> rbits \<lparr>stream = x # s, count = c\<rparr> = to_bits c x @ bytes_bits s"
  by (simp add: rbits_def drop_to_bits)

lemma rbits_nonempty: "rbits b \<noteq> [] \<Longrightarrow> stream b \<noteq> []"
  by (auto simp: rbits_def)

lemma to_bits_8_inject: "to_bits 8 (x :: u8) = to_bits 8 y \<Longrightarrow> x = y"
proof -
  assume "to_bits 8 x = to_bits 8 y"
  then have "take_bit 8 x = take_bit 8 y" by (metis of_bits_to_bits)
  then show "x = y" by simp
qed

lemma top_bit_and: "c < 8 \<Longrightarrow> push_bit (8 - Suc c) (x :: u8) AND 0x80 \<noteq> 0 \<longleftrightarrow> bit x c"
proof -
  assume c: "c < 8"
  have "push_bit 7 (1 :: u8) = 0x80" by simp
  then have "push_bit (8 - Suc c) x AND 0x80 \<noteq> 0 \<longleftrightarrow> bit (push_bit (8 - Suc c) x) 7"
    by (simp add: bit_iff_and_push_bit_not_eq_0)
  also have "\<dots> \<longleftrightarrow> bit x c" using c by (auto simp: bit_push_bit_iff)
  finally show ?thesis .
qed

lemma readBit_rbits:
  assumes "wf_reader b" and "rbits b = x # rest"
  shows "\<exists>b'. readBit b = (Ok x, b') \<and> wf_reader b' \<and> rbits b' = rest"
proof -
  from assms(2) have "stream b \<noteq> []" by (intro rbits_nonempty) simp
  then obtain cur s c where b: "b = \<lparr>stream = cur # s, count = c\<rparr>"
    by (cases b) (auto simp: neq_Nil_conv)
  from assms(1) have c: "c \<le> 8" by (simp add: wf_reader_def b)
  show ?thesis
  proof (cases c)
    case 0
    with assms(2) b obtain y s' where s: "s = y # s'" by (cases s) (auto simp: rbits_Cons)
    have "x = bit y 7" "rest = to_bits 7 y @ bytes_bits s'"
      using assms(2) b 0 s to_bits_Suc [of 7 y] by (auto simp: rbits_Cons)
    then show ?thesis using b 0 s top_bit_and [of 7 y]
      by (simp add: readBit_def rbits_Cons wf_reader_def)
  next
    case (Suc k)
    have "x = bit cur k" "rest = to_bits k cur @ bytes_bits s"
      using assms(2) b c Suc by (auto simp: rbits_Cons to_bits_Suc)
    then show ?thesis using b c Suc top_bit_and [of k cur]
      by (simp add: readBit_def rbits_Cons wf_reader_def)
  qed
qed

lemma split_byte:
  assumes c: "c \<le> 8"
  shows "to_bits 8 (push_bit (8 - c) cur OR drop_bit c y :: u8) @ to_bits c y = to_bits c cur @ to_bits 8 y"
proof (rule nth_equalityI)
  fix i assume "i < length (to_bits 8 (push_bit (8 - c) cur OR drop_bit c y :: u8) @ to_bits c y)"
  then have i: "i < 8 + c" by simp
  consider "i < c" | "c \<le> i" "i < 8" | "8 \<le> i" by linarith
  then show "(to_bits 8 (push_bit (8 - c) cur OR drop_bit c y) @ to_bits c y) ! i
      = (to_bits c cur @ to_bits 8 y) ! i"
  proof cases
    case 1
    moreover have "8 - Suc i - (8 - c) = c - Suc i" using 1 c by simp
    ultimately show ?thesis using c by (auto simp: nth_append bit_simps dest: bit_imp_le_length)
  next
    case 2
    moreover have "c + (8 - Suc i) = 8 - Suc (i - c)" using 2 c by simp
    ultimately show ?thesis using c by (auto simp: nth_append bit_simps)
  next
    case 3
    moreover have "c - Suc (i - 8) = 8 - Suc (i - c)" using 3 i c by simp
    ultimately show ?thesis using c i by (auto simp: nth_append)
  qed
qed simp

lemma readByte_rbits:
  assumes "wf_reader b" and "rbits b = to_bits 8 x @ rest"
  shows "\<exists>b'. readByte b = (Ok x, b') \<and> wf_reader b' \<and> rbits b' = rest"
proof -
  from assms(2) have "rbits b \<noteq> []" by (auto simp: to_bits_def)
  then have "stream b \<noteq> []" by (rule rbits_nonempty)
  then obtain cur s c where b: "b = \<lparr>stream = cur # s, count = c\<rparr>"
    by (cases b) (auto simp: neq_Nil_conv)
  from assms(1) have c: "c \<le> 8" by (simp add: wf_reader_def b)
  have r: "to_bits c cur @ bytes_bits s = to_bits 8 x @ rest" using assms(2) b c by (simp add: rbits_Cons)
  show ?thesis
  proof (cases "c = 8")
    case True
    with r have "cur = x" "rest = bytes_bits s" by (auto dest: to_bits_8_inject)
    with True b show ?thesis by (simp add: readByte_def wf_reader_def rbits_Cons)
  next
    case False
    from arg_cong [OF r, of length] False c obtain y s' where s: "s = y # s'" by (cases s) auto
    let ?z = "push_bit (8 - c) cur OR drop_bit c y"
    have "to_bits 8 ?z @ to_bits c y @ bytes_bits s' = to_bits 8 x @ rest"
      using r s split_byte [OF c, of cur y] by (metis append.assoc bytes_bits_simps(2))
    then have "?z = x" "rest = to_bits c y @ bytes_bits s'" by (auto dest: to_bits_8_inject)
    with False c b s show ?thesis
      by (cases "c = 0") (auto simp: readByte_def wf_reader_def rbits_Cons)
  qed
qed

interpretation bstream_reader: byte_reader readByte rbits wf_reader
  by unfold_locales (rule readByte_rbits)

lemma ucast_of_bits: "length bs \<le> 8 \<Longrightarrow> ucast (of_bits bs :: u8) = (of_bits bs :: u64)"
  by (rule bit_word_eqI) (auto simp: bit_simps bits_simps)

lemma readBits_bytes_rbits:
  "wf_reader b \<Longrightarrow> rbits b = xs @ rest \<Longrightarrow> length xs = n \<Longrightarrow>
   \<exists>b'. readBits_bytes (of_bits ys) n b = (Ok (of_bits (ys @ take (n - n mod 8) xs), n mod 8), b')
      \<and> wf_reader b' \<and> rbits b' = drop (n - n mod 8) xs @ rest"
proof (induction n arbitrary: b xs ys rule: less_induct)
  case (less n)
  show ?case
  proof (cases "n \<ge> 8")
    case True
    let ?x = "of_bits (take 8 xs) :: u8"
    have x: "to_bits 8 ?x = take 8 xs" using True less.prems(3) to_bits_of_bits [of "take 8 xs", where 'a = 8]
      by simp
    then have "rbits b = to_bits 8 ?x @ drop 8 xs @ rest" using less.prems(2) by simp
    from readByte_rbits [OF less.prems(1) this] obtain b1 where
      b1: "readByte b = (Ok ?x, b1)" "wf_reader b1" "rbits b1 = drop 8 xs @ rest" by blast
    have "length (drop 8 xs) = n - 8" using less.prems(3) by simp
    from less.IH [OF _ b1(2,3) this, of "ys @ take 8 xs"] True obtain b2 where
      b2: "readBits_bytes (of_bits (ys @ take 8 xs)) (n - 8) b1 =
        (Ok (of_bits ((ys @ take 8 xs) @ take (n - 8 - (n - 8) mod 8) (drop 8 xs)), (n - 8) mod 8), b2)"
      "wf_reader b2" "rbits b2 = drop (n - 8 - (n - 8) mod 8) (drop 8 xs) @ rest" by auto
    have m: "(n - 8) mod 8 = n mod 8" using True by (metis le_mod_geq)
    have k: "n - n mod 8 = 8 + (n - 8 - n mod 8)" using True m
      by (metis (no_types, lifting) add_diff_assoc le_add_diff_inverse mod_less_eq_dividend)
    have "push_bit 8 (of_bits ys) OR ucast ?x = (of_bits (ys @ take 8 xs) :: u64)"
      using True less.prems(3) by (simp add: ucast_of_bits of_bits_append)
    then have "readBits_bytes (of_bits ys) n b =
        (Ok (of_bits (ys @ take (n - n mod 8) xs), n mod 8), b2)"
      using True b1(1) b2(1) by (simp add: readBits_bytes.simps [of _ n b] m k take_add)
    with b2(2,3) show ?thesis by (simp add: m k add.commute)
  next
    case False
    with less.prems show ?thesis by (simp add: readBits_bytes.simps [of _ n b])
  qed
qed

lemma readBits_tail_rbits:
  assumes "wf_reader b" and "rbits b = xs @ rest" and "0 < length xs" and "length xs \<le> count b"
  shows "\<exists>b'. readBits_tail (of_bits ys) (length xs) b = (Ok (of_bits (ys @ xs)), b') \<and> wf_reader b' \<and> rbits b' = rest"
proof -
  define m where "m = length xs"
  from assms(2,3) have "stream b \<noteq> []" by (intro rbits_nonempty) auto
  then obtain cur s c where b: "b = \<lparr>stream = cur # s, count = c\<rparr>"
    by (cases b) (auto simp: neq_Nil_conv)
  have c: "c \<le> 8" "m \<le> c" using assms(1,4) by (simp_all add: wf_reader_def b m_def)
  have r: "to_bits c cur @ bytes_bits s = xs @ rest" using assms(2) b c by (simp add: rbits_Cons)
  have "xs = take m (to_bits c cur)" using arg_cong [OF r, of "take m"] c by (simp add: m_def)
  then have xs: "xs = to_bits m (drop_bit (c - m) cur)" using c by (simp add: take_to_bits)
  have rest: "rest = to_bits (c - m) cur @ bytes_bits s"
    using arg_cong [OF r, of "drop m"] c drop_to_bits [of "c - m" c cur] by (simp add: m_def)
  have "drop_bit (8 - m) (push_bit (8 - c) cur) = take_bit m (drop_bit (c - m) cur)"
    using c by (intro bit_word_eqI) (auto simp: bit_simps add.commute dest: bit_imp_le_length)
  then have "ucast (drop_bit (8 - m) (push_bit (8 - c) cur)) = (of_bits xs :: u64)"
    using c ucast_of_bits [of xs] by (simp add: xs)
  with b c rest show ?thesis
    by (simp add: readBits_tail_def of_bits_append m_def wf_reader_def rbits_Cons)
qed

lemma readBits_rbits':
  assumes "wf_reader b" and "rbits b = xs @ rest"
  shows "\<exists>b'. readBits (length xs) b = (Ok (of_bits xs), b') \<and> wf_reader b' \<and> rbits b' = rest"
proof -
  define n m where "n = length xs" and "m = n mod 8"
  define ys zs where "ys = take (n - m) xs" and "zs = drop (n - m) xs"
  have m: "length zs = m" "m < 8" and xs: "xs = ys @ zs" by (auto simp: m_def n_def zs_def ys_def)
  obtain b1 where b1: "readBits_bytes 0 n b = (Ok (of_bits ys, m), b1)" "wf_reader b1" "rbits b1 = zs @ rest"
    using readBits_bytes_rbits [OF assms, of n "[]"] by (auto simp: n_def m_def ys_def zs_def)
  consider "m = 0" | "0 < m" "m \<le> count b1" | "count b1 < m" by linarith
  then show ?thesis
  proof cases
    case 1
    with b1 m xs show ?thesis unfolding readBits_def n_def [symmetric] by simp
  next
    case 2
    with readBits_tail_rbits [OF b1(2,3), of ys] m obtain b2 where
      "readBits_tail (of_bits ys) m b1 = (Ok (of_bits xs), b2)" "wf_reader b2" "rbits b2 = rest"
      by (auto simp: xs)
    with 2 b1 show ?thesis unfolding readBits_def n_def [symmetric] by simp
  next
    case 3
    with b1(3) m have "stream b1 \<noteq> []" by (intro rbits_nonempty) auto
    then obtain cur s c where b: "b1 = \<lparr>stream = cur # s, count = c\<rparr>"
      by (cases b1) (auto simp: neq_Nil_conv)
    have c: "c \<le> 8" "c < m" using 3 b1(2) by (simp_all add: wf_reader_def b)
    have r: "to_bits c cur @ bytes_bits s = zs @ rest" using b1(3) b c by (simp add: rbits_Cons)
    from arg_cong [OF r, of length] c m have ne: "s \<noteq> []" by auto
    have zs: "zs = to_bits c cur @ drop c zs" and r2: "bytes_bits s = drop c zs @ rest"
      using arg_cong [OF r, of "take c"] arg_cong [OF r, of "drop c"] c m
      by (simp_all add: append_eq_conv_conj)
    have "drop_bit (8 - c) (push_bit (8 - c) cur) = take_bit c cur"
      using c by (intro bit_word_eqI) (auto simp: bit_simps dest: bit_imp_le_length)
    then have "push_bit c (of_bits ys) OR ucast (drop_bit (8 - c) (push_bit (8 - c) cur))
        = (of_bits (ys @ to_bits c cur) :: u64)"
      using c ucast_of_bits [of "to_bits c cur"] by (simp add: of_bits_append)
    moreover obtain b2 where "readBits_tail (of_bits (ys @ to_bits c cur)) (m - c) \<lparr>stream = s, count = 8\<rparr>
        = (Ok (of_bits xs), b2)" "wf_reader b2" "rbits b2 = rest"
    proof -
      have "wf_reader \<lparr>stream = s, count = 8\<rparr>" "rbits \<lparr>stream = s, count = 8\<rparr> = drop c zs @ rest"
        "0 < length (drop c zs)" "length (drop c zs) \<le> count \<lparr>stream = s, count = 8\<rparr>"
        using r2 c m by (simp_all add: wf_reader_def rbits_def)
      moreover have "(ys @ to_bits c cur) @ drop c zs = xs" using zs xs by simp
      ultimately show ?thesis
        using readBits_tail_rbits [of "\<lparr>stream = s, count = 8\<rparr>" "drop c zs" rest "ys @ to_bits c cur"] m that
        by auto
    qed
    ultimately show ?thesis using 3 b1 b ne c unfolding readBits_def n_def [symmetric] by simp
  qed
qed

lemma readBits_rbits:
  assumes "wf_reader b" and "rbits b = to_bits n (u :: u64) @ rest"
  shows "\<exists>b'. readBits n b = (Ok (take_bit n u), b') \<and> wf_reader b' \<and> rbits b' = rest"
  using readBits_rbits' [OF assms] by simp

end
