(* ===== verification/Xor.thy ===== *)
theory Xor
  imports Bstream
begin

text \<open>
  The Gorilla-style XOR chunk of \<^verbatim>\<open>chunkenc/xor.go\<close> and the chunk container of
  \<^verbatim>\<open>chunkenc/chunk.go\<close>. Timestamps are \<^verbatim>\<open>int64\<close> and deltas \<^verbatim>\<open>uint64\<close>, both
  \<^typ>\<open>u64\<close> words here with wrap-around arithmetic; the counters and the bit widths of the
  appender and the iterator keep their \<^verbatim>\<open>uint16\<close> and \<^verbatim>\<open>uint8\<close> types.
\<close>

section \<open>Chunks and appenders\<close>

datatype Encoding = EncNone | EncXOR | EncUnknown u8

definition encoding_of_byte :: "u8 \<Rightarrow> Encoding" where
  "encoding_of_byte e = (if e = 0 then EncNone else if e = 1 then EncXOR else EncUnknown e)"

fun Encoding_String :: "Encoding \<Rightarrow> string" where
  "Encoding_String EncNone = ''none''"
| "Encoding_String EncXOR = ''XOR''"
| "Encoding_String (EncUnknown _) = ''<unknown>''"

record XORChunk =
  chunk_b :: bstream

definition NewXORChunk :: XORChunk where
  "NewXORChunk = \<lparr>chunk_b = \<lparr>stream = [0, 0], count = 0\<rparr>\<rparr>"

definition FromData :: "Encoding \<Rightarrow> u8 list \<Rightarrow> XORChunk outcome" where
  "FromData e d =
     (case e of
        EncXOR \<Rightarrow> Ok \<lparr>chunk_b = \<lparr>stream = d, count = 0\<rparr>\<rparr>
      | _ \<Rightarrow> Fail (ErrMsg ''unknown chunk encoding''))"

definition Bytes :: "XORChunk \<Rightarrow> u8 list" where
  "Bytes c = stream (chunk_b c)"

definition NumSamples :: "XORChunk \<Rightarrow> u16 outcome" where
  "NumSamples c = Uint16 (Bytes c)"

text \<open>
  An appender shares the bit stream of its chunk through a pointer; \<open>app_b\<close> is that stream,
  and the chunk of an appender is read back with \<open>app_chunk\<close>.
\<close>

record xorAppender =
  app_b :: bstream
  app_t :: u64
  app_v :: f64
  app_tDelta :: u64
  app_leading :: u8
  app_trailing :: u8

definition app_chunk :: "xorAppender \<Rightarrow> XORChunk" where
  "app_chunk a = \<lparr>chunk_b = app_b a\<rparr>"

text \<open>\<^verbatim>\<open>math/bits\<close>: leading and trailing zeros of a 64-bit word (64 for the word 0).\<close>

definition LeadingZeros64 :: "u64 \<Rightarrow> nat" where
  "LeadingZeros64 w = length (takeWhile Not (to_bits 64 w))"

definition TrailingZeros64 :: "u64 \<Rightarrow> nat" where
  "TrailingZeros64 w = length (takeWhile Not (rev (to_bits 64 w)))"

definition bitRange :: "u64 \<Rightarrow> nat \<Rightarrow> bool" where
  "bitRange x nbits \<longleftrightarrow> - (2 ^ (nbits - 1) - 1) \<le> sint x \<and> sint x \<le> 2 ^ (nbits - 1)"

definition writeVDelta :: "f64 \<Rightarrow> xorAppender \<Rightarrow> xorAppender" where
  "writeVDelta v a =
     (let vDelta = v XOR app_v a in
      if vDelta = 0 then a\<lparr>app_b := writeBit False (app_b a)\<rparr>
      else
        let b = writeBit True (app_b a);
            leading0 = of_nat (LeadingZeros64 vDelta) :: u8;
            trailing = of_nat (TrailingZeros64 vDelta) :: u8;
            leading = (if leading0 \<ge> 32 then 31 else leading0)
        in if app_leading a \<noteq> 0xff \<and> leading \<ge> app_leading a \<and> trailing \<ge> app_trailing a
           then
             let b = writeBit False b;
                 nbits = nat (64 - uint (app_leading a) - uint (app_trailing a))
             in a\<lparr>app_b := writeBits (drop_bit (unat (app_trailing a)) vDelta) nbits b\<rparr>
           else
             let b = writeBit True b;
                 b = writeBits (ucast leading) 5 b;
                 sigbits = 64 - leading - trailing;
                 b = writeBits (ucast sigbits) 6 b;
                 b = writeBits (drop_bit (unat trailing) vDelta) (unat sigbits) b
             in a\<lparr>app_leading := leading, app_trailing := trailing, app_b := b\<rparr>)"

definition writeDod :: "u64 \<Rightarrow> bstream \<Rightarrow> bstream" where
  "writeDod dod b =
     (if dod = 0 then writeBit False b
      else if bitRange dod 14 then writeBits dod 14 (writeBits 0x02 2 b)
      else if bitRange dod 17 then writeBits dod 17 (writeBits 0x06 3 b)
      else if bitRange dod 20 then writeBits dod 20 (writeBits 0x0e 4 b)
      else writeBits dod 64 (writeBits 0x0f 4 b))"

definition writeBytes :: "u8 list \<Rightarrow> bstream \<Rightarrow> bstream" where
  "writeBytes bs b = fold writeByte bs b"

definition putNum :: "u16 \<Rightarrow> bstream \<Rightarrow> bstream" where
  "putNum n b = b\<lparr>stream := PutUint16 n @ drop 2 (stream b)\<rparr>"

definition Append :: "u64 \<Rightarrow> f64 \<Rightarrow> xorAppender \<Rightarrow> xorAppender outcome" where
  "Append t v a =
     bind_outcome (Uint16 (stream (app_b a))) (\<lambda>num.
       let (tDelta, a1) =
         (if num = 0 then
            (0, a\<lparr>app_b := writeBits v 64 (writeBytes (PutVarint t) (app_b a))\<rparr>)
          else if num = 1 then
            (let tDelta = t - app_t a
             in (tDelta, writeVDelta v (a\<lparr>app_b := writeBytes (PutUvarint tDelta) (app_b a)\<rparr>)))
          else
            (let tDelta = t - app_t a;
                 dod = tDelta - app_tDelta a
             in (tDelta, writeVDelta v (a\<lparr>app_b := writeDod dod (app_b a)\<rparr>))))
       in Ok (a1\<lparr>app_t := t, app_v := v, app_b := putNum (num + 1) (app_b a1), app_tDelta := tDelta\<rparr>))"

section \<open>The iterator\<close>

record xorIterator =
  br :: bstream
  numTotal :: u16
  numRead :: u16
  it_t :: u64
  it_val :: f64
  it_leading :: u8
  it_trailing :: u8
  it_tDelta :: u64
  it_err :: "go_error option"

definition iterator :: "XORChunk \<Rightarrow> xorIterator outcome" where
  "iterator c =
     bind_outcome (Uint16 (Bytes c)) (\<lambda>n.
       Ok \<lparr>br = newBReader (drop 2 (Bytes c)), numTotal = n, numRead = 0, it_t = 0, it_val = 0,
           it_leading = 0, it_trailing = 0, it_tDelta = 0, it_err = None\<rparr>)"

definition At :: "xorIterator \<Rightarrow> u64 \<times> f64" where
  "At it = (it_t it, it_val it)"

text \<open>
  The pattern \<^verbatim>\<open>x, err := read(); if err != nil { it.err = err; return false }\<close>: on
  success go on with the value, on an error record it and return false.
\<close>

fun it_read :: "'a outcome \<times> bstream \<Rightarrow> xorIterator \<Rightarrow>
    ('a \<Rightarrow> xorIterator \<Rightarrow> (bool \<times> xorIterator) outcome) \<Rightarrow> (bool \<times> xorIterator) outcome" where
  "it_read (Ok x, b) it k = k x (it\<lparr>br := b\<rparr>)"
| "it_read (Fail e, b) it k = Ok (False, it\<lparr>br := b, it_err := Some e\<rparr>)"
| "it_read (Panic, b) it k = Panic"

definition readSigBits :: "xorIterator \<Rightarrow> (bool \<times> xorIterator) outcome" where
  "readSigBits it =
     (let mbits = unat (64 - it_leading it - it_trailing it) in
      it_read (readBits mbits (br it)) it (\<lambda>bits it.
        Ok (True, it\<lparr>it_val := it_val it XOR push_bit (unat (it_trailing it)) bits,
                     numRead := numRead it + 1\<rparr>)))"

definition readValue :: "xorIterator \<Rightarrow> (bool \<times> xorIterator) outcome" where
  "readValue it =
     it_read (readBit (br it)) it (\<lambda>bit it.
       if \<not> bit then Ok (True, it\<lparr>numRead := numRead it + 1\<rparr>)
       else
         it_read (readBit (br it)) it (\<lambda>bit it.
           if \<not> bit then readSigBits it
           else
             it_read (readBits 5 (br it)) it (\<lambda>bits it.
               let it = it\<lparr>it_leading := ucast bits\<rparr> in
               it_read (readBits 6 (br it)) it (\<lambda>bits it.
                 let mbits = (if (ucast bits :: u8) = 0 then 64 else ucast bits)
                 in readSigBits (it\<lparr>it_trailing := 64 - it_leading it - mbits\<rparr>)))))"

text \<open>The loop that reads the prefix of a delta of deltas: at most four bits, up to the first 0.\<close>

fun readDodPrefix :: "nat \<Rightarrow> u8 \<Rightarrow> bstream \<Rightarrow> u8 outcome \<times> bstream" where
  "readDodPrefix 0 d b = (Ok d, b)"
| "readDodPrefix (Suc k) d b =
     (let d = push_bit 1 d in
      case readBit b of
        (Panic, b') \<Rightarrow> (Panic, b')
      | (Fail e, b') \<Rightarrow> (Fail e, b')
      | (Ok x, b') \<Rightarrow> if \<not> x then (Ok d, b') else readDodPrefix k (d OR 1) b')"

definition signExtend :: "nat \<Rightarrow> u64 \<Rightarrow> u64" where
  "signExtend sz bits = (if bits > push_bit (sz - 1) 1 then bits - push_bit sz 1 else bits)"

definition applyDod :: "u64 \<Rightarrow> xorIterator \<Rightarrow> (bool \<times> xorIterator) outcome" where
  "applyDod dod it =
     (let tDelta = it_tDelta it + dod
      in readValue (it\<lparr>it_tDelta := tDelta, it_t := it_t it + tDelta\<rparr>))"

definition readDod :: "xorIterator \<Rightarrow> (bool \<times> xorIterator) outcome" where
  "readDod it =
     it_read (readDodPrefix 4 0 (br it)) it (\<lambda>d it.
       let sz = (if d = 0x02 then 14 else if d = 0x06 then 17 else if d = 0x0e then 20 else 0) in
       if d = 0x0f then it_read (readBits 64 (br it)) it (\<lambda>bits it. applyDod bits it)
       else if sz \<noteq> 0 then
         it_read (readBits sz (br it)) it (\<lambda>bits it. applyDod (signExtend sz bits) it)
       else applyDod 0 it)"

definition Next :: "xorIterator \<Rightarrow> (bool \<times> xorIterator) outcome" where
  "Next it =
     (if it_err it \<noteq> None \<or> numRead it = numTotal it then Ok (False, it)
      else if numRead it = 0 then
        it_read (ReadVarint readByte (br it)) it (\<lambda>t it.
          it_read (readBits 64 (br it)) it (\<lambda>v it.
            Ok (True, it\<lparr>it_t := t, it_val := v, numRead := numRead it + 1\<rparr>)))
      else if numRead it = 1 then
        it_read (ReadUvarint readByte (br it)) it (\<lambda>tDelta it.
          readValue (it\<lparr>it_tDelta := tDelta, it_t := it_t it + tDelta\<rparr>))
      else readDod it)"

section \<open>Draining an iterator and reopening an appender\<close>

text \<open>Every successful \<^verbatim>\<open>Next\<close> counts one sample, so a loop over it ends.\<close>

definition advanced :: "xorIterator \<Rightarrow> xorIterator \<Rightarrow> bool" where
  "advanced it it' \<longleftrightarrow> numTotal it' = numTotal it \<and> numRead it' = numRead it + 1"

lemma it_read_True:
  "it_read r it k = Ok (True, it') \<Longrightarrow> \<exists>x b. r = (Ok x, b) \<and> k x (it\<lparr>br := b\<rparr>) = Ok (True, it')"
  by (induction r it k rule: it_read.induct) auto

lemma readSigBits_advanced: "readSigBits it = Ok (True, it') \<Longrightarrow> advanced it it'"
  by (auto simp: readSigBits_def Let_def advanced_def dest!: it_read_True)

lemma readValue_advanced: "readValue it = Ok (True, it') \<Longrightarrow> advanced it it'"
  by (auto simp: readValue_def Let_def advanced_def dest!: it_read_True readSigBits_advanced split: if_splits)

lemma readDod_advanced: "readDod it = Ok (True, it') \<Longrightarrow> advanced it it'"
  by (auto simp: readDod_def applyDod_def Let_def advanced_def
      dest!: it_read_True readValue_advanced split: if_splits)

lemma Next_advanced:
  "Next it = Ok (True, it') \<Longrightarrow> advanced it it' \<and> numRead it \<noteq> numTotal it"
  by (auto simp: Next_def advanced_def dest!: it_read_True readValue_advanced readDod_advanced split: if_splits)

lemma word_sub_decreases: "(r :: u16) \<noteq> n \<Longrightarrow> unat (n - (r + 1)) < unat (n - r)"
proof -
  assume "r \<noteq> n"
  then have "n - r \<noteq> 0" by simp
  then have "unat (n - r - 1) < unat (n - r)" by (metis unat_minus_one lessI Suc_pred unat_gt_0 diff_less zero_less_one)
  then show ?thesis by (simp add: algebra_simps)
qed

function iterate :: "xorIterator \<Rightarrow> ((u64 \<times> f64) list \<times> xorIterator) outcome" where
  "iterate it =
     (case Next it of
        Ok (True, it') \<Rightarrow> bind_outcome (iterate it') (\<lambda>(xs, it''). Ok (At it' # xs, it''))
      | Ok (False, it') \<Rightarrow> Ok ([], it')
      | Fail e \<Rightarrow> Fail e
      | Panic \<Rightarrow> Panic)"
  by pat_completeness auto
termination
  by (relation "measure (\<lambda>it. unat (numTotal it - numRead it))")
    (auto simp: advanced_def dest!: Next_advanced intro: word_sub_decreases)

declare iterate.simps [simp del]

text \<open>\<^verbatim>\<open>Appender\<close> runs an iterator to the end and takes over its state.\<close>

definition Appender :: "XORChunk \<Rightarrow> xorAppender outcome" where
  "Appender c =
     bind_outcome (iterator c) (\<lambda>it0.
     bind_outcome (iterate it0) (\<lambda>(_, it).
       case it_err it of
         Some e \<Rightarrow> Fail e
       | None \<Rightarrow>
           bind_outcome (Uint16 (Bytes c)) (\<lambda>num.
             Ok \<lparr>app_b = chunk_b c, app_t = it_t it, app_v = it_val it, app_tDelta = it_tDelta it,
                 app_leading = (if num = 0 then 0xff else it_leading it),
                 app_trailing = it_trailing it\<rparr>)))"

fun AppendAll :: "(u64 \<times> f64) list \<Rightarrow> xorAppender \<Rightarrow> xorAppender outcome" where
  "AppendAll [] a = Ok a"
| "AppendAll ((t, v) # xs) a = bind_outcome (Append t v a) (AppendAll xs)"

section \<open>The bit format\<close>

text \<open>
  What \<open>writeVDelta\<close> and \<open>writeDod\<close> append, as plain bit lists: the specification that
  connects the appender and the iterator.
\<close>

definition clampLeading :: "u64 \<Rightarrow> u8" where
  "clampLeading w = (let l = of_nat (LeadingZeros64 w) :: u8 in if l \<ge> 32 then 31 else l)"

definition value_bits :: "u8 \<Rightarrow> u8 \<Rightarrow> f64 \<Rightarrow> bool list \<times> u8 \<times> u8" where
  "value_bits leading trailing vDelta =
     (let l = clampLeading vDelta; t = of_nat (TrailingZeros64 vDelta) in
      if vDelta = 0 then ([False], leading, trailing)
      else if leading \<noteq> 0xff \<and> l \<ge> leading \<and> t \<ge> trailing then
        ([True, False] @ to_bits (64 - unat leading - unat trailing) (drop_bit (unat trailing) vDelta),
         leading, trailing)
      else
        ([True, True] @ to_bits 5 l @ to_bits 6 (64 - l - t)
           @ to_bits (unat (64 - l - t)) (drop_bit (unat t) vDelta), l, t))"

definition dod_bits :: "u64 \<Rightarrow> bool list" where
  "dod_bits dod =
     (if dod = 0 then [False]
      else if bitRange dod 14 then [True, False] @ to_bits 14 dod
      else if bitRange dod 17 then [True, True, False] @ to_bits 17 dod
      else if bitRange dod 20 then [True, True, True, False] @ to_bits 20 dod
      else [True, True, True, True] @ to_bits 64 dod)"

subsection \<open>Leading and trailing zeros\<close>

lemma bit_above_trailing: "bit w i \<Longrightarrow> TrailingZeros64 w \<le> i"
proof (rule ccontr)
  assume b: "bit w i" and "\<not> TrailingZeros64 w \<le> i"
  then have i: "i < length (takeWhile Not (rev (to_bits 64 w)))" by (simp add: TrailingZeros64_def)
  then have "i < 64" using length_takeWhile_le [of Not "rev (to_bits 64 w)"] by simp
  moreover have "\<not> rev (to_bits 64 w) ! i" using i nth_mem [OF i] by (metis set_takeWhileD takeWhile_nth)
  ultimately show False using b by (simp add: rev_nth)
qed

lemma bit_below_leading: "bit w i \<Longrightarrow> LeadingZeros64 w + i < 64"
proof (rule ccontr)
  assume b: "bit w i" and "\<not> LeadingZeros64 w + i < 64"
  moreover have i: "i < 64" using bit_imp_le_length [OF b] by simp
  ultimately have k: "64 - Suc i < length (takeWhile Not (to_bits 64 w))" by (simp add: LeadingZeros64_def)
  then have "\<not> to_bits 64 w ! (64 - Suc i)" using nth_mem [OF k] by (metis set_takeWhileD takeWhile_nth)
  then show False using b i by (simp add: Suc_diff_Suc)
qed

lemma zeros_sum: "w \<noteq> 0 \<Longrightarrow> LeadingZeros64 w + TrailingZeros64 w < 64"
proof -
  assume "w \<noteq> 0"
  then obtain i where "bit w i" by (auto simp: bit_eq_iff)
  from bit_above_trailing [OF this] bit_below_leading [OF this] show ?thesis by simp
qed

lemma clampLeading_bounds:
  assumes "w \<noteq> 0"
  shows "unat (clampLeading w) \<le> 31" and "unat (clampLeading w) \<le> LeadingZeros64 w"
    and "unat (of_nat (TrailingZeros64 w) :: u8) = TrailingZeros64 w"
    and "unat (clampLeading w) + TrailingZeros64 w < 64"
proof -
  have s: "LeadingZeros64 w + TrailingZeros64 w < 64" using assms by (rule zeros_sum)
  then have u: "unat (of_nat (LeadingZeros64 w) :: u8) = LeadingZeros64 w"
    by (simp add: unat_of_nat)
  show "unat (clampLeading w) \<le> 31" and "unat (clampLeading w) \<le> LeadingZeros64 w"
    and "unat (of_nat (TrailingZeros64 w) :: u8) = TrailingZeros64 w"
    and "unat (clampLeading w) + TrailingZeros64 w < 64"
    using s u by (auto simp: clampLeading_def Let_def word_le_nat_alt unat_of_nat)
qed

text \<open>The significant bits between the zeros determine the word.\<close>

lemma significant_bits:
  assumes "l \<le> LeadingZeros64 w" and "t \<le> TrailingZeros64 w" and "l + t \<le> 64"
  shows "push_bit t (take_bit (64 - l - t) (drop_bit t w)) = w"
proof (rule bit_word_eqI)
  fix i assume "i < LENGTH(64)"
  then show "bit (push_bit t (take_bit (64 - l - t) (drop_bit t w))) i = bit w i"
    using assms bit_above_trailing [of w i] bit_below_leading [of w i] by (auto simp: bit_simps)
qed

subsection \<open>Writing the format\<close>

definition cstate :: "bstream \<Rightarrow> u16 \<Rightarrow> bool list \<Rightarrow> bool" where
  "cstate b n bits \<longleftrightarrow> wf_writer b \<and> wbits b = to_bits 16 n @ bits"

lemma cstate_writeBit: "cstate b n bits \<Longrightarrow> cstate (writeBit x b) n (bits @ [x])"
  by (simp add: cstate_def writeBit_wbits)

lemma cstate_writeBits: "cstate b n bits \<Longrightarrow> k \<le> 64 \<Longrightarrow> cstate (writeBits u k b) n (bits @ to_bits k u)"
  by (simp add: cstate_def writeBits_wbits)

lemma cstate_writeBytes: "cstate b n bits \<Longrightarrow> cstate (writeBytes bs b) n (bits @ bytes_bits bs)"
proof (induction bs arbitrary: b bits)
  case (Cons x bs)
  from Cons.prems have "cstate (writeByte x b) n (bits @ to_bits 8 x)"
    by (simp add: cstate_def writeByte_wbits)
  from Cons.IH [OF this] show ?case by (simp add: writeBytes_def)
qed (simp add: writeBytes_def)

lemmas cstate_intros = cstate_writeBit cstate_writeBits cstate_writeBytes

lemma be_value_of_bits: "be_value bs = of_bits (bytes_bits bs)"
proof (induction bs)
  case (Cons x bs)
  have "(ucast x :: 'a word) = of_bits (to_bits 8 x)"
  proof (rule bit_word_eqI)
    fix i show "bit (ucast x :: 'a word) i = bit (of_bits (to_bits 8 x) :: 'a word) i" if "i < LENGTH('a)"
      using that by (cases "i < 8") (auto simp: bit_simps bits_simps Suc_diff_Suc dest: bit_imp_le_length)
  qed
  with Cons show ?case by (simp add: of_bits_append)
qed simp

lemma cstate_bytes:
  assumes "cstate b n bits"
  shows "2 \<le> length (stream b)" and "take 16 (bytes_bits (stream b)) = to_bits 16 n"
    and "drop 16 (bytes_bits (stream b)) = bits @ drop (8 * length (stream b) - count b) (bytes_bits (stream b))"
proof -
  let ?k = "8 * length (stream b) - count b"
  have w: "take ?k (bytes_bits (stream b)) = to_bits 16 n @ bits"
    using assms by (simp add: cstate_def wbits_def)
  from arg_cong [OF this, of length] have k: "?k = 16 + length bits" by simp
  then show "2 \<le> length (stream b)" by simp
  have "bytes_bits (stream b) = to_bits 16 n @ bits @ drop ?k (bytes_bits (stream b))"
    using w by (metis append.assoc append_take_drop_id)
  then show "take 16 (bytes_bits (stream b)) = to_bits 16 n"
    and "drop 16 (bytes_bits (stream b)) = bits @ drop ?k (bytes_bits (stream b))"
    by (metis append_eq_conv_conj length_to_bits)+
qed

lemma bytes_bits_take: "bytes_bits (take k bs) = take (8 * k) (bytes_bits bs)"
proof (induction bs arbitrary: k)
  case (Cons b bs)
  then show ?case by (cases k) simp_all
qed simp

lemma bytes_bits_drop: "bytes_bits (drop k bs) = drop (8 * k) (bytes_bits bs)"
proof (induction bs arbitrary: k)
  case (Cons b bs)
  then show ?case by (cases k) simp_all
qed simp

lemma cstate_Uint16: "cstate b n bits \<Longrightarrow> Uint16 (stream b) = Ok n"
  using cstate_bytes [of b n bits] by (simp add: Uint16_def be_value_of_bits bytes_bits_take)

lemma bytes_bits_PutUint16: "bytes_bits (PutUint16 n) = to_bits 16 n"
proof -
  have "be_bytes 2 n = [ucast (drop_bit 8 n), ucast n]" by (simp add: be_bytes_def numeral_2_eq_2)
  moreover have "to_bits 8 (ucast (drop_bit 8 n) :: u8) @ to_bits 8 (ucast n :: u8) = to_bits 16 n"
    using to_bits_add [of 8 8 n] by (simp add: bits_simps)
  ultimately show ?thesis by (simp add: PutUint16_def)
qed

lemma cstate_putNum:
  assumes "cstate b n bits"
  shows "cstate (putNum m b) m bits"
proof -
  let ?k = "8 * length (stream b) - count b"
  have w: "take ?k (bytes_bits (stream b)) = to_bits 16 n @ bits" "wf_writer b"
    using assms by (simp_all add: cstate_def wbits_def)
  from arg_cong [OF w(1), of length] have k: "?k = 16 + length bits" by simp
  have l: "2 \<le> length (stream b)" using cstate_bytes(1) [OF assms] .
  then have len: "length (PutUint16 m @ drop 2 (stream b)) = length (stream b)" by simp
  have "take ?k (bytes_bits (PutUint16 m @ drop 2 (stream b))) = to_bits 16 m @ bits"
    using arg_cong [OF w(1), of "drop 16"] k
    by (simp add: bytes_bits_drop bytes_bits_PutUint16 drop_take)
  moreover have "wf_writer (putNum m b)"
  proof (cases "length (stream b) = 2")
    case True
    then have "count b = 0" using k w(2) by (auto simp: wf_writer_def)
    then show ?thesis by (simp add: wf_writer_def putNum_def)
  next
    case False
    with l have ne: "drop 2 (stream b) \<noteq> []" by simp
    then have "last (PutUint16 m @ drop 2 (stream b)) = last (stream b)" by (simp add: last_drop)
    with w(2) ne show ?thesis by (auto simp: wf_writer_def putNum_def)
  qed
  ultimately show ?thesis using len by (simp add: cstate_def wbits_def putNum_def)
qed

lemma prefix_bits:
  "to_bits 2 (0x02 :: u64) = [True, False]" "to_bits 3 (0x06 :: u64) = [True, True, False]"
  "to_bits 4 (0x0e :: u64) = [True, True, True, False]" "to_bits 4 (0x0f :: u64) = [True, True, True, True]"
  by (simp_all add: to_bits_def upt_rec)

lemma cstate_writeDod:
  assumes "cstate b n bits"
  shows "cstate (writeDod dod b) n (bits @ dod_bits dod)"
proof -
  have two: "cstate (writeBits u k (writeBits p j b)) n (bits @ to_bits j p @ to_bits k u)"
    if "j \<le> 64" "k \<le> 64" for u k p j
    using cstate_writeBits [OF cstate_writeBits [OF assms that(1)] that(2)] by simp
  show ?thesis
    using two [of 2 14 dod 2] two [of 3 17 dod 6] two [of 4 20 dod 14] two [of 4 64 dod 15]
      cstate_writeBit [OF assms, of False]
    by (simp add: writeDod_def dod_bits_def prefix_bits)
qed

text \<open>The state of an appender whose chunk holds \<open>n\<close> samples in the given bits.\<close>

definition window_ok :: "u8 \<Rightarrow> u8 \<Rightarrow> bool" where
  "window_ok l t \<longleftrightarrow> l = 0xff \<or> unat l + unat t < 64"

definition app_inv :: "xorAppender \<Rightarrow> u16 \<Rightarrow> bool list \<Rightarrow> bool" where
  "app_inv a n bits \<longleftrightarrow> cstate (app_b a) n bits \<and> window_ok (app_leading a) (app_trailing a)"

lemma value_bits_window_ok:
  "window_ok l t \<Longrightarrow> value_bits l t vd = (bits, l', t') \<Longrightarrow> window_ok l' t'"
  using clampLeading_bounds [of vd] by (auto simp: value_bits_def window_ok_def Let_def split: if_splits)

lemma sigbits_unat:
  "w \<noteq> 0 \<Longrightarrow> unat (64 - clampLeading w - of_nat (TrailingZeros64 w) :: u8)
     = 64 - unat (clampLeading w) - TrailingZeros64 w"
proof -
  assume w: "w \<noteq> 0"
  define l t where "l = clampLeading w" and "t = (of_nat (TrailingZeros64 w) :: u8)"
  have b: "unat l + unat t < 64" "unat t = TrailingZeros64 w"
    using clampLeading_bounds [OF w] by (simp_all add: l_def t_def)
  then have "unat (64 - l) = 64 - unat l" by (subst unat_sub) (simp_all add: word_le_nat_alt)
  moreover from this b have "unat (64 - l - t) = 64 - unat l - unat t"
    by (subst unat_sub) (simp_all add: word_le_nat_alt)
  ultimately show ?thesis using b by (simp add: l_def t_def)
qed

lemma writeVDelta_bits:
  assumes "app_inv a n bits" and "value_bits (app_leading a) (app_trailing a) (v XOR app_v a) = (vb, l, t)"
  shows "app_inv (writeVDelta v a) n (bits @ vb)"
    and "app_leading (writeVDelta v a) = l" and "app_trailing (writeVDelta v a) = t"
proof -
  define w where "w = v XOR app_v a"
  have c: "cstate (app_b a) n bits" using assms(1) by (simp add: app_inv_def)
  have b2: "cstate (writeBit x (writeBit True (app_b a))) n (bits @ [True, x])" for x
    using cstate_writeBit [OF cstate_writeBit [OF c, of True], of x] by simp
  have short: "cstate (writeBits u m (writeBit False (writeBit True (app_b a)))) n (bits @ [True, False] @ to_bits m u)"
    if "m \<le> 64" for u m
    using cstate_writeBits [OF b2 that] by simp
  have long: "cstate (writeBits u m (writeBits (ucast s) 6 (writeBits (ucast k) 5
        (writeBit True (writeBit True (app_b a)))))) n
      (bits @ [True, True] @ to_bits 5 k @ to_bits 6 s @ to_bits m u)" if "m \<le> 64" for u m and s k :: u8
    using cstate_writeBits [OF cstate_writeBits [OF cstate_writeBits [OF b2 [of True], of 5 "ucast k"],
          of 6 "ucast s"] that, of u]
    by (simp add: bits_simps)
  have l_eq: "(if (of_nat (LeadingZeros64 w) :: u8) \<ge> 32 then 31 else of_nat (LeadingZeros64 w)) = clampLeading w"
    by (simp add: clampLeading_def)
  have "nat (64 - int i - int j) = 64 - i - j" for i j by simp
  then have nb: "nat (64 - uint x - uint y) = 64 - unat x - unat y" for x y :: u8 by (simp only: uint_nat)
  note defs = writeVDelta_def value_bits_def Let_def w_def [symmetric] l_eq nb
  from assms(2) show lt: "app_leading (writeVDelta v a) = l" "app_trailing (writeVDelta v a) = t"
    by (auto simp: defs split: if_splits)
  have "cstate (app_b (writeVDelta v a)) n (bits @ vb)"
  proof (cases "w = 0")
    case True
    with assms(2) cstate_writeBit [OF c, of False] show ?thesis by (simp add: defs)
  next
    case False
    then have "unat (64 - clampLeading w - of_nat (TrailingZeros64 w) :: u8) \<le> 64"
      using sigbits_unat [OF False] by simp
    with False assms(2) show ?thesis
      by (auto simp: defs short [simplified] long [simplified] split: if_splits)
  qed
  then show "app_inv (writeVDelta v a) n (bits @ vb)"
    using assms value_bits_window_ok [of "app_leading a" "app_trailing a"] lt
    by (auto simp: app_inv_def)
qed

subsection \<open>Reading the format back\<close>

text \<open>
  An iterator in step with an appender: it has read what the appender has written, and the
  appender's window of significant bits is the iterator's, or both are unset.
\<close>

definition window_matches :: "u8 \<Rightarrow> u8 \<Rightarrow> xorIterator \<Rightarrow> bool" where
  "window_matches l t it \<longleftrightarrow>
     (if l = 0xff then it_leading it = 0 \<and> it_trailing it = 0 else it_leading it = l \<and> it_trailing it = t)"

definition in_step :: "xorAppender \<Rightarrow> xorIterator \<Rightarrow> bool" where
  "in_step a it \<longleftrightarrow> it_t it = app_t a \<and> it_val it = app_v a \<and> it_tDelta it = app_tDelta a \<and>
     window_matches (app_leading a) (app_trailing a) it"

definition reading :: "xorIterator \<Rightarrow> bool list \<Rightarrow> bool" where
  "reading it bits \<longleftrightarrow> wf_reader (br it) \<and> rbits (br it) = bits"

lemma it_readBit:
  assumes "reading it (x # rest)"
  shows "\<exists>b. reading (it\<lparr>br := b\<rparr>) rest \<and> (\<forall>k. it_read (readBit (br it)) it k = k x (it\<lparr>br := b\<rparr>))"
  using readBit_rbits [of "br it" x rest] assms by (auto simp: reading_def)

lemma it_readBits:
  assumes "reading it (to_bits n (u :: 'a::len word) @ rest)" and "LENGTH('a) \<le> 64"
  shows "\<exists>b. reading (it\<lparr>br := b\<rparr>) rest \<and>
     (\<forall>k. it_read (readBits n (br it)) it k = k (take_bit n (ucast u)) (it\<lparr>br := b\<rparr>))"
proof -
  have "of_bits (to_bits n u) = take_bit n (ucast u :: u64)"
  proof (rule bit_word_eqI)
    fix i show "bit (of_bits (to_bits n u) :: u64) i = bit (take_bit n (ucast u :: u64)) i" if "i < LENGTH(64)"
      using that by (auto simp: bit_simps bits_simps Suc_diff_Suc)
  qed
  then show ?thesis
    using readBits_rbits' [of "br it" "to_bits n u" rest] assms by (auto simp: reading_def)
qed

lemma readSigBits_read:
  assumes "reading it (to_bits (64 - l - t) (drop_bit t w) @ rest)"
    and "l = unat (it_leading it)" and "t = unat (it_trailing it)" and "l + t < 64"
    and "l \<le> LeadingZeros64 w" and "t \<le> TrailingZeros64 w"
  shows "\<exists>b. reading (it\<lparr>br := b\<rparr>) rest \<and>
     readSigBits it = Ok (True, it\<lparr>br := b, it_val := it_val it XOR w, numRead := numRead it + 1\<rparr>)"
proof -
  have "unat (64 - it_leading it) = 64 - l"
    using assms(2-4) by (subst unat_sub) (simp_all add: word_le_nat_alt)
  then have m: "unat (64 - it_leading it - it_trailing it) = 64 - l - t"
    using assms(2-4) by (subst unat_sub) (simp_all add: word_le_nat_alt)
  have w: "push_bit t (take_bit (64 - l - t) (drop_bit t w)) = w"
    using significant_bits [OF assms(5,6)] assms(4) by simp
  let ?k = "\<lambda>bits it. Ok (True, it\<lparr>it_val := it_val it XOR push_bit (unat (it_trailing it)) bits,
      numRead := numRead it + 1\<rparr>)"
  obtain b where "reading (it\<lparr>br := b\<rparr>) rest" "it_read (readBits (64 - l - t) (br it)) it ?k
      = ?k (take_bit (64 - l - t) (drop_bit t w)) (it\<lparr>br := b\<rparr>)"
    using it_readBits [OF assms(1)] by auto
  then show ?thesis unfolding readSigBits_def Let_def m
    using w by (auto simp: assms(3) [symmetric])
qed

text \<open>The five bits of the leading count and the six bits of the significant count, decoded.\<close>

lemma window_decode:
  assumes "unat (l :: u8) \<le> 31" and "0 < unat s" and "unat (s :: u8) \<le> 64"
  shows "(ucast (take_bit 5 (ucast l :: u64)) :: u8) = l"
    and "(if (ucast (take_bit 6 (ucast s :: u64)) :: u8) = 0 then 64 else ucast (take_bit 6 (ucast s :: u64))) = s"
proof -
  have u: "(ucast (take_bit k (ucast x :: u64)) :: u8) = take_bit k x" for k and x :: u8
    by (rule bit_word_eqI) (auto simp: bit_simps)
  have "take_bit 5 l = l" using assms(1) by (simp add: take_bit_self_iff)
  then show "(ucast (take_bit 5 (ucast l :: u64)) :: u8) = l" by (simp only: u)
  have "take_bit 6 s = s" if "s \<noteq> 64"
  proof -
    have "unat s \<noteq> 64" using that by (auto simp: word_unat_eq_iff)
    then show ?thesis using assms(3) by (simp add: take_bit_self_iff)
  qed
  moreover have "s \<noteq> 0" using assms(2) by auto
  ultimately have "s = 64 \<or> take_bit 6 s = s \<and> s \<noteq> 0" by blast
  then show "(if (ucast (take_bit 6 (ucast s :: u64)) :: u8) = 0 then 64 else ucast (take_bit 6 (ucast s :: u64))) = s"
    by (auto simp: u)
qed

lemma readValue_read:
  assumes vb: "value_bits l t w = (vb, l', t')" and r: "reading it (vb @ rest)"
    and win: "window_matches l t it" and ok: "window_ok l t"
  shows "\<exists>it'. readValue it = Ok (True, it') \<and> reading it' rest \<and> it_val it' = it_val it XOR w
     \<and> numRead it' = numRead it + 1 \<and> it_t it' = it_t it \<and> it_tDelta it' = it_tDelta it
     \<and> numTotal it' = numTotal it \<and> it_err it' = it_err it
     \<and> window_matches l' t' it'"
proof -
  let ?l = "clampLeading w" and ?t = "of_nat (TrailingZeros64 w) :: u8"
  consider (same) "w = 0" "vb = [False]" "l' = l" "t' = t"
    | (reuse) "w \<noteq> 0" "l \<noteq> 0xff" "?l \<ge> l" "?t \<ge> t" "l' = l" "t' = t"
        "vb = [True, False] @ to_bits (64 - unat l - unat t) (drop_bit (unat t) w)"
    | (new) "w \<noteq> 0" "l' = ?l" "t' = ?t"
        "vb = [True, True] @ to_bits 5 ?l @ to_bits 6 (64 - ?l - ?t) @ to_bits (unat (64 - ?l - ?t)) (drop_bit (unat ?t) w)"
    using vb by (auto simp: value_bits_def Let_def split: if_splits)
  then show ?thesis
  proof cases
    case same
    with r it_readBit [of it False rest] win show ?thesis
      by (fastforce simp: readValue_def reading_def window_matches_def)
  next
    case reuse
    note z = clampLeading_bounds [OF reuse(1)]
    have le: "unat l \<le> LeadingZeros64 w" "unat t \<le> TrailingZeros64 w" "unat l + unat t < 64"
      using reuse z ok by (auto simp: window_ok_def word_le_nat_alt)
    obtain b1 where b1: "reading (it\<lparr>br := b1\<rparr>) (False # to_bits (64 - unat l - unat t) (drop_bit (unat t) w) @ rest)"
      "\<And>k. it_read (readBit (br it)) it k = k True (it\<lparr>br := b1\<rparr>)"
      using it_readBit [of it True] r reuse(7) by auto
    obtain b2 where b2: "reading (it\<lparr>br := b2\<rparr>) (to_bits (64 - unat l - unat t) (drop_bit (unat t) w) @ rest)"
      "\<And>k. it_read (readBit b1) (it\<lparr>br := b1\<rparr>) k = k False (it\<lparr>br := b2\<rparr>)"
      using it_readBit [OF b1(1)] by auto
    have "readValue it = readSigBits (it\<lparr>br := b2\<rparr>)" by (simp add: readValue_def b1(2) b2(2))
    moreover obtain b3 where "reading (it\<lparr>br := b3\<rparr>) rest" "readSigBits (it\<lparr>br := b2\<rparr>)
        = Ok (True, it\<lparr>br := b3, it_val := it_val it XOR w, numRead := numRead it + 1\<rparr>)"
      using readSigBits_read [OF b2(1)] le win reuse(2) by (auto simp: window_matches_def)
    ultimately show ?thesis using reuse(2,5,6) win by (simp add: reading_def window_matches_def)
  next
    case new
    note z = clampLeading_bounds [OF new(1)]
    define s where "s = 64 - ?l - ?t"
    have s: "unat s = 64 - unat ?l - unat ?t" "0 < unat s" "unat s \<le> 64"
      using sigbits_unat [OF new(1)] z by (simp_all add: s_def)
    let ?sig = "to_bits (64 - unat ?l - unat ?t) (drop_bit (unat ?t) w) @ rest"
    have r0: "reading it (True # True # to_bits 5 ?l @ to_bits 6 s @ ?sig)"
      using r new(4) s by (simp add: s_def [symmetric])
    obtain b1 where b1: "reading (it\<lparr>br := b1\<rparr>) (True # to_bits 5 ?l @ to_bits 6 s @ ?sig)"
      "\<And>k. it_read (readBit (br it)) it k = k True (it\<lparr>br := b1\<rparr>)"
      using it_readBit [OF r0] by auto
    obtain b2 where b2: "reading (it\<lparr>br := b2\<rparr>) (to_bits 5 ?l @ to_bits 6 s @ ?sig)"
      "\<And>k. it_read (readBit b1) (it\<lparr>br := b1\<rparr>) k = k True (it\<lparr>br := b2\<rparr>)"
      using it_readBit [OF b1(1)] by auto
    obtain b3 where b3: "reading (it\<lparr>br := b3\<rparr>) (to_bits 6 s @ ?sig)"
      "\<And>k. it_read (readBits 5 b2) (it\<lparr>br := b2\<rparr>) k = k (take_bit 5 (ucast ?l)) (it\<lparr>br := b3\<rparr>)"
      using it_readBits [OF b2(1)] by auto
    let ?it3 = "it\<lparr>br := b3, it_leading := ?l\<rparr>"
    have "reading ?it3 (to_bits 6 s @ ?sig)" using b3(1) by (simp add: reading_def)
    from it_readBits [OF this] obtain b4 where b4: "reading (?it3\<lparr>br := b4\<rparr>) ?sig"
      "\<And>k. it_read (readBits 6 b3) ?it3 k = k (take_bit 6 (ucast s)) (?it3\<lparr>br := b4\<rparr>)"
      by auto
    let ?it4 = "it\<lparr>it_leading := ?l, br := b4, it_trailing := ?t\<rparr>"
    have "readValue it = readSigBits ?it4"
      using window_decode [of ?l s] z(1) s
      by (simp add: readValue_def b1(2) b2(2) b3(2) b4(2) Let_def s_def)
    moreover have "reading ?it4 ?sig" using b4(1) by (simp add: reading_def)
    then have "\<exists>b. reading (?it4\<lparr>br := b\<rparr>) rest \<and> readSigBits ?it4
        = Ok (True, ?it4\<lparr>br := b, it_val := it_val ?it4 XOR w, numRead := numRead ?it4 + 1\<rparr>)"
      by (rule readSigBits_read) (use z in simp_all)
    then obtain b5 where "reading (?it4\<lparr>br := b5\<rparr>) rest" "readSigBits ?it4
        = Ok (True, ?it4\<lparr>br := b5, it_val := it_val it XOR w, numRead := numRead it + 1\<rparr>)"
      by auto
    moreover have "?l \<noteq> 0xff" using z(1) by auto
    ultimately show ?thesis using new(2,3) by (simp add: reading_def window_matches_def)
  qed
qed

lemma signExtend_take_bit:
  assumes "bitRange dod sz" and "0 < sz" and "sz < 63"
  shows "signExtend sz (take_bit sz dod) = dod"
proof -
  define x where "x = sint dod"
  have x: "- (2 ^ (sz - 1) - 1) \<le> x" "x \<le> 2 ^ (sz - 1)" using assms(1) by (simp_all add: bitRange_def x_def)
  have p: "(2 :: int) ^ sz = 2 * 2 ^ (sz - 1)" using assms(2) by (cases sz) simp_all
  have d: "dod = word_of_int x" by (simp add: x_def)
  have e: "(0 :: int) < 2 ^ (sz - 1)" by simp
  have "uint (take_bit sz dod) = take_bit sz (uint dod)" by (simp only: unsigned_take_bit_eq)
  also have "\<dots> = x mod 2 ^ 64 mod 2 ^ sz" by (simp add: d uint_word_of_int) (simp only: take_bit_eq_mod)
  also have "\<dots> = x mod 2 ^ sz" using assms(3) by (intro mod_mod_cancel le_imp_power_dvd) simp
  finally have m: "uint (take_bit sz dod) = x mod 2 ^ sz" .
  have one: "push_bit k (1 :: u64) = word_of_int (2 ^ k)" for k by (simp add: push_bit_of_1)
  have "(2 :: int) ^ (sz - 1) < 2 ^ 64" using assms(3) by (intro power_strict_increasing) simp_all
  then have "uint (push_bit (sz - 1) (1 :: u64)) = 2 ^ (sz - 1)"
    unfolding one uint_word_of_int by simp
  then have gt: "take_bit sz dod > push_bit (sz - 1) 1 \<longleftrightarrow> x mod 2 ^ sz > 2 ^ (sz - 1)"
    by (simp only: word_less_def m)
  have w: "take_bit sz dod = word_of_int (x mod 2 ^ sz)" by (metis m word_of_int_uint)
  show ?thesis
  proof (cases "x < 0")
    case True
    have "x mod 2 ^ sz = (x + 2 ^ sz) mod 2 ^ sz" by simp
    also have "\<dots> = x + 2 ^ sz" using True x(1) p by (intro mod_pos_pos_trivial) linarith+
    finally have r: "x mod 2 ^ sz = x + 2 ^ sz" .
    have "take_bit sz dod > push_bit (sz - 1) 1" using r x(1) p by (subst gt) linarith
    then have "signExtend sz (take_bit sz dod) = take_bit sz dod - push_bit sz 1"
      by (simp only: signExtend_def if_True)
    also have "\<dots> = word_of_int (x + 2 ^ sz) - word_of_int (2 ^ sz)" by (simp only: w r one)
    also have "\<dots> = dod" by (simp add: d)
    finally show ?thesis .
  next
    case False
    then have r: "x mod 2 ^ sz = x" using x(2) p e by (intro mod_pos_pos_trivial) linarith+
    then have "\<not> take_bit sz dod > push_bit (sz - 1) 1" using x(2) by (subst gt) linarith
    then show ?thesis using w r d by (simp only: signExtend_def if_False)
  qed
qed

text \<open>Reading the delta of deltas leaves the iterator at the value bits.\<close>

lemma readDodPrefix_read:
  assumes "reading it (xs @ rest)" and "length xs \<le> k"
    and "xs \<noteq> []" and "\<forall>x \<in> set (butlast xs). x" and "length xs < k \<longrightarrow> \<not> last xs"
  shows "\<exists>b. reading (it\<lparr>br := b\<rparr>) rest \<and> readDodPrefix k d (br it) =
     (Ok (foldl (\<lambda>d x. push_bit 1 d OR of_bool x) d xs), b)"
  using assms
proof (induction xs arbitrary: it k d)
  case (Cons x xs)
  from Cons.prems obtain k' where k: "k = Suc k'" by (cases k) auto
  obtain b1 where b1: "readBit (br it) = (Ok x, b1)" "wf_reader b1" "rbits b1 = xs @ rest"
    using readBit_rbits [of "br it" x "xs @ rest"] Cons.prems(1) by (auto simp: reading_def)
  then have r1: "reading (it\<lparr>br := b1\<rparr>) (xs @ rest)" by (simp add: reading_def)
  show ?case
  proof (cases "xs = []")
    case True
    show ?thesis
    proof (cases x)
      case True
      with Cons.prems \<open>xs = []\<close> k have "k' = 0" by auto
      with True \<open>xs = []\<close> b1 r1 k show ?thesis by auto
    next
      case False
      with \<open>xs = []\<close> b1 r1 k show ?thesis by auto
    qed
  next
    case ne: False
    with Cons.prems(4) have "x" by (cases xs) auto
    have "\<exists>b. reading (it\<lparr>br := b1, br := b\<rparr>) rest \<and> readDodPrefix k' (push_bit 1 d OR 1) (br (it\<lparr>br := b1\<rparr>)) =
        (Ok (foldl (\<lambda>d x. push_bit 1 d OR of_bool x) (push_bit 1 d OR 1) xs), b)"
      using Cons.prems ne k by (intro Cons.IH [OF r1]) auto
    with b1 k \<open>x\<close> show ?thesis by auto
  qed
qed simp

lemma it_readDodPrefix:
  assumes "reading it (xs @ rest)"
    and "xs = [False] \<and> d = 0 \<or> xs = [True, False] \<and> d = 2 \<or> xs = [True, True, False] \<and> d = 6
      \<or> xs = [True, True, True, False] \<and> d = 0xe \<or> xs = [True, True, True, True] \<and> d = 0xf"
  shows "\<exists>b. reading (it\<lparr>br := b\<rparr>) rest \<and>
    (\<forall>k. it_read (readDodPrefix 4 0 (br it)) it k = k d (it\<lparr>br := b\<rparr>))"
proof -
  have "\<exists>b. reading (it\<lparr>br := b\<rparr>) rest \<and> readDodPrefix 4 0 (br it) =
     (Ok (foldl (\<lambda>d x. push_bit 1 d OR of_bool x) 0 xs), b)"
    using assms(2) by (intro readDodPrefix_read [OF assms(1)]) auto
  moreover have "foldl (\<lambda>d x. push_bit 1 d OR of_bool x) (0 :: u8) xs = d"
    using assms(2) by auto
  ultimately show ?thesis by auto
qed

lemma readDod_read:
  assumes "reading it (dod_bits dod @ rest)"
  shows "\<exists>b. reading (it\<lparr>br := b\<rparr>) rest \<and> readDod it = applyDod dod (it\<lparr>br := b\<rparr>)"
proof -
  have sized: "\<exists>b. reading (it\<lparr>br := b\<rparr>) rest \<and> readDod it = applyDod dod (it\<lparr>br := b\<rparr>)"
    if r: "reading it (xs @ to_bits sz dod @ rest)" and "bitRange dod sz"
      and c: "xs = [True, False] \<and> d = 2 \<and> sz = 14 \<or> xs = [True, True, False] \<and> d = 6 \<and> sz = 17
        \<or> xs = [True, True, True, False] \<and> d = 0xe \<and> sz = 20" for xs sz and d :: u8
  proof -
    obtain b1 where b1: "reading (it\<lparr>br := b1\<rparr>) (to_bits sz dod @ rest)"
      "\<And>k. it_read (readDodPrefix 4 0 (br it)) it k = k d (it\<lparr>br := b1\<rparr>)"
      using it_readDodPrefix [OF r, of d] c by blast
    obtain b2 where b2: "reading (it\<lparr>br := b2\<rparr>) rest"
      "\<And>k. it_read (readBits sz b1) (it\<lparr>br := b1\<rparr>) k = k (take_bit sz dod) (it\<lparr>br := b2\<rparr>)"
      using it_readBits [OF b1(1)] by auto
    have "signExtend sz (take_bit sz dod) = dod"
      using that(2) c by (intro signExtend_take_bit) auto
    then have "readDod it = applyDod dod (it\<lparr>br := b2\<rparr>)"
      using c b2(2) by (auto simp: readDod_def b1(2) Let_def)
    with b2(1) show ?thesis by blast
  qed
  have full: "\<exists>b. reading (it\<lparr>br := b\<rparr>) rest \<and> readDod it = applyDod dod (it\<lparr>br := b\<rparr>)"
    if r: "reading it ([True, True, True, True] @ to_bits 64 dod @ rest)"
  proof -
    obtain b1 where b1: "reading (it\<lparr>br := b1\<rparr>) (to_bits 64 dod @ rest)"
      "\<And>k. it_read (readDodPrefix 4 0 (br it)) it k = k 0xf (it\<lparr>br := b1\<rparr>)"
      using it_readDodPrefix [OF r, of "0xf"] by blast
    obtain b2 where "reading (it\<lparr>br := b2\<rparr>) rest"
      "\<And>k. it_read (readBits 64 b1) (it\<lparr>br := b1\<rparr>) k = k dod (it\<lparr>br := b2\<rparr>)"
      using it_readBits [OF b1(1)] by auto
    then show ?thesis by (auto simp: readDod_def b1(2) Let_def)
  qed
  have zero: "\<exists>b. reading (it\<lparr>br := b\<rparr>) rest \<and> readDod it = applyDod 0 (it\<lparr>br := b\<rparr>)"
    if r: "reading it ([False] @ rest)"
    using it_readDodPrefix [OF r, of 0] by (auto simp: readDod_def Let_def)
  show ?thesis
    using assms zero sized [of "[True, False]" 14 2] sized [of "[True, True, False]" 17 6]
      sized [of "[True, True, True, False]" 20 "0xe"] full
    by (auto simp: dod_bits_def split: if_splits)
qed

section \<open>The round trip\<close>

text \<open>
  Both ends of a sample after the first: the appender writes the time bits, then the value
  bits; the iterator that has read the time bits reads the value.
\<close>

definition finish_append :: "u16 \<Rightarrow> u64 \<Rightarrow> f64 \<Rightarrow> u64 \<Rightarrow> xorAppender \<Rightarrow> xorAppender" where
  "finish_append n t v tDelta a1 =
     a1\<lparr>app_t := t, app_v := v, app_b := putNum (n + 1) (app_b a1), app_tDelta := tDelta\<rparr>"

lemma Append_finish:
  "Uint16 (stream (app_b a)) = Ok n \<Longrightarrow> Append t v a = Ok
     (if n = 0 then finish_append n t v 0 (a\<lparr>app_b := writeBits v 64 (writeBytes (PutVarint t) (app_b a))\<rparr>)
      else if n = 1 then finish_append n t v (t - app_t a)
        (writeVDelta v (a\<lparr>app_b := writeBytes (PutUvarint (t - app_t a)) (app_b a)\<rparr>))
      else finish_append n t v (t - app_t a)
        (writeVDelta v (a\<lparr>app_b := writeDod (t - app_t a - app_tDelta a) (app_b a)\<rparr>)))"
  by (simp add: Append_def finish_append_def Let_def)

lemma finish_append_inv:
  fixes t td :: u64
  assumes "cstate B n bits" and "window_ok (app_leading a) (app_trailing a)"
    and "value_bits (app_leading a) (app_trailing a) (v XOR app_v a) = (vb, l, tr)"
  defines "a' \<equiv> finish_append n t v td (writeVDelta v (a\<lparr>app_b := B\<rparr>))"
  shows "app_inv a' (n + 1) (bits @ vb)" and "app_t a' = t" and "app_v a' = v" and "app_tDelta a' = td"
    and "app_leading a' = l" and "app_trailing a' = tr"
proof -
  have "app_inv (a\<lparr>app_b := B\<rparr>) n bits" using assms(1,2) by (simp add: app_inv_def)
  from writeVDelta_bits [OF this, of v vb l tr] assms(3)
  show "app_inv a' (n + 1) (bits @ vb)" "app_leading a' = l" "app_trailing a' = tr"
    by (auto simp: a'_def finish_append_def app_inv_def intro: cstate_putNum)
  show "app_t a' = t" "app_v a' = v" "app_tDelta a' = td"
    by (simp_all add: a'_def finish_append_def)
qed

lemma finish_next:
  assumes "value_bits (app_leading a) (app_trailing a) (v XOR app_v a) = (vb, l, tr)"
    and "window_ok (app_leading a) (app_trailing a)" and "reading it2 (vb @ rest)"
    and "window_matches (app_leading a) (app_trailing a) it2"
    and "it_val it2 = app_v a" and "it_t it2 = app_t a'" and "it_tDelta it2 = app_tDelta a'" and "it_err it2 = None"
    and "app_v a' = v" and "app_leading a' = l" and "app_trailing a' = tr"
  shows "\<exists>it'. readValue it2 = Ok (True, it') \<and> in_step a' it' \<and> reading it' rest \<and> At it' = (app_t a', v)
     \<and> numRead it' = numRead it2 + 1 \<and> numTotal it' = numTotal it2 \<and> it_err it' = None"
proof -
  have xor: "app_v a XOR (v XOR app_v a) = v"
    by (metis xor.assoc xor.commute xor_self_eq xor.right_neutral)
  from readValue_read [OF assms(1,3,4,2)] show ?thesis
    using assms(5-11) xor by (auto simp: in_step_def At_def)
qed

definition recovers :: "xorAppender \<Rightarrow> xorAppender \<Rightarrow> u16 \<Rightarrow> bool list \<Rightarrow> u64 \<times> f64 \<Rightarrow> bool" where
  "recovers a a' n vb s \<longleftrightarrow>
     (\<forall>it rest. in_step a it \<and> reading it (vb @ rest) \<and> numRead it = n \<and> numTotal it \<noteq> n \<and> it_err it = None \<longrightarrow>
        (\<exists>it'. Next it = Ok (True, it') \<and> in_step a' it' \<and> reading it' rest \<and> At it' = s
           \<and> numRead it' = n + 1 \<and> numTotal it' = numTotal it \<and> it_err it' = None))"

lemma Append_first:
  assumes "app_inv a 0 bits" and "app_tDelta a = 0" and "app_leading a = 0xff"
  shows "\<exists>a' vb. Append t v a = Ok a' \<and> app_inv a' 1 (bits @ vb) \<and> recovers a a' 0 vb (t, v)"
proof -
  have c: "cstate (app_b a) 0 bits" and ok: "window_ok (app_leading a) (app_trailing a)"
    using assms(1) by (simp_all add: app_inv_def)
  let ?b = "writeBits v 64 (writeBytes (PutVarint t) (app_b a))"
  let ?a = "finish_append 0 t v 0 (a\<lparr>app_b := ?b\<rparr>)"
  have "cstate ?b 0 (bits @ bytes_bits (PutVarint t) @ to_bits 64 v)"
    using cstate_writeBits [OF cstate_writeBytes [OF c, of "PutVarint t"], of 64 v] by simp
  then have "app_inv ?a 1 (bits @ bytes_bits (PutVarint t) @ to_bits 64 v)"
    using ok cstate_putNum by (fastforce simp: app_inv_def finish_append_def)
  moreover have "recovers a ?a 0 (bytes_bits (PutVarint t) @ to_bits 64 v) (t, v)"
    unfolding recovers_def
  proof (intro allI impI)
    fix it rest
    assume it: "in_step a it \<and> reading it ((bytes_bits (PutVarint t) @ to_bits 64 v) @ rest) \<and> numRead it = 0
      \<and> numTotal it \<noteq> 0 \<and> it_err it = None"
    obtain b1 where b1: "ReadVarint readByte (br it) = (Ok t, b1)" "wf_reader b1" "rbits b1 = to_bits 64 v @ rest"
      using bstream_reader.ReadVarint_PutVarint [of "br it" t] it by (auto simp: reading_def bytes_bits_def)
    then have "reading (it\<lparr>br := b1\<rparr>) (to_bits 64 v @ rest)" by (simp add: reading_def)
    from it_readBits [OF this] obtain b2 where "reading (it\<lparr>br := b2\<rparr>) rest"
      "\<And>k. it_read (readBits 64 b1) (it\<lparr>br := b1\<rparr>) k = k v (it\<lparr>br := b2\<rparr>)" by auto
    then show "\<exists>it'. Next it = Ok (True, it') \<and> in_step ?a it' \<and> reading it' rest \<and> At it' = (t, v)
       \<and> numRead it' = 0 + 1 \<and> numTotal it' = numTotal it \<and> it_err it' = None"
      using it b1(1) assms(2,3)
      by (auto simp: Next_def in_step_def window_matches_def reading_def At_def finish_append_def)
  qed
  ultimately show ?thesis using Append_finish [OF cstate_Uint16 [OF c], of t v] by auto
qed

lemma Append_second:
  assumes "app_inv a 1 bits"
  shows "\<exists>a' vb. Append t v a = Ok a' \<and> app_inv a' 2 (bits @ vb) \<and> recovers a a' 1 vb (t, v)"
proof -
  have c: "cstate (app_b a) 1 bits" and ok: "window_ok (app_leading a) (app_trailing a)"
    using assms by (simp_all add: app_inv_def)
  obtain vb l tr where vb: "value_bits (app_leading a) (app_trailing a) (v XOR app_v a) = (vb, l, tr)"
    by (metis prod_cases3)
  let ?td = "t - app_t a"
  let ?b = "writeBytes (PutUvarint ?td) (app_b a)"
  let ?a = "finish_append 1 t v ?td (writeVDelta v (a\<lparr>app_b := ?b\<rparr>))"
  have "cstate ?b 1 (bits @ bytes_bits (PutUvarint ?td))" by (rule cstate_writeBytes [OF c])
  note fin = finish_append_inv [OF this ok vb, of t ?td]
  have "recovers a ?a 1 (bytes_bits (PutUvarint ?td) @ vb) (t, v)"
    unfolding recovers_def
  proof (intro allI impI)
    fix it rest
    assume it: "in_step a it \<and> reading it ((bytes_bits (PutUvarint ?td) @ vb) @ rest) \<and> numRead it = 1
      \<and> numTotal it \<noteq> 1 \<and> it_err it = None"
    obtain b1 where b1: "ReadUvarint readByte (br it) = (Ok ?td, b1)" "wf_reader b1" "rbits b1 = vb @ rest"
      using bstream_reader.ReadUvarint_PutUvarint [of "br it" ?td] it by (auto simp: reading_def bytes_bits_def)
    let ?it = "it\<lparr>br := b1, it_tDelta := ?td, it_t := it_t it + ?td\<rparr>"
    have "Next it = readValue ?it" using it b1(1) by (simp add: Next_def)
    moreover have "reading ?it (vb @ rest)" using b1 by (simp add: reading_def)
    ultimately show "\<exists>it'. Next it = Ok (True, it') \<and> in_step ?a it' \<and> reading it' rest \<and> At it' = (t, v)
       \<and> numRead it' = 1 + 1 \<and> numTotal it' = numTotal it \<and> it_err it' = None"
      using finish_next [OF vb ok, of ?it rest ?a] it fin(2-6) by (auto simp: in_step_def window_matches_def)
  qed
  then show ?thesis using Append_finish [OF cstate_Uint16 [OF c], of t v] fin(1) by auto
qed

lemma Append_later:
  assumes "app_inv a n bits" and "n \<noteq> 0" and "n \<noteq> 1"
  shows "\<exists>a' vb. Append t v a = Ok a' \<and> app_inv a' (n + 1) (bits @ vb) \<and> recovers a a' n vb (t, v)"
proof -
  have c: "cstate (app_b a) n bits" and ok: "window_ok (app_leading a) (app_trailing a)"
    using assms by (simp_all add: app_inv_def)
  obtain vb l tr where vb: "value_bits (app_leading a) (app_trailing a) (v XOR app_v a) = (vb, l, tr)"
    by (metis prod_cases3)
  let ?td = "t - app_t a"
  let ?dod = "?td - app_tDelta a"
  let ?a = "finish_append n t v ?td (writeVDelta v (a\<lparr>app_b := writeDod ?dod (app_b a)\<rparr>))"
  have "cstate (writeDod ?dod (app_b a)) n (bits @ dod_bits ?dod)" by (rule cstate_writeDod [OF c])
  note fin = finish_append_inv [OF this ok vb, of t ?td]
  have "recovers a ?a n (dod_bits ?dod @ vb) (t, v)"
    unfolding recovers_def
  proof (intro allI impI)
    fix it rest
    assume it: "in_step a it \<and> reading it ((dod_bits ?dod @ vb) @ rest) \<and> numRead it = n
      \<and> numTotal it \<noteq> n \<and> it_err it = None"
    then obtain b1 where b1: "reading (it\<lparr>br := b1\<rparr>) (vb @ rest)" "readDod it = applyDod ?dod (it\<lparr>br := b1\<rparr>)"
      using readDod_read [of it ?dod "vb @ rest"] by auto
    let ?it = "it\<lparr>br := b1, it_tDelta := it_tDelta it + ?dod, it_t := it_t it + (it_tDelta it + ?dod)\<rparr>"
    have "Next it = readValue ?it"
      using it b1(2) assms(2,3) unfolding Next_def applyDod_def Let_def by auto
    moreover have "reading ?it (vb @ rest)" using b1 by (simp add: reading_def)
    ultimately show "\<exists>it'. Next it = Ok (True, it') \<and> in_step ?a it' \<and> reading it' rest \<and> At it' = (t, v)
       \<and> numRead it' = n + 1 \<and> numTotal it' = numTotal it \<and> it_err it' = None"
      using finish_next [OF vb ok, of ?it rest ?a] it fin(2-6) by (auto simp: in_step_def window_matches_def)
  qed
  moreover have "Append t v a = Ok ?a"
    using Append_finish [OF cstate_Uint16 [OF c], of t v] assms(2,3) by simp
  ultimately show ?thesis using fin(1) by auto
qed

text \<open>The states an appender of a chunk can be in: fresh, or in step with an iterator.\<close>

definition app_ok :: "xorAppender \<Rightarrow> u16 \<Rightarrow> bool list \<Rightarrow> bool" where
  "app_ok a n bits \<longleftrightarrow> app_inv a n bits \<and> (n = 0 \<longrightarrow> app_tDelta a = 0 \<and> app_leading a = 0xff)"

lemma Append_ok:
  assumes "app_ok a n bits" and "n + 1 \<noteq> 0"
  shows "\<exists>a' vb. Append t v a = Ok a' \<and> app_ok a' (n + 1) (bits @ vb) \<and> recovers a a' n vb (t, v)"
proof -
  have inv: "app_inv a n bits" using assms(1) by (simp add: app_ok_def)
  consider "n = 0" | "n = 1" | "n \<noteq> 0" "n \<noteq> 1" by blast
  then have "\<exists>a' vb. Append t v a = Ok a' \<and> app_inv a' (n + 1) (bits @ vb) \<and> recovers a a' n vb (t, v)"
  proof cases
    case 1
    with Append_first [of a bits t v] assms(1) inv show ?thesis by (simp add: app_ok_def)
  next
    case 2
    with Append_second [of a bits t v] inv show ?thesis by simp
  next
    case 3
    with Append_later [OF inv] show ?thesis by blast
  qed
  then show ?thesis using assms(2) by (auto simp: app_ok_def)
qed

text \<open>\<open>reads it xs it'\<close>: successive calls of \<open>Next\<close> deliver the samples \<open>xs\<close>.\<close>

fun reads :: "xorIterator \<Rightarrow> (u64 \<times> f64) list \<Rightarrow> xorIterator \<Rightarrow> bool" where
  "reads it [] it' \<longleftrightarrow> it' = it"
| "reads it (s # xs) it' \<longleftrightarrow> (\<exists>it1. Next it = Ok (True, it1) \<and> At it1 = s \<and> reads it1 xs it')"

lemma iterate_reads:
  "reads it xs it' \<Longrightarrow> numRead it' = numTotal it' \<Longrightarrow> iterate it = Ok (xs, it')"
proof (induction xs arbitrary: it)
  case Nil
  then show ?case by (simp add: iterate.simps [of it] Next_def)
next
  case (Cons s xs)
  then obtain it1 where "Next it = Ok (True, it1)" "At it1 = s" "reads it1 xs it'" by auto
  with Cons show ?case by (simp add: iterate.simps [of it])
qed

lemma reads_append: "reads it xs it1 \<Longrightarrow> reads it1 ys it' \<Longrightarrow> reads it (xs @ ys) it'"
  by (induction it xs it1 rule: reads.induct) auto

definition recovers_all :: "xorAppender \<Rightarrow> xorAppender \<Rightarrow> u16 \<Rightarrow> bool list \<Rightarrow> (u64 \<times> f64) list \<Rightarrow> bool" where
  "recovers_all a a' n vb xs \<longleftrightarrow>
     (\<forall>it rest. in_step a it \<and> reading it (vb @ rest) \<and> numRead it = n
        \<and> unat n + length xs \<le> unat (numTotal it) \<and> it_err it = None \<longrightarrow>
        (\<exists>it'. reads it xs it' \<and> in_step a' it' \<and> reading it' rest
           \<and> numRead it' = n + of_nat (length xs) \<and> numTotal it' = numTotal it \<and> it_err it' = None))"

lemma AppendAll_recovers:
  assumes "app_ok a n bits" and "unat n + length xs < 65536"
  shows "\<exists>a' vb. AppendAll xs a = Ok a' \<and> app_ok a' (n + of_nat (length xs)) (bits @ vb) \<and> recovers_all a a' n vb xs"
  using assms
proof (induction xs arbitrary: a n bits)
  case Nil
  then show ?case by (auto intro!: exI [of _ a] exI [of _ "[]"] simp: recovers_all_def)
next
  case (Cons s xs)
  obtain t v where s: "s = (t, v)" by (cases s)
  have n1: "unat (n + 1) = unat n + 1" using Cons.prems(2)
    by (subst unat_add_lem [THEN iffD1]) simp_all
  then have "n + 1 \<noteq> 0" by auto
  from Append_ok [OF Cons.prems(1) this, of t v] obtain a1 vb1 where
    a1: "Append t v a = Ok a1" "app_ok a1 (n + 1) (bits @ vb1)" "recovers a a1 n vb1 (t, v)" by blast
  have "unat (n + 1) + length xs < 65536" using Cons.prems(2) n1 by simp
  from Cons.IH [OF a1(2) this] obtain a' vb where
    a': "AppendAll xs a1 = Ok a'" "app_ok a' (n + 1 + of_nat (length xs)) ((bits @ vb1) @ vb)"
      "recovers_all a1 a' (n + 1) vb xs" by blast
  have "recovers_all a a' n (vb1 @ vb) (s # xs)" unfolding recovers_all_def
  proof (intro allI impI)
    fix it rest
    assume it: "in_step a it \<and> reading it ((vb1 @ vb) @ rest) \<and> numRead it = n
      \<and> unat n + length (s # xs) \<le> unat (numTotal it) \<and> it_err it = None"
    then have "numTotal it \<noteq> n" by auto
    with it a1(3) obtain it1 where it1: "Next it = Ok (True, it1)" "in_step a1 it1" "reading it1 (vb @ rest)"
      "At it1 = (t, v)" "numRead it1 = n + 1" "numTotal it1 = numTotal it" "it_err it1 = None"
      unfolding recovers_def by force
    moreover from it1 it n1 a'(3) obtain it2 where "reads it1 xs it2" "in_step a' it2" "reading it2 rest"
      "numRead it2 = n + 1 + of_nat (length xs)" "numTotal it2 = numTotal it1" "it_err it2 = None"
      unfolding recovers_all_def by force
    ultimately show "\<exists>it'. reads it (s # xs) it' \<and> in_step a' it' \<and> reading it' rest
        \<and> numRead it' = n + of_nat (length (s # xs)) \<and> numTotal it' = numTotal it \<and> it_err it' = None"
      by (auto simp: s algebra_simps)
  qed
  moreover have "AppendAll (s # xs) a = Ok a'" using a1 a' s by simp
  moreover have "app_ok a' (n + of_nat (length (s # xs))) (bits @ vb1 @ vb)"
    using a'(2) by (simp add: algebra_simps)
  ultimately show ?case by (intro exI [of _ a'] exI [of _ "vb1 @ vb"]) blast
qed

definition new_appender :: xorAppender where
  "new_appender = \<lparr>app_b = chunk_b NewXORChunk, app_t = 0, app_v = 0, app_tDelta = 0,
     app_leading = 0xff, app_trailing = 0\<rparr>"

lemma cstate_new: "cstate (chunk_b NewXORChunk) 0 []"
  by (simp add: cstate_def NewXORChunk_def wf_writer_def wbits_def to_bits_def upt_rec)

lemma iterator_cstate:
  assumes "cstate b n bits"
  shows "\<exists>it rest. iterator \<lparr>chunk_b = b\<rparr> = Ok it \<and> reading it (bits @ rest) \<and> numTotal it = n \<and> numRead it = 0
     \<and> it_t it = 0 \<and> it_val it = 0 \<and> it_tDelta it = 0 \<and> it_leading it = 0 \<and> it_trailing it = 0 \<and> it_err it = None"
  using cstate_Uint16 [OF assms] cstate_bytes(3) [OF assms]
  by (auto simp: iterator_def Bytes_def reading_def newBReader_def wf_reader_def rbits_def bytes_bits_drop)

lemma Appender_new: "Appender NewXORChunk = Ok new_appender"
proof -
  obtain it where it: "iterator NewXORChunk = Ok it" "numTotal it = 0" "numRead it = 0"
     "it_t it = 0" "it_val it = 0" "it_tDelta it = 0" "it_leading it = 0" "it_trailing it = 0" "it_err it = None"
    using iterator_cstate [OF cstate_new] by (auto simp: NewXORChunk_def)
  moreover have "iterate it = Ok ([], it)" using it by (simp add: iterate.simps [of it] Next_def)
  moreover have "Uint16 (Bytes NewXORChunk) = Ok 0" using cstate_Uint16 [OF cstate_new] by (simp add: Bytes_def)
  ultimately show ?thesis by (simp add: Appender_def new_appender_def)
qed

lemma app_ok_new: "app_ok new_appender 0 []"
  using cstate_new by (simp add: app_ok_def app_inv_def new_appender_def window_ok_def)

lemma start_in_step:
  assumes "cstate b n (bits @ bits')"
  shows "\<exists>it rest. iterator \<lparr>chunk_b = b\<rparr> = Ok it \<and> reading it (bits @ bits' @ rest) \<and> numTotal it = n
    \<and> numRead it = 0 \<and> in_step new_appender it \<and> it_err it = None"
  using iterator_cstate [OF assms] by (fastforce simp: in_step_def window_matches_def new_appender_def)

lemma new_chunk_reads:
  assumes "length xs < 65536"
  obtains a bits where "AppendAll xs new_appender = Ok a" "app_ok a (of_nat (length xs)) bits"
    "recovers_all new_appender a 0 bits xs"
  using AppendAll_recovers [OF app_ok_new, of xs] assms by auto

text \<open>What a client of a fresh chunk relies on: the samples appended are delivered one by one.\<close>

lemma new_chunk_delivers:
  assumes "length xs < 65536"
  shows "\<exists>a it0 it. AppendAll xs new_appender = Ok a \<and> NumSamples (app_chunk a) = Ok (of_nat (length xs))
    \<and> iterator (app_chunk a) = Ok it0 \<and> reads it0 xs it \<and> numRead it = numTotal it \<and> it_err it = None"
proof -
  obtain a bits where a: "AppendAll xs new_appender = Ok a" "app_ok a (of_nat (length xs)) bits"
    "recovers_all new_appender a 0 bits xs" by (rule new_chunk_reads [OF assms])
  let ?n = "of_nat (length xs) :: u16"
  have c: "cstate (app_b a) ?n bits" using a(2) by (simp add: app_ok_def app_inv_def)
  obtain it0 rest where it0: "iterator (app_chunk a) = Ok it0" "reading it0 (bits @ rest)" "numTotal it0 = ?n"
    "numRead it0 = 0" "in_step new_appender it0" "it_err it0 = None"
    using start_in_step [of "app_b a" ?n bits "[]"] c by (auto simp: app_chunk_def)
  have "unat ?n = length xs" using assms by (simp add: unat_of_nat take_bit_nat_eq_self)
  with it0 a(3) obtain it where it: "reads it0 xs it" "numRead it = ?n" "numTotal it = ?n" "it_err it = None"
    unfolding recovers_all_def by fastforce
  with it0 a(1) cstate_Uint16 [OF c] show ?thesis
    by (auto simp: NumSamples_def Bytes_def app_chunk_def)
qed

lemma AppendAll_append: "AppendAll (xs @ ys) a = bind_outcome (AppendAll xs a) (AppendAll ys)"
proof (induction xs arbitrary: a)
  case (Cons x xs)
  then show ?case by (cases x, cases "Append (fst x) (snd x) a") simp_all
qed simp

text \<open>An appender reopened on a chunk continues where the first one stopped.\<close>

lemma Appender_reopen:
  assumes ok: "app_ok a n bits" and r: "recovers_all new_appender a 0 bits xs" and n: "n = of_nat (length xs)"
    and len: "length xs < 65536"
  shows "\<exists>a2. Appender (app_chunk a) = Ok a2 \<and> app_ok a2 n bits \<and> recovers_all new_appender a2 0 bits xs"
proof -
  have c: "cstate (app_b a) n bits" and w: "window_ok (app_leading a) (app_trailing a)"
    using ok by (simp_all add: app_ok_def app_inv_def)
  have un: "unat n = length xs" using n len by (simp add: unat_of_nat take_bit_nat_eq_self)
  obtain it0 rest where it0: "iterator (app_chunk a) = Ok it0" "reading it0 (bits @ rest)" "numTotal it0 = n"
    "numRead it0 = 0" "in_step new_appender it0" "it_err it0 = None"
    using start_in_step [of "app_b a" n bits "[]"] c by (auto simp: app_chunk_def)
  with r un obtain it where it: "reads it0 xs it" "in_step a it" "numRead it = n" "numTotal it = n" "it_err it = None"
    unfolding recovers_all_def by (fastforce simp: n)
  then have "iterate it0 = Ok (xs, it)" by (intro iterate_reads) simp_all
  moreover have "Uint16 (Bytes (app_chunk a)) = Ok n"
    using cstate_Uint16 [OF c] by (simp add: Bytes_def app_chunk_def)
  moreover define a2 where "a2 = \<lparr>app_b = app_b a, app_t = it_t it, app_v = it_val it, app_tDelta = it_tDelta it,
      app_leading = (if n = 0 then 0xff else it_leading it), app_trailing = it_trailing it\<rparr>"
  ultimately have "Appender (app_chunk a) = Ok a2"
    using it0 it by (simp add: Appender_def a2_def app_chunk_def)
  moreover have "app_ok a2 n bits"
    using ok it(2) w by (auto simp: app_ok_def app_inv_def a2_def in_step_def window_matches_def window_ok_def split: if_splits)
  moreover have "in_step a2 it'" if "in_step a it'" for it'
    using that it(2) ok by (auto simp: in_step_def a2_def window_matches_def app_ok_def split: if_splits)
  then have "recovers_all new_appender a2 0 bits xs"
    using r unfolding recovers_all_def by meson
  ultimately show ?thesis by blast
qed

section \<open>Properties\<close>

text \<open>
  C1. Round trip of a chunk: any fewer than 65536 samples appended to a new XOR chunk through
  its appender are delivered by the chunk's iterator, all of them, in order, bit for bit and
  without an error, and the chunk's header counts them. Timestamps and values are arbitrary
  64-bit words, so the wrapping deltas are covered.
\<close>

theorem chunk_round_trip:
  assumes "length xs < 65536"
  shows "\<exists>a it0 it. bind_outcome (Appender NewXORChunk) (AppendAll xs) = Ok a
    \<and> NumSamples (app_chunk a) = Ok (of_nat (length xs))
    \<and> iterator (app_chunk a) = Ok it0 \<and> iterate it0 = Ok (xs, it) \<and> it_err it = None"
proof -
  from new_chunk_delivers [OF assms] obtain a it0 it where a: "AppendAll xs new_appender = Ok a"
    "NumSamples (app_chunk a) = Ok (of_nat (length xs))" "iterator (app_chunk a) = Ok it0"
    "reads it0 xs it" "numRead it = numTotal it" "it_err it = None" by blast
  moreover from a have "iterate it0 = Ok (xs, it)" by (intro iterate_reads) simp_all
  ultimately show ?thesis by (simp add: Appender_new)
qed

theorem chunk_round_trip_witness:
  "length [(1000, 5), (1010, 5), (1020, 7 :: f64)] < 65536 \<and>
   (\<exists>a it0 it. bind_outcome (Appender NewXORChunk) (AppendAll [(1000, 5), (1010, 5), (1020, 7)]) = Ok a
    \<and> NumSamples (app_chunk a) = Ok (of_nat (length [(1000, 5), (1010, 5), (1020, 7 :: f64)]))
    \<and> iterator (app_chunk a) = Ok it0 \<and> iterate it0 = Ok ([(1000, 5), (1010, 5), (1020, 7)], it) \<and> it_err it = None)"
  using chunk_round_trip [of "[(1000, 5), (1010, 5), (1020, 7)]"] by simp

text \<open>
  C2. Reopening a chunk: an appender obtained from a chunk that already holds \<open>xs\<close> continues
  it, so that after it appended \<open>ys\<close> the chunk's iterator delivers \<open>xs @ ys\<close>. The state the
  appender takes over from a finished iterator is equivalent to the one it would have had.
\<close>

theorem appender_reopened:
  assumes "length xs + length ys < 65536"
  shows "\<exists>a a' it0 it. bind_outcome (Appender NewXORChunk) (AppendAll xs) = Ok a
    \<and> bind_outcome (Appender (app_chunk a)) (AppendAll ys) = Ok a'
    \<and> iterator (app_chunk a') = Ok it0 \<and> iterate it0 = Ok (xs @ ys, it) \<and> it_err it = None"
proof -
  let ?n = "of_nat (length xs) :: u16" and ?m = "of_nat (length ys) :: u16"
  have "length xs < 65536" using assms by simp
  from new_chunk_reads [OF this] obtain a bits where a0: "AppendAll xs new_appender = Ok a"
    and a: "app_ok a ?n bits" "recovers_all new_appender a 0 bits xs" by blast
  from Appender_reopen [OF a refl] assms obtain a2 where a2: "Appender (app_chunk a) = Ok a2" "app_ok a2 ?n bits"
    "recovers_all new_appender a2 0 bits xs" by auto
  have un: "unat ?n = length xs" "unat (?n + ?m) = length xs + length ys"
    using assms by (simp_all add: unat_of_nat take_bit_nat_eq_self flip: of_nat_add)
  with AppendAll_recovers [OF a2(2), of ys] assms obtain a' vb where a': "AppendAll ys a2 = Ok a'"
    "app_ok a' (?n + ?m) (bits @ vb)" "recovers_all a2 a' ?n vb ys" by auto
  have "cstate (app_b a') (?n + ?m) (bits @ vb)" using a'(2) by (simp add: app_ok_def app_inv_def)
  from start_in_step [OF this] obtain it0 rest where it0: "iterator (app_chunk a') = Ok it0"
    "reading it0 (bits @ vb @ rest)" "numTotal it0 = ?n + ?m" "numRead it0 = 0" "in_step new_appender it0" "it_err it0 = None"
    by (auto simp: app_chunk_def)
  with a2(3) un obtain it1 where it1: "reads it0 xs it1" "in_step a2 it1" "reading it1 (vb @ rest)" "numRead it1 = ?n"
    "numTotal it1 = ?n + ?m" "it_err it1 = None" unfolding recovers_all_def by fastforce
  with a'(3) un obtain it2 where it2: "reads it1 ys it2" "numRead it2 = ?n + ?m" "numTotal it2 = ?n + ?m" "it_err it2 = None"
    unfolding recovers_all_def by fastforce
  with reads_append [OF it1(1)] have "iterate it0 = Ok (xs @ ys, it2)" by (intro iterate_reads) simp_all
  with a0 a2 a' it0 it2 show ?thesis by (simp add: Appender_new)
qed

theorem appender_reopened_witness:
  "length [(1000 :: u64, 5 :: f64)] + length [(1015 :: u64, 6 :: f64)] < 65536 \<and>
   (\<exists>a a' it0 it. bind_outcome (Appender NewXORChunk) (AppendAll [(1000, 5)]) = Ok a
    \<and> bind_outcome (Appender (app_chunk a)) (AppendAll [(1015, 6)]) = Ok a'
    \<and> iterator (app_chunk a') = Ok it0 \<and> iterate it0 = Ok ([(1000, 5)] @ [(1015, 6)], it) \<and> it_err it = None)"
  using appender_reopened [of "[(1000, 5)]" "[(1015, 6)]"] by simp

end
