(* ===== verification/Labels.thy ===== *)
theory Labels
  imports Prelude "HOL-Library.List_Lexorder" "HOL-Library.Sublist"
begin

text \<open>
  Label sets and selectors: \<^verbatim>\<open>labels/labels.go\<close> and \<^verbatim>\<open>labels/selector.go\<close>. A Go string
  is the list of its bytes, compared lexicographically. \<^verbatim>\<open>xxhash.Sum64\<close>, which is not part
  of the repository, is a parameter of \<open>Hash\<close>.
\<close>

section \<open>Labels\<close>

type_synonym gostring = "u8 list"

record Label =
  Name :: gostring
  Value :: gostring

type_synonym Labels = "Label list"

definition sep :: u8 where "sep = 0xff"

definition Labels_Less :: "Label \<Rightarrow> Label \<Rightarrow> bool" where
  "Labels_Less a b \<longleftrightarrow> Name a < Name b"

text \<open>
  \<^verbatim>\<open>sort.Sort\<close> on a label set: sorted by name. Go's sort is not stable, so the result is
  determined only when the names are distinct, which \<^verbatim>\<open>New\<close> asks of its caller.
\<close>

definition Labels_Sort :: "Labels \<Rightarrow> Labels" where
  "Labels_Sort ls = sort_key Name ls"

definition hash_bytes :: "Labels \<Rightarrow> u8 list" where
  "hash_bytes ls = concat (map (\<lambda>v. Name v @ [sep] @ Value v @ [sep]) ls)"

definition Hash :: "(u8 list \<Rightarrow> u64) \<Rightarrow> Labels \<Rightarrow> u64" where
  "Hash sum64 ls = sum64 (hash_bytes ls)"

fun Labels_Get :: "Labels \<Rightarrow> gostring \<Rightarrow> gostring" where
  "Labels_Get [] name = []"
| "Labels_Get (l # ls) name = (if Name l = name then Value l else Labels_Get ls name)"

fun Equals_loop :: "nat \<Rightarrow> Labels \<Rightarrow> Labels \<Rightarrow> bool" where
  "Equals_loop i [] out = True"
| "Equals_loop i (l # ls) out = (if out ! i \<noteq> l then False else Equals_loop (Suc i) ls out)"

definition Equals :: "Labels \<Rightarrow> Labels \<Rightarrow> bool" where
  "Equals ls out = (if length ls \<noteq> length out then False else Equals_loop 0 ls out)"

definition Labels_Map :: "Labels \<Rightarrow> (gostring \<rightharpoonup> gostring)" where
  "Labels_Map ls = fold (\<lambda>l m. m(Name l \<mapsto> Value l)) ls Map.empty"

definition New :: "Label list \<Rightarrow> Labels" where
  "New ls = Labels_Sort ls"

text \<open>The iteration order of a Go map is unspecified: \<open>kvs\<close> are its entries in any order.\<close>

definition FromMap :: "(gostring \<times> gostring) list \<Rightarrow> Labels" where
  "FromMap kvs = New (map (\<lambda>(k, v). \<lparr>Name = k, Value = v\<rparr>) kvs)"

fun FromStrings_pairs :: "gostring list \<Rightarrow> Labels" where
  "FromStrings_pairs (n # v # ss) = \<lparr>Name = n, Value = v\<rparr> # FromStrings_pairs ss"
| "FromStrings_pairs _ = []"

definition FromStrings :: "gostring list \<Rightarrow> Labels outcome" where
  "FromStrings ss = (if length ss mod 2 \<noteq> 0 then Panic else Ok (Labels_Sort (FromStrings_pairs ss)))"

definition strings_Compare :: "gostring \<Rightarrow> gostring \<Rightarrow> int" where
  "strings_Compare a b = (if a = b then 0 else if a < b then -1 else 1)"

fun Compare_loop :: "Labels \<Rightarrow> Labels \<Rightarrow> int option" where
  "Compare_loop (a # as) (b # bs) =
     (let d = strings_Compare (Name a) (Name b) in
      if d \<noteq> 0 then Some d
      else
        let d = strings_Compare (Value a) (Value b) in
        if d \<noteq> 0 then Some d else Compare_loop as bs)"
| "Compare_loop _ _ = None"

definition Compare :: "Labels \<Rightarrow> Labels \<Rightarrow> int" where
  "Compare a b =
     (case Compare_loop a b of Some d \<Rightarrow> d | None \<Rightarrow> int (length a) - int (length b))"

definition Slice_Less :: "Labels \<Rightarrow> Labels \<Rightarrow> bool" where
  "Slice_Less a b \<longleftrightarrow> Compare a b < 0"

section \<open>Selectors\<close>

text \<open>
  A compiled regular expression is the predicate its \<^verbatim>\<open>MatchString\<close> computes;
  \<^verbatim>\<open>regexp.Compile\<close> is a parameter that may fail.
\<close>

datatype Matcher =
    EqualMatcher gostring gostring
  | RegexpMatcher gostring "gostring \<Rightarrow> bool"
  | NotMatcher Matcher
  | PrefixMatcher gostring gostring

fun Matcher_Name :: "Matcher \<Rightarrow> gostring" where
  "Matcher_Name (EqualMatcher n v) = n"
| "Matcher_Name (RegexpMatcher n re) = n"
| "Matcher_Name (NotMatcher m) = Matcher_Name m"
| "Matcher_Name (PrefixMatcher n p) = n"

fun Matcher_Matches :: "Matcher \<Rightarrow> gostring \<Rightarrow> bool" where
  "Matcher_Matches (EqualMatcher n value) v = (v = value)"
| "Matcher_Matches (RegexpMatcher n re) v = re v"
| "Matcher_Matches (NotMatcher m) v = (\<not> Matcher_Matches m v)"
| "Matcher_Matches (PrefixMatcher n p) v = prefix p v"

definition NewRegexpMatcher ::
  "(gostring \<Rightarrow> go_error + (gostring \<Rightarrow> bool)) \<Rightarrow> gostring \<Rightarrow> gostring \<Rightarrow> Matcher outcome" where
  "NewRegexpMatcher compile name pattern =
     (case compile pattern of Inl e \<Rightarrow> Fail e | Inr re \<Rightarrow> Ok (RegexpMatcher name re))"

definition NewMustRegexpMatcher ::
  "(gostring \<Rightarrow> go_error + (gostring \<Rightarrow> bool)) \<Rightarrow> gostring \<Rightarrow> gostring \<Rightarrow> Matcher outcome" where
  "NewMustRegexpMatcher compile name pattern =
     (case compile pattern of Inl e \<Rightarrow> Panic | Inr re \<Rightarrow> Ok (RegexpMatcher name re))"

fun Selector_Matches :: "Matcher list \<Rightarrow> Labels \<Rightarrow> bool" where
  "Selector_Matches [] ls = True"
| "Selector_Matches (m # ms) ls =
     (if \<not> Matcher_Matches m (Labels_Get ls (Matcher_Name m)) then False else Selector_Matches ms ls)"

section \<open>The order on label sets\<close>

text \<open>The reference order: label sets as lists of name and value pairs, compared lexicographically.\<close>

definition label_words :: "Labels \<Rightarrow> gostring list list" where
  "label_words ls = map (\<lambda>l. [Name l, Value l]) ls"

lemma label_words_inject [simp]: "label_words a = label_words b \<longleftrightarrow> a = b"
proof -
  have "inj (\<lambda>l :: Label. [Name l, Value l])" by (rule injI) simp
  then show ?thesis by (simp add: label_words_def inj_map_eq_map)
qed

lemma strings_Compare_simps [simp]:
  "strings_Compare a b = 0 \<longleftrightarrow> a = b" "strings_Compare a b < 0 \<longleftrightarrow> a < b" "strings_Compare a b > 0 \<longleftrightarrow> b < a"
  by (auto simp: strings_Compare_def)

lemma Compare_Cons:
  "Compare (a # as) (b # bs) =
     (if Name a \<noteq> Name b then strings_Compare (Name a) (Name b)
      else if Value a \<noteq> Value b then strings_Compare (Value a) (Value b)
      else Compare as bs)"
  by (simp add: Compare_def Let_def split: option.splits)

lemma Compare_Nil [simp]:
  "Compare [] bs = - int (length bs)" "Compare as [] = int (length as)"
  by (simp_all add: Compare_def)

lemma Nil_less_map: "[] < map f xs \<longleftrightarrow> xs \<noteq> []" for f :: "'a \<Rightarrow> 'b :: linorder"
  by (cases xs) simp_all

lemma Compare_refines_order:
  "(Compare a b = 0 \<longleftrightarrow> a = b) \<and> (Compare a b < 0 \<longleftrightarrow> label_words a < label_words b)
   \<and> (Compare a b > 0 \<longleftrightarrow> label_words b < label_words a)"
proof (induction a b rule: Compare_loop.induct)
  case (1 a as b bs)
  then show ?case by (auto simp: Compare_Cons label_words_def)
qed (auto simp: label_words_def Nil_less_map)

subsection \<open>Equality, lookup and the constructors\<close>

lemma Equals_loop_iff:
  "length ls + i = length out \<Longrightarrow> Equals_loop i ls out \<longleftrightarrow> ls = drop i out"
proof (induction i ls out rule: Equals_loop.induct)
  case (2 i l ls out)
  then have "drop i out = out ! i # drop (Suc i) out" by (simp add: Cons_nth_drop_Suc)
  with 2 show ?case by auto
qed simp

lemma Equals_iff: "Equals ls out \<longleftrightarrow> ls = out"
  by (auto simp: Equals_def Equals_loop_iff)

definition wf_labels :: "Labels \<Rightarrow> bool" where
  "wf_labels ls \<longleftrightarrow> sorted_wrt Labels_Less ls"

lemma wf_labels_distinct: "wf_labels ls \<Longrightarrow> distinct (map Name ls)"
  by (induction ls) (auto simp: wf_labels_def Labels_Less_def)

lemma wf_labels_Sort: "distinct (map Name ls) \<Longrightarrow> wf_labels (Labels_Sort ls)"
proof -
  assume d: "distinct (map Name ls)"
  from d have "distinct (map Name (sort_key Name ls))" by (simp add: distinct_map)
  moreover have "sorted (map Name (sort_key Name ls))" by simp
  ultimately have "sorted_wrt (<) (map Name (sort_key Name ls))" by (simp add: strict_sorted_iff)
  then show ?thesis by (simp add: wf_labels_def Labels_Sort_def Labels_Less_def [abs_def] sorted_wrt_map)
qed

lemma Labels_Sort_id: "wf_labels ls \<Longrightarrow> Labels_Sort ls = ls"
proof -
  assume "wf_labels ls"
  then have "sorted_wrt (\<lambda>a b. Name a < Name b) ls" by (simp add: wf_labels_def Labels_Less_def [abs_def])
  then have "sorted_wrt (\<lambda>a b. Name a \<le> Name b) ls" by (rule sorted_wrt_mono_rel [rotated]) simp
  then have "sorted (map Name ls)" by (simp add: sorted_wrt_map)
  then show ?thesis by (simp add: Labels_Sort_def sort_key_id_if_sorted)
qed

lemma Labels_Map_fold:
  "fold (\<lambda>l m. m(Name l \<mapsto> Value l)) ls m = m ++ map_of (rev (map (\<lambda>l. (Name l, Value l)) ls))"
  by (induction ls arbitrary: m) (auto simp: map_add_def fun_eq_iff split: option.splits)

lemma Labels_Get_map_of:
  "Labels_Get ls n = (case map_of (map (\<lambda>l. (Name l, Value l)) ls) n of None \<Rightarrow> [] | Some v \<Rightarrow> v)"
  by (induction ls) auto

lemma Labels_Get_Map:
  assumes "distinct (map Name ls)"
  shows "Labels_Get ls n = (case Labels_Map ls n of None \<Rightarrow> [] | Some v \<Rightarrow> v)"
proof -
  have "distinct (map fst (map (\<lambda>l. (Name l, Value l)) ls))" using assms by (simp add: comp_def)
  then have "map_of (rev (map (\<lambda>l. (Name l, Value l)) ls)) = map_of (map (\<lambda>l. (Name l, Value l)) ls)"
    by (intro map_of_inject_set [THEN iffD2]) (simp_all add: comp_def flip: rev_map)
  then show ?thesis by (simp add: Labels_Map_def Labels_Map_fold Labels_Get_map_of)
qed

lemma Labels_Map_Sort:
  assumes "distinct (map Name ls)"
  shows "Labels_Map (Labels_Sort ls) = Labels_Map ls"
proof -
  let ?kv = "\<lambda>l. (Name l, Value l)"
  have "distinct (map Name (Labels_Sort ls))" using wf_labels_Sort [OF assms] by (rule wf_labels_distinct)
  then have "map_of (rev (map ?kv (Labels_Sort ls))) = map_of (rev (map ?kv ls))"
    using assms by (intro map_of_inject_set [THEN iffD2])
      (simp_all add: comp_def Labels_Sort_def flip: rev_map)
  then show ?thesis by (simp add: Labels_Map_def Labels_Map_fold)
qed

section \<open>The hashed byte sequence\<close>

definition sep_free :: "Labels \<Rightarrow> bool" where
  "sep_free ls \<longleftrightarrow> (\<forall>l \<in> set ls. sep \<notin> set (Name l) \<and> sep \<notin> set (Value l))"

lemma sep_split:
  "x \<notin> set as \<Longrightarrow> x \<notin> set bs \<Longrightarrow> as @ x # as' = bs @ x # bs' \<Longrightarrow> as = bs \<and> as' = bs'"
proof (induction as arbitrary: bs)
  case Nil
  then show ?case by (cases bs) auto
next
  case (Cons a as)
  then show ?case by (cases bs) auto
qed

lemma hash_bytes_inject:
  "sep_free a \<Longrightarrow> sep_free b \<Longrightarrow> hash_bytes a = hash_bytes b \<Longrightarrow> a = b"
proof (induction a arbitrary: b)
  case Nil
  then show ?case by (cases b) (auto simp: hash_bytes_def)
next
  case (Cons x a)
  then obtain y b' where b: "b = y # b'" by (cases b) (auto simp: hash_bytes_def)
  have n: "Name x = Name y \<and> Value x @ sep # hash_bytes a = Value y @ sep # hash_bytes b'"
    using Cons.prems by (intro sep_split [of sep]) (auto simp: b sep_free_def hash_bytes_def)
  then have "Value x = Value y \<and> hash_bytes a = hash_bytes b'"
    using Cons.prems by (intro sep_split [of sep]) (auto simp: b sep_free_def)
  with n Cons show ?case by (auto simp: b sep_free_def)
qed

section \<open>Properties\<close>

text \<open>
  \<open>New\<close> sorts: from labels with distinct names it makes a set strictly ordered by name in
  which every lookup gives the value the label had, and the empty string for an absent name.
\<close>

theorem New_sorted_lookup:
  assumes "distinct (map Name ls)"
  shows "wf_labels (New ls) \<and> set (New ls) = set ls \<and>
     Labels_Get (New ls) n = (case map_of (map (\<lambda>l. (Name l, Value l)) ls) n of None \<Rightarrow> [] | Some v \<Rightarrow> v)"
proof -
  have wf: "wf_labels (New ls)" using wf_labels_Sort [OF assms] by (simp add: New_def)
  have "Labels_Get (New ls) n = Labels_Get ls n"
    using Labels_Get_Map [OF wf_labels_distinct [OF wf]] Labels_Map_Sort [OF assms] Labels_Get_Map [OF assms]
    by (simp add: New_def)
  with wf show ?thesis by (simp add: Labels_Get_map_of New_def Labels_Sort_def)
qed

theorem New_sorted_lookup_witness:
  "distinct (map Name [\<lparr>Name = [98], Value = [1]\<rparr>, \<lparr>Name = [97], Value = [2]\<rparr>]) \<and>
   wf_labels (New [\<lparr>Name = [98], Value = [1]\<rparr>, \<lparr>Name = [97], Value = [2]\<rparr>]) \<and>
   Labels_Get (New [\<lparr>Name = [98], Value = [1]\<rparr>, \<lparr>Name = [97], Value = [2]\<rparr>]) [98] = [1]"
proof -
  let ?ls = "[\<lparr>Name = [98], Value = [1]\<rparr>, \<lparr>Name = [97], Value = [2]\<rparr>] :: Labels"
  have d: "distinct (map Name ?ls)" by simp
  show ?thesis using d New_sorted_lookup [OF d, of "[98]"] by simp
qed

text \<open>
  The byte sequence that \<open>Hash\<close> hashes determines the label set, as long as no name or
  value contains the separator byte 0xff (no valid UTF-8 string does): two different label sets
  never hash the same bytes, so only a collision of the hash function itself can confuse them.
\<close>

theorem hashed_bytes_unique:
  assumes "sep_free a" and "sep_free b"
  shows "hash_bytes a = hash_bytes b \<longleftrightarrow> Equals a b"
  using hash_bytes_inject [OF assms] by (auto simp: Equals_iff)

theorem hashed_bytes_unique_witness:
  "sep_free [\<lparr>Name = [97, 98], Value = [99]\<rparr>] \<and> sep_free [\<lparr>Name = [97], Value = [98, 99]\<rparr>] \<and>
   (hash_bytes [\<lparr>Name = [97, 98], Value = [99]\<rparr>] = hash_bytes [\<lparr>Name = [97], Value = [98, 99]\<rparr>]
    \<longleftrightarrow> Equals [\<lparr>Name = [97, 98], Value = [99]\<rparr>] [\<lparr>Name = [97], Value = [98, 99]\<rparr>])"
proof -
  have s: "sep_free [\<lparr>Name = [97, 98], Value = [99]\<rparr>]" "sep_free [\<lparr>Name = [97], Value = [98, 99]\<rparr>]"
    by (simp_all add: sep_free_def sep_def)
  show ?thesis using s hashed_bytes_unique [OF s] by blast
qed

end
