(* ===== verification/Encbuf.thy ===== *)
theory Encbuf
  imports Binary Labels
begin

text \<open>
  The encoding helpers of \<^verbatim>\<open>encoding_helpers.go\<close> (and their copy in the package
  \<^verbatim>\<open>index\<close>): \<^verbatim>\<open>encbuf\<close> appends values to a byte slice, \<^verbatim>\<open>decbuf\<close> takes them off
  the front and remembers the first error. The interface \<open>entry_codec\<close> states what a decoder
  promises of an encoder; the record, tombstone and index formats are built on it.
\<close>

section \<open>CRC-32 with the Castagnoli polynomial\<close>

text \<open>What \<^verbatim>\<open>crc32.New(crc32.MakeTable(crc32.Castagnoli))\<close> of the standard library computes.\<close>

definition crc32_step :: "u32 \<Rightarrow> u32" where
  "crc32_step c = (if bit c 0 then drop_bit 1 c XOR 0x82F63B78 else drop_bit 1 c)"

definition crc32_update :: "u32 \<Rightarrow> u8 \<Rightarrow> u32" where
  "crc32_update c b =
     crc32_step (crc32_step (crc32_step (crc32_step
       (crc32_step (crc32_step (crc32_step (crc32_step (c XOR ucast b))))))))"

definition crc32_checksum :: "u8 list \<Rightarrow> u32" where
  "crc32_checksum bs = NOT (foldl crc32_update 0xFFFFFFFF bs)"

section \<open>Encoding\<close>

text \<open>
  An \<^verbatim>\<open>encbuf\<close> is its byte slice; the scratch array \<^verbatim>\<open>c\<close> holds nothing between calls.
\<close>

type_synonym encbuf = "u8 list"

definition enc_reset :: "encbuf \<Rightarrow> encbuf" where "enc_reset e = []"
definition enc_get :: "encbuf \<Rightarrow> u8 list" where "enc_get e = e"
definition enc_len :: "encbuf \<Rightarrow> nat" where "enc_len e = length e"
definition putString :: "gostring \<Rightarrow> encbuf \<Rightarrow> encbuf" where "putString s e = e @ s"
definition putBytes :: "u8 list \<Rightarrow> encbuf \<Rightarrow> encbuf" where "putBytes b e = e @ b"
definition putByte :: "u8 \<Rightarrow> encbuf \<Rightarrow> encbuf" where "putByte c e = e @ [c]"
definition putBE32 :: "u32 \<Rightarrow> encbuf \<Rightarrow> encbuf" where "putBE32 x e = e @ PutUint32 x"
definition putBE64 :: "u64 \<Rightarrow> encbuf \<Rightarrow> encbuf" where "putBE64 x e = e @ PutUint64 x"
definition putUvarint64 :: "u64 \<Rightarrow> encbuf \<Rightarrow> encbuf" where "putUvarint64 x e = e @ PutUvarint x"
definition putVarint64 :: "u64 \<Rightarrow> encbuf \<Rightarrow> encbuf" where "putVarint64 x e = e @ PutVarint x"
definition putBE32int :: "int \<Rightarrow> encbuf \<Rightarrow> encbuf" where "putBE32int x e = putBE32 (word_of_int x) e"
definition putBE64int :: "int \<Rightarrow> encbuf \<Rightarrow> encbuf" where "putBE64int x e = putBE64 (word_of_int x) e"
definition putBE64int64 :: "u64 \<Rightarrow> encbuf \<Rightarrow> encbuf" where "putBE64int64 x e = putBE64 x e"
definition putUvarint32 :: "u32 \<Rightarrow> encbuf \<Rightarrow> encbuf" where "putUvarint32 x e = putUvarint64 (ucast x) e"
definition putUvarint :: "int \<Rightarrow> encbuf \<Rightarrow> encbuf" where "putUvarint x e = putUvarint64 (word_of_int x) e"

definition putUvarintStr :: "gostring \<Rightarrow> encbuf \<Rightarrow> encbuf" where
  "putUvarintStr s e = putString s (putUvarint (int (length s)) e)"

definition putHash :: "encbuf \<Rightarrow> encbuf" where
  "putHash e = e @ PutUint32 (crc32_checksum e)"

section \<open>Decoding\<close>

record decbuf =
  dec_b :: "u8 list"
  dec_e :: "go_error option"

definition mk_decbuf :: "u8 list \<Rightarrow> decbuf" where
  "mk_decbuf b = \<lparr>dec_b = b, dec_e = None\<rparr>"

definition dec_varint64 :: "decbuf \<Rightarrow> (u64 \<times> decbuf) outcome" where
  "dec_varint64 d =
     (if dec_e d \<noteq> None then Ok (0, d)
      else case Varint (dec_b d) of (x, n) \<Rightarrow>
        if n < 1 then Ok (0, d\<lparr>dec_e := Some ErrInvalidSize\<rparr>)
        else Ok (x, d\<lparr>dec_b := drop (nat n) (dec_b d)\<rparr>))"

definition dec_uvarint64 :: "decbuf \<Rightarrow> (u64 \<times> decbuf) outcome" where
  "dec_uvarint64 d =
     (if dec_e d \<noteq> None then Ok (0, d)
      else case Uvarint (dec_b d) of (x, n) \<Rightarrow>
        if n < 1 then Ok (0, d\<lparr>dec_e := Some ErrInvalidSize\<rparr>)
        else Ok (x, d\<lparr>dec_b := drop (nat n) (dec_b d)\<rparr>))"

definition dec_be64 :: "decbuf \<Rightarrow> (u64 \<times> decbuf) outcome" where
  "dec_be64 d =
     (if dec_e d \<noteq> None then Ok (0, d)
      else if length (dec_b d) < 4 then Ok (0, d\<lparr>dec_e := Some ErrInvalidSize\<rparr>)
      else bind_outcome (Uint64 (dec_b d)) (\<lambda>x. Ok (x, d\<lparr>dec_b := drop 8 (dec_b d)\<rparr>)))"

definition dec_be32 :: "decbuf \<Rightarrow> (u32 \<times> decbuf) outcome" where
  "dec_be32 d =
     (if dec_e d \<noteq> None then Ok (0, d)
      else if length (dec_b d) < 4 then Ok (0, d\<lparr>dec_e := Some ErrInvalidSize\<rparr>)
      else bind_outcome (Uint32 (dec_b d)) (\<lambda>x. Ok (x, d\<lparr>dec_b := drop 4 (dec_b d)\<rparr>)))"

definition dec_byte :: "decbuf \<Rightarrow> (u8 \<times> decbuf) outcome" where
  "dec_byte d =
     (if dec_e d \<noteq> None then Ok (0, d)
      else if length (dec_b d) < 1 then Ok (0, d\<lparr>dec_e := Some ErrInvalidSize\<rparr>)
      else Ok (hd (dec_b d), d\<lparr>dec_b := tl (dec_b d)\<rparr>))"

text \<open>
  \<^verbatim>\<open>len(d.b) < int(l)\<close> compares signed, while the slice \<^verbatim>\<open>d.b[:l]\<close> uses the unsigned
  length and panics when it is out of range.
\<close>

definition dec_uvarintStr :: "decbuf \<Rightarrow> (gostring \<times> decbuf) outcome" where
  "dec_uvarintStr d0 =
     bind_outcome (dec_uvarint64 d0) (\<lambda>(l, d).
       if dec_e d \<noteq> None then Ok ([], d)
       else if int (length (dec_b d)) < sint l then Ok ([], d\<lparr>dec_e := Some ErrInvalidSize\<rparr>)
       else if length (dec_b d) < unat l then Panic
       else Ok (take (unat l) (dec_b d), d\<lparr>dec_b := drop (unat l) (dec_b d)\<rparr>))"

definition dec_uvarint :: "decbuf \<Rightarrow> (int \<times> decbuf) outcome" where
  "dec_uvarint d = bind_outcome (dec_uvarint64 d) (\<lambda>(x, d). Ok (sint x, d))"

definition dec_uvarint32 :: "decbuf \<Rightarrow> (u32 \<times> decbuf) outcome" where
  "dec_uvarint32 d = bind_outcome (dec_uvarint64 d) (\<lambda>(x, d). Ok (ucast x, d))"

definition dec_be32int :: "decbuf \<Rightarrow> (int \<times> decbuf) outcome" where
  "dec_be32int d = bind_outcome (dec_be32 d) (\<lambda>(x, d). Ok (uint x, d))"

definition dec_be64int64 :: "decbuf \<Rightarrow> (u64 \<times> decbuf) outcome" where
  "dec_be64int64 d = dec_be64 d"

definition dec_crc32 :: "decbuf \<Rightarrow> u32" where
  "dec_crc32 d = crc32_checksum (dec_b d)"

text \<open>\<^verbatim>\<open>decbuf(l)\<close> splits off a decoder of the first \<open>l\<close> bytes; a negative \<open>l\<close> panics.\<close>

definition dec_decbuf :: "int \<Rightarrow> decbuf \<Rightarrow> (decbuf \<times> decbuf) outcome" where
  "dec_decbuf l d =
     (if dec_e d \<noteq> None then Ok (\<lparr>dec_b = [], dec_e = dec_e d\<rparr>, d)
      else if l > int (length (dec_b d)) then Ok (\<lparr>dec_b = [], dec_e = Some ErrInvalidSize\<rparr>, d)
      else if l < 0 then Panic
      else Ok (mk_decbuf (take (nat l) (dec_b d)), d\<lparr>dec_b := drop (nat l) (dec_b d)\<rparr>))"

definition dec_err :: "decbuf \<Rightarrow> go_error option" where "dec_err d = dec_e d"
definition dec_len :: "decbuf \<Rightarrow> nat" where "dec_len d = length (dec_b d)"
definition dec_get :: "decbuf \<Rightarrow> u8 list" where "dec_get d = dec_b d"

text \<open>
  The loop \<^verbatim>\<open>for len(d.b) > 0 && d.err() == nil { entries = append(entries, get(d)) }\<close>. The
  loops of the code read entries that use up input or set the error, so they end; the test that
  the input got shorter is where the recursion rests on that.
\<close>

function decodeAll :: "(decbuf \<Rightarrow> ('a \<times> decbuf) outcome) \<Rightarrow> decbuf \<Rightarrow> ('a list \<times> decbuf) outcome" where
  "decodeAll get d =
     (if dec_b d \<noteq> [] \<and> dec_e d = None then
        bind_outcome (get d) (\<lambda>(x, d').
          if length (dec_b d') < length (dec_b d)
          then bind_outcome (decodeAll get d') (\<lambda>(xs, d''). Ok (x # xs, d''))
          else Ok ([x], d'))
      else Ok ([], d))"
  by pat_completeness auto
termination
  by (relation "measure (\<lambda>(get, d). length (dec_b d))") auto

declare decodeAll.simps [simp del]

section \<open>Decoding what was encoded\<close>

lemmas enc_defs = putString_def putBytes_def putByte_def putBE32_def putBE64_def putUvarint64_def
  putVarint64_def putBE32int_def putBE64int_def putBE64int64_def putUvarint32_def putUvarint_def
  putUvarintStr_def enc_reset_def enc_get_def enc_len_def

lemmas dec_defs = dec_uvarint_def dec_uvarint32_def dec_be32int_def dec_be64int64_def

lemma mk_decbuf_simps [simp]: "dec_b (mk_decbuf b) = b" "dec_e (mk_decbuf b) = None"
  "(mk_decbuf b)\<lparr>dec_b := b'\<rparr> = mk_decbuf b'" "mk_decbuf b = mk_decbuf b' \<longleftrightarrow> b = b'"
  by (simp_all add: mk_decbuf_def)

lemma dec_uvarint64_enc [codec_simps]: "dec_uvarint64 (mk_decbuf (PutUvarint x @ bs)) = Ok (x, mk_decbuf bs)"
  by (simp add: dec_uvarint64_def Uvarint_PutUvarint)

lemma dec_varint64_enc [codec_simps]: "dec_varint64 (mk_decbuf (PutVarint x @ bs)) = Ok (x, mk_decbuf bs)"
  by (simp add: dec_varint64_def Varint_PutVarint)

lemma dec_be64_enc [codec_simps]: "dec_be64 (mk_decbuf (PutUint64 x @ bs)) = Ok (x, mk_decbuf bs)"
  by (simp add: dec_be64_def)

lemma dec_be32_enc [codec_simps]: "dec_be32 (mk_decbuf (PutUint32 x @ bs)) = Ok (x, mk_decbuf bs)"
  by (simp add: dec_be32_def)

lemma dec_byte_enc [codec_simps]: "dec_byte (mk_decbuf (x # bs)) = Ok (x, mk_decbuf bs)"
  by (simp add: dec_byte_def)

lemma sint_of_nat_small: "n < 2 ^ 63 \<Longrightarrow> sint (word_of_nat n :: u64) = int n"
proof -
  assume n: "n < 2 ^ 63"
  have "sint (word_of_nat n :: u64) = signed_take_bit (LENGTH(64) - Suc 0) (int n)"
    by (simp add: signed_of_nat del: One_nat_def)
  also have "\<dots> = int n" using n by (intro signed_take_bit_int_eq_self) simp_all
  finally show ?thesis .
qed

lemma dec_uvarintStr_enc [codec_simps]:
  "length s < 2 ^ 63 \<Longrightarrow>
   dec_uvarintStr (mk_decbuf (PutUvarint (word_of_nat (length s)) @ s @ bs)) = Ok (s, mk_decbuf bs)"
  by (simp add: dec_uvarintStr_def codec_simps sint_of_nat_small unat_of_nat take_bit_nat_eq_self)

text \<open>
  The promise of an entry decoder: it inverts its encoder and leaves the rest of the input, and
  an encoded entry is not empty. A loop over it then inverts the encoding of a list.
\<close>

locale entry_codec =
  fixes put :: "'a \<Rightarrow> u8 list" and get :: "decbuf \<Rightarrow> ('a \<times> decbuf) outcome" and ok :: "'a \<Rightarrow> bool"
  assumes get_put: "ok x \<Longrightarrow> get (mk_decbuf (put x @ bs)) = Ok (x, mk_decbuf bs)"
    and put_not_Nil: "put x \<noteq> []"
begin

lemma decodeAll_put:
  "\<forall>x \<in> set xs. ok x \<Longrightarrow> decodeAll get (mk_decbuf (concat (map put xs))) = Ok (xs, mk_decbuf [])"
proof (induction xs)
  case Nil
  then show ?case by (subst decodeAll.simps) simp
next
  case (Cons x xs)
  then show ?case by (subst decodeAll.simps) (simp add: get_put put_not_Nil)
qed

lemma decode_put_inject:
  "ok x \<Longrightarrow> ok y \<Longrightarrow> put x @ bs = put y @ bs' \<Longrightarrow> x = y \<and> bs = bs'"
  by (metis get_put mk_decbuf_simps(4) outcome.inject(1) prod.inject)

end

end
