(* ===== verification/Tombstones.thy ===== *)
theory Tombstones
  imports Encbuf
begin

text \<open>
  Tombstones: \<^verbatim>\<open>tombstones.go\<close>. Deleted time ranges are kept per series as a list of
  intervals that is meant to be increasing and non-overlapping, and stored in a checksummed
  file. Timestamps are integers in the range of \<^verbatim>\<open>int64\<close>, with the wrap-around of
  \<^verbatim>\<open>n.Mint-1\<close> and \<^verbatim>\<open>n.Maxt+1\<close> written out.
\<close>

section \<open>Intervals\<close>

record Interval =
  Mint :: int
  Maxt :: int

type_synonym Intervals = "Interval list"

definition inBounds :: "Interval \<Rightarrow> int \<Rightarrow> bool" where
  "inBounds tr t \<longleftrightarrow> t \<ge> Mint tr \<and> t \<le> Maxt tr"

fun isSubrange :: "Interval \<Rightarrow> Intervals \<Rightarrow> bool" where
  "isSubrange tr [] = False"
| "isSubrange tr (r # dranges) =
     (if inBounds r (Mint tr) \<and> inBounds r (Maxt tr) then True else isSubrange tr dranges)"

text \<open>The number \<open>j\<close> of following intervals that start at or before the end of the new one.\<close>

fun add_overlaps :: "Interval \<Rightarrow> Intervals \<Rightarrow> nat" where
  "add_overlaps n [] = 0"
| "add_overlaps n (r2 # rs) = (if Maxt n < Mint r2 then 0 else Suc (add_overlaps n rs))"

text \<open>
  \<open>add\<close> loops over the intervals; \<open>add_at r rs n\<close> is the result for the interval \<open>r\<close> the loop
  is at and the intervals \<open>rs\<close> after it, with the intervals before left in place.
\<close>

definition add_merge :: "Interval \<Rightarrow> Intervals \<Rightarrow> Interval \<Rightarrow> Intervals" where
  "add_merge r rs n =
     (let r1 = (if Maxt n > Maxt r then r\<lparr>Maxt := Maxt n\<rparr> else r);
          j = add_overlaps n rs
      in if j \<noteq> 0 then
           (let r2 = (if Maxt (rs ! (j - 1)) > Maxt n then r1\<lparr>Maxt := Maxt (rs ! (j - 1))\<rparr> else r1)
            in r2 # drop j rs)
         else r1 # rs)"

fun Intervals_add :: "Intervals \<Rightarrow> Interval \<Rightarrow> Intervals" where
  "Intervals_add [] n = [n]"
| "Intervals_add (r # rs) n =
     (if inBounds r (i64 (Mint n - 1)) \<or> inBounds r (Mint n) then add_merge r rs n
      else if inBounds r (i64 (Maxt n + 1)) \<or> inBounds r (Maxt n) then
        (if Mint n < Maxt r then r\<lparr>Mint := Mint n\<rparr> # rs else r # rs)
      else if Mint n < Mint r then n # r # rs
      else r # Intervals_add rs n)"

section \<open>The tombstones of a block or of the head\<close>

type_synonym memTombstones = "u64 \<rightharpoonup> Intervals"

definition NewMemTombstones :: memTombstones where
  "NewMemTombstones = Map.empty"

definition Tombstones_Get :: "memTombstones \<Rightarrow> u64 \<Rightarrow> Intervals" where
  "Tombstones_Get t ref = (case t ref of None \<Rightarrow> [] | Some ivs \<Rightarrow> ivs)"

fun addInterval :: "u64 \<Rightarrow> Interval list \<Rightarrow> memTombstones \<Rightarrow> memTombstones" where
  "addInterval ref [] t = t"
| "addInterval ref (itv # itvs) t =
     addInterval ref itvs (t(ref \<mapsto> Intervals_add (Tombstones_Get t ref) itv))"

text \<open>
  \<^verbatim>\<open>Iter\<close> and \<^verbatim>\<open>Total\<close> range over a Go map, whose order is unspecified: they work on an
  enumeration of its entries.
\<close>

definition enumerates :: "(u64 \<times> Intervals) list \<Rightarrow> memTombstones \<Rightarrow> bool" where
  "enumerates es t \<longleftrightarrow> distinct (map fst es) \<and> map_of es = t"

definition Tombstones_Total :: "(u64 \<times> Intervals) list \<Rightarrow> u64" where
  "Tombstones_Total es = foldl (\<lambda>total (ref, ivs). total + of_nat (length ivs)) 0 es"

record Stone =
  stone_ref :: u64
  intervals :: Intervals

section \<open>The tombstone file\<close>

definition MagicTombstone :: u32 where "MagicTombstone = 0x0130BA30"
definition tombstoneFormatV1 :: u8 where "tombstoneFormatV1 = 1"

definition putStone :: "u64 \<times> Interval \<Rightarrow> u8 list" where
  "putStone = (\<lambda>(ref, iv).
     enc_get (putVarint64 (word_of_int (Maxt iv)) (putVarint64 (word_of_int (Mint iv)) (putUvarint64 ref (enc_reset [])))))"

definition stone_entries :: "(u64 \<times> Intervals) list \<Rightarrow> (u64 \<times> Interval) list" where
  "stone_entries es = concat (map (\<lambda>(ref, ivs). map (Pair ref) ivs) es)"

text \<open>The bytes \<^verbatim>\<open>writeTombstoneFile\<close> writes: the checksum covers the entries, not the header.\<close>

definition writeTombstoneFile :: "(u64 \<times> Intervals) list \<Rightarrow> u8 list" where
  "writeTombstoneFile es =
     (let header = putByte tombstoneFormatV1 (putBE32 MagicTombstone []);
          body = concat (map putStone (stone_entries es))
      in header @ body @ PutUint32 (crc32_checksum body))"

definition getStone :: "decbuf \<Rightarrow> ((u64 \<times> Interval) \<times> decbuf) outcome" where
  "getStone d =
     bind_outcome (dec_uvarint64 d) (\<lambda>(k, d).
     bind_outcome (dec_varint64 d) (\<lambda>(mint, d).
     bind_outcome (dec_varint64 d) (\<lambda>(maxt, d).
       Ok ((k, \<lparr>Mint = sint mint, Maxt = sint maxt\<rparr>), d))))"

definition addStones :: "(u64 \<times> Interval) list \<Rightarrow> memTombstones \<Rightarrow> memTombstones" where
  "addStones es t = fold (\<lambda>(k, iv). addInterval k [iv]) es t"

text \<open>\<open>None\<close> is a file that does not exist.\<close>

definition readTombstones :: "u8 list option \<Rightarrow> memTombstones outcome" where
  "readTombstones file =
     (case file of
        None \<Rightarrow> Ok NewMemTombstones
      | Some b \<Rightarrow>
          if length b < 5 then Fail ErrInvalidSize
          else
            bind_outcome (dec_be32 (mk_decbuf (take (length b - 4) b))) (\<lambda>(mg, d).
            if mg \<noteq> MagicTombstone then Fail (ErrMsg ''invalid magic number'')
            else
              bind_outcome (dec_byte d) (\<lambda>(flag, d).
              if flag \<noteq> tombstoneFormatV1 then Fail (ErrMsg ''invalid tombstone format'')
              else
                case dec_e d of
                  Some e \<Rightarrow> Fail e
                | None \<Rightarrow>
                    bind_outcome (Uint32 (drop (length b - 4) b)) (\<lambda>sum.
                    if sum \<noteq> crc32_checksum (dec_b d) then Fail (ErrMsg ''checksum did not match'')
                    else
                      bind_outcome (decodeAll getStone d) (\<lambda>(es, d).
                        case dec_e d of
                          Some e \<Rightarrow> Fail e
                        | None \<Rightarrow> Ok (addStones es NewMemTombstones))))))"

section \<open>What the intervals cover\<close>

definition covered :: "Intervals \<Rightarrow> int set" where
  "covered itvs = (\<Union>r \<in> set itvs. {Mint r..Maxt r})"

text \<open>Increasing and non-overlapping, as the comment on the type asks.\<close>

definition wf_interval :: "Interval \<Rightarrow> bool" where
  "wf_interval r \<longleftrightarrow> Mint r \<le> Maxt r \<and> in_i64 (Mint r) \<and> in_i64 (Maxt r)"

definition wf_intervals :: "Intervals \<Rightarrow> bool" where
  "wf_intervals itvs \<longleftrightarrow> list_all wf_interval itvs \<and> sorted_wrt (\<lambda>a b. Maxt a < Mint b) itvs"

lemma covered_simps [simp]:
  "covered [] = {}" "covered (r # rs) = {Mint r..Maxt r} \<union> covered rs"
  "covered (xs @ ys) = covered xs \<union> covered ys"
  by (auto simp: covered_def)

lemma isSubrange_covered: "isSubrange tr itvs \<Longrightarrow> {Mint tr..Maxt tr} \<subseteq> covered itvs"
  by (induction itvs) (auto simp: inBounds_def split: if_splits)

lemma wf_intervals_Cons [simp]:
  "wf_intervals (r # rs) \<longleftrightarrow> wf_interval r \<and> wf_intervals rs \<and> (\<forall>x \<in> set rs. Maxt r < Mint x)"
  by (auto simp: wf_intervals_def)

lemma wf_intervals_Nil [simp]: "wf_intervals []"
  by (simp add: wf_intervals_def)

text \<open>
  The overlapped intervals are a prefix \<open>take j rs\<close>; on a well-formed list the last of them
  reaches furthest.
\<close>

lemma add_overlaps_le: "add_overlaps n rs \<le> length rs"
  by (induction rs) auto

lemma add_overlaps_prefix: "x \<in> set (take (add_overlaps n rs) rs) \<Longrightarrow> Mint x \<le> Maxt n"
  by (induction rs) (auto split: if_splits)

lemma add_overlaps_rest:
  "wf_intervals rs \<Longrightarrow> x \<in> set (drop (add_overlaps n rs) rs) \<Longrightarrow> Maxt n < Mint x"
proof (induction rs)
  case (Cons r rs)
  then show ?case by (force simp: wf_interval_def split: if_splits)
qed simp

lemma wf_intervals_take_last:
  "wf_intervals rs \<Longrightarrow> 0 < j \<Longrightarrow> j \<le> length rs \<Longrightarrow> x \<in> set (take j rs) \<Longrightarrow>
   Maxt x \<le> Maxt (rs ! (j - 1)) \<and> Mint x \<le> Mint (rs ! (j - 1))"
proof (induction rs arbitrary: j)
  case (Cons r rs)
  show ?case
  proof (cases "j - 1")
    case 0
    with Cons.prems show ?thesis by (cases j) auto
  next
    case (Suc k)
    then have j: "j = Suc (Suc k)" by simp
    then have m: "rs ! k \<in> set rs" using Cons.prems(3) by simp
    then have r: "Maxt r < Mint (rs ! k)" "Mint (rs ! k) \<le> Maxt (rs ! k)" "Mint r \<le> Maxt r"
      using Cons.prems(1) by (auto simp: wf_intervals_def list_all_iff wf_interval_def)
    consider "x = r" | "x \<in> set (take (Suc k) rs)" using Cons.prems(4) j by auto
    then show ?thesis
    proof cases
      case 1
      with r have "Maxt x \<le> Maxt (rs ! k)" "Mint x \<le> Mint (rs ! k)" by simp_all
      then show ?thesis by (simp add: j)
    next
      case 2
      with Cons.IH [of "Suc k"] Cons.prems j show ?thesis by simp
    qed
  qed
qed simp

lemma wf_intervals_drop: "wf_intervals rs \<Longrightarrow> wf_intervals (drop j rs)"
  by (auto simp: wf_intervals_def list_all_iff sorted_wrt_drop dest: in_set_dropD)

text \<open>The interval that \<open>add_merge\<close> leaves at the front.\<close>

definition merged_max :: "Interval \<Rightarrow> Intervals \<Rightarrow> Interval \<Rightarrow> int" where
  "merged_max r rs n =
     (let j = add_overlaps n rs in
      if j \<noteq> 0 \<and> Maxt (rs ! (j - 1)) > Maxt n then Maxt (rs ! (j - 1)) else max (Maxt r) (Maxt n))"

lemma add_merge_eq:
  "add_merge r rs n = r\<lparr>Maxt := merged_max r rs n\<rparr> # drop (add_overlaps n rs) rs"
  by (auto simp: add_merge_def merged_max_def Let_def max_def)

lemma add_merge_correct:
  assumes wf: "wf_intervals (r # rs)" and n: "wf_interval n"
    and touch: "Mint r \<le> Mint n" "Mint n - 1 \<le> Maxt r"
  shows "covered (add_merge r rs n) = covered (r # rs) \<union> {Mint n..Maxt n}"
    and "wf_intervals (add_merge r rs n)"
proof -
  define j M where "j = add_overlaps n rs" and "M = merged_max r rs n"
  have rs: "wf_intervals rs" "\<forall>x \<in> set rs. Maxt r < Mint x" "wf_interval r" using wf by simp_all
  have mem: "x \<in> set rs" if "x \<in> set (take j rs)" for x using that by (rule in_set_takeD)
  have last: "rs ! (j - 1) \<in> set (take j rs)" if "j \<noteq> 0"
    using that add_overlaps_le [of n rs] by (auto simp: j_def in_set_conv_nth intro!: exI [of _ "j - 1"])
  have le: "Maxt x \<le> Maxt (rs ! (j - 1))" if "x \<in> set (take j rs)" for x
    using wf_intervals_take_last [OF rs(1), of j x] that add_overlaps_le [of n rs] by (cases j) (auto simp: j_def)
  have "Maxt r < Maxt n" if "j \<noteq> 0"
  proof -
    from last [OF that] have "Maxt r < Mint (rs ! (j - 1))" "Mint (rs ! (j - 1)) \<le> Maxt n"
      using rs(2) mem add_overlaps_prefix by (auto simp: j_def)
    then show ?thesis by simp
  qed
  then have M1: "Maxt r \<le> M" "Maxt n \<le> M" and M0: "j \<noteq> 0 \<Longrightarrow> Maxt (rs ! (j - 1)) \<le> M"
    by (auto simp: M_def merged_max_def Let_def j_def [symmetric] max_def)
  have M1': "Maxt x \<le> M" if "x \<in> set (take j rs)" for x
    using le [OF that] M0 that by (cases "j = 0") auto
  have M2: "{Mint r..M} \<subseteq> {Mint r..Maxt r} \<union> {Mint n..Maxt n} \<union> covered (take j rs)"
  proof
    fix p assume p: "p \<in> {Mint r..M}"
    consider "p \<le> Maxt r" | "Maxt r < p" "p \<le> Maxt n" | "Maxt n < p" "Maxt r < p" by linarith
    then show "p \<in> {Mint r..Maxt r} \<union> {Mint n..Maxt n} \<union> covered (take j rs)"
    proof cases
      case 3
      with p have "j \<noteq> 0" "M = Maxt (rs ! (j - 1))"
        by (auto simp: M_def merged_max_def Let_def j_def split: if_splits)
      with 3 p last [OF this(1)] add_overlaps_prefix [of "rs ! (j - 1)" n rs] show ?thesis
        by (force simp: covered_def j_def)
    qed (use p touch in auto)
  qed
  have c: "covered rs = covered (take j rs) \<union> covered (drop j rs)"
    by (metis append_take_drop_id covered_simps(3))
  have "covered (take j rs) \<subseteq> {Mint r..M}"
  proof -
    have "Mint r \<le> Mint x" if "x \<in> set (take j rs)" for x
      using rs(2,3) mem [OF that] by (force simp: wf_interval_def)
    then show ?thesis using M1' by (force simp: covered_def)
  qed
  moreover have "{Mint n..Maxt n} \<subseteq> {Mint r..M}" "{Mint r..Maxt r} \<subseteq> {Mint r..M}" using M1 touch by auto
  ultimately show "covered (add_merge r rs n) = covered (r # rs) \<union> {Mint n..Maxt n}"
    using M2 c by (auto simp: add_merge_eq M_def [symmetric] j_def [symmetric])
  have "M = Maxt r \<or> M = Maxt n \<or> M \<in> Maxt ` set rs"
    using last mem by (auto simp: M_def merged_max_def Let_def j_def max_def)
  then have "in_i64 M" using rs n by (auto simp: wf_interval_def wf_intervals_def list_all_iff)
  moreover have "M < Mint x" if x: "x \<in> set (drop j rs)" for x
  proof -
    have "Maxt n < Mint x" using add_overlaps_rest [OF rs(1)] x by (simp add: j_def)
    moreover have "Maxt r < Mint x" using rs(2) x by (meson in_set_dropD)
    moreover have "Maxt y < Mint x" if "y \<in> set (take j rs)" for y
    proof -
      have "sorted_wrt (\<lambda>a b. Maxt a < Mint b) (take j rs @ drop j rs)" using rs(1) by (simp add: wf_intervals_def)
      then show ?thesis using that x unfolding sorted_wrt_append by blast
    qed
    ultimately show ?thesis using last by (auto simp: M_def merged_max_def Let_def j_def max_def)
  qed
  ultimately show "wf_intervals (add_merge r rs n)"
    using rs M1(1) wf_intervals_drop [OF rs(1), of j]
    by (auto simp: add_merge_eq M_def [symmetric] j_def [symmetric] wf_interval_def)
qed

text \<open>
  An interval that can be added without the wrap-around of its bounds. The code clamps deletions
  to the time range of the data before it adds them.
\<close>

definition addable :: "Interval \<Rightarrow> bool" where
  "addable n \<longleftrightarrow> wf_interval n \<and> MinInt64 < Mint n \<and> Maxt n < MaxInt64"

lemma addable_i64:
  "addable n \<Longrightarrow> i64 (Mint n - 1) = Mint n - 1 \<and> i64 (Maxt n + 1) = Maxt n + 1 \<and> wf_interval n"
  by (auto simp: addable_def wf_interval_def in_i64_def)

lemma Intervals_add_covered:
  "wf_intervals itvs \<Longrightarrow> addable n \<Longrightarrow> covered (Intervals_add itvs n) = covered itvs \<union> {Mint n..Maxt n}"
proof (induction itvs)
  case (Cons r rs)
  note n = addable_i64 [OF Cons.prems(2)]
  have r: "Mint r \<le> Maxt r" "Mint n \<le> Maxt n" using Cons.prems(1) n by (auto simp: wf_interval_def)
  consider (merge) "inBounds r (i64 (Mint n - 1)) \<or> inBounds r (Mint n)"
    | (left) "\<not> (inBounds r (i64 (Mint n - 1)) \<or> inBounds r (Mint n))" "inBounds r (i64 (Maxt n + 1)) \<or> inBounds r (Maxt n)"
    | (other) "\<not> (inBounds r (i64 (Mint n - 1)) \<or> inBounds r (Mint n))" "\<not> (inBounds r (i64 (Maxt n + 1)) \<or> inBounds r (Maxt n))"
    by blast
  then show ?case
  proof cases
    case merge
    then have "Mint r \<le> Mint n" "Mint n - 1 \<le> Maxt r" using n by (auto simp: inBounds_def)
    with add_merge_correct(1) [OF Cons.prems(1)] n merge show ?thesis by simp
  next
    case left
    then have "Mint n < Mint r" "Mint r \<le> Maxt n + 1" "Maxt n \<le> Maxt r" using n r by (auto simp: inBounds_def)
    then have "{Mint n..Maxt r} = {Mint r..Maxt r} \<union> {Mint n..Maxt n}" "Mint n < Maxt r" using r by auto
    with left show ?thesis by auto
  next
    case other
    with Cons show ?thesis by auto
  qed
qed simp

lemma Intervals_add_Mint:
  "x \<in> set (Intervals_add itvs n) \<Longrightarrow> Mint x = Mint n \<or> (\<exists>y \<in> set itvs. Mint x = Mint y)"
proof (induction itvs)
  case (Cons r rs)
  then show ?case by (auto simp: add_merge_eq split: if_splits dest: in_set_dropD)
qed simp

text \<open>The list stays increasing and non-overlapping unless the new interval swallows an old one.\<close>

definition swallows :: "Interval \<Rightarrow> Intervals \<Rightarrow> bool" where
  "swallows n itvs \<longleftrightarrow> (\<exists>r \<in> set itvs. Mint n < Mint r \<and> Maxt r < Maxt n)"

lemma Intervals_add_wf:
  "wf_intervals itvs \<Longrightarrow> addable n \<Longrightarrow> \<not> swallows n itvs \<Longrightarrow> wf_intervals (Intervals_add itvs n)"
proof (induction itvs)
  case Nil
  then show ?case by (simp add: addable_def)
next
  case (Cons r rs)
  note n = addable_i64 [OF Cons.prems(2)]
  have r: "Mint r \<le> Maxt r" "Mint n \<le> Maxt n" using Cons.prems(1) n by (auto simp: wf_interval_def)
  consider (merge) "inBounds r (i64 (Mint n - 1)) \<or> inBounds r (Mint n)"
    | (left) "\<not> (inBounds r (i64 (Mint n - 1)) \<or> inBounds r (Mint n))" "inBounds r (i64 (Maxt n + 1)) \<or> inBounds r (Maxt n)"
    | (before) "\<not> (inBounds r (i64 (Mint n - 1)) \<or> inBounds r (Mint n))" "\<not> (inBounds r (i64 (Maxt n + 1)) \<or> inBounds r (Maxt n))"
        "Mint n < Mint r"
    | (after) "\<not> (inBounds r (i64 (Mint n - 1)) \<or> inBounds r (Mint n))" "\<not> (inBounds r (i64 (Maxt n + 1)) \<or> inBounds r (Maxt n))"
        "\<not> Mint n < Mint r"
    by blast
  then show ?case
  proof cases
    case merge
    then have "Mint r \<le> Mint n" "Mint n - 1 \<le> Maxt r" using n by (auto simp: inBounds_def)
    with add_merge_correct(2) [OF Cons.prems(1)] n merge show ?thesis by simp
  next
    case left
    then have "Mint n < Mint r" using n r by (auto simp: inBounds_def)
    with left Cons.prems(1) n r show ?thesis by (auto simp: wf_interval_def)
  next
    case before
    then have "Maxt n < Mint r" using Cons.prems(3) n by (auto simp: inBounds_def swallows_def)
    moreover from this r Cons.prems(1) have "\<forall>x \<in> set rs. Maxt n < Mint x" by fastforce
    ultimately show ?thesis using before Cons.prems(1) n by simp
  next
    case after
    then have "Maxt r < Mint n" using n by (auto simp: inBounds_def)
    then have "\<forall>x \<in> set (Intervals_add rs n). Maxt r < Mint x"
      using Intervals_add_Mint [of _ rs n] Cons.prems(1) by fastforce
    moreover have "wf_intervals (Intervals_add rs n)" using Cons by (simp add: swallows_def)
    ultimately show ?thesis using after Cons.prems(1) by simp
  qed
qed

section \<open>Reading a tombstone file back\<close>

lemma sint_word_of_int: "in_i64 x \<Longrightarrow> sint (word_of_int x :: u64) = x"
proof -
  assume "in_i64 x"
  then have "signed_take_bit (LENGTH(64) - 1) x = x"
    by (intro signed_take_bit_int_eq_self) (simp_all add: in_i64_def)
  then show ?thesis by (simp only: sint_sbintrunc')
qed

interpretation stone: entry_codec putStone getStone "\<lambda>(ref, iv). in_i64 (Mint iv) \<and> in_i64 (Maxt iv)"
  by unfold_locales
    (auto simp: putStone_def getStone_def enc_defs codec_simps sint_word_of_int split: prod.splits)

lemma foldl_Intervals_add:
  "wf_intervals acc \<Longrightarrow> wf_intervals ivs \<Longrightarrow> list_all addable ivs \<Longrightarrow>
   \<forall>a \<in> set acc. \<forall>x \<in> set ivs. Mint a \<le> Mint x \<Longrightarrow>
   covered (foldl Intervals_add acc ivs) = covered acc \<union> covered ivs"
proof (induction ivs arbitrary: acc)
  case (Cons n ivs)
  have ns: "\<not> swallows n acc" using Cons.prems(4) by (force simp: swallows_def)
  have "Mint n \<le> Mint x" if "x \<in> set ivs" for x
    using Cons.prems(2) that by (force simp: wf_interval_def)
  then have "\<forall>a \<in> set (Intervals_add acc n). \<forall>x \<in> set ivs. Mint a \<le> Mint x"
    using Cons.prems(4) Intervals_add_Mint [of _ acc n] by fastforce
  with Cons ns Intervals_add_wf [of acc n] Intervals_add_covered [of acc n] show ?case by auto
qed simp

lemma addStones_group:
  "addStones (map (Pair ref) ivs) t ref' =
     (if ref' = ref \<and> ivs \<noteq> [] then Some (foldl Intervals_add (Tombstones_Get t ref) ivs) else t ref')"
  by (induction ivs arbitrary: t) (auto simp: addStones_def Tombstones_Get_def)

lemma Get_addStones_group:
  "Tombstones_Get (addStones (map (Pair k) ivs) t) ref =
     (if ref = k then foldl Intervals_add (Tombstones_Get t k) ivs else Tombstones_Get t ref)"
  unfolding Tombstones_Get_def addStones_group by (cases ivs) auto

lemma addStones_entries:
  "distinct (map fst es) \<Longrightarrow> \<forall>ref \<in> fst ` set es. t ref = None \<Longrightarrow>
   Tombstones_Get (addStones (stone_entries es) t) ref =
     (case map_of es ref of None \<Rightarrow> Tombstones_Get t ref | Some ivs \<Rightarrow> foldl Intervals_add [] ivs)"
proof (induction es arbitrary: t)
  case (Cons e es)
  obtain k ivs where e: "e = (k, ivs)" by (cases e)
  let ?t = "addStones (map (Pair k) ivs) t"
  have "addStones (stone_entries (e # es)) t = addStones (stone_entries es) ?t"
    by (simp add: stone_entries_def addStones_def e)
  moreover have "\<forall>ref \<in> fst ` set es. ?t ref = None"
    using Cons.prems by (auto simp: e addStones_group)
  moreover have "k \<notin> fst ` set es" using Cons.prems(1) by (simp add: e)
  then have "map_of es k = None" by (simp add: map_of_eq_None_iff)
  moreover have "Tombstones_Get t k = []" using Cons.prems(2) by (simp add: e Tombstones_Get_def)
  moreover have "distinct (map fst es)" using Cons.prems(1) by simp
  ultimately show ?case
    using Cons.IH [of ?t] by (cases "ref = k") (simp_all add: e Get_addStones_group split: option.splits)
qed (simp add: stone_entries_def addStones_def)

lemma readTombstones_write:
  assumes "\<forall>(ref, ivs) \<in> set es. \<forall>iv \<in> set ivs. in_i64 (Mint iv) \<and> in_i64 (Maxt iv)"
  shows "readTombstones (Some (writeTombstoneFile es)) = Ok (addStones (stone_entries es) NewMemTombstones)"
proof -
  let ?body = "concat (map putStone (stone_entries es))"
  have ok: "\<forall>x \<in> set (stone_entries es). case x of (ref, iv) \<Rightarrow> in_i64 (Mint iv) \<and> in_i64 (Maxt iv)"
    using assms by (auto simp: stone_entries_def)
  have f: "writeTombstoneFile es = (PutUint32 MagicTombstone @ tombstoneFormatV1 # ?body) @ PutUint32 (crc32_checksum ?body)"
    by (simp add: writeTombstoneFile_def Let_def enc_defs)
  have sum: "Uint32 (PutUint32 (crc32_checksum ?body)) = Ok (crc32_checksum ?body)"
    using Uint32_PutUint32 [of "crc32_checksum ?body" "[]"] by simp
  show ?thesis
    unfolding readTombstones_def f
    by (simp add: codec_simps stone.decodeAll_put [OF ok] sum)
qed

section \<open>Properties\<close>

text \<open>
  C29. Adding an interval to a well-formed list covers exactly the old timestamps and those of the
  new interval, for every way the two can overlap; and the list stays increasing and
  non-overlapping unless the new interval swallows an old one that it does not merge with.
\<close>

theorem Intervals_add_correct:
  assumes "wf_intervals itvs" and "addable n"
  shows "covered (Intervals_add itvs n) = covered itvs \<union> {Mint n..Maxt n}
    \<and> (\<not> swallows n itvs \<longrightarrow> wf_intervals (Intervals_add itvs n))"
  using Intervals_add_covered [OF assms] Intervals_add_wf [OF assms] by blast

theorem Intervals_add_correct_witness:
  "wf_intervals [\<lparr>Mint = 1, Maxt = 3\<rparr>, \<lparr>Mint = 7, Maxt = 9\<rparr>] \<and> addable \<lparr>Mint = 4, Maxt = 7\<rparr> \<and>
   covered (Intervals_add [\<lparr>Mint = 1, Maxt = 3\<rparr>, \<lparr>Mint = 7, Maxt = 9\<rparr>] \<lparr>Mint = 4, Maxt = 7\<rparr>)
     = covered [\<lparr>Mint = 1, Maxt = 3\<rparr>, \<lparr>Mint = 7, Maxt = 9\<rparr>] \<union> {4..7}"
proof -
  have h: "wf_intervals [\<lparr>Mint = 1, Maxt = 3\<rparr>, \<lparr>Mint = 7, Maxt = 9\<rparr>]" "addable \<lparr>Mint = 4, Maxt = 7\<rparr>"
    by (simp_all add: wf_interval_def addable_def in_i64_def)
  show ?thesis using h Intervals_add_correct [OF h] by simp
qed


text \<open>
  C28. Round trip of the tombstone file: reading the bytes written for an enumeration of the
  tombstones succeeds (magic number, version and checksum match), and gives for every series the
  same deleted timestamps, whatever the enumeration order. Touching intervals may come back
  merged, so the statement is about what is covered.
\<close>

theorem tombstone_file_round_trip:
  assumes "enumerates es t" and "\<forall>ref ivs. t ref = Some ivs \<longrightarrow> wf_intervals ivs \<and> list_all addable ivs"
  shows "\<exists>t'. readTombstones (Some (writeTombstoneFile es)) = Ok t'
    \<and> (\<forall>ref. covered (Tombstones_Get t' ref) = covered (Tombstones_Get t ref))"
proof -
  have es: "distinct (map fst es)" "map_of es = t" using assms(1) by (simp_all add: enumerates_def)
  have "t ref = Some ivs" if "(ref, ivs) \<in> set es" for ref ivs using es that by (auto intro: map_of_is_SomeI)
  with assms(2) have "\<forall>(ref, ivs) \<in> set es. \<forall>iv \<in> set ivs. in_i64 (Mint iv) \<and> in_i64 (Maxt iv)"
    by (fastforce simp: wf_intervals_def wf_interval_def list_all_iff)
  moreover have "covered (Tombstones_Get (addStones (stone_entries es) NewMemTombstones) ref) = covered (Tombstones_Get t ref)" for ref
    using addStones_entries [OF es(1), of NewMemTombstones ref] assms(2) foldl_Intervals_add [of "[]"] es(2)
    by (auto simp: NewMemTombstones_def Tombstones_Get_def split: option.splits)
  ultimately show ?thesis using readTombstones_write by blast
qed

theorem tombstone_file_round_trip_witness:
  "\<exists>t'. readTombstones (Some (writeTombstoneFile [(7, [\<lparr>Mint = 1, Maxt = 3\<rparr>, \<lparr>Mint = 7, Maxt = 9\<rparr>])])) = Ok t'
    \<and> covered (Tombstones_Get t' 7) = {1..3} \<union> {7..9}"
proof -
  let ?es = "[(7, [\<lparr>Mint = 1, Maxt = 3\<rparr>, \<lparr>Mint = 7, Maxt = 9\<rparr>])] :: (u64 \<times> Intervals) list"
  have "enumerates ?es (map_of ?es)" by (simp add: enumerates_def)
  moreover have "\<forall>ref ivs. map_of ?es ref = Some ivs \<longrightarrow> wf_intervals ivs \<and> list_all addable ivs"
    by (simp add: wf_interval_def addable_def in_i64_def)
  ultimately obtain t' where "readTombstones (Some (writeTombstoneFile ?es)) = Ok t'"
    "\<forall>ref. covered (Tombstones_Get t' ref) = covered (Tombstones_Get (map_of ?es) ref)"
    using tombstone_file_round_trip by blast
  then show ?thesis by (auto simp: Tombstones_Get_def)
qed

end
