(* ===== verification/Wal_Record.thy ===== *)
theory Wal_Record
  imports Tombstones
begin

text \<open>
  The records of the write-ahead log: \<^verbatim>\<open>record.go\<close>, with the entry types \<^verbatim>\<open>RefSeries\<close>
  and \<^verbatim>\<open>RefSample\<close> of \<^verbatim>\<open>wal.go\<close>. A record is a type byte followed by encoded entries.
\<close>

section \<open>Record types and entries\<close>

datatype RecordType = RecordInvalid | RecordSeries | RecordSamples | RecordTombstones

fun RecordType_byte :: "RecordType \<Rightarrow> u8" where
  "RecordType_byte RecordInvalid = 255"
| "RecordType_byte RecordSeries = 1"
| "RecordType_byte RecordSamples = 2"
| "RecordType_byte RecordTombstones = 3"

record RefSeries =
  series_Ref :: u64
  series_Labels :: Labels

record RefSample =
  Ref :: u64
  T :: int
  V :: f64

definition Decoder_Type :: "u8 list \<Rightarrow> RecordType" where
  "Decoder_Type rec =
     (case rec of
        [] \<Rightarrow> RecordInvalid
      | t # _ \<Rightarrow>
          if t = 1 then RecordSeries else if t = 2 then RecordSamples
          else if t = 3 then RecordTombstones else RecordInvalid)"

section \<open>Encoding\<close>

fun putLabels :: "Labels \<Rightarrow> encbuf \<Rightarrow> encbuf" where
  "putLabels [] buf = buf"
| "putLabels (l # ls) buf = putLabels ls (putUvarintStr (Value l) (putUvarintStr (Name l) buf))"

definition putSeries :: "RefSeries \<Rightarrow> encbuf \<Rightarrow> encbuf" where
  "putSeries s buf =
     putLabels (series_Labels s) (putUvarint (int (length (series_Labels s))) (putBE64 (series_Ref s) buf))"

definition Encoder_Series :: "RefSeries list \<Rightarrow> u8 list \<Rightarrow> u8 list" where
  "Encoder_Series series b = enc_get (fold putSeries series (putByte (RecordType_byte RecordSeries) b))"

text \<open>Reference and timestamp are stored as differences to the first sample; both wrap.\<close>

definition putSample :: "RefSample \<Rightarrow> RefSample \<Rightarrow> encbuf \<Rightarrow> encbuf" where
  "putSample first s buf =
     putBE64 (V s)
       (putVarint64 (word_of_int (i64 (T s - T first))) (putVarint64 (Ref s - Ref first) buf))"

definition Encoder_Samples :: "RefSample list \<Rightarrow> u8 list \<Rightarrow> u8 list" where
  "Encoder_Samples samples b =
     (let buf = putByte (RecordType_byte RecordSamples) b in
      case samples of
        [] \<Rightarrow> enc_get buf
      | first # _ \<Rightarrow>
          enc_get (fold (putSample first) samples (putBE64int64 (word_of_int (T first)) (putBE64 (Ref first) buf))))"

definition putTombstone :: "u64 \<times> Interval \<Rightarrow> encbuf \<Rightarrow> encbuf" where
  "putTombstone = (\<lambda>(ref, iv) buf.
     putVarint64 (word_of_int (Maxt iv)) (putVarint64 (word_of_int (Mint iv)) (putBE64 ref buf)))"

definition Encoder_Tombstones :: "Stone list \<Rightarrow> u8 list \<Rightarrow> u8 list" where
  "Encoder_Tombstones tstones b =
     enc_get (fold (\<lambda>s. fold (\<lambda>iv. putTombstone (stone_ref s, iv)) (intervals s)) tstones
       (putByte (RecordType_byte RecordTombstones) b))"

section \<open>Decoding\<close>

text \<open>
  \<open>make(labels.Labels, n)\<close> panics for a negative \<open>n\<close>; how much memory there is for a large one
  is not modelled.
\<close>

fun getLabels :: "nat \<Rightarrow> decbuf \<Rightarrow> (Labels \<times> decbuf) outcome" where
  "getLabels 0 d = Ok ([], d)"
| "getLabels (Suc n) d =
     bind_outcome (dec_uvarintStr d) (\<lambda>(name, d).
     bind_outcome (dec_uvarintStr d) (\<lambda>(value, d).
     bind_outcome (getLabels n d) (\<lambda>(ls, d). Ok (\<lparr>Name = name, Value = value\<rparr> # ls, d))))"

definition getSeries :: "decbuf \<Rightarrow> (RefSeries \<times> decbuf) outcome" where
  "getSeries d =
     bind_outcome (dec_be64 d) (\<lambda>(ref, d).
     bind_outcome (dec_uvarint d) (\<lambda>(n, d).
     if n < 0 then Panic
     else
       bind_outcome (getLabels (nat n) d) (\<lambda>(lset, d).
         Ok (\<lparr>series_Ref = ref, series_Labels = Labels_Sort lset\<rparr>, d))))"

definition getSample :: "u64 \<Rightarrow> int \<Rightarrow> decbuf \<Rightarrow> (RefSample \<times> decbuf) outcome" where
  "getSample baseRef baseTime d =
     bind_outcome (dec_varint64 d) (\<lambda>(dref, d).
     bind_outcome (dec_varint64 d) (\<lambda>(dtime, d).
     bind_outcome (dec_be64 d) (\<lambda>(val, d).
       Ok (\<lparr>Ref = baseRef + dref, T = i64 (baseTime + sint dtime), V = val\<rparr>, d))))"

definition getTombstone :: "decbuf \<Rightarrow> ((u64 \<times> Interval) \<times> decbuf) outcome" where
  "getTombstone d =
     bind_outcome (dec_be64 d) (\<lambda>(ref, d).
     bind_outcome (dec_varint64 d) (\<lambda>(mint, d).
     bind_outcome (dec_varint64 d) (\<lambda>(maxt, d).
       Ok ((ref, \<lparr>Mint = sint mint, Maxt = sint maxt\<rparr>), d))))"

text \<open>The checks after each loop: an error of the decoder, or bytes that are left.\<close>

definition finish_decode :: "'a list \<Rightarrow> decbuf \<Rightarrow> 'a list outcome" where
  "finish_decode xs d =
     (case dec_err d of
        Some e \<Rightarrow> Fail e
      | None \<Rightarrow> if dec_len d > 0 then Fail (ErrMsg ''unexpected bytes left in entry'') else Ok xs)"

definition Decoder_Series :: "u8 list \<Rightarrow> RefSeries list \<Rightarrow> RefSeries list outcome" where
  "Decoder_Series rec series =
     bind_outcome (dec_byte (mk_decbuf rec)) (\<lambda>(t, d).
       if t \<noteq> RecordType_byte RecordSeries then Fail (ErrMsg ''invalid record type'')
       else bind_outcome (decodeAll getSeries d) (\<lambda>(xs, d). finish_decode (series @ xs) d))"

definition Decoder_Samples :: "u8 list \<Rightarrow> RefSample list \<Rightarrow> RefSample list outcome" where
  "Decoder_Samples rec samples =
     bind_outcome (dec_byte (mk_decbuf rec)) (\<lambda>(t, d).
       if t \<noteq> RecordType_byte RecordSamples then Fail (ErrMsg ''invalid record type'')
       else if dec_len d = 0 then Ok samples
       else
         bind_outcome (dec_be64 d) (\<lambda>(baseRef, d).
         bind_outcome (dec_be64int64 d) (\<lambda>(baseTime, d).
         bind_outcome (decodeAll (getSample baseRef (sint baseTime)) d) (\<lambda>(xs, d).
           finish_decode (samples @ xs) d))))"

definition Decoder_Tombstones :: "u8 list \<Rightarrow> Stone list \<Rightarrow> Stone list outcome" where
  "Decoder_Tombstones rec tstones =
     bind_outcome (dec_byte (mk_decbuf rec)) (\<lambda>(t, d).
       if t \<noteq> RecordType_byte RecordTombstones then Fail (ErrMsg ''invalid record type'')
       else bind_outcome (decodeAll getTombstone d) (\<lambda>(xs, d).
         finish_decode (tstones @ map (\<lambda>(ref, iv). \<lparr>stone_ref = ref, intervals = [iv]\<rparr>) xs) d))"

section \<open>Codecs of the entries\<close>

lemma fold_append:
  "(\<And>x b. f x b = b @ g x) \<Longrightarrow> fold f xs b = b @ concat (map g xs)"
  by (induction xs arbitrary: b) auto

definition label_bytes :: "Label \<Rightarrow> u8 list" where
  "label_bytes l = PutUvarint (word_of_nat (length (Name l))) @ Name l
     @ PutUvarint (word_of_nat (length (Value l))) @ Value l"

definition series_bytes :: "RefSeries \<Rightarrow> u8 list" where
  "series_bytes s = PutUint64 (series_Ref s) @ PutUvarint (word_of_nat (length (series_Labels s)))
     @ concat (map label_bytes (series_Labels s))"

definition sample_bytes :: "RefSample \<Rightarrow> RefSample \<Rightarrow> u8 list" where
  "sample_bytes first s = PutVarint (Ref s - Ref first)
     @ PutVarint (word_of_int (i64 (T s - T first))) @ PutUint64 (V s)"

definition tombstone_bytes :: "u64 \<times> Interval \<Rightarrow> u8 list" where
  "tombstone_bytes = (\<lambda>(ref, iv). PutUint64 ref @ PutVarint (word_of_int (Mint iv)) @ PutVarint (word_of_int (Maxt iv)))"

text \<open>A series whose labels are sorted by distinct names and whose strings have Go lengths.\<close>

definition go_len :: "'a list \<Rightarrow> bool" where
  "go_len xs \<longleftrightarrow> length xs < 2 ^ 63"

definition series_ok :: "RefSeries \<Rightarrow> bool" where
  "series_ok s \<longleftrightarrow> wf_labels (series_Labels s) \<and> go_len (series_Labels s)
     \<and> (\<forall>l \<in> set (series_Labels s). go_len (Name l) \<and> go_len (Value l))"

lemma putLabels_bytes: "putLabels ls buf = buf @ concat (map label_bytes ls)"
  by (induction ls arbitrary: buf) (simp_all add: enc_defs label_bytes_def)

lemma putSeries_bytes: "putSeries s buf = buf @ series_bytes s"
  by (simp add: putSeries_def putLabels_bytes enc_defs series_bytes_def)

lemma putSample_bytes: "putSample first s buf = buf @ sample_bytes first s"
  by (simp add: putSample_def enc_defs sample_bytes_def)

lemma putTombstone_bytes: "putTombstone e buf = buf @ tombstone_bytes e"
  by (cases e) (simp add: putTombstone_def enc_defs tombstone_bytes_def)

lemma getLabels_bytes:
  "\<forall>l \<in> set ls. go_len (Name l) \<and> go_len (Value l) \<Longrightarrow>
   getLabels (length ls) (mk_decbuf (concat (map label_bytes ls) @ bs)) = Ok (ls, mk_decbuf bs)"
  by (induction ls) (simp_all add: label_bytes_def codec_simps go_len_def)

interpretation series: entry_codec series_bytes getSeries series_ok
proof unfold_locales
  fix s bs assume s: "series_ok s"
  then have "sint (word_of_nat (length (series_Labels s)) :: u64) = int (length (series_Labels s))"
    by (intro sint_of_nat_small) (simp add: series_ok_def go_len_def)
  with s show "getSeries (mk_decbuf (series_bytes s @ bs)) = Ok (s, mk_decbuf bs)"
    by (simp add: getSeries_def series_bytes_def codec_simps dec_uvarint_def getLabels_bytes
        Labels_Sort_id series_ok_def)
qed (simp add: series_bytes_def PutUint64_def be_bytes_def)

lemma i64_diff_add: "in_i64 a \<Longrightarrow> i64 (b + i64 (a - b)) = a"
proof -
  assume a: "in_i64 a"
  have "(b + ((a - b + 2 ^ 63) mod 2 ^ 64 - 2 ^ 63) + 2 ^ 63) mod 2 ^ 64 = (a + 2 ^ 63) mod (2 ^ 64 :: int)"
    by (simp add: mod_simps algebra_simps)
  then have "i64 (b + i64 (a - b)) = i64 a" by (simp only: i64_def)
  with a show ?thesis by simp
qed

interpretation sample: entry_codec "sample_bytes first" "getSample (Ref first) (T first)" "\<lambda>s. in_i64 (T s)" for first
  by unfold_locales (simp_all add: getSample_def sample_bytes_def codec_simps sint_word_of_int i64_diff_add)

interpretation tombstone: entry_codec tombstone_bytes getTombstone "\<lambda>(ref, iv). in_i64 (Mint iv) \<and> in_i64 (Maxt iv)"
  by unfold_locales (auto simp: tombstone_bytes_def getTombstone_def codec_simps sint_word_of_int split: prod.splits)

section \<open>Properties\<close>

lemma samples_record_decodes:
  assumes "\<forall>s \<in> set samples. in_i64 (T s)"
  shows "Decoder_Samples (Encoder_Samples samples []) acc = Ok (acc @ samples)"
proof (cases samples)
  case Nil
  then show ?thesis by (simp add: Decoder_Samples_def Encoder_Samples_def enc_defs codec_simps dec_len_def)
next
  case (Cons first rest)
  have "Encoder_Samples samples [] = 2 # PutUint64 (Ref first) @ PutUint64 (word_of_int (T first))
      @ concat (map (sample_bytes first) samples)"
    using fold_append [of "putSample first" "sample_bytes first"]
    by (simp add: Encoder_Samples_def Cons enc_defs putSample_bytes Let_def)
  moreover have "sint (word_of_int (T first) :: u64) = T first"
    using assms Cons by (simp add: sint_word_of_int)
  ultimately show ?thesis
    using sample.decodeAll_put [of samples first] assms
    by (simp add: Decoder_Samples_def codec_simps dec_len_def dec_be64int64_def finish_decode_def dec_err_def)
qed

lemma series_record_decodes:
  assumes "\<forall>s \<in> set series. series_ok s"
  shows "Decoder_Series (Encoder_Series series []) acc = Ok (acc @ series)"
  using series.decodeAll_put [OF assms] fold_append [of putSeries series_bytes series]
  by (simp add: Decoder_Series_def Encoder_Series_def enc_defs putSeries_bytes codec_simps
      finish_decode_def dec_err_def dec_len_def)

lemma stones_record_decodes:
  assumes "\<forall>s \<in> set stones. \<forall>iv \<in> set (intervals s). in_i64 (Mint iv) \<and> in_i64 (Maxt iv)"
  shows "Decoder_Tombstones (Encoder_Tombstones stones []) acc =
    Ok (acc @ concat (map (\<lambda>s. map (\<lambda>iv. \<lparr>stone_ref = stone_ref s, intervals = [iv]\<rparr>) (intervals s)) stones))"
proof -
  let ?es = "concat (map (\<lambda>s. map (Pair (stone_ref s)) (intervals s)) stones)"
  have "fold (\<lambda>iv. putTombstone (stone_ref s, iv)) (intervals s) b
      = b @ concat (map tombstone_bytes (map (Pair (stone_ref s)) (intervals s)))" for s b
    using fold_append [of "\<lambda>iv. putTombstone (stone_ref s, iv)" "\<lambda>iv. tombstone_bytes (stone_ref s, iv)"]
    by (simp add: putTombstone_bytes comp_def)
  note fold_append [of "\<lambda>s. fold (\<lambda>iv. putTombstone (stone_ref s, iv)) (intervals s)", OF this, of stones "[3]"]
  then have "Encoder_Tombstones stones [] = 3 # concat (map tombstone_bytes ?es)"
    by (simp add: Encoder_Tombstones_def enc_defs concat_map_concat_map)
  moreover have "\<forall>e \<in> set ?es. case e of (ref, iv) \<Rightarrow> in_i64 (Mint iv) \<and> in_i64 (Maxt iv)"
    using assms by auto
  note tombstone.decodeAll_put [OF this]
  ultimately show ?thesis
    by (simp add: Decoder_Tombstones_def codec_simps finish_decode_def dec_err_def dec_len_def map_concat comp_def)
qed

text \<open>
  C27. Round trip of the records: decoding gives back, appended to the caller's slice, the samples of
  a samples record, for any references, values and \<^verbatim>\<open>int64\<close> timestamps (the differences to the first
  sample may wrap in both directions), the series of a series record, when their labels are sorted by
  distinct names, as \<^verbatim>\<open>labels.New\<close> makes them, and one stone for every interval of a tombstones record.
\<close>

theorem records_round_trip:
  assumes "\<forall>s \<in> set samples. in_i64 (T s)" "\<forall>s \<in> set series. series_ok s"
    "\<forall>s \<in> set stones. \<forall>iv \<in> set (intervals s). in_i64 (Mint iv) \<and> in_i64 (Maxt iv)"
  shows "Decoder_Samples (Encoder_Samples samples []) acc = Ok (acc @ samples)
    \<and> Decoder_Series (Encoder_Series series []) acc' = Ok (acc' @ series)
    \<and> Decoder_Tombstones (Encoder_Tombstones stones []) acc'' =
        Ok (acc'' @ concat (map (\<lambda>s. map (\<lambda>iv. \<lparr>stone_ref = stone_ref s, intervals = [iv]\<rparr>) (intervals s)) stones))"
  using assms samples_record_decodes series_record_decodes stones_record_decodes by simp

theorem records_round_trip_witness:
  "Decoder_Samples (Encoder_Samples [\<lparr>Ref = 3, T = -5, V = 1\<rparr>, \<lparr>Ref = 1, T = 9223372036854775807, V = 2\<rparr>] []) []
     = Ok [\<lparr>Ref = 3, T = -5, V = 1\<rparr>, \<lparr>Ref = 1, T = 9223372036854775807, V = 2\<rparr>]
   \<and> Decoder_Series (Encoder_Series
     [\<lparr>series_Ref = 5, series_Labels = [\<lparr>Name = [97], Value = [120, 121]\<rparr>, \<lparr>Name = [98], Value = []\<rparr>]\<rparr>] []) []
     = Ok [\<lparr>series_Ref = 5, series_Labels = [\<lparr>Name = [97], Value = [120, 121]\<rparr>, \<lparr>Name = [98], Value = []\<rparr>]\<rparr>]
   \<and> Decoder_Tombstones (Encoder_Tombstones [\<lparr>stone_ref = 4, intervals = [\<lparr>Mint = 1, Maxt = 2\<rparr>, \<lparr>Mint = -9, Maxt = 0\<rparr>]\<rparr>] []) []
     = Ok [\<lparr>stone_ref = 4, intervals = [\<lparr>Mint = 1, Maxt = 2\<rparr>]\<rparr>, \<lparr>stone_ref = 4, intervals = [\<lparr>Mint = -9, Maxt = 0\<rparr>]\<rparr>]"
proof -
  let ?samples = "[\<lparr>Ref = 3, T = -5, V = 1\<rparr>, \<lparr>Ref = 1, T = 9223372036854775807, V = 2\<rparr>]"
  let ?series = "[\<lparr>series_Ref = 5, series_Labels = [\<lparr>Name = [97], Value = [120, 121]\<rparr>, \<lparr>Name = [98], Value = []\<rparr>]\<rparr>]"
  let ?stones = "[\<lparr>stone_ref = 4, intervals = [\<lparr>Mint = 1, Maxt = 2\<rparr>, \<lparr>Mint = -9, Maxt = 0\<rparr>]\<rparr>]"
  have h: "\<forall>s \<in> set ?samples. in_i64 (T s)" "\<forall>s \<in> set ?series. series_ok s"
    "\<forall>s \<in> set ?stones. \<forall>iv \<in> set (intervals s). in_i64 (Mint iv) \<and> in_i64 (Maxt iv)"
    by (simp_all add: in_i64_def series_ok_def wf_labels_def Labels_Less_def go_len_def)
  have "Decoder_Tombstones (Encoder_Tombstones ?stones []) [] =
      Ok (concat (map (\<lambda>s. map (\<lambda>iv. \<lparr>stone_ref = stone_ref s, intervals = [iv]\<rparr>) (intervals s)) ?stones))"
    "Decoder_Samples (Encoder_Samples ?samples []) [] = Ok ?samples" "Decoder_Series (Encoder_Series ?series []) [] = Ok ?series"
    using records_round_trip [OF h, of "[]" "[]" "[]"] by (simp_all only: append_Nil)
  then show ?thesis by simp
qed



end
