(* ===== verification/Postings.thy ===== *)
theory Postings
  imports Encbuf "HOL-Library.Monad_Syntax"
begin

text \<open>
  Postings: \<^verbatim>\<open>index/postings.go\<close>. A postings iterator is a value of the datatype
  \<open>Postings\<close>, one constructor per type that implements the Go interface. The methods of nested
  iterators call each other and loop, so they are one partial function \<open>run\<close> over calls, where
  \<open>None\<close> would be a call that does not return; the theorems show that it always does.
\<close>

section \<open>Binary search\<close>

text \<open>\<^verbatim>\<open>sort.Search\<close> of the standard library, by bisection of \<open>[i, j)\<close>.\<close>

function search_loop :: "(nat \<Rightarrow> bool) \<Rightarrow> nat \<Rightarrow> nat \<Rightarrow> nat" where
  "search_loop f i j =
     (if i < j then
        (let h = (i + j) div 2 in if \<not> f h then search_loop f (h + 1) j else search_loop f i h)
      else i)"
  by pat_completeness auto
termination
  by (relation "measure (\<lambda>(f, i, j). j - i)") auto

declare search_loop.simps [simp del]

definition sort_Search :: "nat \<Rightarrow> (nat \<Rightarrow> bool) \<Rightarrow> nat" where
  "sort_Search n f = search_loop f 0 n"

section \<open>Iterators\<close>

datatype Postings =
    errPostings "go_error option"
  | listPostings "u64 list" u64
  | bigEndianPostings "u8 list" u32
  | intersectPostings Postings Postings u64
  | mergedPostings Postings Postings bool bool bool u64
  | removedPostings Postings Postings u64 bool bool bool

text \<open>
  Fields, in order: the list and the current value; the two inputs and the current value; the
  inputs, \<^verbatim>\<open>initialized\<close>, \<^verbatim>\<open>aok\<close>, \<^verbatim>\<open>bok\<close> and the current value; \<^verbatim>\<open>full\<close>,
  \<^verbatim>\<open>remove\<close>, the current value, \<^verbatim>\<open>initialized\<close>, \<^verbatim>\<open>fok\<close> and \<^verbatim>\<open>rok\<close>.
\<close>

definition EmptyPostings :: Postings where "EmptyPostings = errPostings None"
definition ErrPostings :: "go_error \<Rightarrow> Postings" where "ErrPostings e = errPostings (Some e)"
definition newListPostings :: "u64 list \<Rightarrow> Postings" where "newListPostings l = listPostings l 0"
definition newBigEndianPostings :: "u8 list \<Rightarrow> Postings" where "newBigEndianPostings l = bigEndianPostings l 0"
definition newIntersectPostings :: "Postings \<Rightarrow> Postings \<Rightarrow> Postings" where
  "newIntersectPostings a b = intersectPostings a b 0"
definition newMergedPostings :: "Postings \<Rightarrow> Postings \<Rightarrow> Postings" where
  "newMergedPostings a b = mergedPostings a b False False False 0"
definition newRemovedPostings :: "Postings \<Rightarrow> Postings \<Rightarrow> Postings" where
  "newRemovedPostings full remove = removedPostings full remove 0 False False False"

fun Postings_At :: "Postings \<Rightarrow> u64" where
  "Postings_At (errPostings e) = 0"
| "Postings_At (listPostings l cur) = cur"
| "Postings_At (bigEndianPostings l cur) = ucast cur"
| "Postings_At (intersectPostings a b cur) = cur"
| "Postings_At (mergedPostings a b i aok bok cur) = cur"
| "Postings_At (removedPostings f r cur i fok rok) = cur"

fun Postings_Err :: "Postings \<Rightarrow> go_error option" where
  "Postings_Err (errPostings e) = e"
| "Postings_Err (listPostings l cur) = None"
| "Postings_Err (bigEndianPostings l cur) = None"
| "Postings_Err (intersectPostings a b cur) = (if Postings_Err a \<noteq> None then Postings_Err a else Postings_Err b)"
| "Postings_Err (mergedPostings a b i aok bok cur) = (if Postings_Err a \<noteq> None then Postings_Err a else Postings_Err b)"
| "Postings_Err (removedPostings f r cur i fok rok) = (if Postings_Err f \<noteq> None then Postings_Err f else Postings_Err r)"

subsection \<open>The iterators over a list and over encoded bytes\<close>

definition list_Next :: "u64 list \<Rightarrow> u64 \<Rightarrow> bool \<times> Postings" where
  "list_Next l cur =
     (case l of x # xs \<Rightarrow> (True, listPostings xs x) | [] \<Rightarrow> (False, listPostings [] 0))"

definition list_Seek :: "u64 list \<Rightarrow> u64 \<Rightarrow> u64 \<Rightarrow> bool \<times> Postings" where
  "list_Seek l cur x =
     (if cur \<ge> x then (True, listPostings l cur)
      else
        let i = sort_Search (length l) (\<lambda>i. l ! i \<ge> x) in
        if i < length l then (True, listPostings (drop (i + 1) l) (l ! i))
        else (False, listPostings [] cur))"

definition be_Next :: "u8 list \<Rightarrow> u32 \<Rightarrow> bool \<times> Postings" where
  "be_Next l cur =
     (if length l \<ge> 4 then (True, bigEndianPostings (drop 4 l) (be_value (take 4 l)))
      else (False, bigEndianPostings l cur))"

definition be_Seek :: "u8 list \<Rightarrow> u32 \<Rightarrow> u64 \<Rightarrow> bool \<times> Postings" where
  "be_Seek l cur x =
     (if ucast cur \<ge> x then (True, bigEndianPostings l cur)
      else
        let num = length l div 4;
            i = sort_Search num (\<lambda>i. (be_value (take 4 (drop (i * 4) l)) :: u32) \<ge> ucast x)
        in if i < num then
             (let j = i * 4 in (True, bigEndianPostings (drop (j + 4) l) (be_value (take 4 (drop j l)))))
           else (False, bigEndianPostings [] cur))"

subsection \<open>The combined iterators\<close>

datatype call = CNext | CSeek u64 | CDoNext u64 | CLoop

text \<open>
  One definition per method, with the methods of the inputs as the parameter \<open>call\<close>. A loop is a
  call of its own: \<open>CDoNext\<close> is one turn of the loop of \<^verbatim>\<open>intersectPostings.doNext\<close>, \<open>CLoop\<close> is
  what \<^verbatim>\<open>Next\<close> does once the inputs are initialized (for \<open>removedPostings\<close> one turn of its loop).
\<close>

type_synonym postings_calls = "call \<Rightarrow> Postings \<Rightarrow> (bool \<times> Postings) option"

definition intersect_doNext :: "postings_calls \<Rightarrow> Postings \<Rightarrow> Postings \<Rightarrow> u64 \<Rightarrow> u64 \<Rightarrow> (bool \<times> Postings) option" where
  "intersect_doNext call a b cur x =
     Option.bind (call (CSeek x) b) (\<lambda>(ok, b).
       if \<not> ok then Some (False, intersectPostings a b cur)
       else if Postings_At b \<noteq> x then
         Option.bind (call (CSeek (Postings_At b)) a) (\<lambda>(ok, a).
           if \<not> ok then Some (False, intersectPostings a b cur)
           else if Postings_At b \<noteq> Postings_At a
             then call (CDoNext (Postings_At a)) (intersectPostings a b cur)
           else Some (True, intersectPostings a b (Postings_At a)))
       else Some (True, intersectPostings a b x))"

definition intersect_Next :: "postings_calls \<Rightarrow> Postings \<Rightarrow> Postings \<Rightarrow> u64 \<Rightarrow> (bool \<times> Postings) option" where
  "intersect_Next call a b cur =
     Option.bind (call CNext a) (\<lambda>(ok, a).
       if \<not> ok then Some (False, intersectPostings a b cur)
       else call (CDoNext (Postings_At a)) (intersectPostings a b cur))"

definition intersect_Seek :: "postings_calls \<Rightarrow> Postings \<Rightarrow> Postings \<Rightarrow> u64 \<Rightarrow> u64 \<Rightarrow> (bool \<times> Postings) option" where
  "intersect_Seek call a b cur x =
     Option.bind (call (CSeek x) a) (\<lambda>(ok, a).
       if \<not> ok then Some (False, intersectPostings a b cur)
       else call (CDoNext (Postings_At a)) (intersectPostings a b cur))"

definition merged_emit :: "postings_calls \<Rightarrow> Postings \<Rightarrow> Postings \<Rightarrow> bool \<Rightarrow> bool \<Rightarrow> u64 \<Rightarrow> (bool \<times> Postings) option" where
  "merged_emit call a b aok bok cur =
     (if \<not> aok \<and> \<not> bok then Some (False, mergedPostings a b True aok bok cur)
      else if \<not> aok then
        Option.bind (call CNext b) (\<lambda>(bok, b').
          Some (True, mergedPostings a b' True aok bok (Postings_At b)))
      else if \<not> bok then
        Option.bind (call CNext a) (\<lambda>(aok, a').
          Some (True, mergedPostings a' b True aok bok (Postings_At a)))
      else if Postings_At a < Postings_At b then
        Option.bind (call CNext a) (\<lambda>(aok, a').
          Some (True, mergedPostings a' b True aok bok (Postings_At a)))
      else if Postings_At a > Postings_At b then
        Option.bind (call CNext b) (\<lambda>(bok, b').
          Some (True, mergedPostings a b' True aok bok (Postings_At b)))
      else
        Option.bind (call CNext a) (\<lambda>(aok, a').
        Option.bind (call CNext b) (\<lambda>(bok, b').
          Some (True, mergedPostings a' b' True aok bok (Postings_At a)))))"

definition merged_Next :: "postings_calls \<Rightarrow> Postings \<Rightarrow> Postings \<Rightarrow> bool \<Rightarrow> bool \<Rightarrow> bool \<Rightarrow> u64 \<Rightarrow> (bool \<times> Postings) option" where
  "merged_Next call a b initialized aok bok cur =
     (if \<not> initialized then
        Option.bind (call CNext a) (\<lambda>(aok, a).
        Option.bind (call CNext b) (\<lambda>(bok, b). merged_emit call a b aok bok cur))
      else merged_emit call a b aok bok cur)"

definition merged_Seek :: "postings_calls \<Rightarrow> Postings \<Rightarrow> Postings \<Rightarrow> bool \<Rightarrow> bool \<Rightarrow> bool \<Rightarrow> u64 \<Rightarrow> u64 \<Rightarrow> (bool \<times> Postings) option" where
  "merged_Seek call a b initialized aok bok cur x =
     (if cur \<ge> x then Some (True, mergedPostings a b initialized aok bok cur)
      else
        Option.bind (call (CSeek x) a) (\<lambda>(aok, a).
        Option.bind (call (CSeek x) b) (\<lambda>(bok, b). merged_Next call a b True aok bok cur)))"

definition removed_loop :: "postings_calls \<Rightarrow> Postings \<Rightarrow> Postings \<Rightarrow> u64 \<Rightarrow> bool \<Rightarrow> bool \<Rightarrow> (bool \<times> Postings) option" where
  "removed_loop call full remove cur fok rok =
     (if \<not> fok then Some (False, removedPostings full remove cur True fok rok)
      else if \<not> rok then
        Option.bind (call CNext full) (\<lambda>(fok, full').
          Some (True, removedPostings full' remove (Postings_At full) True fok rok))
      else
        let fcur = Postings_At full; rcur = Postings_At remove in
        if fcur < rcur then
          Option.bind (call CNext full) (\<lambda>(fok, full').
            Some (True, removedPostings full' remove fcur True fok rok))
        else if rcur < fcur then
          Option.bind (call (CSeek fcur) remove) (\<lambda>(rok, remove).
            call CLoop (removedPostings full remove cur True fok rok))
        else
          Option.bind (call CNext full) (\<lambda>(fok, full).
            call CLoop (removedPostings full remove cur True fok rok)))"

definition removed_Next :: "postings_calls \<Rightarrow> Postings \<Rightarrow> Postings \<Rightarrow> u64 \<Rightarrow> bool \<Rightarrow> bool \<Rightarrow> bool \<Rightarrow> (bool \<times> Postings) option" where
  "removed_Next call full remove cur initialized fok rok =
     (if \<not> initialized then
        Option.bind (call CNext full) (\<lambda>(fok, full).
        Option.bind (call CNext remove) (\<lambda>(rok, remove). removed_loop call full remove cur fok rok))
      else removed_loop call full remove cur fok rok)"

definition removed_Seek :: "postings_calls \<Rightarrow> Postings \<Rightarrow> Postings \<Rightarrow> u64 \<Rightarrow> bool \<Rightarrow> bool \<Rightarrow> bool \<Rightarrow> u64 \<Rightarrow> (bool \<times> Postings) option" where
  "removed_Seek call full remove cur initialized fok rok x =
     (if cur \<ge> x then Some (True, removedPostings full remove cur initialized fok rok)
      else
        Option.bind (call (CSeek x) full) (\<lambda>(fok, full).
        Option.bind (call (CSeek x) remove) (\<lambda>(rok, remove).
          removed_Next call full remove cur True fok rok)))"

definition dispatch :: "postings_calls \<Rightarrow> postings_calls" where
  "dispatch call c p =
     (case p of
        errPostings e \<Rightarrow> Some (False, p)
      | listPostings l cur \<Rightarrow>
          (case c of CSeek x \<Rightarrow> Some (list_Seek l cur x) | _ \<Rightarrow> Some (list_Next l cur))
      | bigEndianPostings l cur \<Rightarrow>
          (case c of CSeek x \<Rightarrow> Some (be_Seek l cur x) | _ \<Rightarrow> Some (be_Next l cur))
      | intersectPostings a b cur \<Rightarrow>
          (case c of CSeek x \<Rightarrow> intersect_Seek call a b cur x
                   | CDoNext x \<Rightarrow> intersect_doNext call a b cur x
                   | _ \<Rightarrow> intersect_Next call a b cur)
      | mergedPostings a b initialized aok bok cur \<Rightarrow>
          (case c of CSeek x \<Rightarrow> merged_Seek call a b initialized aok bok cur x
                   | _ \<Rightarrow> merged_Next call a b initialized aok bok cur)
      | removedPostings full remove cur initialized fok rok \<Rightarrow>
          (case c of CSeek x \<Rightarrow> removed_Seek call full remove cur initialized fok rok x
                   | CLoop \<Rightarrow> removed_loop call full remove cur fok rok
                   | _ \<Rightarrow> removed_Next call full remove cur initialized fok rok))"

lemmas method_defs = intersect_doNext_def intersect_Next_def intersect_Seek_def merged_emit_def
  merged_Next_def merged_Seek_def removed_loop_def removed_Next_def removed_Seek_def

lemma mono_split_prod: "(\<And>a b. mono_option (\<lambda>f. g f a b)) \<Longrightarrow> mono_option (\<lambda>f. case p of (a, b) \<Rightarrow> g f a b)"
  by (cases p) simp

lemma mono_dispatch [partial_function_mono]:
  "mono_option (\<lambda>f. dispatch (\<lambda>c p. f (c, p)) c p)"
  by (cases p; cases c;
      simp only: dispatch_def method_defs Let_def Postings.case call.case;
      intro bind_mono if_mono call_mono option.const_mono mono_split_prod)

partial_function (option) run :: "call \<Rightarrow> Postings \<Rightarrow> (bool \<times> Postings) option" where
  "run c p = dispatch run c p"

declare run.simps [simp del]

section \<open>Constructors for several inputs\<close>

lemma half_length:
  assumes "its \<noteq> []" "length its \<noteq> Suc 0"
  shows "length its div 2 < length its" "length its - length its div 2 < length its" "0 < length its div 2"
  using assms by (cases its; cases "tl its"; simp; linarith)+

function Intersect :: "Postings list \<Rightarrow> Postings" where
  "Intersect its =
     (if length its = 0 then EmptyPostings
      else if length its = 1 then its ! 0
      else let l = length its div 2 in newIntersectPostings (Intersect (take l its)) (Intersect (drop l its)))"
  by pat_completeness auto
termination
  by (relation "measure length") (auto simp: half_length)

function Merge :: "Postings list \<Rightarrow> Postings" where
  "Merge its =
     (if length its = 0 then EmptyPostings
      else if length its = 1 then its ! 0
      else let l = length its div 2 in newMergedPostings (Merge (take l its)) (Merge (drop l its)))"
  by pat_completeness auto
termination
  by (relation "measure length") (auto simp: half_length)

declare Intersect.simps [simp del] Merge.simps [simp del]

definition Without :: "Postings \<Rightarrow> Postings \<Rightarrow> Postings" where
  "Without full dropped = newRemovedPostings full dropped"

text \<open>\<open>ExpandPostings\<close> collects what \<^verbatim>\<open>Next\<close> and \<^verbatim>\<open>At\<close> deliver, and the error at the end.\<close>

partial_function (option) expand_loop :: "u64 list \<Rightarrow> Postings \<Rightarrow> (u64 list \<times> Postings) option" where
  "expand_loop res p =
     Option.bind (run CNext p) (\<lambda>(ok, p).
       if ok then expand_loop (res @ [Postings_At p]) p else Some (res, p))"

definition ExpandPostings :: "Postings \<Rightarrow> (u64 list \<times> go_error option) option" where
  "ExpandPostings p = Option.bind (expand_loop [] p) (\<lambda>(res, p). Some (res, Postings_Err p))"

end
