(* ===== verification/Postings_Laws.thy ===== *)
theory Postings_Laws
  imports Postings
begin

text \<open>
  What the postings iterators of \<^verbatim>\<open>index/postings.go\<close> deliver. \<open>rem\<close> is the set of ids an
  iterator has still to deliver; the laws say that \<^verbatim>\<open>Next\<close> and \<^verbatim>\<open>Seek\<close> return, and move to the
  least remaining id (not below the sought one).
\<close>

section \<open>Binary search\<close>

lemma search_loop_spec:
  assumes "sorted_wrt (<) (l :: 'a :: linorder list)" "\<And>k. k < length l \<Longrightarrow> f k \<longleftrightarrow> x \<le> l ! k"
    and "i \<le> j" "j \<le> length l" "\<forall>k<i. l ! k < x" "\<forall>k. j \<le> k \<and> k < length l \<longrightarrow> x \<le> l ! k"
  shows "search_loop f i j \<le> length l \<and> (\<forall>k < search_loop f i j. l ! k < x) \<and>
    (\<forall>k. search_loop f i j \<le> k \<and> k < length l \<longrightarrow> x \<le> l ! k)"
  using assms
proof (induction f i j rule: search_loop.induct)
  case (1 f i j)
  show ?case
  proof (cases "i < j")
    case True
    define h where "h = (i + j) div 2"
    have h: "i \<le> h" "h < j" "h < length l" using True "1.prems"(4) by (auto simp: h_def)
    have mono: "l ! a \<le> l ! b" if "a \<le> b" "b < length l" for a b
      using that sorted_wrt_nth_less[OF "1.prems"(1), of a b] by (cases "a = b") auto
    show ?thesis
    proof (cases "f h")
      case f: True
      have "search_loop f i j = search_loop f i h"
        using True f by (subst search_loop.simps) (simp add: h_def Let_def)
      moreover have "\<forall>k. h \<le> k \<and> k < length l \<longrightarrow> x \<le> l ! k"
        using mono f "1.prems"(2)[OF h(3)] order_trans by blast
      moreover have "h \<le> length l" "\<not> \<not> f h" using h f by auto
      ultimately show ?thesis
        using "1.IH"(2)[OF True h_def _ "1.prems"(1,2) h(1) _ "1.prems"(5)] by presburger
    next
      case f: False
      have "search_loop f i j = search_loop f (h + 1) j"
        using True f by (subst search_loop.simps) (simp add: h_def Let_def)
      moreover have "\<forall>k<h+1. l ! k < x"
        using mono[of _ h] h f "1.prems"(2)[OF h(3)]
        by (metis Suc_eq_plus1 less_Suc_eq_le not_le order_le_less_trans)
      moreover have "h + 1 \<le> j" using h by simp
      ultimately show ?thesis
        using "1.IH"(1)[OF True h_def f "1.prems"(1,2) _ "1.prems"(4) _ "1.prems"(6)] by presburger
    qed
  next
    case False
    then have "search_loop f i j = i" by (subst search_loop.simps) simp
    then show ?thesis using False "1.prems" by auto
  qed
qed

lemma search_drop:
  assumes "sorted_wrt (<) (l :: 'a :: linorder list)" "\<And>k. k < length l \<Longrightarrow> f k \<longleftrightarrow> x \<le> l ! k"
  shows "drop (sort_Search (length l) f) l = filter (\<lambda>y. x \<le> y) l"
proof -
  define r where "r = sort_Search (length l) f"
  have r: "r \<le> length l" "\<forall>k<r. l ! k < x" "\<forall>k. r \<le> k \<and> k < length l \<longrightarrow> x \<le> l ! k"
    using search_loop_spec[OF assms le0 order_refl] unfolding r_def sort_Search_def
    by (meson not_less not_less_zero)+
  have "filter (\<lambda>y. x \<le> y) (take r l) = []"
    using r by (auto simp: filter_empty_conv in_set_conv_nth not_le)
  moreover have "filter (\<lambda>y. x \<le> y) (drop r l) = drop r l"
    using r by (auto simp: filter_id_conv in_set_conv_nth)
  ultimately show ?thesis
    using filter_append[of "\<lambda>y. x \<le> y" "take r l" "drop r l"] by (simp add: r_def)
qed

text \<open>The ids of a big endian list of bytes.\<close>

function be_ids :: "u8 list \<Rightarrow> u32 list" where
  "be_ids l = (if length l \<ge> 4 then be_value (take 4 l) # be_ids (drop 4 l) else [])"
  by pat_completeness auto
termination
  by (relation "measure length") auto

declare be_ids.simps [simp del]

lemma be_ids_short: "length l < 4 \<Longrightarrow> be_ids l = []"
  by (subst be_ids.simps) simp

lemma be_ids_long: "length l \<ge> 4 \<Longrightarrow> be_ids l = be_value (take 4 l) # be_ids (drop 4 l)"
  by (subst be_ids.simps) simp

lemma length_be_ids: "length (be_ids l) = length l div 4"
  by (induction l rule: be_ids.induct) (subst be_ids.simps, auto)

lemma nth_be_ids: "i < length l div 4 \<Longrightarrow> be_ids l ! i = be_value (take 4 (drop (i * 4) l))"
proof (induction l arbitrary: i rule: be_ids.induct)
  case (1 l)
  then have "length l \<ge> 4" by auto
  with 1 show ?case
    by (cases i) (auto simp: be_ids_long add.commute)
qed

lemma drop_be_ids: "drop i (be_ids l) = be_ids (drop (i * 4) l)"
proof (induction i arbitrary: l)
  case (Suc i)
  show ?case
  proof (cases "length l \<ge> 4")
    case True
    then show ?thesis using Suc[of "drop 4 l"] by (simp add: be_ids_long add.commute)
  qed (simp add: be_ids_short)
qed simp

section \<open>Words of different width\<close>

lemma unat_ucast64: "unat (ucast (y::u32)::u64) = unat y"
  using unsigned_less[of y, where ?'a=nat] by (simp add: unsigned_ucast_eq take_bit_nat_eq_self_iff)
lemma unat_pred: "0 < x \<Longrightarrow> unat (x - 1) = unat x - 1" for x :: u64
  using unat_minus_one[of x] by (simp add: word_greater_zero_iff)
lemma less_iff_pred_le: "0 < x \<Longrightarrow> x - 1 < y \<longleftrightarrow> x \<le> y" for x y :: u64
  using unat_pred[of x] unat_gt_0[of x] by (auto simp: word_less_nat_alt word_le_nat_alt)
lemma less_imp_le_pred: "c < x \<Longrightarrow> c \<le> x - 1" for c x :: u64
  using unat_pred[of x] by (auto simp: word_less_nat_alt word_le_nat_alt word_greater_zero_iff)
lemma ucast_le_32: "x < 2^32 \<Longrightarrow> x \<le> ucast y \<longleftrightarrow> ucast x \<le> y" for y::u32 and x::u64
proof -
  assume "x < 2^32"
  then have "unat (ucast x :: u32) = unat x" by (simp add: unsigned_ucast_eq take_bit_nat_eq_self_iff word_less_nat_alt)
  then show ?thesis by (simp add: word_le_nat_alt unat_ucast64)
qed
section \<open>Shapes, remaining ids and the invariant\<close>

text \<open>
  The shape of a tree of iterators; the leaves carry their error. The iterators of
  \<^verbatim>\<open>PostingsForMatchers\<close> are intersections of merges of leaves and of removals of such
  merges: these are the shapes of \<open>ishape\<close>.
\<close>

datatype shape = Leaf "go_error option" | MergeS shape shape | WithoutS shape shape | InterS shape shape

fun mshape :: "shape \<Rightarrow> bool" where
  "mshape (Leaf e) = True"
| "mshape (MergeS s t) = (mshape s \<and> mshape t)"
| "mshape _ = False"

fun ishape :: "shape \<Rightarrow> bool" where
  "ishape (WithoutS s t) = (mshape s \<and> mshape t)"
| "ishape (InterS s t) = (ishape s \<and> ishape t)"
| "ishape s = mshape s"

fun shape_err :: "shape \<Rightarrow> go_error option" where
  "shape_err (Leaf e) = e"
| "shape_err (MergeS s t) = (if shape_err s \<noteq> None then shape_err s else shape_err t)"
| "shape_err (WithoutS s t) = (if shape_err s \<noteq> None then shape_err s else shape_err t)"
| "shape_err (InterS s t) = (if shape_err s \<noteq> None then shape_err s else shape_err t)"

fun rem :: "Postings \<Rightarrow> u64 set" where
  "rem (errPostings e) = {}"
| "rem (listPostings l cur) = set l"
| "rem (bigEndianPostings l cur) = ucast ` set (be_ids l)"
| "rem (intersectPostings a b cur) = rem a \<inter> rem b"
| "rem (mergedPostings a b i aok bok cur) =
     (if i then (if aok then insert (Postings_At a) (rem a) else {}) \<union> (if bok then insert (Postings_At b) (rem b) else {})
      else rem a \<union> rem b)"
| "rem (removedPostings f r cur i fok rok) =
     (if i then (if fok then insert (Postings_At f) (rem f) else {}) - (if rok then insert (Postings_At r) (rem r) else {})
      else rem f - rem r)"

text \<open>An exhausted iterator: seeking beyond \<open>c\<close> finds nothing.\<close>

fun dead :: "shape \<Rightarrow> u64 \<Rightarrow> Postings \<Rightarrow> bool" where
  "dead (Leaf e) c (errPostings e') = (e' = e)"
| "dead (Leaf e) c (listPostings l cur) = (e = None \<and> l = [] \<and> cur \<le> c)"
| "dead (Leaf e) c (bigEndianPostings l cur) = (e = None \<and> length l < 4 \<and> ucast cur \<le> c)"
| "dead (MergeS s t) c (mergedPostings a b i aok bok cur) = (dead s c a \<and> dead t c b \<and> cur \<le> c)"
| "dead (WithoutS s t) c (removedPostings f r cur i fok rok) = (Postings_Err f = shape_err s \<and> Postings_Err r = shape_err t)"
| "dead (InterS s t) c (intersectPostings a b cur) = (Postings_Err a = shape_err s \<and> Postings_Err b = shape_err t)"
| "dead _ c _ = False"

text \<open>
  The invariant: ids are positive, ascending and at most \<open>K\<close>; encoded lists, whose ids are 32 bit
  wide, only stand where \<open>K\<close> fits 32 bits.
\<close>

fun inv :: "u64 \<Rightarrow> shape \<Rightarrow> Postings \<Rightarrow> bool" where
  "inv K (Leaf e) (errPostings e') = (e' = e)"
| "inv K (Leaf e) (listPostings l cur) = (e = None \<and> sorted_wrt (<) (cur # l) \<and> (\<forall>y\<in>set (cur # l). y \<le> K))"
| "inv K (Leaf e) (bigEndianPostings l cur) =
     (e = None \<and> K < 2 ^ 32 \<and> sorted_wrt (<) (cur # be_ids l) \<and> (\<forall>y\<in>set (cur # be_ids l). ucast y \<le> K))"
| "inv K (MergeS s t) (mergedPostings a b i aok bok cur) =
     (cur \<le> K \<and>
      (if i then (if aok then inv K s a \<and> cur < Postings_At a else dead s cur a) \<and>
                 (if bok then inv K t b \<and> cur < Postings_At b else dead t cur b)
       else inv K s a \<and> inv K t b \<and> Postings_At a = cur \<and> Postings_At b = cur))"
| "inv K (WithoutS s t) (removedPostings f r cur i fok rok) =
     (cur \<le> K \<and>
      (if i then (if fok then inv K s f \<and> cur < Postings_At f else dead s cur f) \<and>
                 (if rok then inv K t r else dead t cur r)
       else inv K s f \<and> inv K t r \<and> Postings_At f = cur \<and> Postings_At r = cur))"
| "inv K (InterS s t) (intersectPostings a b cur) =
     (inv K s a \<and> inv K t b \<and> Postings_At a = cur \<and> Postings_At b = cur)"
| "inv K _ _ = False"

text \<open>What a method that may deliver the ids \<open>P\<close>, all above \<open>c\<close>, answers.\<close>

fun delivers :: "u64 \<Rightarrow> shape \<Rightarrow> u64 \<Rightarrow> u64 set \<Rightarrow> bool \<times> Postings \<Rightarrow> bool" where
  "delivers K s c P (ok, q) =
     (if ok then inv K s q \<and> c < Postings_At q \<and> P = insert (Postings_At q) (rem q)
      else dead s c q \<and> P = {})"

section \<open>The contract of an iterator\<close>

text \<open>
  What \<^verbatim>\<open>Next\<close> and \<^verbatim>\<open>Seek\<close> promise of the iterators of one shape. \<^verbatim>\<open>Seek\<close> of an exhausted
  iterator is only relied on by merges.
\<close>

locale postings_iterator =
  fixes K :: u64 and s :: shape
  assumes next_law: "inv K s p \<Longrightarrow> \<exists>r. run CNext p = Some r \<and> delivers K s (Postings_At p) (rem p) r"
    and seek_stay: "inv K s p \<Longrightarrow> 0 < x \<Longrightarrow> x \<le> Postings_At p \<Longrightarrow> run (CSeek x) p = Some (True, p)"
    and seek_law: "inv K s p \<Longrightarrow> Postings_At p < x \<Longrightarrow> x \<le> K \<Longrightarrow>
      \<exists>r. run (CSeek x) p = Some r \<and> delivers K s (x - 1) {y \<in> rem p. x \<le> y} r"
    and dead_seek: "mshape s \<Longrightarrow> dead s c p \<Longrightarrow> c < x \<Longrightarrow> x \<le> K \<Longrightarrow>
      \<exists>q. run (CSeek x) p = Some (False, q) \<and> dead s (x - 1) q"

lemma inv_bounds:
  "inv K s p \<Longrightarrow> Postings_At p \<le> K \<and> finite (rem p) \<and> (\<forall>y\<in>rem p. Postings_At p < y \<and> y \<le> K)"
proof (induction K s p rule: inv.induct)
  case (3 K e l cur)
  have "ucast cur < (ucast y :: u64)" if "cur < y" for y :: u32
    using that by (simp add: word_less_nat_alt unat_ucast64)
  with 3 show ?case by auto
qed (auto split: if_splits)

lemma dead_err: "dead s c p \<Longrightarrow> Postings_Err p = shape_err s"
  by (induction s c p rule: dead.induct) auto

lemma inv_err: "inv K s p \<Longrightarrow> Postings_Err p = shape_err s"
  by (induction K s p rule: inv.induct) (auto simp: dead_err split: if_splits)

lemma delivers_err: "delivers K s c P (ok, q) \<Longrightarrow> Postings_Err q = shape_err s"
  by (auto simp: inv_err dead_err split: if_splits)

lemma dead_mono: "dead s c p \<Longrightarrow> c \<le> d \<Longrightarrow> dead s d p"
  by (induction s c p rule: dead.induct) auto

context postings_iterator
begin

lemma seek_any:
  assumes "inv K s p" "0 < x" "x \<le> K"
  shows "\<exists>r. run (CSeek x) p = Some r \<and> delivers K s (x - 1) {y \<in> insert (Postings_At p) (rem p). x \<le> y} r"
proof (cases "x \<le> Postings_At p")
  case True
  then have "{y \<in> insert (Postings_At p) (rem p). x \<le> y} = insert (Postings_At p) (rem p)"
    using inv_bounds[OF assms(1)] by (auto intro: order_trans less_imp_le)
  then show ?thesis
    using seek_stay[OF assms(1,2) True] True assms by (simp add: less_iff_pred_le)
next
  case False
  then have "{y \<in> insert (Postings_At p) (rem p). x \<le> y} = {y \<in> rem p. x \<le> y}" by auto
  then show ?thesis using seek_law[OF assms(1) _ assms(3)] False by auto
qed

lemma seek_pending:
  assumes "delivers K s c P (ok, p)" "mshape s" "c < x" "x \<le> K"
  shows "\<exists>r. run (CSeek x) p = Some r \<and> delivers K s (x - 1) {y \<in> P. x \<le> y} r"
proof (cases ok)
  case True
  moreover have "0 < x" using assms(3) by (metis word_gt_0 word_not_simps(1))
  ultimately show ?thesis using assms(1,4) seek_any[of p x] by simp
next
  case False
  then have p: "dead s c p" "P = {}" using assms(1) by auto
  from dead_seek[OF assms(2) p(1) assms(3,4)] obtain q where
    "run (CSeek x) p = Some (False, q)" "dead s (x - 1) q" by blast
  with p show ?thesis by simp
qed

end

subsection \<open>Leaves\<close>

lemma run_list [simp]:
  "run CNext (listPostings l cur) = Some (list_Next l cur)"
  "run (CSeek x) (listPostings l cur) = Some (list_Seek l cur x)"
  by (simp_all add: run.simps dispatch_def)

lemma run_be [simp]:
  "run CNext (bigEndianPostings l c) = Some (be_Next l c)"
  "run (CSeek x) (bigEndianPostings l c) = Some (be_Seek l c x)"
  by (simp_all add: run.simps dispatch_def)

lemma run_err [simp]: "run c (errPostings e) = Some (False, errPostings e)"
  by (simp add: run.simps dispatch_def)

lemma list_Seek_filter:
  assumes "sorted_wrt (<) l" "cur < x"
  shows "list_Seek l cur x =
    (case filter (\<lambda>y. x \<le> y) l of y # ys \<Rightarrow> (True, listPostings ys y) | [] \<Rightarrow> (False, listPostings [] cur))"
proof -
  define i where "i = sort_Search (length l) (\<lambda>i. x \<le> l ! i)"
  have d: "drop i l = filter (\<lambda>y. x \<le> y) l"
    unfolding i_def by (rule search_drop[OF assms(1)]) simp
  show ?thesis
  proof (cases "i < length l")
    case True
    then have "drop i l = l ! i # drop (i + 1) l" by (simp add: Cons_nth_drop_Suc)
    then show ?thesis using d True leD[OF assms(2)[THEN less_imp_le]] assms(2)
      by (simp add: list_Seek_def Let_def i_def[symmetric] not_le[symmetric] del: not_le)
  next
    case False
    then have "drop i l = []" by simp
    then show ?thesis using d False assms(2) by (simp add: list_Seek_def Let_def i_def[symmetric])
  qed
qed

lemma be_Seek_filter:
  assumes "sorted_wrt (<) (be_ids l)" "ucast cur < x" "x < 2 ^ 32"
  shows "case be_Seek l cur x of (ok, q) \<Rightarrow>
    (case filter (\<lambda>y. x \<le> ucast y) (be_ids l) of
       y # ys \<Rightarrow> ok \<and> (\<exists>l'. q = bigEndianPostings l' y \<and> be_ids l' = ys)
     | [] \<Rightarrow> \<not> ok \<and> q = bigEndianPostings [] cur)"
proof -
  define x32 :: u32 where "x32 = ucast x"
  define i where "i = sort_Search (length (be_ids l)) (\<lambda>i. be_value (take 4 (drop (i * 4) l)) \<ge> x32)"
  have n: "\<not> x \<le> ucast cur" using assms(2) by simp
  have x32: "x \<le> ucast y \<longleftrightarrow> x32 \<le> y" for y
    unfolding x32_def by (rule ucast_le_32[OF assms(3)])
  have d: "drop i (be_ids l) = filter (\<lambda>y. x \<le> ucast y) (be_ids l)"
    unfolding i_def x32
    by (rule search_drop[OF assms(1)]) (simp add: nth_be_ids length_be_ids)
  show ?thesis
  proof (cases "i < length l div 4")
    case True
    then have e: "drop i (be_ids l) = be_value (take 4 (drop (i * 4) l)) # be_ids (drop (i * 4 + 4) l)"
      using be_ids_long[of "drop (i * 4) l"] by (simp add: drop_be_ids add.commute)
    show ?thesis
      using True n e unfolding d[symmetric]
      by (simp add: be_Seek_def Let_def i_def[unfolded length_be_ids, symmetric] x32_def[symmetric])
  next
    case False
    then have e: "drop i (be_ids l) = []" by (simp add: length_be_ids)
    then show ?thesis using False n unfolding d[symmetric]
      by (simp add: be_Seek_def Let_def i_def[unfolded length_be_ids, symmetric] x32_def[symmetric])
  qed
qed

lemma leaf_next:
  assumes "inv K (Leaf e) p"
  shows "\<exists>r. run CNext p = Some r \<and> delivers K (Leaf e) (Postings_At p) (rem p) r"
proof (cases p)
  case (listPostings l cur)
  then show ?thesis using assms by (cases l) (auto simp: list_Next_def)
next
  case (bigEndianPostings l cur)
  have mono: "ucast cur < (ucast y :: u64)" if "cur < y" for y :: u32
    using that by (simp add: word_less_nat_alt unat_ucast64)
  show ?thesis
  proof (cases "length l \<ge> 4")
    case True
    then show ?thesis using assms bigEndianPostings mono by (auto simp: be_Next_def be_ids_long)
  next
    case False
    then show ?thesis using assms bigEndianPostings by (simp add: be_Next_def be_ids_short)
  qed
qed (use assms in auto)

lemma leaf_seek:
  assumes "inv K (Leaf e) p" "Postings_At p < x" "x \<le> K"
  shows "\<exists>r. run (CSeek x) p = Some r \<and> delivers K (Leaf e) (x - 1) {y \<in> rem p. x \<le> y} r"
proof (cases p)
  case (listPostings l cur)
  then have l: "sorted_wrt (<) l" "\<forall>y\<in>set l. y \<le> K" "cur < x" "e = None"
    using assms by auto
  have x: "0 < x" using l(3) by (metis word_gt_0 word_not_simps(1))
  have fs: "sorted_wrt (<) (filter (\<lambda>y. x \<le> y) l)" using l(1) by (rule sorted_wrt_filter)
  have set: "{y \<in> rem p. x \<le> y} = set (filter (\<lambda>y. x \<le> y) l)" using listPostings by auto
  show ?thesis
  proof (cases "filter (\<lambda>y. x \<le> y) l")
    case Nil
    then show ?thesis
      using list_Seek_filter[OF l(1,3)] l listPostings set x by (simp add: less_imp_le_pred)
  next
    case (Cons y ys)
    then have "set (y # ys) = {z \<in> set l. x \<le> z}" by (metis set_filter)
    then have "x \<le> y" "\<forall>z\<in>set (y # ys). z \<le> K" using l(2) by auto
    then show ?thesis
      using list_Seek_filter[OF l(1,3)] Cons fs l(4) listPostings set x by (simp add: less_iff_pred_le)
  qed
next
  case (bigEndianPostings l cur)
  then have l: "sorted_wrt (<) (be_ids l)" "\<forall>y\<in>set (be_ids l). ucast y \<le> K" "ucast cur < x" "e = None"
    "K < 2 ^ 32" using assms by auto
  have x: "0 < x" using l(3) by (metis word_gt_0 word_not_simps(1))
  have fs: "sorted_wrt (<) (filter (\<lambda>y. x \<le> ucast y) (be_ids l))" using l(1) by (rule sorted_wrt_filter)
  have set: "{y \<in> rem p. x \<le> y} = ucast ` set (filter (\<lambda>y. x \<le> ucast y) (be_ids l))"
    using bigEndianPostings by auto
  have seek: "case be_Seek l cur x of (ok, q) \<Rightarrow>
    (case filter (\<lambda>y. x \<le> ucast y) (be_ids l) of
       y # ys \<Rightarrow> ok \<and> (\<exists>l'. q = bigEndianPostings l' y \<and> be_ids l' = ys)
     | [] \<Rightarrow> \<not> ok \<and> q = bigEndianPostings [] cur)"
    by (rule be_Seek_filter[OF l(1,3)]) (use assms(3) l(5) in simp)
  show ?thesis
  proof (cases "filter (\<lambda>y. x \<le> ucast y) (be_ids l)")
    case Nil
    then have "be_Seek l cur x = (False, bigEndianPostings [] cur)" using seek by (auto split: prod.splits)
    then show ?thesis using l bigEndianPostings set Nil by (simp add: less_imp_le_pred)
  next
    case (Cons y ys)
    then have "set (y # ys) = {z \<in> set (be_ids l). x \<le> ucast z}" by (metis set_filter)
    then have y: "x \<le> ucast y" "\<forall>z\<in>set (y # ys). ucast z \<le> K" using l(2) by auto
    obtain l' where "be_Seek l cur x = (True, bigEndianPostings l' y)" "be_ids l' = ys"
      using seek Cons by (auto split: prod.splits)
    then show ?thesis
      using y Cons fs l(4,5) bigEndianPostings set x by (simp add: less_iff_pred_le)
  qed
qed (use assms in auto)

interpretation leaf: postings_iterator K "Leaf e"
proof
  fix p and x :: u64
  assume "inv K (Leaf e) p" "0 < x" "x \<le> Postings_At p"
  then show "run (CSeek x) p = Some (True, p)"
    by (cases p) (auto simp: list_Seek_def be_Seek_def)
next
  fix c x p
  assume "dead (Leaf e) c p" "c < x" "x \<le> K"
  then show "\<exists>q. run (CSeek x) p = Some (False, q) \<and> dead (Leaf e) (x - 1) q"
    by (cases p)
      (auto simp: list_Seek_def be_Seek_def sort_Search_def search_loop.simps intro: less_imp_le_pred order_le_less_trans)
qed (use leaf_next leaf_seek in auto)

subsection \<open>Merges\<close>

lemma run_merged:
  "run CNext (mergedPostings a b i aok bok cur) = merged_Next run a b i aok bok cur"
  "run (CSeek x) (mergedPostings a b i aok bok cur) = merged_Seek run a b i aok bok cur x"
  by (simp_all add: run.simps[of _ "mergedPostings a b i aok bok cur"] dispatch_def)

lemma delivers_weaken: "delivers K s d P (ok, q) \<Longrightarrow> c \<le> d \<Longrightarrow> ok \<Longrightarrow> delivers K s c P (ok, q)"
  by auto

lemma next_delivers:
  assumes "postings_iterator K s" "delivers K s c P (True, p)"
  obtains ok q where "run CNext p = Some (ok, q)" "delivers K s (Postings_At p) (P - {Postings_At p}) (ok, q)"
proof -
  have p: "inv K s p" "P = insert (Postings_At p) (rem p)" using assms(2) by auto
  obtain r where r: "run CNext p = Some r" "delivers K s (Postings_At p) (rem p) r"
    using postings_iterator.next_law[OF assms(1) p(1)] by blast
  have "P - {Postings_At p} = rem p" using p inv_bounds[OF p(1)] by auto
  then show ?thesis using r that by (cases r) auto
qed

text \<open>The state of a merge whose inputs stand at pending ids.\<close>

lemma merged_delivers:
  assumes "delivers K s v Pa (aok, a)" "delivers K t v Pb (bok, b)" "c < v" "v \<le> K" "P = insert v (Pa \<union> Pb)"
  shows "delivers K (MergeS s t) c P (True, mergedPostings a b True aok bok v)"
  using assms by (auto split: if_splits)

lemma delivers_beyond:
  assumes "delivers K s c P (ok, q)" "c \<le> d" "ok \<Longrightarrow> d < Postings_At q"
  shows "delivers K s d P (ok, q)"
  using assms dead_mono[of s c q d] by (auto split: if_splits)

lemma merged_emit_delivers:
  assumes a: "postings_iterator K s" "delivers K s c Pa (aok, a)"
    and b: "postings_iterator K t" "delivers K t c Pb (bok, b)" and "cur \<le> c"
  shows "\<exists>r. merged_emit run a b aok bok cur = Some r \<and> delivers K (MergeS s t) c (Pa \<union> Pb) r"
proof -
  consider (none) "\<not> aok" "\<not> bok" | (a) "aok" "bok \<Longrightarrow> Postings_At a < Postings_At b"
    | (b) bok "aok \<Longrightarrow> Postings_At b < Postings_At a" | (both) aok bok "Postings_At a = Postings_At b"
    by (metis linorder_cases)
  then show ?thesis
  proof cases
    case none
    then show ?thesis using assms by (simp add: merged_emit_def)
  next
    case a': a
    then have d: "delivers K s c Pa (True, a)" using a by simp
    then obtain ok q where q: "run CNext a = Some (ok, q)" "delivers K s (Postings_At a) (Pa - {Postings_At a}) (ok, q)"
      using next_delivers[OF a(1)] by blast
    have At: "c < Postings_At a" "Postings_At a \<le> K" "Postings_At a \<in> Pa" using d inv_bounds[of K s a] by auto
    have other: "delivers K t (Postings_At a) Pb (bok, b)"
      by (rule delivers_beyond[OF b(2)]) (use At a' in auto)
    have "delivers K (MergeS s t) c (Pa \<union> Pb) (True, mergedPostings q b True ok bok (Postings_At a))"
      by (rule merged_delivers[OF q(2) other At(1,2)]) (use At(3) in blast)
    moreover have "merged_emit run a b aok bok cur = Some (True, mergedPostings q b True ok bok (Postings_At a))"
      using a' q(1) by (simp add: merged_emit_def)
    ultimately show ?thesis by blast
  next
    case b': b
    then have d: "delivers K t c Pb (True, b)" using b by simp
    then obtain ok q where q: "run CNext b = Some (ok, q)" "delivers K t (Postings_At b) (Pb - {Postings_At b}) (ok, q)"
      using next_delivers[OF b(1)] by blast
    have At: "c < Postings_At b" "Postings_At b \<le> K" "Postings_At b \<in> Pb" using d inv_bounds[of K t b] by auto
    have other: "delivers K s (Postings_At b) Pa (aok, a)"
      by (rule delivers_beyond[OF a(2)]) (use At b' in auto)
    have "delivers K (MergeS s t) c (Pa \<union> Pb) (True, mergedPostings a q True aok ok (Postings_At b))"
      by (rule merged_delivers[OF other q(2) At(1,2)]) (use At(3) in blast)
    moreover have "merged_emit run a b aok bok cur = Some (True, mergedPostings a q True aok ok (Postings_At b))"
      using b' q(1) by (auto simp: merged_emit_def)
    ultimately show ?thesis by blast
  next
    case both
    then have da: "delivers K s c Pa (True, a)" and db: "delivers K t c Pb (True, b)" using a b by simp_all
    obtain ok q where q: "run CNext a = Some (ok, q)" "delivers K s (Postings_At a) (Pa - {Postings_At a}) (ok, q)"
      using next_delivers[OF a(1) da] by blast
    obtain ok' q' where q': "run CNext b = Some (ok', q')" "delivers K t (Postings_At a) (Pb - {Postings_At a}) (ok', q')"
      using next_delivers[OF b(1) db] both by metis
    have At: "c < Postings_At a" "Postings_At a \<le> K" "Postings_At a \<in> Pa" using da inv_bounds[of K s a] by auto
    have "delivers K (MergeS s t) c (Pa \<union> Pb) (True, mergedPostings q q' True ok ok' (Postings_At a))"
      by (rule merged_delivers[OF q(2) q'(2) At(1,2)]) (use At(3) in blast)
    moreover have "merged_emit run a b aok bok cur = Some (True, mergedPostings q q' True ok ok' (Postings_At a))"
      using both q(1) q'(1) by (simp add: merged_emit_def)
    ultimately show ?thesis by blast
  qed
qed

lemma inv_MergeS:
  assumes "inv K (MergeS s t) p"
  obtains a b i aok bok cur where "p = mergedPostings a b i aok bok cur"
  using assms by (cases p) auto

lemma merge_iterator:
  assumes s: "postings_iterator K s" "mshape s" and t: "postings_iterator K t" "mshape t"
  shows "postings_iterator K (MergeS s t)"
proof
  fix p
  assume p: "inv K (MergeS s t) p"
  then obtain a b i aok bok cur where [simp]: "p = mergedPostings a b i aok bok cur"
    by (rule inv_MergeS)
  show "\<exists>r. run CNext p = Some r \<and> delivers K (MergeS s t) (Postings_At p) (rem p) r"
  proof (cases i)
    case True
    then show ?thesis
      using p merged_emit_delivers[OF s(1) _ t(1), of cur _ aok a _ bok b cur]
      by (simp add: run_merged merged_Next_def)
  next
    case False
    then obtain ra rb where "run CNext a = Some ra" "delivers K s cur (rem a) ra"
      "run CNext b = Some rb" "delivers K t cur (rem b) rb"
      using p postings_iterator.next_law[OF s(1), of a] postings_iterator.next_law[OF t(1), of b] by auto
    then show ?thesis
      using merged_emit_delivers[OF s(1) _ t(1), of cur "rem a" "fst ra" "snd ra" "rem b" "fst rb" "snd rb" cur] False
      by (cases ra; cases rb) (simp add: run_merged merged_Next_def)
  qed
next
  fix p and x :: u64
  assume p: "inv K (MergeS s t) p" "0 < x" "x \<le> Postings_At p"
  then obtain a b i aok bok cur where "p = mergedPostings a b i aok bok cur"
    by (metis inv_MergeS)
  then show "run (CSeek x) p = Some (True, p)" using p by (simp add: run_merged merged_Seek_def)
next
  fix p x
  assume p: "inv K (MergeS s t) p" "Postings_At p < x" "x \<le> K"
  then obtain a b i aok bok cur where [simp]: "p = mergedPostings a b i aok bok cur"
    by (metis inv_MergeS)
  define Pa where "Pa = (if i then if aok then insert (Postings_At a) (rem a) else {} else rem a)"
  define Pb where "Pb = (if i then if bok then insert (Postings_At b) (rem b) else {} else rem b)"
  have "\<exists>r. run (CSeek x) a = Some r \<and> delivers K s (x - 1) {y \<in> Pa. x \<le> y} r"
    using p postings_iterator.seek_law[OF s(1), of a x] postings_iterator.seek_pending[OF s(1) _ s(2), of cur Pa aok a x]
    by (cases i) (auto simp: Pa_def)
  then obtain aok' a' where a': "run (CSeek x) a = Some (aok', a')" "delivers K s (x - 1) {y \<in> Pa. x \<le> y} (aok', a')" by auto
  have "\<exists>r. run (CSeek x) b = Some r \<and> delivers K t (x - 1) {y \<in> Pb. x \<le> y} r"
    using p postings_iterator.seek_law[OF t(1), of b x] postings_iterator.seek_pending[OF t(1) _ t(2), of cur Pb bok b x]
    by (cases i) (auto simp: Pb_def)
  then obtain bok' b' where b': "run (CSeek x) b = Some (bok', b')" "delivers K t (x - 1) {y \<in> Pb. x \<le> y} (bok', b')" by auto
  have "\<not> x \<le> cur" "cur \<le> x - 1" using p(2) by (simp_all add: less_imp_le_pred)
  moreover from this have "run (CSeek x) p = merged_emit run a' b' aok' bok' cur"
    using a' b' by (simp add: run_merged merged_Seek_def merged_Next_def)
  moreover have "{y \<in> rem p. x \<le> y} = {y \<in> Pa. x \<le> y} \<union> {y \<in> Pb. x \<le> y}" by (auto simp: Pa_def Pb_def)
  ultimately show "\<exists>r. run (CSeek x) p = Some r \<and> delivers K (MergeS s t) (x - 1) {y \<in> rem p. x \<le> y} r"
    using merged_emit_delivers[OF s(1) a'(2) t(1) b'(2), of cur] by presburger
next
  fix c x p
  assume p: "dead (MergeS s t) c p" "c < x" "x \<le> K"
  then obtain a b i aok bok cur where [simp]: "p = mergedPostings a b i aok bok cur"
    by (cases p) auto
  obtain a' where a': "run (CSeek x) a = Some (False, a')" "dead s (x - 1) a'"
    using postings_iterator.dead_seek[OF s(1,2) _ p(2,3), of a] p(1) by auto
  obtain b' where b': "run (CSeek x) b = Some (False, b')" "dead t (x - 1) b'"
    using postings_iterator.dead_seek[OF t(1,2) _ p(2,3), of b] p(1) by auto
  have "\<not> x \<le> cur" "cur \<le> x - 1" using p by (auto simp: less_imp_le_pred)
  then show "\<exists>q. run (CSeek x) p = Some (False, q) \<and> dead (MergeS s t) (x - 1) q"
    using a' b' by (simp add: run_merged merged_Seek_def merged_Next_def merged_emit_def)
qed

subsection \<open>Removals\<close>

lemma run_removed:
  "run CNext (removedPostings f r cur i fok rok) = removed_Next run f r cur i fok rok"
  "run (CSeek x) (removedPostings f r cur i fok rok) = removed_Seek run f r cur i fok rok x"
  "run CLoop (removedPostings f r cur i fok rok) = removed_loop run f r cur fok rok"
  by (simp_all add: run.simps[of _ "removedPostings f r cur i fok rok"] dispatch_def)

lemma delivers_WithoutS_weaken:
  "delivers K (WithoutS s t) d P r \<Longrightarrow> c \<le> d \<Longrightarrow> delivers K (WithoutS s t) c P r"
  by (cases r; cases "snd r") (auto split: if_splits)

text \<open>The removed ids, whose iterator may lag behind.\<close>

definition removes :: "u64 \<Rightarrow> shape \<Rightarrow> u64 \<Rightarrow> u64 set \<Rightarrow> bool \<Rightarrow> Postings \<Rightarrow> bool" where
  "removes K t c P rok r \<longleftrightarrow>
     (if rok then inv K t r \<and> P = insert (Postings_At r) (rem r) else dead t c r \<and> P = {})"

lemma removes_mono: "removes K t c P rok r \<Longrightarrow> c \<le> d \<Longrightarrow> removes K t d P rok r"
  by (auto simp: removes_def intro: dead_mono split: if_splits)

lemma delivers_removes: "delivers K t c P (rok, r) \<Longrightarrow> removes K t c P rok r"
  by (simp add: removes_def split: if_splits)

lemma removed_emit:
  assumes "postings_iterator K s" "delivers K s c Pf (True, f)" "removes K t c Pr rok r" "Postings_At f \<notin> Pr"
  obtains fok f' where "run CNext f = Some (fok, f')"
    "delivers K (WithoutS s t) c (Pf - Pr) (True, removedPostings f' r (Postings_At f) True fok rok)"
proof -
  obtain fok f' where f': "run CNext f = Some (fok, f')" "delivers K s (Postings_At f) (Pf - {Postings_At f}) (fok, f')"
    using next_delivers[OF assms(1,2)] by blast
  have At: "c < Postings_At f" "Postings_At f \<le> K" "Postings_At f \<in> Pf" using assms(2) inv_bounds[of K s f] by auto
  have r: "removes K t (Postings_At f) Pr rok r" using removes_mono[OF assms(3)] At(1) by simp
  have "Pf - Pr = insert (Postings_At f) (Pf - {Postings_At f} - Pr)" using At(3) assms(4) by blast
  then have "delivers K (WithoutS s t) c (Pf - Pr) (True, removedPostings f' r (Postings_At f) True fok rok)"
    using At f'(2) r by (auto simp: removes_def split: if_splits)
  with f'(1) that show ?thesis by blast
qed

lemma removed_loop_delivers:
  assumes s: "postings_iterator K s" and t: "postings_iterator K t"
  shows "delivers K s c Pf (fok, f) \<Longrightarrow> removes K t c Pr rok r \<Longrightarrow>
    \<exists>res. removed_loop run f r cur fok rok = Some res \<and> delivers K (WithoutS s t) c (Pf - Pr) res"
proof (induction "card Pf + card Pr" arbitrary: c Pf fok f Pr rok r rule: less_induct)
  case less
  note f = less.prems(1) and r = less.prems(2)
  have fin: "finite Pf" "finite Pr"
    using f r inv_bounds[of K s f] inv_bounds[of K t r] by (auto simp: removes_def split: if_splits)
  have errs: "Postings_Err f = shape_err s" "Postings_Err r = shape_err t"
    using delivers_err[OF f] r by (auto simp: removes_def inv_err dead_err split: if_splits)
  consider (stop) "\<not> fok" | (emit) fok "rok \<longrightarrow> Postings_At f < Postings_At r"
    | (forward) fok rok "Postings_At r < Postings_At f" | (skip) fok rok "Postings_At f = Postings_At r"
    by (meson linorder_cases)
  then show ?case
  proof cases
    case stop
    then show ?thesis using f errs by (simp add: removed_loop_def)
  next
    case emit
    have nin: "Postings_At f \<notin> Pr"
      using emit r inv_bounds[of K t r] by (auto simp: removes_def split: if_splits)
    have f1: "delivers K s c Pf (True, f)" using f emit by simp
    obtain fok' f' where "run CNext f = Some (fok', f')"
      "delivers K (WithoutS s t) c (Pf - Pr) (True, removedPostings f' r (Postings_At f) True fok' rok)"
      by (rule removed_emit[OF s f1 r nin])
    moreover from this(1) have "removed_loop run f r cur fok rok = Some (True, removedPostings f' r (Postings_At f) True fok' rok)"
      using emit by (simp add: removed_loop_def Let_def)
    ultimately show ?thesis by blast
  next
    case forward
    let ?v = "Postings_At f"
    have ri: "inv K t r" "Pr = insert (Postings_At r) (rem r)" using r forward by (auto simp: removes_def)
    have v: "?v \<le> K" "c < ?v" "inv K s f" using f forward inv_bounds[of K s f] by auto
    obtain rok' r' where r': "run (CSeek ?v) r = Some (rok', r')" "delivers K t (?v - 1) {y \<in> rem r. ?v \<le> y} (rok', r')"
      using postings_iterator.seek_law[OF t ri(1) forward(3) v(1)] by auto
    have "?v > 0" using v(2) by (metis word_gt_0 word_not_simps(1))
    then have f1: "delivers K s (?v - 1) Pf (fok, f)" using f forward by (simp add: less_iff_pred_le)
    have "Postings_At r \<notin> {y \<in> rem r. ?v \<le> y}" "Postings_At r \<in> Pr" "{y \<in> rem r. ?v \<le> y} \<subseteq> Pr"
      using forward(3) ri(2) by auto
    then have "{y \<in> rem r. ?v \<le> y} \<subset> Pr" by blast
    then have "card {y \<in> rem r. ?v \<le> y} < card Pr" using fin(2) psubset_card_mono by blast
    then obtain res where res: "removed_loop run f r' cur fok rok' = Some res"
      "delivers K (WithoutS s t) (?v - 1) (Pf - {y \<in> rem r. ?v \<le> y}) res"
      using less.hyps[OF _ f1 delivers_removes[OF r'(2)]] by auto
    have "Pf - {y \<in> rem r. ?v \<le> y} = Pf - Pr"
      using f forward ri inv_bounds[of K s f] by auto
    then have "delivers K (WithoutS s t) c (Pf - Pr) res"
      using delivers_WithoutS_weaken[OF res(2)] less_imp_le_pred[OF v(2)] by simp
    moreover have "removed_loop run f r cur fok rok = Some res"
      using forward r'(1) res(1) less_not_sym[OF forward(3)]
      by (simp add: removed_loop_def[of run f r] Let_def run_removed)
    ultimately show ?thesis by blast
  next
    case skip
    have f1: "delivers K s c Pf (True, f)" using f skip by simp
    obtain fok' f' where f': "run CNext f = Some (fok', f')" "delivers K s (Postings_At f) (Pf - {Postings_At f}) (fok', f')"
      using next_delivers[OF s f1] by blast
    have v: "c < Postings_At f" "Postings_At f \<in> Pf" "Postings_At f \<in> Pr" using f r skip by (auto simp: removes_def)
    then have "card (Pf - {Postings_At f}) < card Pf" using fin by (meson card_Diff1_less)
    then obtain res where res: "removed_loop run f' r cur fok' rok = Some res"
      "delivers K (WithoutS s t) (Postings_At f) (Pf - {Postings_At f} - Pr) res"
      using less.hyps[OF _ f'(2) removes_mono[OF r less_imp_le[OF v(1)]]] by (auto simp del: delivers.simps)
    have "Pf - {Postings_At f} - Pr = Pf - Pr" using v by auto
    then have "delivers K (WithoutS s t) c (Pf - Pr) res"
      using delivers_WithoutS_weaken[OF res(2)] v(1) by simp
    moreover have "removed_loop run f r cur fok rok = Some res"
      using skip f'(1) res(1) by (simp add: removed_loop_def[of run f r] Let_def run_removed)
    ultimately show ?thesis by blast
  qed
qed

lemma inv_WithoutS:
  assumes "inv K (WithoutS s t) p"
  obtains f r cur i fok rok where "p = removedPostings f r cur i fok rok"
  using assms by (cases p) auto

lemma without_iterator:
  assumes s: "postings_iterator K s" "mshape s" and t: "postings_iterator K t" "mshape t"
  shows "postings_iterator K (WithoutS s t)"
proof
  fix p
  assume p: "inv K (WithoutS s t) p"
  then obtain f r cur i fok rok where [simp]: "p = removedPostings f r cur i fok rok"
    by (rule inv_WithoutS)
  show "\<exists>r. run CNext p = Some r \<and> delivers K (WithoutS s t) (Postings_At p) (rem p) r"
  proof (cases i)
    case True
    then show ?thesis
      using p removed_loop_delivers[OF s(1) t(1), of cur _ fok f _ rok r cur]
      by (simp add: run_removed removed_Next_def removes_def)
  next
    case False
    then obtain fok' f' rok' r' where f': "run CNext f = Some (fok', f')" "delivers K s cur (rem f) (fok', f')"
      and r': "run CNext r = Some (rok', r')" "delivers K t cur (rem r) (rok', r')"
      using p postings_iterator.next_law[OF s(1), of f] postings_iterator.next_law[OF t(1), of r]
      by (auto simp del: delivers.simps)
    show ?thesis
      using removed_loop_delivers[OF s(1) t(1) f'(2) delivers_removes[OF r'(2)], of cur] False f'(1) r'(1)
      by (simp add: run_removed removed_Next_def del: delivers.simps)
  qed
next
  fix p and x :: u64
  assume p: "inv K (WithoutS s t) p" "0 < x" "x \<le> Postings_At p"
  then obtain f r cur i fok rok where "p = removedPostings f r cur i fok rok"
    by (metis inv_WithoutS)
  then show "run (CSeek x) p = Some (True, p)" using p by (simp add: run_removed removed_Seek_def)
next
  fix p x
  assume p: "inv K (WithoutS s t) p" "Postings_At p < x" "x \<le> K"
  then obtain f r cur i fok rok where [simp]: "p = removedPostings f r cur i fok rok"
    by (metis inv_WithoutS)
  have x: "0 < x" "\<not> x \<le> cur" "cur < x" using p(2) by auto (metis word_gt_0 word_not_simps(1))
  define Pf where "Pf = (if i then if fok then insert (Postings_At f) (rem f) else {} else rem f)"
  define Pr where "Pr = (if i then if rok then insert (Postings_At r) (rem r) else {} else rem r)"
  have "\<exists>r. run (CSeek x) f = Some r \<and> delivers K s (x - 1) {y \<in> Pf. x \<le> y} r"
    using p postings_iterator.seek_law[OF s(1), of f x] postings_iterator.seek_pending[OF s(1) _ s(2), of cur Pf fok f x]
    by (cases i) (auto simp: Pf_def)
  then obtain fok' f' where f': "run (CSeek x) f = Some (fok', f')" "delivers K s (x - 1) {y \<in> Pf. x \<le> y} (fok', f')" by auto
  have "\<exists>q. run (CSeek x) r = Some q \<and> delivers K t (x - 1) {y \<in> Pr. x \<le> y} q"
  proof (cases "i \<and> rok")
    case True
    then show ?thesis using p postings_iterator.seek_any[OF t(1) _ x(1) p(3), of r] by (simp add: Pr_def)
  next
    case False
    then show ?thesis
      using p x(3) postings_iterator.seek_law[OF t(1), of r x] postings_iterator.seek_pending[OF t(1) _ t(2), of cur Pr rok r x]
      by (cases i) (auto simp: Pr_def)
  qed
  then obtain rok' r' where r': "run (CSeek x) r = Some (rok', r')" "delivers K t (x - 1) {y \<in> Pr. x \<le> y} (rok', r')" by auto
  have "{y \<in> rem p. x \<le> y} = {y \<in> Pf. x \<le> y} - {y \<in> Pr. x \<le> y}" by (auto simp: Pf_def Pr_def)
  then show "\<exists>q. run (CSeek x) p = Some q \<and> delivers K (WithoutS s t) (x - 1) {y \<in> rem p. x \<le> y} q"
    using removed_loop_delivers[OF s(1) t(1) f'(2) delivers_removes[OF r'(2)], of cur] f'(1) r'(1) x
    by (simp add: run_removed removed_Seek_def removed_Next_def del: delivers.simps)
qed simp

subsection \<open>Intersections\<close>

lemma run_intersect:
  "run CNext (intersectPostings a b cur) = intersect_Next run a b cur"
  "run (CSeek x) (intersectPostings a b cur) = intersect_Seek run a b cur x"
  "run (CDoNext x) (intersectPostings a b cur) = intersect_doNext run a b cur x"
  by (simp_all add: run.simps[of _ "intersectPostings a b cur"] dispatch_def)

lemma doNext_delivers:
  assumes s: "postings_iterator K s" and t: "postings_iterator K t"
  shows "inv K s a \<Longrightarrow> inv K t b \<Longrightarrow> Postings_At a = x \<Longrightarrow> c < x \<Longrightarrow>
    \<exists>r. intersect_doNext run a b cur x = Some r \<and>
      delivers K (InterS s t) c (insert x (rem a) \<inter> insert (Postings_At b) (rem b)) r"
proof (induction "card (insert x (rem a))" arbitrary: a b x rule: less_induct)
  case less
  note a = less.prems(1) and b = less.prems(2) and x = less.prems(3,4)
  let ?Pa = "insert x (rem a)" and ?Pb = "insert (Postings_At b) (rem b)"
  have x0: "0 < x" "x \<le> K" and Pa: "finite ?Pa" "\<forall>y\<in>rem a. x < y"
    using x inv_bounds[OF a] by auto (metis word_gt_0 word_not_simps(1))
  obtain bok b' where b': "run (CSeek x) b = Some (bok, b')" "delivers K t (x - 1) {y \<in> ?Pb. x \<le> y} (bok, b')"
    using postings_iterator.seek_any[OF t b x0] by (auto simp del: delivers.simps)
  have Pb: "?Pa \<inter> ?Pb = ?Pa \<inter> {y \<in> ?Pb. x \<le> y}" using Pa(2) by auto
  have errs: "Postings_Err a = shape_err s" "Postings_Err b' = shape_err t"
    using inv_err[OF a] delivers_err[OF b'(2)] by auto
  show ?case
  proof (cases bok)
    case False
    then have "{y \<in> ?Pb. x \<le> y} = {}" using b'(2) by simp
    then have "?Pa \<inter> ?Pb = {}" using Pb by blast
    then show ?thesis
      using False b'(1) errs by (simp add: intersect_doNext_def)
  next
    case True
    define v where "v = Postings_At b'"
    have bi: "inv K t b'" "x \<le> v" "{y \<in> ?Pb. x \<le> y} = insert v (rem b')"
      using b'(2) True x0 by (auto simp: v_def less_iff_pred_le)
    have v: "v \<le> K" "\<forall>y\<in>rem b'. v < y" using inv_bounds[OF bi(1)] by (auto simp: v_def)
    show ?thesis
    proof (cases "v = x")
      case eq: True
      have "?Pa \<inter> ?Pb = insert x (rem a \<inter> rem b')" unfolding Pb bi(3) using eq by auto
      then show ?thesis
        using eq True b'(1) a bi(1) x by (simp add: intersect_doNext_def v_def)
    next
      case ne: False
      then have xv: "x < v" using bi(2) by simp
      obtain aok a' where a': "run (CSeek v) a = Some (aok, a')" "delivers K s (v - 1) {y \<in> rem a. v \<le> y} (aok, a')"
        using postings_iterator.seek_law[OF s a _ v(1)] xv x by (auto simp del: delivers.simps)
      have P: "?Pa \<inter> ?Pb = {y \<in> rem a. v \<le> y} \<inter> insert v (rem b')"
        unfolding Pb bi(3) using xv v(2) by auto
      have errs': "Postings_Err a' = shape_err s" using delivers_err[OF a'(2)] .
      show ?thesis
      proof (cases aok)
        case False
        then have "{y \<in> rem a. v \<le> y} = {}" using a'(2) by simp
        then have "?Pa \<inter> ?Pb = {}" using P by blast
        then show ?thesis
          using False True ne a'(1) b'(1) errs errs' by (simp add: intersect_doNext_def v_def)
      next
        case aok: True
        define w where "w = Postings_At a'"
        have "0 < v" using xv by (metis word_gt_0 word_not_simps(1))
        then have ai: "inv K s a'" "v \<le> w" "{y \<in> rem a. v \<le> y} = insert w (rem a')"
          using a'(2) aok by (auto simp: w_def less_iff_pred_le)
        show ?thesis
        proof (cases "v = w")
          case vw: True
          have "?Pa \<inter> ?Pb = insert w (rem a' \<inter> rem b')" unfolding P ai(3) using vw by auto
          then show ?thesis
            using vw aok True ne a'(1) b'(1) ai(1) bi(1) xv x by (simp add: intersect_doNext_def v_def w_def)
        next
          case vw: False
          have "insert w (rem a') \<subset> ?Pa" unfolding ai(3)[symmetric] using xv Pa(2) by auto
          then have "card (insert w (rem a')) < card ?Pa" using Pa(1) psubset_card_mono by blast
          moreover have "c < w" using xv ai(2) x by auto
          ultimately obtain r where "intersect_doNext run a' b' cur w = Some r"
            "delivers K (InterS s t) c (insert w (rem a') \<inter> insert v (rem b')) r"
            using less.hyps[OF _ ai(1) bi(1) w_def[symmetric]] unfolding v_def[symmetric] by blast
          then show ?thesis
            unfolding P ai(3)
            using vw aok True ne a'(1) b'(1) by (simp add: intersect_doNext_def[of run a b] v_def w_def run_intersect del: delivers.simps)
        qed
      qed
    qed
  qed
qed

lemma inv_InterS:
  assumes "inv K (InterS s t) p"
  obtains a b cur where "p = intersectPostings a b cur"
  using assms by (cases p) auto

lemma intersect_iterator:
  assumes s: "postings_iterator K s" and t: "postings_iterator K t"
  shows "postings_iterator K (InterS s t)"
proof
  fix p
  assume p: "inv K (InterS s t) p"
  then obtain a b cur where [simp]: "p = intersectPostings a b cur" by (rule inv_InterS)
  have ab: "inv K s a" "inv K t b" "Postings_At a = cur" "Postings_At b = cur" using p by auto
  obtain ok a' where a': "run CNext a = Some (ok, a')" "delivers K s cur (rem a) (ok, a')"
    using postings_iterator.next_law[OF s ab(1)] ab by (auto simp del: delivers.simps)
  show "\<exists>r. run CNext p = Some r \<and> delivers K (InterS s t) (Postings_At p) (rem p) r"
  proof (cases ok)
    case False
    then show ?thesis using a' inv_err[OF ab(2)] dead_err[of s cur a'] by (simp add: run_intersect intersect_Next_def)
  next
    case True
    then have ai: "inv K s a'" "cur < Postings_At a'" "rem a = insert (Postings_At a') (rem a')"
      using a'(2) by auto
    have "insert (Postings_At a') (rem a') \<inter> insert (Postings_At b) (rem b) = rem p"
      using ai ab(4) inv_bounds[OF ai(1)] by auto
    then show ?thesis
      using doNext_delivers[OF s t ai(1) ab(2) refl ai(2), of cur] a'(1) True
      by (simp add: run_intersect intersect_Next_def del: delivers.simps)
  qed
next
  fix p and x :: u64
  assume p: "inv K (InterS s t) p" "0 < x" "x \<le> Postings_At p"
  then obtain a b cur where "p = intersectPostings a b cur" by (metis inv_InterS)
  moreover have "0 < cur" using p calculation by (auto intro: less_le_trans)
  ultimately show "run (CSeek x) p = Some (True, p)"
    using p postings_iterator.seek_stay[OF s, of a x] postings_iterator.seek_stay[OF t, of b cur]
    by (simp add: run_intersect intersect_Seek_def intersect_doNext_def)
next
  fix p x
  assume p: "inv K (InterS s t) p" "Postings_At p < x" "x \<le> K"
  then obtain a b cur where [simp]: "p = intersectPostings a b cur" by (metis inv_InterS)
  have ab: "inv K s a" "inv K t b" "Postings_At a = cur" "Postings_At b = cur" "cur < x" using p by auto
  obtain ok a' where a': "run (CSeek x) a = Some (ok, a')" "delivers K s (x - 1) {y \<in> rem a. x \<le> y} (ok, a')"
    using postings_iterator.seek_law[OF s ab(1) _ p(3)] ab(3,5) by (auto simp del: delivers.simps)
  show "\<exists>r. run (CSeek x) p = Some r \<and> delivers K (InterS s t) (x - 1) {y \<in> rem p. x \<le> y} r"
  proof (cases ok)
    case False
    then have "{y \<in> rem a. x \<le> y} = {}" using a'(2) by simp
    then have "{y \<in> rem p. x \<le> y} = {}" by auto
    then show ?thesis using False a' inv_err[OF ab(2)] dead_err[of s "x - 1" a'] by (simp add: run_intersect intersect_Seek_def)
  next
    case True
    have x: "0 < x" using ab(5) by (metis word_gt_0 word_not_simps(1))
    have ai: "inv K s a'" "x - 1 < Postings_At a'" "{y \<in> rem a. x \<le> y} = insert (Postings_At a') (rem a')"
      using a'(2) True by auto
    have "{y \<in> rem a. x \<le> y} \<inter> insert (Postings_At b) (rem b) = {y \<in> rem p. x \<le> y}"
      using ab(4,5) by auto
    then have "insert (Postings_At a') (rem a') \<inter> insert (Postings_At b) (rem b) = {y \<in> rem p. x \<le> y}"
      unfolding ai(3) .
    then show ?thesis
      using doNext_delivers[OF s t ai(1) ab(2) refl ai(2), of cur] a'(1) True
      by (simp add: run_intersect intersect_Seek_def del: delivers.simps)
  qed
qed simp

section \<open>All the shapes that queries build\<close>

lemma mshape_iterator: "mshape s \<Longrightarrow> postings_iterator K s"
  by (induction s) (auto intro: merge_iterator leaf.postings_iterator_axioms)

lemma ishape_iterator: "ishape s \<Longrightarrow> postings_iterator K s"
  by (induction s) (auto intro: merge_iterator without_iterator intersect_iterator
      leaf.postings_iterator_axioms mshape_iterator)

context postings_iterator
begin

text \<open>Collecting an iterator delivers its remaining ids in ascending order.\<close>

lemma expand_loop_rem:
  "inv K s p \<Longrightarrow> \<exists>q. expand_loop res p = Some (res @ sorted_list_of_set (rem p), q) \<and> Postings_Err q = shape_err s"
proof (induction "card (rem p)" arbitrary: p res rule: less_induct)
  case less
  obtain ok q where q: "run CNext p = Some (ok, q)" "delivers K s (Postings_At p) (rem p) (ok, q)"
    using next_law[OF less.prems] by (auto simp del: delivers.simps)
  show ?case
  proof (cases ok)
    case False
    then show ?thesis using q delivers_err[OF q(2)] by (simp add: expand_loop.simps[of res p])
  next
    case True
    then have qi: "inv K s q" "rem p = insert (Postings_At q) (rem q)" using q(2) by auto
    have b: "finite (rem q)" "\<forall>y\<in>rem q. Postings_At q < y" using inv_bounds[OF qi(1)] by auto
    then have "Postings_At q \<notin> rem q" by auto
    then have "card (rem q) < card (rem p)" unfolding qi(2) using b(1) by simp
    from less.hyps[OF this qi(1)] obtain q' where
      "expand_loop (res @ [Postings_At q]) q = Some (res @ [Postings_At q] @ sorted_list_of_set (rem q), q')"
      "Postings_Err q' = shape_err s" by (metis append_assoc)
    moreover have "sorted_list_of_set (rem p) = Postings_At q # sorted_list_of_set (rem q)"
      unfolding qi(2) using b by (simp add: sorted_list_of_set_nonempty Min_insert2 less_imp_le \<open>Postings_At q \<notin> rem q\<close>)
    ultimately show ?thesis using q(1) True by (simp add: expand_loop.simps[of res p])
  qed
qed

lemma ExpandPostings_rem:
  "inv K s p \<Longrightarrow> ExpandPostings p = Some (sorted_list_of_set (rem p), shape_err s)"
  using expand_loop_rem[of p "[]"] by (auto simp: ExpandPostings_def)

end

text \<open>A new iterator: nothing was delivered yet.\<close>

definition fresh :: "u64 \<Rightarrow> shape \<Rightarrow> Postings \<Rightarrow> bool" where
  "fresh K s p \<longleftrightarrow> inv K s p \<and> Postings_At p = 0"

lemma fresh_list: "sorted_wrt (<) l \<Longrightarrow> (\<forall>y\<in>set l. 0 < y \<and> y \<le> K) \<Longrightarrow> fresh K (Leaf None) (newListPostings l)"
  by (auto simp: fresh_def newListPostings_def)

lemma fresh_be:
  "K < 2 ^ 32 \<Longrightarrow> sorted_wrt (<) (be_ids l) \<Longrightarrow> (\<forall>y\<in>set (be_ids l). 0 < y \<and> ucast y \<le> K) \<Longrightarrow>
     fresh K (Leaf None) (newBigEndianPostings l)"
  by (auto simp: fresh_def newBigEndianPostings_def)

lemma fresh_err: "fresh K (Leaf e) (errPostings e)"
  by (simp add: fresh_def)

lemma fresh_merge: "fresh K s a \<Longrightarrow> fresh K t b \<Longrightarrow> fresh K (MergeS s t) (newMergedPostings a b)"
  by (simp add: fresh_def newMergedPostings_def)

lemma fresh_without: "fresh K s a \<Longrightarrow> fresh K t b \<Longrightarrow> fresh K (WithoutS s t) (Without a b)"
  by (simp add: fresh_def newRemovedPostings_def Without_def)

lemma fresh_intersect: "fresh K s a \<Longrightarrow> fresh K t b \<Longrightarrow> fresh K (InterS s t) (newIntersectPostings a b)"
  by (simp add: fresh_def newIntersectPostings_def)

text \<open>\<open>Merge\<close> and \<open>Intersect\<close> build balanced trees over their inputs.\<close>

fun first_err :: "go_error option list \<Rightarrow> go_error option" where
  "first_err [] = None"
| "first_err (e # es) = (if e \<noteq> None then e else first_err es)"

lemma first_err_append: "first_err (xs @ ys) = (if first_err xs \<noteq> None then first_err xs else first_err ys)"
  by (induction xs) auto

lemma halves_induct [case_names Nil single halves]:
  assumes "P []" "\<And>p. P [p]"
    and "\<And>xs ys. xs \<noteq> [] \<Longrightarrow> ys \<noteq> [] \<Longrightarrow> length xs = length (xs @ ys) div 2 \<Longrightarrow> P xs \<Longrightarrow> P ys \<Longrightarrow> P (xs @ ys)"
  shows "P its"
proof (induction its rule: length_induct)
  case (1 its)
  show ?case
  proof (cases "its = [] \<or> length its = Suc 0")
    case True
    then show ?thesis using assms(1,2) by (auto simp: length_Suc_conv)
  next
    case False
    define l where "l = length its div 2"
    have l: "0 < l" "l < length its" using half_length[of its] False by (auto simp: l_def)
    then have "P (take l its @ drop l its)"
      by (intro assms(3)) (use 1 l in \<open>auto simp: l_def\<close>)
    then show ?thesis by simp
  qed
qed

lemma Merge_Nil [simp]: "Merge [] = EmptyPostings" and Merge_single [simp]: "Merge [p] = p"
  and Intersect_Nil [simp]: "Intersect [] = EmptyPostings" and Intersect_single [simp]: "Intersect [p] = p"
  by (simp_all add: Merge.simps Intersect.simps)

lemma Merge_halves:
  "xs \<noteq> [] \<Longrightarrow> ys \<noteq> [] \<Longrightarrow> length xs = length (xs @ ys) div 2 \<Longrightarrow>
     Merge (xs @ ys) = newMergedPostings (Merge xs) (Merge ys)"
  by (subst Merge.simps) (cases xs; cases ys; simp add: Let_def)

lemma Intersect_halves:
  "xs \<noteq> [] \<Longrightarrow> ys \<noteq> [] \<Longrightarrow> length xs = length (xs @ ys) div 2 \<Longrightarrow>
     Intersect (xs @ ys) = newIntersectPostings (Intersect xs) (Intersect ys)"
  by (subst Intersect.simps) (cases xs; cases ys; simp add: Let_def)

lemma Merge_fresh:
  "(\<forall>p\<in>set its. \<exists>s. mshape s \<and> fresh K s p) \<Longrightarrow>
   \<exists>s. mshape s \<and> fresh K s (Merge its) \<and> rem (Merge its) = (\<Union>p\<in>set its. rem p) \<and>
       shape_err s = first_err (map Postings_Err its)"
proof (induction its rule: halves_induct)
  case Nil
  show ?case by (rule exI[of _ "Leaf None"]) (simp add: EmptyPostings_def fresh_err)
next
  case (single p)
  then show ?case by (auto simp: fresh_def inv_err)
next
  case (halves xs ys)
  then obtain s t where "mshape s" "fresh K s (Merge xs)" "rem (Merge xs) = (\<Union>p\<in>set xs. rem p)"
      "shape_err s = first_err (map Postings_Err xs)" "mshape t" "fresh K t (Merge ys)"
      "rem (Merge ys) = (\<Union>p\<in>set ys. rem p)" "shape_err t = first_err (map Postings_Err ys)"
    by (metis Un_iff set_append)
  then show ?case using fresh_merge[of K s "Merge xs" t "Merge ys"] Merge_halves[OF halves(1-3)]
    by (intro exI[of _ "MergeS s t"]) (simp add: newMergedPostings_def first_err_append)
qed

lemma Intersect_fresh:
  "its \<noteq> [] \<Longrightarrow> (\<forall>p\<in>set its. \<exists>s. ishape s \<and> fresh K s p) \<Longrightarrow>
   \<exists>s. ishape s \<and> fresh K s (Intersect its) \<and> rem (Intersect its) = (\<Inter>p\<in>set its. rem p) \<and>
       shape_err s = first_err (map Postings_Err its)"
proof (induction its rule: halves_induct)
  case (single p)
  then show ?case by (auto simp: fresh_def inv_err)
next
  case (halves xs ys)
  then obtain s t where "ishape s" "fresh K s (Intersect xs)" "rem (Intersect xs) = (\<Inter>p\<in>set xs. rem p)"
      "shape_err s = first_err (map Postings_Err xs)" "ishape t" "fresh K t (Intersect ys)"
      "rem (Intersect ys) = (\<Inter>p\<in>set ys. rem p)" "shape_err t = first_err (map Postings_Err ys)"
    by (metis Un_iff set_append)
  then show ?case using fresh_intersect[of K s "Intersect xs" t "Intersect ys"] Intersect_halves[OF halves(1-3)] halves(1,2)
    by (intro exI[of _ "InterS s t"]) (simp add: newIntersectPostings_def first_err_append INF_union)
qed simp

section \<open>Properties\<close>

text \<open>
  C19. Merging, removing and intersecting: over new inputs with ascending positive ids, expanding
  \<^verbatim>\<open>Intersect\<close> returns, and delivers exactly the ids common to all inputs, ascending and each
  once, together with the first error of the inputs. The inputs may be lists of ids, encoded
  lists, merges of these, and removals of one merge from another.
\<close>

theorem Intersect_expands:
  assumes "its \<noteq> []" "\<forall>p\<in>set its. \<exists>s. ishape s \<and> fresh K s p"
  shows "ExpandPostings (Intersect its) =
    Some (sorted_list_of_set (\<Inter>p\<in>set its. rem p), first_err (map Postings_Err its))"
  using Intersect_fresh[OF assms] postings_iterator.ExpandPostings_rem[OF ishape_iterator]
  by (force simp: fresh_def)

theorem Intersect_expands_witness:
  "ExpandPostings (Intersect [newListPostings [1, 3, 4, 9], newListPostings [3, 9, 11]]) = Some ([3, 9], None)"
proof -
  have "\<forall>p\<in>set [newListPostings [1, 3, 4, 9], newListPostings [3, 9, 11]]. \<exists>s. ishape s \<and> fresh 100 s p"
    by (auto intro!: exI[of _ "Leaf None"] fresh_list)
  moreover have "sorted_list_of_set {3, 9 :: u64} = [3, 9]"
    using sorted_list_of_set.idem_if_sorted_distinct[of "[3, 9 :: u64]"] by simp
  moreover have "{1, 3, 4, 9} \<inter> {3, 9, 11} = {3, 9 :: u64}" by auto
  ultimately show ?thesis
    using Intersect_expands[of "[newListPostings [1, 3, 4, 9], newListPostings [3, 9, 11]]" 100]
    by (simp add: newListPostings_def)
qed

text \<open>
  C25. Expanding \<^verbatim>\<open>Merge\<close> returns, and delivers the union of its inputs, ascending and each id
  once; and expanding \<^verbatim>\<open>Without\<close> delivers the ids of the first that are not in the second.
\<close>

theorem Merge_Without_expand:
  assumes "\<forall>p\<in>set its. \<exists>s. mshape s \<and> fresh K s p" "\<forall>p\<in>set drops. \<exists>s. mshape s \<and> fresh K s p"
  shows "ExpandPostings (Merge its) =
      Some (sorted_list_of_set (\<Union>p\<in>set its. rem p), first_err (map Postings_Err its)) \<and>
    ExpandPostings (Without (Merge its) (Merge drops)) =
      Some (sorted_list_of_set ((\<Union>p\<in>set its. rem p) - (\<Union>p\<in>set drops. rem p)),
            first_err (map Postings_Err (its @ drops)))"
proof -
  obtain s where s: "mshape s" "fresh K s (Merge its)" "rem (Merge its) = (\<Union>p\<in>set its. rem p)"
    "shape_err s = first_err (map Postings_Err its)" using Merge_fresh[OF assms(1)] by blast
  obtain t where t: "mshape t" "fresh K t (Merge drops)" "rem (Merge drops) = (\<Union>p\<in>set drops. rem p)"
    "shape_err t = first_err (map Postings_Err drops)" using Merge_fresh[OF assms(2)] by blast
  have "ishape (WithoutS s t)" using s t by simp
  from postings_iterator.ExpandPostings_rem[OF ishape_iterator[OF this], of K] fresh_without[OF s(2) t(2)]
  have "ExpandPostings (Without (Merge its) (Merge drops)) =
    Some (sorted_list_of_set (rem (Merge its) - rem (Merge drops)), shape_err (WithoutS s t))"
    by (simp add: fresh_def Without_def newRemovedPostings_def)
  with postings_iterator.ExpandPostings_rem[OF mshape_iterator[OF s(1)], of K "Merge its"] s t
  show ?thesis by (simp add: fresh_def first_err_append)
qed

theorem Merge_Without_expand_witness:
  "ExpandPostings (Without (Merge [newListPostings [2, 5], newListPostings [3, 5, 8]]) (Merge [newListPostings [3, 4]]))
     = Some ([2, 5, 8], None)"
proof -
  have "\<forall>p\<in>set [newListPostings [2, 5], newListPostings [3, 5, 8]]. \<exists>s. mshape s \<and> fresh 100 s p"
    "\<forall>p\<in>set [newListPostings [3, 4]]. \<exists>s. mshape s \<and> fresh 100 s p"
    by (auto intro!: exI[of _ "Leaf None"] fresh_list)
  moreover have "{2, 5} \<union> {3, 5, 8} - {3, 4} = {2, 5, 8 :: u64}" by auto
  moreover have "sorted_list_of_set {2, 5, 8 :: u64} = [2, 5, 8]"
    using sorted_list_of_set.idem_if_sorted_distinct[of "[2, 5, 8 :: u64]"] by simp
  ultimately show ?thesis
    using Merge_Without_expand[of "[newListPostings [2, 5], newListPostings [3, 5, 8]]" 100 "[newListPostings [3, 4]]"]
    by (simp add: newListPostings_def)
qed

text \<open>
  \<^verbatim>\<open>Seek\<close>, on any of these iterators between two calls: it returns, stays where it is when
  the current id is not below the sought one, else moves to the least remaining id that is not
  below it and leaves the greater ones, and answers false only if there is none.
\<close>

theorem Seek_least:
  assumes "ishape s" "inv K s p" "0 < x" "x \<le> K"
  shows "\<exists>ok q. run (CSeek x) p = Some (ok, q) \<and>
    (if x \<le> Postings_At p then ok \<and> q = p
     else if {y \<in> rem p. x \<le> y} = {} then \<not> ok
     else ok \<and> inv K s q \<and> Postings_At q = Min {y \<in> rem p. x \<le> y} \<and>
       rem q = {y \<in> rem p. Postings_At q < y})"
proof (cases "x \<le> Postings_At p")
  case True
  then show ?thesis
    using postings_iterator.seek_stay[OF ishape_iterator[OF assms(1)] assms(2,3)] by auto
next
  case False
  then have "Postings_At p < x" by simp
  from postings_iterator.seek_law[OF ishape_iterator[OF assms(1)] assms(2) this assms(4)]
  obtain ok q where q: "run (CSeek x) p = Some (ok, q)" "delivers K s (x - 1) {y \<in> rem p. x \<le> y} (ok, q)"
    by (auto simp del: delivers.simps)
  show ?thesis
  proof (cases ok)
    case True
    then have qi: "inv K s q" "{y \<in> rem p. x \<le> y} = insert (Postings_At q) (rem q)" using q(2) by auto
    have b: "finite (rem q)" "\<forall>y\<in>rem q. Postings_At q < y" using inv_bounds[OF qi(1)] by auto
    have "x \<le> Postings_At q" using qi(2) by blast
    then have "{y \<in> rem p. Postings_At q < y} = {y \<in> {y \<in> rem p. x \<le> y}. Postings_At q < y}"
      by auto
    also have "\<dots> = rem q" unfolding qi(2) using b(2) by auto
    finally have "rem q = {y \<in> rem p. Postings_At q < y}" by simp
    moreover have "Postings_At q = Min {y \<in> rem p. x \<le> y}"
      unfolding qi(2) using b by (auto intro!: Min_insert2[symmetric] less_imp_le)
    moreover have "{y \<in> rem p. x \<le> y} \<noteq> {}" unfolding qi(2) by blast
    ultimately have "if x \<le> Postings_At p then True \<and> q = p
      else if {y \<in> rem p. x \<le> y} = {} then \<not> True
      else True \<and> inv K s q \<and> Postings_At q = Min {y \<in> rem p. x \<le> y} \<and>
        rem q = {y \<in> rem p. Postings_At q < y}"
      using False qi(1) by presburger
    moreover have "run (CSeek x) p = Some (True, q)" using q(1) True by simp
    ultimately show ?thesis by blast
  next
    case False
    then show ?thesis using q \<open>\<not> x \<le> Postings_At p\<close> by (intro exI[of _ False]) simp
  qed
qed

theorem Seek_least_witness:
  "\<exists>ok q. run (CSeek 4) (newListPostings [2, 3, 7, 9]) = Some (ok, q) \<and> ok \<and> Postings_At q = 7"
proof -
  have i: "inv 100 (Leaf None) (newListPostings [2, 3, 7, 9])" by (simp add: newListPostings_def)
  have e: "{y \<in> rem (newListPostings [2, 3, 7, 9]). 4 \<le> y} = {7, 9}" by (auto simp: newListPostings_def)
  have "Postings_At (newListPostings [2, 3, 7, 9]) = 0" by (simp add: newListPostings_def)
  with Seek_least[OF _ i, of 4] show ?thesis unfolding e by auto
qed

end
