(* ===== verification/MemPostings.thy ===== *)
theory MemPostings
  imports Postings_Laws "HOL-Library.Multiset" "HOL-Library.Product_Lexorder"
begin

text \<open>
  The in-memory postings index of \<^verbatim>\<open>index/postings.go\<close>: a map from label pairs to the ids of the
  series that have them. The loops over the Go map treat its keys independently of each other, in
  any order, so \<open>Delete\<close> and \<open>EnsureOrder\<close> act on every key; the mutex makes each operation one step.
\<close>

section \<open>The index and its operations\<close>

record MemPostings =
  m :: "Label \<rightharpoonup> u64 list"
  ordered :: bool

definition allPostingsKey :: Label where
  "allPostingsKey = \<lparr>Name = [], Value = []\<rparr>"

definition AllPostingsKey :: "gostring \<times> gostring" where
  "AllPostingsKey = (Name allPostingsKey, Value allPostingsKey)"

definition NewMemPostings :: MemPostings where
  "NewMemPostings = \<lparr>m = Map.empty, ordered = True\<rparr>"

definition NewUnorderedMemPostings :: MemPostings where
  "NewUnorderedMemPostings = \<lparr>m = Map.empty, ordered = False\<rparr>"

definition key_Less :: "Label \<Rightarrow> Label \<Rightarrow> bool" where
  "key_Less x y =
     (let d = strings_Compare (Name x) (Name y) in if d \<noteq> 0 then d < 0 else strings_Compare (Value x) (Value y) < 0)"

definition MemPostings_Get :: "MemPostings \<Rightarrow> gostring \<Rightarrow> gostring \<Rightarrow> Postings" where
  "MemPostings_Get p name value =
     (case m p \<lparr>Name = name, Value = value\<rparr> of None \<Rightarrow> EmptyPostings | Some l \<Rightarrow> newListPostings l)"

definition MemPostings_All :: "MemPostings \<Rightarrow> Postings" where
  "MemPostings_All p = (case AllPostingsKey of (name, value) \<Rightarrow> MemPostings_Get p name value)"

definition EnsureOrder :: "MemPostings \<Rightarrow> MemPostings" where
  "EnsureOrder p = (if ordered p then p else p\<lparr>m := map_option sort \<circ> m p, ordered := True\<rparr>)"

definition delete_ids :: "u64 set \<Rightarrow> u64 list \<Rightarrow> u64 list option" where
  "delete_ids deleted l =
     (if \<not> list_ex (\<lambda>x. x \<in> deleted) l then Some l
      else let repl = filter (\<lambda>x. x \<notin> deleted) l in if length repl > 0 then Some repl else None)"

definition MemPostings_Delete :: "MemPostings \<Rightarrow> u64 set \<Rightarrow> MemPostings" where
  "MemPostings_Delete p deleted = p\<lparr>m := (\<lambda>l. Option.bind (m p l) (delete_ids deleted))\<rparr>"

fun repair_order :: "nat \<Rightarrow> u64 list \<Rightarrow> u64 list" where
  "repair_order 0 l = l"
| "repair_order (Suc i) l =
     (if l ! Suc i \<ge> l ! i then l else repair_order i (l[Suc i := l ! i, i := l ! Suc i]))"

definition addFor :: "u64 \<Rightarrow> Label \<Rightarrow> MemPostings \<Rightarrow> MemPostings" where
  "addFor x l p =
     (let l' = (case m p l of None \<Rightarrow> [] | Some xs \<Rightarrow> xs) @ [x] in
      if \<not> ordered p then p\<lparr>m := (m p)(l \<mapsto> l')\<rparr>
      else p\<lparr>m := (m p)(l \<mapsto> repair_order (length l' - 1) l')\<rparr>)"

definition MemPostings_Add :: "MemPostings \<Rightarrow> u64 \<Rightarrow> Labels \<Rightarrow> MemPostings" where
  "MemPostings_Add p x lset = addFor x allPostingsKey (fold (addFor x) lset p)"

text \<open>\<open>SortedKeys\<close> and \<open>Iter\<close> visit the keys in some order \<open>keys\<close>, an enumeration of the domain.\<close>

definition enumerates_keys :: "Label list \<Rightarrow> MemPostings \<Rightarrow> bool" where
  "enumerates_keys keys p \<longleftrightarrow> distinct keys \<and> set keys = dom (m p)"

definition MemPostings_SortedKeys :: "Label list \<Rightarrow> Label list" where
  "MemPostings_SortedKeys keys = sort_key (\<lambda>l. (Name l, Value l)) keys"

fun MemPostings_Iter :: "Label list \<Rightarrow> MemPostings \<Rightarrow> (Label \<Rightarrow> Postings \<Rightarrow> 's \<Rightarrow> go_error option \<times> 's) \<Rightarrow> 's \<Rightarrow> go_error option \<times> 's" where
  "MemPostings_Iter [] p f s = (None, s)"
| "MemPostings_Iter (l # keys) p f s =
     (case f l (newListPostings (the (m p l))) s of
        (Some err, s) \<Rightarrow> (Some err, s)
      | (None, s) \<Rightarrow> MemPostings_Iter keys p f s)"

section \<open>Repairing the order of one list\<close>

lemma mset_repair_order: "i < length l \<Longrightarrow> mset (repair_order i l) = mset l"
  by (induction i l rule: repair_order.induct) (auto simp: mset_swap)

lemma repair_order_sorted:
  assumes "i < length l" "\<And>j k. j \<le> k \<Longrightarrow> k < length l \<Longrightarrow> j \<noteq> i \<Longrightarrow> k \<noteq> i \<Longrightarrow> l ! j \<le> l ! k"
    and "\<And>k. i < k \<Longrightarrow> k < length l \<Longrightarrow> l ! i \<le> l ! k"
  shows "sorted (repair_order i l)"
  using assms
proof (induction i l rule: repair_order.induct)
  case (1 l)
  then show ?case by (auto simp: sorted_iff_nth_mono le_eq_less_or_eq)
next
  case (2 i l)
  show ?case
  proof (cases "l ! i \<le> l ! Suc i")
    case True
    have "l ! j \<le> l ! k" if jk: "j \<le> k" "k < length l" for j k
    proof -
      consider "j = k" | "j \<noteq> Suc i" "k \<noteq> Suc i" | "j < k" "k = Suc i" | "j < k" "j = Suc i" using jk by (metis le_eq_less_or_eq)
      then show ?thesis
        using "2.prems"(2)[of j k] "2.prems"(2)[of j i] "2.prems"(3)[of k] True "2.prems"(1) jk
        by cases (auto intro: order_trans)
    qed
    with True show ?thesis by (simp add: sorted_iff_nth_mono)
  next
    case False
    let ?l = "l[Suc i := l ! i, i := l ! Suc i]"
    have "sorted (repair_order i ?l)"
    proof (rule "2.IH"[OF False])
      show "i < length ?l" using "2.prems"(1) by simp
    next
      fix j k assume "j \<le> k" "k < length ?l" "j \<noteq> i" "k \<noteq> i"
      then show "?l ! j \<le> ?l ! k"
        using "2.prems"(2)[of j k] "2.prems"(2)[of j i] "2.prems"(2)[of i k] "2.prems"(1)
        by (auto simp: nth_list_update)
    next
      fix k assume "i < k" "k < length ?l"
      then show "?l ! i \<le> ?l ! k"
        using "2.prems"(3)[of k] False "2.prems"(1) by (auto simp: nth_list_update)
    qed
    with False show ?thesis by simp
  qed
qed

lemma repair_order_insort:
  assumes "sorted l"
  shows "repair_order (length l) (l @ [x]) = insort x l"
proof -
  have "sort (l @ [x]) = repair_order (length l) (l @ [x])"
  proof (rule properties_for_sort)
    show "mset (repair_order (length l) (l @ [x])) = mset (l @ [x])" by (simp add: mset_repair_order)
    show "sorted (repair_order (length l) (l @ [x]))"
      by (rule repair_order_sorted) (use assms in \<open>auto simp: nth_append sorted_iff_nth_mono\<close>)
  qed
  moreover have "sort (l @ [x]) = insort x l"
    by (rule properties_for_sort) (simp_all add: assms sorted_insort)
  ultimately show ?thesis by simp
qed

section \<open>What the index represents\<close>

text \<open>
  The abstract index is a set of series, each an id with its labels. Every series is listed under
  each of its labels and under the key of all postings.
\<close>

definition series_with :: "(u64 \<times> Labels) set \<Rightarrow> Label \<Rightarrow> u64 set" where
  "series_with R l = {x. \<exists>ls. (x, ls) \<in> R \<and> (l \<in> set ls \<or> l = allPostingsKey)}"

definition ids_at :: "MemPostings \<Rightarrow> Label \<Rightarrow> u64 list" where
  "ids_at p l = (case m p l of None \<Rightarrow> [] | Some xs \<Rightarrow> xs)"

definition represents :: "MemPostings \<Rightarrow> (u64 \<times> Labels) set \<Rightarrow> bool" where
  "represents p R \<longleftrightarrow>
     (\<forall>l. set (ids_at p l) = series_with R l \<and> distinct (ids_at p l) \<and> m p l \<noteq> Some [] \<and>
          (ordered p \<longrightarrow> sorted (ids_at p l)))"

lemma represents_New: "represents NewMemPostings {}" "represents NewUnorderedMemPostings {}"
  by (auto simp: represents_def NewMemPostings_def NewUnorderedMemPostings_def ids_at_def series_with_def)

lemma ids_at_addFor:
  "(ordered p \<longrightarrow> sorted (ids_at p l)) \<Longrightarrow>
   ids_at (addFor x l p) k =
     (if k = l then if ordered p then insort x (ids_at p l) else ids_at p l @ [x] else ids_at p k)"
  using repair_order_insort[of "ids_at p l" x]
  by (auto simp: addFor_def ids_at_def Let_def split: option.splits)

lemma addFor_nonempty: "\<forall>k. m p k \<noteq> Some [] \<Longrightarrow> m (addFor x l p) k \<noteq> Some []"
proof -
  have "repair_order i (ys @ [x]) \<noteq> []" if "i \<le> length ys" for i ys
    using mset_repair_order[of i "ys @ [x]"] that by (metis length_append_singleton less_Suc_eq_le mset_zero_iff snoc_eq_iff_butlast)
  then show "\<forall>k. m p k \<noteq> Some [] \<Longrightarrow> m (addFor x l p) k \<noteq> Some []"
    by (auto simp: addFor_def Let_def split: option.splits if_splits)
qed

lemma ordered_addFor [simp]: "ordered (addFor x l p) = ordered p"
  by (simp add: addFor_def Let_def)

text \<open>Listing a new id under some of its labels.\<close>

definition listed :: "MemPostings \<Rightarrow> (u64 \<times> Labels) set \<Rightarrow> u64 \<Rightarrow> Label set \<Rightarrow> bool" where
  "listed p R x L \<longleftrightarrow>
     (\<forall>l. set (ids_at p l) = series_with R l \<union> (if l \<in> L then {x} else {}) \<and> distinct (ids_at p l) \<and>
          m p l \<noteq> Some [] \<and> (ordered p \<longrightarrow> sorted (ids_at p l)))"

lemma listed_addFor:
  assumes "listed p R x L" "x \<notin> fst ` R" "l \<notin> L"
  shows "listed (addFor x l p) R x (insert l L)"
proof -
  have x: "x \<notin> series_with R k" for k using assms(2) by (force simp: series_with_def)
  have p: "set (ids_at p k) = series_with R k \<union> (if k \<in> L then {x} else {})" "distinct (ids_at p k)"
    "m p k \<noteq> Some []" "ordered p \<longrightarrow> sorted (ids_at p k)" for k
    using assms(1) by (auto simp: listed_def)
  have ids: "ids_at (addFor x l p) k =
     (if k = l then if ordered p then insort x (ids_at p l) else ids_at p l @ [x] else ids_at p k)" for k
    by (rule ids_at_addFor) (rule p(4))
  have xl: "x \<notin> set (ids_at p l)" using p(1)[of l] x assms(3) by simp
  have "set (ids_at (addFor x l p) k) = series_with R k \<union> (if k \<in> insert l L then {x} else {})" for k
    using p(1)[of k] p(1)[of l] by (auto simp: ids set_insort_key)
  moreover have "distinct (ids_at (addFor x l p) k)" for k
    using p(2)[of k] p(2)[of l] xl by (auto simp: ids distinct_insort)
  moreover have "ordered p \<longrightarrow> sorted (ids_at (addFor x l p) k)" for k
    using p(4)[of k] p(4)[of l] by (auto simp: ids sorted_insort)
  moreover have "m (addFor x l p) k \<noteq> Some []" for k
    by (rule addFor_nonempty) (simp add: p(3))
  ultimately show ?thesis by (simp add: listed_def)
qed

lemma listed_fold:
  "listed p R x L \<Longrightarrow> x \<notin> fst ` R \<Longrightarrow> distinct ls \<Longrightarrow> set ls \<inter> L = {} \<Longrightarrow>
   listed (fold (addFor x) ls p) R x (set ls \<union> L)"
proof (induction ls arbitrary: p L)
  case (Cons l ls)
  from listed_addFor[OF Cons.prems(1,2), of l] Cons.prems Cons.IH[of "addFor x l p" "insert l L"]
  show ?case by auto
qed simp

lemma represents_Add:
  assumes "represents p R" "x \<notin> fst ` R" "distinct lset" "allPostingsKey \<notin> set lset"
  shows "represents (MemPostings_Add p x lset) (insert (x, lset) R)"
proof -
  have "listed p R x {}" using assms(1) by (simp add: represents_def listed_def)
  then have "listed (fold (addFor x) lset p) R x (set lset)"
    using listed_fold[of p R x "{}" lset] assms by simp
  then have "listed (MemPostings_Add p x lset) R x (insert allPostingsKey (set lset))"
    unfolding MemPostings_Add_def by (rule listed_addFor) (use assms in auto)
  moreover have "series_with (insert (x, lset) R) l = series_with R l \<union> (if l \<in> insert allPostingsKey (set lset) then {x} else {})" for l
    by (auto simp: series_with_def)
  ultimately show ?thesis by (simp add: represents_def listed_def)
qed

lemma ids_at_Delete: "ids_at (MemPostings_Delete p D) l = filter (\<lambda>x. x \<notin> D) (ids_at p l)"
  by (auto simp: ids_at_def MemPostings_Delete_def delete_ids_def Let_def list_ex_iff filter_empty_conv
      split: option.splits intro: filter_True[symmetric])

lemma ordered_Delete [simp]: "ordered (MemPostings_Delete p D) = ordered p"
  by (simp add: MemPostings_Delete_def)

lemma represents_Delete:
  assumes "represents p R"
  shows "represents (MemPostings_Delete p D) {(x, ls) \<in> R. x \<notin> D}"
proof -
  have "m (MemPostings_Delete p D) l \<noteq> Some []" for l
    using assms by (auto simp: MemPostings_Delete_def delete_ids_def Let_def represents_def bind_eq_Some_conv split: if_splits)
  moreover have "series_with {(x, ls) \<in> R. x \<notin> D} l = series_with R l - D" for l
    by (auto simp: series_with_def)
  ultimately show ?thesis using assms
    by (auto simp: represents_def ids_at_Delete sorted_wrt_filter)
qed

lemma represents_EnsureOrder:
  assumes "represents p R"
  shows "represents (EnsureOrder p) R" "ordered (EnsureOrder p)"
proof -
  have "ids_at (EnsureOrder p) l = (if ordered p then ids_at p l else sort (ids_at p l))" for l
    by (auto simp: ids_at_def EnsureOrder_def split: option.splits)
  moreover have "m (EnsureOrder p) l \<noteq> Some []" for l
    using assms by (auto simp: represents_def EnsureOrder_def dest: arg_cong[of _ _ length])
  ultimately show "represents (EnsureOrder p) R" "ordered (EnsureOrder p)"
    using assms by (auto simp: represents_def EnsureOrder_def)
qed

text \<open>Reading an ordered index.\<close>

lemma Get_fresh:
  assumes "represents p R" "ordered p" "\<forall>(x, ls)\<in>R. 0 < x \<and> x \<le> K"
  shows "fresh K (Leaf None) (MemPostings_Get p n v)" "rem (MemPostings_Get p n v) = series_with R \<lparr>Name = n, Value = v\<rparr>"
proof -
  let ?l = "\<lparr>Name = n, Value = v\<rparr>"
  have ids: "set (ids_at p ?l) = series_with R ?l" "sorted_wrt (<) (ids_at p ?l)"
    using assms(1,2) by (auto simp: represents_def strict_sorted_iff)
  moreover have "\<forall>x\<in>series_with R ?l. 0 < x \<and> x \<le> K" using assms(3) by (auto simp: series_with_def)
  ultimately show "fresh K (Leaf None) (MemPostings_Get p n v)"
    by (cases "m p ?l") (auto simp: MemPostings_Get_def ids_at_def EmptyPostings_def fresh_err intro!: fresh_list)
  show "rem (MemPostings_Get p n v) = series_with R ?l"
    using ids by (cases "m p ?l") (auto simp: MemPostings_Get_def ids_at_def EmptyPostings_def newListPostings_def)
qed

section \<open>Sequences of operations\<close>

datatype index_op = Add_op u64 Labels | Delete_op "u64 list"

fun apply_op :: "index_op \<Rightarrow> MemPostings \<Rightarrow> MemPostings" where
  "apply_op (Add_op x lset) p = MemPostings_Add p x lset"
| "apply_op (Delete_op D) p = MemPostings_Delete p (set D)"

fun abs_op :: "index_op \<Rightarrow> (u64 \<times> Labels) set \<Rightarrow> (u64 \<times> Labels) set" where
  "abs_op (Add_op x lset) R = insert (x, lset) R"
| "abs_op (Delete_op D) R = {(x, ls) \<in> R. x \<notin> set D}"

text \<open>Ids are positive and not in use; label sets have no duplicates and no empty label.\<close>

fun ops_ok :: "(u64 \<times> Labels) set \<Rightarrow> index_op list \<Rightarrow> bool" where
  "ops_ok R [] = True"
| "ops_ok R (op # ops) =
     ((case op of Add_op x lset \<Rightarrow> 0 < x \<and> x \<notin> fst ` R \<and> distinct lset \<and> allPostingsKey \<notin> set lset | Delete_op D \<Rightarrow> True)
      \<and> ops_ok (abs_op op R) ops)"

lemma ordered_Add [simp]: "ordered (MemPostings_Add p x lset) = ordered p"
proof -
  have "ordered (fold (addFor x) ls p) = ordered p" for ls p by (induction ls arbitrary: p) auto
  then show ?thesis by (simp add: MemPostings_Add_def)
qed

lemma represents_ops:
  "represents p R \<Longrightarrow> ops_ok R ops \<Longrightarrow> \<forall>(x, ls)\<in>R. 0 < x \<Longrightarrow>
     represents (fold apply_op ops p) (fold abs_op ops R) \<and> ordered (fold apply_op ops p) = ordered p \<and>
     (\<forall>(x, ls)\<in>fold abs_op ops R. 0 < x)"
proof (induction ops arbitrary: p R)
  case (Cons op ops)
  have "represents (apply_op op p) (abs_op op R)" "ordered (apply_op op p) = ordered p"
    "\<forall>(x, ls)\<in>abs_op op R. 0 < x"
    using Cons.prems by (cases op; auto intro: represents_Add represents_Delete)+
  with Cons.IH[of "apply_op op p" "abs_op op R"] Cons.prems(2) show ?case by auto
qed simp

text \<open>
  C26. The postings index after any sequence of \<^verbatim>\<open>Add\<close> and \<^verbatim>\<open>Delete\<close>, interleaved in any way: the
  postings of a label pair expand to exactly the ids of the series that have it and were not
  deleted, ascending and each once. The same holds for an index that was filled unordered once
  \<^verbatim>\<open>EnsureOrder\<close> ran, and for operations after that.
\<close>

theorem MemPostings_lookup:
  assumes "ops_ok {} (ops1 @ ops2)"
  shows "ExpandPostings (MemPostings_Get (fold apply_op (ops1 @ ops2) NewMemPostings) n v) =
      Some (sorted_list_of_set (series_with (fold abs_op (ops1 @ ops2) {}) \<lparr>Name = n, Value = v\<rparr>), None) \<and>
    ExpandPostings (MemPostings_Get (fold apply_op ops2 (EnsureOrder (fold apply_op ops1 NewUnorderedMemPostings))) n v) =
      Some (sorted_list_of_set (series_with (fold abs_op (ops1 @ ops2) {}) \<lparr>Name = n, Value = v\<rparr>), None)"
proof -
  have split: "ops_ok R (xs @ ys) \<longleftrightarrow> ops_ok R xs \<and> ops_ok (fold abs_op xs R) ys" for R xs ys
    by (induction xs arbitrary: R) auto
  have get: "ExpandPostings (MemPostings_Get p n v) = Some (sorted_list_of_set (series_with R \<lparr>Name = n, Value = v\<rparr>), None)"
    if "represents p R" "ordered p" "\<forall>(x, ls)\<in>R. 0 < x" for p R
    using Get_fresh[OF that(1,2), of "-1" n v] that(3) leaf.ExpandPostings_rem[of "-1" None "MemPostings_Get p n v"]
    by (auto simp: fresh_def)
  have new: "represents (fold apply_op (ops1 @ ops2) NewMemPostings) (fold abs_op (ops1 @ ops2) {})"
    "ordered (fold apply_op (ops1 @ ops2) NewMemPostings)" "\<forall>(x, ls)\<in>fold abs_op (ops1 @ ops2) {}. 0 < x"
    using represents_ops[OF represents_New(1) assms] by (auto simp: NewMemPostings_def)
  define q where "q = EnsureOrder (fold apply_op ops1 NewUnorderedMemPostings)"
  have "represents q (fold abs_op ops1 {})" "ordered q" "\<forall>(x, ls)\<in>fold abs_op ops1 {}. 0 < x"
    unfolding q_def using represents_ops[OF represents_New(2)] represents_EnsureOrder assms[unfolded split] by blast+
  then have "represents (fold apply_op ops2 q) (fold abs_op (ops1 @ ops2) {})" "ordered (fold apply_op ops2 q)"
    using represents_ops[of q "fold abs_op ops1 {}" ops2] assms[unfolded split] by auto
  with get new q_def show ?thesis by blast
qed

theorem MemPostings_lookup_witness:
  "ExpandPostings (MemPostings_Get (fold apply_op
      ([Add_op 7 [\<lparr>Name = [97], Value = [98]\<rparr>], Add_op 3 [\<lparr>Name = [97], Value = [98]\<rparr>]] @
       [Add_op 5 [\<lparr>Name = [97], Value = [99]\<rparr>], Delete_op [7]]) NewMemPostings) [97] [98]) = Some ([3], None)"
proof -
  let ?ops1 = "[Add_op 7 [\<lparr>Name = [97], Value = [98]\<rparr>], Add_op 3 [\<lparr>Name = [97], Value = [98]\<rparr>]]"
  let ?ops2 = "[Add_op 5 [\<lparr>Name = [97], Value = [99]\<rparr>], Delete_op [7]]"
  have ok: "ops_ok {} (?ops1 @ ?ops2)" by (simp add: allPostingsKey_def)
  have "series_with (fold abs_op (?ops1 @ ?ops2) {}) \<lparr>Name = [97], Value = [98]\<rparr> = {3}"
    by (auto simp: series_with_def allPostingsKey_def)
  moreover have "sorted_list_of_set {3 :: u64} = [3]" by simp
  ultimately show ?thesis using MemPostings_lookup[OF ok, of "[97]" "[98]"] by (simp only:)
qed

lemma key_Less_lex: "key_Less x y \<longleftrightarrow> (Name x, Value x) < (Name y, Value y)"
  by (auto simp: key_Less_def Let_def less_prod_simp)

end
