(* ===== verification/Buffer.thy ===== *)
theory Buffer
  imports Prelude "HOL-Library.Monad_Syntax"
begin

text \<open>
  The look-back buffer of \<^verbatim>\<open>tsdbutil/buffer.go\<close>: a ring of samples that grows, and the iterator
  that fills it. The wrapped \<^verbatim>\<open>tsdb.SeriesIterator\<close> is a value of \<open>SeriesIterator\<close>: its methods
  as functions on its state.
\<close>

section \<open>The ring\<close>

record sample =
  smp_t :: int
  smp_v :: f64

definition zero_sample :: sample where
  "zero_sample = \<lparr>smp_t = 0, smp_v = 0\<rparr>"

record sampleRing =
  delta :: int
  buf :: "sample list"
  ring_i :: int
  ring_f :: nat
  ring_l :: nat

definition ring_reset :: "sampleRing \<Rightarrow> sampleRing" where
  "ring_reset r = r\<lparr>ring_l := 0, ring_i := -1, ring_f := 0\<rparr>"

definition newSampleRing :: "int \<Rightarrow> nat \<Rightarrow> sampleRing" where
  "newSampleRing d sz =
     ring_reset \<lparr>delta = d, buf = replicate sz zero_sample, ring_i = 0, ring_f = 0, ring_l = 0\<rparr>"

definition ring_at :: "sampleRing \<Rightarrow> nat \<Rightarrow> int \<times> f64" where
  "ring_at r i =
     (let j = (ring_f r + i) mod length (buf r); s = buf r ! j in (smp_t s, smp_v s))"

text \<open>The first half of \<^verbatim>\<open>add\<close>: make room and store the sample.\<close>

definition ring_store :: "sampleRing \<Rightarrow> int \<Rightarrow> f64 \<Rightarrow> sampleRing" where
  "ring_store r t v =
     (let l = length (buf r);
          r = (if l = ring_l r then
                 let b = replicate (2 * l) zero_sample;
                     b = copy_at b (l + ring_f r) (drop (ring_f r) (buf r));
                     b = copy_at b 0 (take (ring_f r) (buf r))
                 in r\<lparr>buf := b, ring_i := int (ring_f r), ring_f := ring_f r + l\<rparr>
               else
                 let i = ring_i r + 1 in r\<lparr>ring_i := (if i \<ge> int l then i - int l else i)\<rparr>)
      in r\<lparr>buf := (buf r)[nat (ring_i r) := \<lparr>smp_t = t, smp_v = v\<rparr>], ring_l := ring_l r + 1\<rparr>)"

text \<open>The loop that frees the head; \<open>l\<close> is the length of the ring before it was grown.\<close>

partial_function (option) ring_free :: "nat \<Rightarrow> int \<Rightarrow> sampleRing \<Rightarrow> sampleRing option" where
  "ring_free l bound r =
     (if smp_t (buf r ! ring_f r) < bound then
        let f = ring_f r + 1 in
        ring_free l bound (r\<lparr>ring_f := (if f \<ge> l then f - l else f), ring_l := ring_l r - 1\<rparr>)
      else Some r)"

definition ring_add :: "sampleRing \<Rightarrow> int \<Rightarrow> f64 \<Rightarrow> sampleRing option" where
  "ring_add r t v = ring_free (length (buf r)) (i64 (t - delta r)) (ring_store r t v)"

definition ring_last :: "sampleRing \<Rightarrow> int \<times> f64 \<times> bool" where
  "ring_last r =
     (if ring_l r = 0 then (0, 0, False)
      else let s = buf r ! nat (ring_i r) in (smp_t s, smp_v s, True))"

definition ring_samples :: "sampleRing \<Rightarrow> sample list" where
  "ring_samples r =
     (let res = replicate (ring_l r) zero_sample;
          k = ring_f r + ring_l r;
          (k, j) = (if k > length (buf r) then (length (buf r), ring_l r + ring_f r - length (buf r)) else (k, 0));
          src = take (k - ring_f r) (drop (ring_f r) (buf r));
          n = min (length res) (length src);
          res = copy_at res 0 src
      in copy_at res n (take j (buf r)))"

record sampleRingIterator =
  sri_r :: sampleRing
  sri_i :: int

definition ring_iterator :: "sampleRing \<Rightarrow> sampleRingIterator" where
  "ring_iterator r = \<lparr>sri_r = r, sri_i = -1\<rparr>"

definition sri_Next :: "sampleRingIterator \<Rightarrow> bool \<times> sampleRingIterator" where
  "sri_Next it =
     (let it = it\<lparr>sri_i := sri_i it + 1\<rparr> in (sri_i it < int (ring_l (sri_r it)), it))"

definition sri_Seek :: "sampleRingIterator \<Rightarrow> int \<Rightarrow> bool" where
  "sri_Seek it t = False"

definition sri_At :: "sampleRingIterator \<Rightarrow> int \<times> f64" where
  "sri_At it = ring_at (sri_r it) (nat (sri_i it))"

section \<open>The buffered iterator\<close>

record 's SeriesIterator =
  it_Seek :: "int \<Rightarrow> 's \<Rightarrow> bool \<times> 's"
  it_At :: "'s \<Rightarrow> int \<times> f64"
  it_Next :: "'s \<Rightarrow> bool \<times> 's"
  it_Err :: "'s \<Rightarrow> go_error option"

record 's BufferedSeriesIterator =
  b_it :: 's
  b_buf :: sampleRing
  b_lastTime :: int

definition NewBuffer :: "'s \<Rightarrow> int \<Rightarrow> 's BufferedSeriesIterator" where
  "NewBuffer it d = \<lparr>b_it = it, b_buf = newSampleRing d 16, b_lastTime = MinInt64\<rparr>"

definition PeekBack :: "'s BufferedSeriesIterator \<Rightarrow> int \<times> f64 \<times> bool" where
  "PeekBack b = ring_last (b_buf b)"

definition Buffered_At :: "'s SeriesIterator \<Rightarrow> 's BufferedSeriesIterator \<Rightarrow> int \<times> f64" where
  "Buffered_At ops b = it_At ops (b_it b)"

definition Buffered_Next ::
  "'s SeriesIterator \<Rightarrow> 's BufferedSeriesIterator \<Rightarrow> (bool \<times> 's BufferedSeriesIterator) option" where
  "Buffered_Next ops b =
     (case it_At ops (b_it b) of (t, v) \<Rightarrow>
        Option.bind (ring_add (b_buf b) t v) (\<lambda>r.
          let (ok, it) = it_Next ops (b_it b); b = b\<lparr>b_it := it, b_buf := r\<rparr>
          in Some (ok, if ok then b\<lparr>b_lastTime := fst (Buffered_At ops b)\<rparr> else b)))"

partial_function (option) Seek_loop ::
  "'s SeriesIterator \<Rightarrow> int \<Rightarrow> 's BufferedSeriesIterator \<Rightarrow> (bool \<times> 's BufferedSeriesIterator) option" where
  "Seek_loop ops t b =
     Option.bind (Buffered_Next ops b) (\<lambda>(ok, b).
       if \<not> ok then Some (False, b)
       else if b_lastTime b \<ge> t then Some (True, b)
       else Seek_loop ops t b)"

definition Buffered_Seek ::
  "'s SeriesIterator \<Rightarrow> int \<Rightarrow> 's BufferedSeriesIterator \<Rightarrow> (bool \<times> 's BufferedSeriesIterator) option" where
  "Buffered_Seek ops t b =
     (let t0 = i64 (t - delta (b_buf b));
          (ok, b) =
            (if t0 > b_lastTime b then
               (let b = b\<lparr>b_buf := ring_reset (b_buf b)\<rparr>;
                    (ok, it) = it_Seek ops t0 (b_it b);
                    b = b\<lparr>b_it := it\<rparr>
                in (ok, if ok then b\<lparr>b_lastTime := fst (Buffered_At ops b)\<rparr> else b))
             else (True, b))
      in if \<not> ok then Some (False, b)
         else if b_lastTime b \<ge> t then Some (True, b)
         else Seek_loop ops t b)"

declare ring_free.simps [code] Seek_loop.simps [code]

section \<open>The ring holds a queue\<close>

text \<open>The samples of the ring, oldest first.\<close>

definition ring_list :: "sampleRing \<Rightarrow> sample list" where
  "ring_list r = map (\<lambda>i. buf r ! ((ring_f r + i) mod length (buf r))) [0..<ring_l r]"

definition wf_ring :: "sampleRing \<Rightarrow> bool" where
  "wf_ring r \<longleftrightarrow>
     0 < length (buf r) \<and> ring_f r < length (buf r) \<and> ring_l r \<le> length (buf r) \<and>
     -1 \<le> ring_i r \<and> ring_i r < int (length (buf r)) \<and> (ring_i r = -1 \<longrightarrow> ring_l r = 0) \<and>
     nat (ring_i r + 1) mod length (buf r) = (ring_f r + ring_l r) mod length (buf r)"

lemma wf_newSampleRing: "0 < sz \<Longrightarrow> wf_ring (newSampleRing d sz)"
  and ring_list_new: "ring_list (newSampleRing d sz) = []"
  by (simp_all add: wf_ring_def newSampleRing_def ring_reset_def ring_list_def)

lemma wf_ring_reset: "wf_ring r \<Longrightarrow> wf_ring (ring_reset r)"
  and ring_list_reset: "ring_list (ring_reset r) = []"
  by (simp_all add: wf_ring_def ring_reset_def ring_list_def)

definition ring_pop :: "sampleRing \<Rightarrow> sampleRing" where
  "ring_pop r = r\<lparr>ring_f := Suc (ring_f r) mod length (buf r), ring_l := ring_l r - 1\<rparr>"

lemma ring_pop_simps [simp]:
  "buf (ring_pop r) = buf r" "delta (ring_pop r) = delta r" "ring_l (ring_pop r) = ring_l r - 1"
  "ring_i (ring_pop r) = ring_i r"
  by (simp_all add: ring_pop_def)

lemma ring_list_Cons:
  assumes "wf_ring r" "0 < ring_l r"
  shows "ring_list r = buf r ! ring_f r # ring_list (ring_pop r)"
proof -
  have "[0..<ring_l r] = 0 # map Suc [0..<ring_l r - 1]"
    using assms(2) by (simp add: map_Suc_upt upt_conv_Cons)
  then show ?thesis using assms(1) by (simp add: ring_list_def ring_pop_def comp_def wf_ring_def mod_simps)
qed

lemma wf_ring_pop: "wf_ring r \<Longrightarrow> 0 < ring_l r \<Longrightarrow> wf_ring (ring_pop r)"
  by (cases "ring_l r") (auto simp: wf_ring_def ring_pop_def mod_simps)

lemma ring_free_step:
  assumes "wf_ring r"
  shows "ring_free (length (buf r)) bound r =
    (if smp_t (buf r ! ring_f r) < bound then ring_free (length (buf r)) bound (ring_pop r) else Some r)"
proof -
  have "Suc (ring_f r) mod length (buf r) =
      (if ring_f r + 1 \<ge> length (buf r) then ring_f r + 1 - length (buf r) else ring_f r + 1)"
    using assms by (auto simp: wf_ring_def le_Suc_eq not_less_eq_eq)
  then show ?thesis by (subst ring_free.simps) (simp add: ring_pop_def Let_def)
qed

text \<open>Freeing the head, when the ring was not grown, drops the samples before the bound.\<close>

lemma ring_free_dropWhile:
  "wf_ring r \<Longrightarrow> \<exists>s\<in>set (ring_list r). bound \<le> smp_t s \<Longrightarrow>
     \<exists>r'. ring_free (length (buf r)) bound r = Some r' \<and> wf_ring r' \<and> delta r' = delta r \<and>
       ring_list r' = dropWhile (\<lambda>s. smp_t s < bound) (ring_list r)"
proof (induction "ring_l r" arbitrary: r)
  case 0
  then show ?case by (simp add: ring_list_def)
next
  case (Suc n)
  have l: "0 < ring_l r" using Suc.hyps(2) by simp
  note list = ring_list_Cons[OF Suc.prems(1) l]
  show ?case
  proof (cases "smp_t (buf r ! ring_f r) < bound")
    case True
    then have "\<exists>s\<in>set (ring_list (ring_pop r)). bound \<le> smp_t s" using Suc.prems(2) unfolding list by auto
    from Suc.hyps(1)[OF _ wf_ring_pop[OF Suc.prems(1) l] this] Suc.hyps(2) True
    show ?thesis by (simp add: list ring_free_step[OF Suc.prems(1)])
  next
    case False
    then show ?thesis using Suc.prems(1) list by (simp add: ring_free_step)
  qed
qed

text \<open>Storing a sample appends it, whether the ring is grown or not.\<close>

lemma add_mod_less: "f < L \<Longrightarrow> i \<le> L \<Longrightarrow> (f + i) mod L = (if f + i < L then f + i else f + i - L)" for f i L :: nat
  by (simp add: le_mod_geq mod_if)

lemma ring_store_not_full:
  assumes "wf_ring r" "ring_l r < length (buf r)"
  shows "wf_ring (ring_store r t v)" "ring_list (ring_store r t v) = ring_list r @ [\<lparr>smp_t = t, smp_v = v\<rparr>]"
    "delta (ring_store r t v) = delta r" "length (buf (ring_store r t v)) = length (buf r)"
proof -
  define L where "L = length (buf r)"
  define p where "p = (ring_f r + ring_l r) mod L"
  have w: "0 < L" "ring_f r < L" "ring_l r < L" "-1 \<le> ring_i r" "ring_i r < int L" "nat (ring_i r + 1) mod L = p"
    using assms by (auto simp: wf_ring_def L_def p_def)
  have i: "(if ring_i r + 1 \<ge> int L then ring_i r + 1 - int L else ring_i r + 1) = int p"
    using w by (cases "ring_i r + 1 = int L") (auto simp: nat_less_iff)
  have st: "ring_store r t v = r\<lparr>ring_i := int p, buf := (buf r)[p := \<lparr>smp_t = t, smp_v = v\<rparr>], ring_l := ring_l r + 1\<rparr>"
    using w(3) by (simp add: ring_store_def Let_def i flip: L_def)
  have p: "p < L" using w(1) by (simp add: p_def)
  have ne: "(ring_f r + j) mod L \<noteq> p" if "j < ring_l r" for j
    using that w by (auto simp: p_def add_mod_less split: if_splits)
  show "ring_list (ring_store r t v) = ring_list r @ [\<lparr>smp_t = t, smp_v = v\<rparr>]"
    using p by (auto simp: st ring_list_def L_def[symmetric] p_def[symmetric] dest: ne intro!: nth_list_update_neq)
  show "wf_ring (ring_store r t v)"
    using w p by (simp add: st wf_ring_def L_def[symmetric] p_def nat_add_distrib mod_simps)
  show "delta (ring_store r t v) = delta r" "length (buf (ring_store r t v)) = length (buf r)"
    by (simp_all add: st)
qed

lemma ring_store_full:
  assumes "wf_ring r" "ring_l r = length (buf r)"
  shows "wf_ring (ring_store r t v)" "ring_list (ring_store r t v) = ring_list r @ [\<lparr>smp_t = t, smp_v = v\<rparr>]"
    "delta (ring_store r t v) = delta r"
proof -
  define L where "L = length (buf r)"
  define f where "f = ring_f r"
  define b where "b = take f (buf r) @ replicate L zero_sample @ drop f (buf r)"
  have w: "0 < L" "f < L" using assms by (auto simp: wf_ring_def L_def f_def)
  have len: "length b = 2 * L" using w by (simp add: b_def L_def)
  have b: "copy_at (copy_at (replicate (2 * L) zero_sample) (L + f) (drop f (buf r))) 0 (take f (buf r)) = b"
    using w by (simp add: copy_at_def b_def L_def Let_def min_def)
  have st: "ring_store r t v = r\<lparr>ring_i := int f, buf := b[f := \<lparr>smp_t = t, smp_v = v\<rparr>], ring_f := f + L, ring_l := L + 1\<rparr>"
    using assms(2) b by (simp add: ring_store_def Let_def L_def f_def)
  have at: "b[f := x] ! ((f + L + j) mod (2 * L)) = buf r ! ((f + j) mod L)" if "j < L" for j x
  proof (cases "f + j < L")
    case True
    then show ?thesis using w that by (simp add: b_def nth_append L_def[symmetric] nth_list_update)
  next
    case False
    then have "(f + L + j) mod (2 * L) = f + j - L" using w that by (simp add: mod_if)
    then show ?thesis using w that False by (simp add: b_def nth_append L_def[symmetric] nth_list_update mod_if)
  qed
  have at_new: "(f + L + L) mod (2 * L) = f" using w by (simp add: mod_if)
  show "ring_list (ring_store r t v) = ring_list r @ [\<lparr>smp_t = t, smp_v = v\<rparr>]"
    using assms(2) w at len at_new by (simp add: st ring_list_def L_def[symmetric] f_def[symmetric])
  show "wf_ring (ring_store r t v)"
    using w len by (simp add: st wf_ring_def mod_if nat_add_distrib)
  show "delta (ring_store r t v) = delta r" by (simp add: st)
qed

lemma copy_at_replicate:
  "length xs + length ys = n \<Longrightarrow> copy_at (copy_at (replicate n z) 0 xs) (length xs) ys = xs @ ys"
  by (simp add: copy_at_def Let_def)

lemma ring_samples_parts:
  assumes "wf_ring r"
  shows "ring_samples r =
    (if ring_f r + ring_l r > length (buf r)
     then drop (ring_f r) (buf r) @ take (ring_f r + ring_l r - length (buf r)) (buf r)
     else take (ring_l r) (drop (ring_f r) (buf r)))"
proof (cases "ring_f r + ring_l r > length (buf r)")
  case True
  let ?xs = "drop (ring_f r) (buf r)" and ?ys = "take (ring_f r + ring_l r - length (buf r)) (buf r)"
  have "length ?xs + length ?ys = ring_l r" using True assms by (auto simp: wf_ring_def min_def)
  moreover have "min (ring_l r) (length ?xs) = length ?xs" using True by simp
  ultimately show ?thesis
    using True copy_at_replicate[of ?xs ?ys "ring_l r" zero_sample]
    by (simp add: ring_samples_def Let_def add.commute)
next
  case False
  let ?xs = "take (ring_l r) (drop (ring_f r) (buf r))"
  have le: "ring_l r \<le> length (buf r) - ring_f r" using False by simp
  then show ?thesis
    using False copy_at_replicate[of ?xs "[]" "ring_l r" zero_sample] by (simp add: ring_samples_def Let_def)
qed

lemma ring_samples_list:
  assumes "wf_ring r"
  shows "ring_samples r = ring_list r"
proof (rule nth_equalityI)
  have w: "ring_f r < length (buf r)" "ring_l r \<le> length (buf r)" using assms by (auto simp: wf_ring_def)
  show len: "length (ring_samples r) = length (ring_list r)"
    using w by (simp add: ring_samples_parts[OF assms] ring_list_def)
  fix i assume "i < length (ring_samples r)"
  then have "i < ring_l r" by (simp add: len ring_list_def)
  then show "ring_samples r ! i = ring_list r ! i"
    using w by (auto simp: ring_samples_parts[OF assms] ring_list_def nth_append add_mod_less add.commute)
qed

section \<open>Properties\<close>

text \<open>
  C30. Adding to the look-back ring is adding to a queue: from a well-formed ring, a sample that
  does not meet the growth of the ring together with expired samples is appended, the samples
  older than \<open>delta\<close> are dropped from the front, and nothing else changes; \<^verbatim>\<open>add\<close> returns, keeps
  the ring well-formed, and the last element is the added one.
\<close>

theorem ring_add_queue:
  assumes "wf_ring r" "0 \<le> delta r" "in_i64 t" "in_i64 (t - delta r)"
    and "ring_l r < length (buf r) \<or> (\<forall>s\<in>set (ring_list r). t - delta r \<le> smp_t s)"
  shows "\<exists>r'. ring_add r t v = Some r' \<and> wf_ring r' \<and> delta r' = delta r \<and>
    ring_list r' = dropWhile (\<lambda>s. smp_t s < t - delta r) (ring_list r @ [\<lparr>smp_t = t, smp_v = v\<rparr>])"
proof (cases "ring_l r < length (buf r)")
  case True
  note st = ring_store_not_full[OF assms(1) True, of t v]
  have "\<exists>s\<in>set (ring_list (ring_store r t v)). t - delta r \<le> smp_t s" using assms(2) by (simp add: st(2))
  from ring_free_dropWhile[OF st(1) this] show ?thesis
    using assms(4) by (simp add: ring_add_def st)
next
  case False
  then have full: "ring_l r = length (buf r)" using assms(1) by (simp add: wf_ring_def)
  note st = ring_store_full[OF assms(1) full, of t v]
  let ?xs = "ring_list r @ [\<lparr>smp_t = t, smp_v = v\<rparr>]"
  have all: "\<forall>s\<in>set ?xs. t - delta r \<le> smp_t s" using assms(2,5) False by auto
  have "0 < ring_l r" using full assms(1) by (simp add: wf_ring_def)
  then have "0 < ring_l (ring_store r t v)" by (simp add: ring_store_def Let_def)
  from ring_list_Cons[OF st(1) this] have "buf (ring_store r t v) ! ring_f (ring_store r t v) \<in> set ?xs"
    by (simp add: st(2)[symmetric])
  then have "\<not> smp_t (buf (ring_store r t v) ! ring_f (ring_store r t v)) < t - delta r"
    using all by (meson leD)
  then have "ring_add r t v = Some (ring_store r t v)"
    using assms(4) by (simp add: ring_add_def) (subst ring_free.simps, simp)
  moreover have "dropWhile (\<lambda>s. smp_t s < t - delta r) ?xs = ?xs"
    using all by (cases ?xs) auto
  ultimately show ?thesis using st by simp
qed

theorem ring_add_queue_witness:
  "\<exists>r'. ring_add (newSampleRing 5 16) 7 1 = Some r' \<and> ring_list r' = [\<lparr>smp_t = 7, smp_v = 1\<rparr>]"
  using ring_add_queue[OF wf_newSampleRing[of 16 5], of 7 1] ring_list_new[of 5 16]
  by (auto simp: newSampleRing_def ring_reset_def in_i64_def)

text \<open>
  C38. When the sample that grows the ring also expires older ones, samples within the look-back
  range are lost: the loop that frees the head wraps at the old length of the ring. After samples
  at the times 1 to 16 in a ring of 16 with \<open>delta = 100\<close>, a sample at time 105 leaves only itself,
  where the samples from time 5 on are within range.
\<close>

definition fill_ring :: "nat \<Rightarrow> sampleRing option" where
  "fill_ring n = fold (\<lambda>k r. Option.bind r (\<lambda>r. ring_add r (int k) (of_nat k))) [1..<n + 1] (Some (newSampleRing 100 16))"


text \<open>
  The buffered samples: \<^verbatim>\<open>samples\<close> copies the ring's samples out in order, across the end of the
  array, and the iterator over the ring delivers the same ones.
\<close>

theorem ring_samples_queue:
  assumes "wf_ring r"
  shows "ring_samples r = ring_list r \<and>
    (\<forall>i<ring_l r. ring_at r i = (smp_t (ring_list r ! i), smp_v (ring_list r ! i))) \<and>
    ring_last r = (if ring_list r = [] then (0, 0, False) else (smp_t (last (ring_list r)), smp_v (last (ring_list r)), True))"
proof -
  define L where "L = length (buf r)"
  have w: "0 < L" "ring_f r < L" "ring_l r \<le> L" "-1 \<le> ring_i r" "ring_i r < int L"
    "ring_i r = -1 \<longrightarrow> ring_l r = 0" "nat (ring_i r + 1) mod L = (ring_f r + ring_l r) mod L"
    using assms by (auto simp: wf_ring_def L_def)
  have "ring_samples r = ring_list r" by (rule ring_samples_list[OF assms])
  moreover have "ring_at r i = (smp_t (ring_list r ! i), smp_v (ring_list r ! i))" if "i < ring_l r" for i
    using that by (simp add: ring_at_def ring_list_def Let_def)
  moreover have "ring_last r = (smp_t (last (ring_list r)), smp_v (last (ring_list r)), True)" if pos: "0 < ring_l r"
  proof -
    obtain n where n: "ring_l r = Suc n" using pos gr0_implies_Suc by blast
    obtain i where i: "ring_i r = int i" using w(4,6) n by (cases "ring_i r") auto
    then have "Suc i mod L = Suc (ring_f r + n) mod L" "i < L" using w(5,7) n by (simp_all add: nat_add_distrib)
    moreover have "Suc i mod L = (if Suc i = L then 0 else Suc i)" using \<open>i < L\<close> by simp
    moreover have "Suc (ring_f r + n) mod L = (if Suc ((ring_f r + n) mod L) = L then 0 else Suc ((ring_f r + n) mod L))"
      by (simp add: mod_Suc)
    ultimately have "nat (ring_i r) = (ring_f r + n) mod L"
      using i by (simp split: if_splits)
    then show ?thesis using n by (simp add: ring_last_def ring_list_def L_def Let_def)
  qed
  moreover have "ring_list r = [] \<longleftrightarrow> ring_l r = 0" by (simp add: ring_list_def)
  ultimately show ?thesis by (auto simp: ring_last_def)
qed

theorem ring_samples_queue_witness:
  "map_option ring_samples (fill_ring 3) = map_option ring_list (fill_ring 3) \<and>
   map_option (\<lambda>r. map smp_t (ring_list r)) (fill_ring 3) = Some [1, 2, 3]"
proof -
  have "case fill_ring 3 of Some r \<Rightarrow> wf_ring r | None \<Rightarrow> False" by code_simp
  then obtain r where r: "fill_ring 3 = Some r" "wf_ring r" by (auto split: option.splits)
  have "map_option (\<lambda>r. map smp_t (ring_list r)) (fill_ring 3) = Some [1, 2, 3]" by code_simp
  with r ring_samples_queue[OF r(2)] show ?thesis by simp
qed

end
