(* ===== verification/Wal.thy ===== *)
theory Wal
  imports Encbuf "HOL-Library.Monad_Syntax"
begin

text \<open>
  The write ahead log of \<^verbatim>\<open>wal/wal.go\<close>: pages, records split into fragments, segments, and the
  reader. The directory is the list of its segment files, ascending, each the list of its bytes;
  a write appends at once and does not fail. The goroutine that syncs closed segments does not
  change their contents and is left out, as are metrics and log messages.
\<close>

section \<open>Pages and segments\<close>

definition defaultSegmentSize :: nat where "defaultSegmentSize = 128 * 1024 * 1024"
definition pageSize :: nat where "pageSize = 32 * 1024"
definition recordHeaderSize :: nat where "recordHeaderSize = 7"

record page =
  alloc :: nat
  flushed :: nat
  pbuf :: "u8 list"

definition new_page :: page where
  "new_page = \<lparr>alloc = 0, flushed = 0, pbuf = replicate pageSize 0\<rparr>"

definition page_remaining :: "page \<Rightarrow> int" where
  "page_remaining p = int pageSize - int (alloc p)"

definition page_full :: "page \<Rightarrow> bool" where
  "page_full p \<longleftrightarrow> int pageSize - int (alloc p) < int recordHeaderSize"

type_synonym dir = "(int \<times> u8 list) list"

definition dir_write :: "int \<Rightarrow> u8 list \<Rightarrow> dir \<Rightarrow> dir" where
  "dir_write k bs d = map (\<lambda>(i, c). (i, if i = k then c @ bs else c)) d"

definition CreateSegment :: "int \<Rightarrow> dir \<Rightarrow> dir" where
  "CreateSegment k d = (if k \<in> fst ` set d then d else insort_key fst (k, []) d)"

definition OpenWriteSegment :: "int \<Rightarrow> dir \<Rightarrow> dir outcome" where
  "OpenWriteSegment k d =
     (case map_of d k of
        None \<Rightarrow> Fail (ErrMsg ''no such file'')
      | Some c \<Rightarrow>
          let r = length c mod pageSize in
          Ok (if r \<noteq> 0 then dir_write k (replicate (pageSize - r) 0) d else d))"

text \<open>
  \<open>listSegments\<close> reads the names of the directory in ascending order; a name that \<^verbatim>\<open>strconv.Atoi\<close>
  rejects is \<open>None\<close>.
\<close>

fun list_loop :: "int option list \<Rightarrow> int list \<Rightarrow> int \<Rightarrow> int list outcome" where
  "list_loop [] refs prev = Ok refs"
| "list_loop (None # fs) refs prev = list_loop fs refs prev"
| "list_loop (Some k # fs) refs prev =
     (if length refs > 0 \<and> k > prev + 1 then Fail (ErrMsg ''segments are not sequential'')
      else list_loop fs (refs @ [k]) k)"

definition listSegments :: "int option list \<Rightarrow> int list outcome" where
  "listSegments files = bind_outcome (list_loop files [] 0) (\<lambda>refs. Ok (sort refs))"

definition ReadDir :: "dir \<Rightarrow> int option list" where
  "ReadDir d = map (Some \<circ> fst) d"

section \<open>Writing\<close>

record WAL =
  wdir :: dir
  segmentSize :: nat
  segment :: int
  donePages :: int
  wpage :: page

definition Segments :: "dir \<Rightarrow> (int \<times> int) outcome" where
  "Segments d =
     bind_outcome (listSegments (ReadDir d)) (\<lambda>refs.
       if length refs = 0 then Ok (-1, -1) else Ok (refs ! 0, refs ! (length refs - 1)))"

definition NewSize :: "dir \<Rightarrow> nat \<Rightarrow> WAL outcome" where
  "NewSize d sz =
     (if sz mod pageSize \<noteq> 0 then Fail (ErrMsg ''invalid segment size'')
      else
        bind_outcome (Segments d) (\<lambda>(_, j).
          if j = -1 then
            Ok \<lparr>wdir = CreateSegment 0 d, segmentSize = sz, segment = 0, donePages = 0, wpage = new_page\<rparr>
          else
            bind_outcome (OpenWriteSegment j d) (\<lambda>d.
              Ok \<lparr>wdir = d, segmentSize = sz, segment = j,
                  donePages = int (length (the (map_of d j)) div pageSize), wpage = new_page\<rparr>)))"

definition New_wal :: "dir \<Rightarrow> WAL outcome" where
  "New_wal d = NewSize d defaultSegmentSize"

definition flushPage :: "bool \<Rightarrow> WAL \<Rightarrow> WAL" where
  "flushPage clear w =
     (let p = wpage w;
          clear = (clear \<or> page_full p);
          p = (if clear then p\<lparr>alloc := pageSize\<rparr> else p);
          data = take (alloc p - flushed p) (drop (flushed p) (pbuf p));
          w = w\<lparr>wdir := dir_write (segment w) data (wdir w)\<rparr>;
          p = p\<lparr>flushed := flushed p + length data\<rparr>
      in if clear then
           w\<lparr>wpage := p\<lparr>pbuf := map (\<lambda>_. 0) (pbuf p), alloc := 0, flushed := 0\<rparr>, donePages := donePages w + 1\<rparr>
         else w\<lparr>wpage := p\<rparr>)"

definition nextSegment :: "WAL \<Rightarrow> WAL" where
  "nextSegment w =
     (let w = (if alloc (wpage w) > 0 then flushPage True w else w);
          k = segment w + 1
      in w\<lparr>wdir := CreateSegment k (wdir w), segment := k, donePages := 0\<rparr>)"

datatype recType = recPageTerm | recFull | recFirst | recMiddle | recLast

fun recType_byte :: "recType \<Rightarrow> u8" where
  "recType_byte recPageTerm = 0"
| "recType_byte recFull = 1"
| "recType_byte recFirst = 2"
| "recType_byte recMiddle = 3"
| "recType_byte recLast = 4"

definition recType_String :: "u8 \<Rightarrow> string" where
  "recType_String t =
     (if t = 0 then ''zero'' else if t = 1 then ''full'' else if t = 2 then ''first''
      else if t = 3 then ''middle'' else if t = 4 then ''last'' else ''<invalid>'')"

definition pagesPerSegment :: "WAL \<Rightarrow> nat" where
  "pagesPerSegment w = segmentSize w div pageSize"

definition frag_bytes :: "recType \<Rightarrow> u8 list \<Rightarrow> u8 list" where
  "frag_bytes typ part =
     recType_byte typ # PutUint16 (of_nat (length part)) @ PutUint32 (crc32_checksum part) @ part"

text \<open>One turn of the loop of \<^verbatim>\<open>log\<close>: one fragment into the page.\<close>

definition frag_len :: "u8 list \<Rightarrow> page \<Rightarrow> nat" where
  "frag_len rec p = min (length rec) ((pageSize - alloc p) - recordHeaderSize)"

definition frag_type :: "nat \<Rightarrow> u8 list \<Rightarrow> u8 list \<Rightarrow> recType" where
  "frag_type i part rec =
     (if i = 0 \<and> length part = length rec then recFull
      else if length part = length rec then recLast
      else if i = 0 then recFirst
      else recMiddle)"

definition put_frag :: "nat \<Rightarrow> u8 list \<Rightarrow> bool \<Rightarrow> WAL \<Rightarrow> WAL" where
  "put_frag i rec final w =
     (let p = wpage w;
          part = take (frag_len rec p) rec;
          typ = frag_type i part rec;
          p = p\<lparr>pbuf := copy_at (pbuf p) (alloc p) (frag_bytes typ part),
                 alloc := alloc p + length part + recordHeaderSize\<rparr>;
          w = w\<lparr>wpage := p\<rparr>
      in if final \<or> typ \<noteq> recFull \<or> page_full (wpage w) then flushPage False w else w)"

lemma alloc_flushPage: "page_full (wpage w) \<Longrightarrow> alloc (wpage (flushPage c w)) = 0"
  by (simp add: flushPage_def Let_def)

lemma alloc_put_frag:
  assumes "frag_len rec (wpage w) < length rec"
  shows "alloc (wpage (put_frag i rec final w)) = 0"
proof -
  let ?l = "frag_len rec (wpage w)"
  have l: "?l = pageSize - alloc (wpage w) - recordHeaderSize" using assms by (simp add: frag_len_def)
  have "frag_type i (take ?l rec) rec \<noteq> recFull" using assms by (simp add: frag_type_def)
  then show ?thesis
    using assms l
    by (simp add: put_frag_def Let_def) (rule alloc_flushPage, simp add: page_full_def recordHeaderSize_def)
qed

function log_loop :: "nat \<Rightarrow> u8 list \<Rightarrow> bool \<Rightarrow> WAL \<Rightarrow> WAL" where
  "log_loop i rec final w =
     (let rec' = drop (frag_len rec (wpage w)) rec;
          w' = put_frag i rec final w
      in if length rec' > 0 then log_loop (i + 1) rec' final w' else w')"
  by pat_completeness auto
termination
proof (relation "measure (\<lambda>(i, rec, final, w). 2 * length rec + (if alloc (wpage w) = 0 then 0 else 1))", goal_cases)
  case (2 i rec final w x xa)
  then have "frag_len rec (wpage w) < length rec" by simp
  moreover from this have "frag_len rec (wpage w) = pageSize - alloc (wpage w) - recordHeaderSize"
    by (simp add: frag_len_def)
  moreover have "recordHeaderSize < pageSize" by (simp add: pageSize_def recordHeaderSize_def)
  ultimately show ?case using 2 alloc_put_frag[of rec w i final] by auto
qed simp

definition log :: "u8 list \<Rightarrow> bool \<Rightarrow> WAL \<Rightarrow> WAL" where
  "log rec final w =
     (let left = page_remaining (wpage w) - int recordHeaderSize;
          left = left + (int pageSize - int recordHeaderSize) * (int (pagesPerSegment w) - donePages w - 1);
          w = (if int (length rec) > left then nextSegment w else w)
      in log_loop 0 rec final w)"

fun Log :: "u8 list list \<Rightarrow> WAL \<Rightarrow> WAL" where
  "Log [] w = w"
| "Log (r # rs) w = Log rs (log r (rs = []) w)"

definition WAL_Close :: "WAL \<Rightarrow> WAL" where
  "WAL_Close w = (if alloc (wpage w) > 0 then flushPage True w else w)"

fun truncate_loop :: "int \<Rightarrow> int list \<Rightarrow> dir \<Rightarrow> dir" where
  "truncate_loop i [] d = d"
| "truncate_loop i (r # refs) d = (if r \<ge> i then d else truncate_loop i refs (filter (\<lambda>(k, c). k \<noteq> r) d))"

definition Truncate :: "int \<Rightarrow> WAL \<Rightarrow> WAL outcome" where
  "Truncate i w =
     bind_outcome (listSegments (ReadDir (wdir w))) (\<lambda>refs. Ok (w\<lparr>wdir := truncate_loop i refs (wdir w)\<rparr>))"

declare log_loop.simps [simp del]

section \<open>Sources of bytes\<close>

text \<open>
  \<^verbatim>\<open>io.ReadFull\<close> of a source reads \<open>k\<close> bytes, or reports \<open>EOF\<close> when there is none and
  \<open>ErrUnexpectedEOF\<close> when there are too few. A file behind a \<^verbatim>\<open>bufio.Reader\<close> is what is left of it.
\<close>

type_synonym 's read_full = "nat \<Rightarrow> 's \<Rightarrow> (u8 list \<times> go_error option) \<times> 's"

definition file_ReadFull :: "u8 list read_full" where
  "file_ReadFull k s =
     (if k \<le> length s then ((take k s, None), drop k s)
      else if s = [] then (([], Some EOF), [])
      else ((s, Some ErrUnexpectedEOF), []))"

record segmentBufReader =
  sbuf :: "u8 list"
  segs :: dir
  cur :: int
  off :: nat
  has_more :: bool

definition newSegmentBufReader :: "dir \<Rightarrow> segmentBufReader" where
  "newSegmentBufReader ss = \<lparr>sbuf = [], segs = ss, cur = -1, off = 0, has_more = False\<rparr>"

definition segmentBufReader_Read :: "nat \<Rightarrow> segmentBufReader \<Rightarrow> (u8 list \<times> go_error option) \<times> segmentBufReader" where
  "segmentBufReader_Read k r =
     (if \<not> has_more r \<and> cur r + 1 \<ge> int (length (segs r)) then (([], Some EOF), r)
      else
        let r = (if \<not> has_more r then r\<lparr>cur := cur r + 1, off := 0, has_more := True,
                                      sbuf := snd (segs r ! nat (cur r + 1))\<rparr> else r);
            bs = take k (sbuf r);
            eof = (sbuf r = []);
            r = r\<lparr>sbuf := drop k (sbuf r), off := off r + length bs\<rparr>
        in if \<not> eof then ((bs, None), r) else ((bs, None), r\<lparr>has_more := False\<rparr>))"

function ReadFull_loop :: "nat \<Rightarrow> u8 list \<Rightarrow> segmentBufReader \<Rightarrow> (u8 list \<times> go_error option) \<times> segmentBufReader" where
  "ReadFull_loop k acc r =
     (if k = 0 then ((acc, None), r)
      else case segmentBufReader_Read k r of
        ((bs, Some e), r) \<Rightarrow> ((acc @ bs, Some (if e = EOF \<and> acc @ bs \<noteq> [] then ErrUnexpectedEOF else e)), r)
      | ((bs, None), r) \<Rightarrow> ReadFull_loop (k - length bs) (acc @ bs) r)"
  by pat_completeness auto
termination
  by (relation "measure (\<lambda>(k, acc, r). k + 2 * nat (int (length (segs r)) - (cur r + 1)) + (if has_more r then 1 else 0))")
    (auto simp: segmentBufReader_Read_def Let_def length_greater_0_conv[symmetric] min_def
      simp del: length_greater_0_conv split: if_splits)

declare ReadFull_loop.simps [simp del]

definition segments_ReadFull :: "segmentBufReader read_full" where
  "segments_ReadFull k r = ReadFull_loop k [] r"

fun range_loop :: "int \<Rightarrow> int \<Rightarrow> int list \<Rightarrow> dir \<Rightarrow> dir \<Rightarrow> dir" where
  "range_loop first upto_k [] d ss = ss"
| "range_loop first upto_k (r # refs) d ss =
     (if first \<ge> 0 \<and> r < first then range_loop first upto_k refs d ss
      else if upto_k \<ge> 0 \<and> r > upto_k then ss
      else range_loop first upto_k refs d (ss @ [(r, the (map_of d r))]))"

definition NewSegmentsRangeReader :: "dir \<Rightarrow> int \<Rightarrow> int \<Rightarrow> segmentBufReader outcome" where
  "NewSegmentsRangeReader d first upto_k =
     bind_outcome (listSegments (ReadDir d)) (\<lambda>refs. Ok (newSegmentBufReader (range_loop first upto_k refs d [])))"

definition NewSegmentsReader :: "dir \<Rightarrow> segmentBufReader outcome" where
  "NewSegmentsReader d = NewSegmentsRangeReader d 0 (2 ^ 31 - 1)"

section \<open>Reading records\<close>

record 's Reader =
  rdr :: 's
  rerr :: "go_error option"
  rrec :: "u8 list"
  total :: nat

definition NewReader :: "'s \<Rightarrow> 's Reader" where
  "NewReader s = \<lparr>rdr = s, rerr = None, rrec = [], total = 0\<rparr>"

text \<open>
  One turn of the loop of \<^verbatim>\<open>Reader.next\<close>, up to the switch on the record type: it fails, skips
  the rest of a page, or reads a fragment. \<^verbatim>\<open>errors.Wrap\<close> keeps the cause.
\<close>

datatype 's turn = TErr go_error "'s Reader" | TZeros "'s Reader" | TFrag u8 "'s Reader"

definition read_zeros :: "'s read_full \<Rightarrow> 's Reader \<Rightarrow> 's turn" where
  "read_zeros rf r =
     (let k = pageSize - total r mod pageSize in
      if k = pageSize then TZeros r
      else case rf k (rdr r) of
        ((bs, Some e), s) \<Rightarrow> TErr e (r\<lparr>rdr := s\<rparr>)
      | ((bs, None), s) \<Rightarrow>
          let r = r\<lparr>rdr := s, total := total r + length bs\<rparr> in
          if list_ex (\<lambda>c. c \<noteq> 0) bs then TErr (ErrMsg ''unexpected non-zero byte in padded page'') r
          else TZeros r)"

definition read_body :: "'s read_full \<Rightarrow> u8 \<Rightarrow> 's Reader \<Rightarrow> 's turn" where
  "read_body rf typ r =
     (case rf (recordHeaderSize - 1) (rdr r) of
        ((hdr, Some e), s) \<Rightarrow> TErr e (r\<lparr>rdr := s\<rparr>)
      | ((hdr, None), s) \<Rightarrow>
          let r = r\<lparr>rdr := s, total := total r + length hdr\<rparr>;
              len = (be_value (take 2 hdr) :: u16);
              crc = (be_value (take 4 (drop 2 hdr)) :: u32)
          in if unat len > pageSize - recordHeaderSize then TErr (ErrMsg ''invalid record size'') r
             else case rf (unat len) (rdr r) of
               ((bs, Some e), s) \<Rightarrow> TErr e (r\<lparr>rdr := s\<rparr>)
             | ((bs, None), s) \<Rightarrow>
                 let r = r\<lparr>rdr := s, total := total r + length bs\<rparr> in
                 if length bs \<noteq> unat len then TErr (ErrMsg ''invalid size'') r
                 else if crc32_checksum bs \<noteq> crc then TErr (ErrMsg ''unexpected checksum'') r
                 else TFrag typ (r\<lparr>rrec := rrec r @ bs\<rparr>))"

definition read_turn :: "'s read_full \<Rightarrow> 's Reader \<Rightarrow> 's turn" where
  "read_turn rf r =
     (case rf 1 (rdr r) of
        ((hdr, Some e), s) \<Rightarrow> TErr e (r\<lparr>rdr := s\<rparr>)
      | ((hdr, None), s) \<Rightarrow>
          let r = r\<lparr>rdr := s, total := total r + 1\<rparr>; typ = hdr ! 0 in
          if typ = recType_byte recPageTerm then read_zeros rf r else read_body rf typ r)"

partial_function (option) next_loop :: "'s read_full \<Rightarrow> nat \<Rightarrow> 's Reader \<Rightarrow> (go_error option \<times> 's Reader) option" where
  "next_loop rf i r =
     (case read_turn rf r of
        TErr e r \<Rightarrow> Some (Some e, r)
      | TZeros r \<Rightarrow> next_loop rf i r
      | TFrag typ r \<Rightarrow>
          if typ = recType_byte recFull then
            (if i \<noteq> 0 then Some (Some (ErrMsg ''unexpected full record''), r) else Some (None, r))
          else if typ = recType_byte recFirst then
            (if i \<noteq> 0 then Some (Some (ErrMsg ''unexpected first record''), r) else next_loop rf (i + 1) r)
          else if typ = recType_byte recMiddle then
            (if i = 0 then Some (Some (ErrMsg ''unexpected middle record''), r) else next_loop rf (i + 1) r)
          else if typ = recType_byte recLast then
            (if i = 0 then Some (Some (ErrMsg ''unexpected last record''), r) else Some (None, r))
          else Some (Some (ErrMsg ''unexpected record type''), r))"

definition Reader_next :: "'s read_full \<Rightarrow> 's Reader \<Rightarrow> (go_error option \<times> 's Reader) option" where
  "Reader_next rf r = next_loop rf 0 (r\<lparr>rrec := []\<rparr>)"

definition Reader_Next :: "'s read_full \<Rightarrow> 's Reader \<Rightarrow> (bool \<times> 's Reader) option" where
  "Reader_Next rf r =
     Option.bind (Reader_next rf r) (\<lambda>(err, r).
       if err = Some EOF then Some (False, r) else Some (err = None, r\<lparr>rerr := err\<rparr>))"

record CorruptionErr =
  ce_Segment :: int
  ce_Offset :: int
  ce_Err :: go_error

definition Reader_Err_segments :: "segmentBufReader Reader \<Rightarrow> CorruptionErr option" where
  "Reader_Err_segments r =
     (case rerr r of
        None \<Rightarrow> None
      | Some e \<Rightarrow>
          let b = rdr r in
          Some \<lparr>ce_Segment = fst (segs b ! nat (cur b)), ce_Offset = int (off b), ce_Err = e\<rparr>)"

definition Reader_Err :: "'s Reader \<Rightarrow> CorruptionErr option" where
  "Reader_Err r =
     map_option (\<lambda>e. \<lparr>ce_Segment = -1, ce_Offset = int (total r), ce_Err = e\<rparr>) (rerr r)"

text \<open>The loop that every client of the log runs: \<^verbatim>\<open>for r.Next() { f(r.Record()) }\<close>.\<close>

partial_function (option) read_all :: "'s read_full \<Rightarrow> (u8 list \<Rightarrow> 'a \<Rightarrow> 'a) \<Rightarrow> 'a \<Rightarrow> 's Reader \<Rightarrow> ('a \<times> 's Reader) option" where
  "read_all rf f a r =
     Option.bind (Reader_Next rf r) (\<lambda>(ok, r). if ok then read_all rf f (f (rrec r) a) r else Some (a, r))"

section \<open>Repair\<close>

definition Repair :: "CorruptionErr option \<Rightarrow> WAL \<Rightarrow> WAL outcome option" where
  "Repair origErr w =
     (case origErr of
        None \<Rightarrow> Some (Fail (ErrMsg ''cannot handle error''))
      | Some cerr \<Rightarrow>
          if ce_Segment cerr < 0 then Some (Fail (ErrMsg ''corruption error does not specify position''))
          else case listSegments (ReadDir (wdir w)) of
            Fail e \<Rightarrow> Some (Fail e)
          | Panic \<Rightarrow> Some Panic
          | Ok refs \<Rightarrow>
              let d = filter (\<lambda>(k, c). \<not> (k \<in> set refs \<and> k > ce_Segment cerr)) (wdir w) in
              (case map_of d (ce_Segment cerr) of
                 None \<Rightarrow> Some (Fail (ErrMsg ''no such file''))
               | Some tmp \<Rightarrow>
                   let d = filter (\<lambda>(k, c). k \<noteq> ce_Segment cerr) d;
                       w = w\<lparr>wdir := CreateSegment (ce_Segment cerr) d, segment := ce_Segment cerr\<rparr>
                   in Option.bind (read_all file_ReadFull (\<lambda>rec w. Log [rec] w) w (NewReader tmp))
                        (\<lambda>(w, r). Some (Ok w))))"

end
