(* ===== verification/Wal_Laws.thy ===== *)
theory Wal_Laws
  imports Wal
begin

text \<open>
  What the write ahead log stores and reads back: the encoding of records as a relation on byte
  streams, the reader on any source of bytes, the writer, and reopening.
\<close>

lemma page_facts: "recordHeaderSize = 7" "7 < pageSize" "pageSize < 65536" "0 < pageSize"
  by (simp_all add: pageSize_def recordHeaderSize_def)

section \<open>The encoding\<close>

lemma length_frag_bytes [simp]: "length (frag_bytes typ part) = length part + 7"
  by (simp add: frag_bytes_def)

text \<open>\<open>frags i T rec b\<close>: the bytes \<open>b\<close>, at position \<open>T\<close> of the stream, are the fragments of \<open>rec\<close> from the \<open>i\<close>th on.\<close>

inductive frags :: "nat \<Rightarrow> nat \<Rightarrow> u8 list \<Rightarrow> u8 list \<Rightarrow> bool" where
  final: "T mod pageSize + 7 + length rec \<le> pageSize \<Longrightarrow>
    frags i T rec (frag_bytes (if i = 0 then recFull else recLast) rec)"
| split: "T mod pageSize + 7 + length part = pageSize \<Longrightarrow> rest \<noteq> [] \<Longrightarrow>
    frags (Suc i) (T + 7 + length part) rest b \<Longrightarrow>
    frags i T (part @ rest) (frag_bytes (if i = 0 then recFirst else recMiddle) part @ b)"

text \<open>\<open>stream T b recs\<close>: the bytes \<open>b\<close>, from position \<open>T\<close> on, hold the records \<open>recs\<close> and padding.\<close>

inductive stream :: "nat \<Rightarrow> u8 list \<Rightarrow> u8 list list \<Rightarrow> bool" where
  empty: "stream T [] []"
| pad: "T mod pageSize \<noteq> 0 \<Longrightarrow> stream (T + (pageSize - T mod pageSize)) b recs \<Longrightarrow>
    stream T (replicate (pageSize - T mod pageSize) 0 @ b) recs"
| rec: "frags 0 T rec b \<Longrightarrow> stream (T + length b) b' recs \<Longrightarrow> stream T (b @ b') (rec # recs)"

lemma stream_append:
  "stream T b recs \<Longrightarrow> stream (T + length b) b' recs' \<Longrightarrow> stream T (b @ b') (recs @ recs')"
  by (induction rule: stream.induct) (auto simp: add.assoc intro: stream.intros)

lemma frags_shift: "frags i T rec b \<Longrightarrow> T mod pageSize = T' mod pageSize \<Longrightarrow> frags i T' rec b"
proof (induction arbitrary: T' rule: frags.induct)
  case (final T rec i)
  then show ?case using frags.final[of T' rec i] by simp
next
  case (split T part rest i b)
  have "(T + 7 + length part) mod pageSize = (T' + 7 + length part) mod pageSize"
    using split.prems by (metis mod_add_left_eq add.assoc)
  with split frags.split[of T' part rest i b] show ?case by simp
qed

lemma stream_shift: "stream T b recs \<Longrightarrow> T mod pageSize = T' mod pageSize \<Longrightarrow> stream T' b recs"
proof (induction arbitrary: T' rule: stream.induct)
  case (pad T b recs)
  have "(T + (pageSize - T mod pageSize)) mod pageSize = (T' + (pageSize - T' mod pageSize)) mod pageSize"
    using pad.prems by (metis mod_add_left_eq)
  with pad.IH pad.hyps pad.prems show ?case using stream.pad[of T' b recs] by simp
next
  case (rec T rec b b' recs)
  have "(T + length b) mod pageSize = (T' + length b) mod pageSize"
    using rec.prems by (metis mod_add_left_eq)
  with rec show ?case by (auto intro: stream.rec frags_shift)
qed (simp add: stream.empty)

section \<open>Reading\<close>

text \<open>The contract of \<^verbatim>\<open>io.ReadFull\<close> on a source with the bytes \<open>avail\<close> left.\<close>

locale byte_source =
  fixes rf :: "'s read_full" and avail :: "'s \<Rightarrow> u8 list" and good :: "'s \<Rightarrow> bool"
  assumes read_full: "good s \<Longrightarrow> k \<le> length (avail s) \<Longrightarrow>
      \<exists>s'. rf k s = ((take k (avail s), None), s') \<and> good s' \<and> avail s' = drop k (avail s)"
    and read_eof: "good s \<Longrightarrow> avail s = [] \<Longrightarrow> 0 < k \<Longrightarrow>
      \<exists>s'. rf k s = (([], Some EOF), s') \<and> good s' \<and> avail s' = []"
    and read_short: "good s \<Longrightarrow> avail s \<noteq> [] \<Longrightarrow> length (avail s) < k \<Longrightarrow>
      \<exists>s'. rf k s = ((avail s, Some ErrUnexpectedEOF), s') \<and> good s' \<and> avail s' = []"

interpretation file_source: byte_source file_ReadFull "\<lambda>s. s" "\<lambda>_. True"
  by unfold_locales (auto simp: file_ReadFull_def)

definition seg_avail :: "segmentBufReader \<Rightarrow> u8 list" where
  "seg_avail r = (if has_more r then sbuf r else []) @ concat (map snd (drop (nat (cur r + 1)) (segs r)))"

lemma segment_read:
  assumes "segmentBufReader_Read k r = ((bs, e), r')" "0 < k" "cur r \<ge> -1"
  shows "cur r' \<ge> -1 \<and> (case e of Some e \<Rightarrow> e = EOF \<and> bs = [] \<and> seg_avail r = [] \<and> r' = r
    | None \<Rightarrow> length bs \<le> k \<and> seg_avail r = bs @ seg_avail r')"
proof (cases "\<not> has_more r \<and> cur r + 1 \<ge> int (length (segs r))")
  case True
  then show ?thesis using assms by (auto simp: segmentBufReader_Read_def seg_avail_def)
next
  case False
  show ?thesis
  proof (cases "has_more r")
    case True
    then show ?thesis using assms
      by (auto simp: segmentBufReader_Read_def seg_avail_def Let_def split: if_splits)
  next
    case nm: False
    then have n: "nat (cur r + 1) < length (segs r)" using False assms(3) by auto
    have "Suc (nat (cur r + 1)) = nat (cur r + 1 + 1)" using assms(3) by simp
    then have "drop (nat (cur r + 1)) (segs r) = segs r ! nat (cur r + 1) # drop (nat (cur r + 1 + 1)) (segs r)"
      using n by (metis Cons_nth_drop_Suc)
    then show ?thesis using nm False assms
      by (auto simp: segmentBufReader_Read_def seg_avail_def Let_def split: if_splits)
  qed
qed

lemma ReadFull_loop_spec:
  "cur r \<ge> -1 \<Longrightarrow> \<exists>r'. cur r' \<ge> -1 \<and>
    ReadFull_loop k acc r =
      (if k \<le> length (seg_avail r) then ((acc @ take k (seg_avail r), None), r')
       else ((acc @ seg_avail r, Some (if acc @ seg_avail r \<noteq> [] then ErrUnexpectedEOF else EOF)), r')) \<and>
    seg_avail r' = drop k (seg_avail r)"
proof (induction k acc r rule: ReadFull_loop.induct)
  case (1 k acc r)
  show ?case
  proof (cases "k = 0")
    case True
    then show ?thesis using 1 by (intro exI[of _ r]) (simp add: ReadFull_loop.simps[of 0])
  next
    case False
    obtain bs e r1 where rd: "segmentBufReader_Read k r = ((bs, e), r1)" by (metis surj_pair)
    note spec = segment_read[OF rd _ "1.prems"]
    show ?thesis
    proof (cases e)
      case (Some e')
      then have "e' = EOF" "bs = []" "seg_avail r = []" "r1 = r" using spec False by auto
      then show ?thesis using False Some rd "1.prems" by (simp add: ReadFull_loop.simps[of k])
    next
      case None
      then have s: "cur r1 \<ge> -1" "length bs \<le> k" "seg_avail r = bs @ seg_avail r1" using spec False by auto
      have "ReadFull_loop k acc r = ReadFull_loop (k - length bs) (acc @ bs) r1"
        using False rd None by (simp add: ReadFull_loop.simps[of k])
      moreover obtain r' where "cur r' \<ge> -1" "ReadFull_loop (k - length bs) (acc @ bs) r1 =
          (if k - length bs \<le> length (seg_avail r1) then (((acc @ bs) @ take (k - length bs) (seg_avail r1), None), r')
           else (((acc @ bs) @ seg_avail r1, Some (if (acc @ bs) @ seg_avail r1 \<noteq> [] then ErrUnexpectedEOF else EOF)), r'))"
          "seg_avail r' = drop (k - length bs) (seg_avail r1)"
        using "1.IH"[OF False, of "(bs, e)" r1 bs e] rd None s(1) by auto
      ultimately show ?thesis using s by (auto simp: le_diff_conv)
    qed
  qed
qed

interpretation segments_source: byte_source segments_ReadFull seg_avail "\<lambda>r. cur r \<ge> -1"
proof
  fix s k assume "cur s \<ge> -1" "k \<le> length (seg_avail s)"
  then show "\<exists>s'. segments_ReadFull k s = ((take k (seg_avail s), None), s') \<and> cur s' \<ge> -1 \<and> seg_avail s' = drop k (seg_avail s)"
    using ReadFull_loop_spec[of s k "[]"] by (auto simp: segments_ReadFull_def)
next
  fix s and k :: nat assume "cur s \<ge> -1" "seg_avail s = []" "0 < k"
  then show "\<exists>s'. segments_ReadFull k s = (([], Some EOF), s') \<and> cur s' \<ge> -1 \<and> seg_avail s' = []"
    using ReadFull_loop_spec[of s k "[]"] by (auto simp: segments_ReadFull_def)
next
  fix s k assume "cur s \<ge> -1" "seg_avail s \<noteq> []" "length (seg_avail s) < k"
  then show "\<exists>s'. segments_ReadFull k s = ((seg_avail s, Some ErrUnexpectedEOF), s') \<and> cur s' \<ge> -1 \<and> seg_avail s' = []"
    using ReadFull_loop_spec[of s k "[]"] by (auto simp: segments_ReadFull_def)
qed

subsection \<open>The reader on an encoding\<close>

lemma recType_byte_simps [simp]:
  "recType_byte t = recType_byte t' \<longleftrightarrow> t = t'"
  by (cases t; cases t') auto

lemma unat_len: "length part \<le> pageSize - 7 \<Longrightarrow> unat (word_of_nat (length part) :: u16) = length part"
  using page_facts by (simp add: unat_of_nat take_bit_nat_eq_self_iff)

context byte_source
begin

definition at_stream :: "'s Reader \<Rightarrow> u8 list \<Rightarrow> nat \<Rightarrow> bool" where
  "at_stream r bs T \<longleftrightarrow> good (rdr r) \<and> avail (rdr r) = bs \<and> total r = T"

lemma read_step:
  assumes "at_stream r (xs @ bs) T"
  obtains s where "rf (length xs) (rdr r) = ((xs, None), s)" "good s" "avail s = bs"
  using read_full[of "rdr r" "length xs"] assms that by (auto simp: at_stream_def)

lemma read_step_at:
  assumes "at_stream r (xs @ bs) T" "length xs = k"
  obtains s where "rf k (rdr r) = ((xs, None), s)" "at_stream (r\<lparr>rdr := s, total := total r + k\<rparr>) bs (T + k)"
  using read_step[OF assms(1)] assms that by (auto simp: at_stream_def)

lemma read_turn_frag:
  assumes "at_stream r (frag_bytes typ part @ bs) T" "length part \<le> pageSize - 7" "typ \<noteq> recPageTerm"
  obtains r' where "read_turn rf r = TFrag (recType_byte typ) r'" "at_stream r' bs (T + 7 + length part)"
    "rrec r' = rrec r @ part" "rerr r' = rerr r"
proof -
  let ?hdr = "PutUint16 (of_nat (length part)) @ PutUint32 (crc32_checksum part)"
  have "at_stream r ([recType_byte typ] @ ?hdr @ part @ bs) T" using assms(1) by (simp add: frag_bytes_def)
  then obtain s1 where s1: "rf 1 (rdr r) = (([recType_byte typ], None), s1)"
    "at_stream (r\<lparr>rdr := s1, total := total r + 1\<rparr>) (?hdr @ part @ bs) (T + 1)"
    by (rule read_step_at[where k = 1]) (simp, blast)
  then obtain s2 where s2: "rf 6 s1 = ((?hdr, None), s2)"
    "at_stream (r\<lparr>rdr := s1, total := total r + 1\<rparr>\<lparr>rdr := s2, total := total r + 1 + 6\<rparr>) (part @ bs) (T + 1 + 6)"
    using read_step_at[OF s1(2), of 6] by auto
  obtain s3 where s3: "rf (length part) s2 = ((part, None), s3)" "good s3" "avail s3 = bs"
    using read_step[OF s2(2)] by auto
  have tne: "recType_byte typ \<noteq> 0" using assms(3) by (cases "typ") auto
  have hdr: "take 2 ?hdr = PutUint16 (of_nat (length part))" "take 4 (drop 2 ?hdr) = PutUint32 (crc32_checksum part)"
    by simp_all
  have "(be_value (PutUint16 w) :: u16) = w" "(be_value (PutUint32 v) :: u32) = v" for w v
    by (simp_all add: PutUint16_def PutUint32_def take_bit_full)
  then have "read_turn rf r = TFrag (recType_byte typ)
      (r\<lparr>rdr := s3, total := total r + 1 + 6 + length part, rrec := rrec r @ part\<rparr>)"
    using s1(1) s2(1) s3(1) hdr unat_len[OF assms(2)] assms(2) tne
    by (simp add: read_turn_def read_body_def recordHeaderSize_def)
  then show ?thesis
    using that s3 assms(1) by (simp add: at_stream_def)
qed

lemma read_turn_pad:
  assumes "at_stream r (replicate (pageSize - T mod pageSize) 0 @ bs) T" "T mod pageSize \<noteq> 0"
  obtains r' where "read_turn rf r = TZeros r'" "at_stream r' bs (T + (pageSize - T mod pageSize))"
    "rrec r' = rrec r" "rerr r' = rerr r"
proof -
  define k where "k = pageSize - T mod pageSize - 1"
  have T: "T mod pageSize < pageSize" using page_facts by simp
  then have k: "pageSize - T mod pageSize = Suc k" by (simp add: k_def)
  have "at_stream r ([0] @ replicate k 0 @ bs) T" using assms(1) by (simp add: k)
  then obtain s1 where s1: "rf 1 (rdr r) = (([0], None), s1)"
    "at_stream (r\<lparr>rdr := s1, total := total r + 1\<rparr>) (replicate k 0 @ bs) (T + 1)"
    by (rule read_step_at[where k = 1]) (simp, blast)
  have tot: "total r = T" using assms(1) by (simp add: at_stream_def)
  show ?thesis
  proof (cases "k = 0")
    case True
    then have "Suc T mod pageSize = 0" using k by (simp add: mod_Suc)
    then have "read_turn rf r = TZeros (r\<lparr>rdr := s1, total := total r + 1\<rparr>)"
      using s1(1) tot by (simp add: read_turn_def read_zeros_def Let_def)
    then show ?thesis using that s1(2) True k by simp
  next
    case False
    then have m: "Suc T mod pageSize = Suc (T mod pageSize)" using k by (simp add: mod_Suc)
    then have kk: "pageSize - Suc T mod pageSize = k" "k \<noteq> pageSize" using k T by auto
    obtain s2 where s2: "rf k s1 = ((replicate k 0, None), s2)"
      "at_stream (r\<lparr>rdr := s1, total := total r + 1\<rparr>\<lparr>rdr := s2, total := total r + 1 + k\<rparr>) bs (T + 1 + k)"
      using read_step_at[OF s1(2), of k] by auto
    have "read_turn rf r = TZeros (r\<lparr>rdr := s2, total := total r + 1 + k\<rparr>)"
      using s1(1) s2(1) tot kk by (simp add: read_turn_def read_zeros_def Let_def list_ex_iff)
    then show ?thesis using that s2(2) k by simp
  qed
qed

lemma next_loop_frags:
  "frags i T rec b \<Longrightarrow> at_stream r (b @ bs) T \<Longrightarrow>
   \<exists>r'. next_loop rf i r = Some (None, r') \<and> at_stream r' bs (T + length b) \<and> rrec r' = rrec r @ rec \<and> rerr r' = rerr r"
proof (induction arbitrary: r rule: frags.induct)
  case (final T rec i)
  let ?ty = "if i = 0 then recFull else recLast"
  have len: "length rec \<le> pageSize - 7" "?ty \<noteq> recPageTerm" using final.hyps by simp_all
  obtain r' where r': "read_turn rf r = TFrag (recType_byte ?ty) r'" "at_stream r' bs (T + 7 + length rec)"
    "rrec r' = rrec r @ rec" "rerr r' = rerr r"
    by (rule read_turn_frag[OF final.prems len])
  then show ?case by (subst next_loop.simps) (auto simp: add.commute add.left_commute simp del: recType_byte.simps)
next
  case (split T part rest i b)
  let ?ty = "if i = 0 then recFirst else recMiddle"
  have len: "length part \<le> pageSize - 7" "?ty \<noteq> recPageTerm" using split.hyps by simp_all
  have at: "at_stream r (frag_bytes ?ty part @ b @ bs) T" using split.prems by simp
  obtain r' where r': "read_turn rf r = TFrag (recType_byte ?ty) r'" "at_stream r' (b @ bs) (T + 7 + length part)"
    "rrec r' = rrec r @ part" "rerr r' = rerr r"
    by (rule read_turn_frag[OF at len])
  then have "next_loop rf i r = next_loop rf (Suc i) r'"
    by (subst next_loop.simps) (auto simp del: recType_byte.simps)
  moreover obtain r'' where "next_loop rf (Suc i) r' = Some (None, r'')" "at_stream r'' bs (T + 7 + length part + length b)"
    "rrec r'' = rrec r' @ rest" "rerr r'' = rerr r'" using split.IH[OF r'(2)] by blast
  ultimately show ?case using r' by (intro exI[of _ r'']) (simp add: add.assoc add.commute add.left_commute)
qed

text \<open>Reading a stream delivers its records, in order, whatever follows it.\<close>

lemma read_all_prefix:
  "stream T bs recs \<Longrightarrow> at_stream r (bs @ tail) T \<Longrightarrow> rerr r = None \<Longrightarrow>
   \<exists>r'. at_stream r' tail (T + length bs) \<and> rerr r' = None \<and> read_all rf f a r = read_all rf f (fold f recs a) r'"
proof (induction arbitrary: r a rule: stream.induct)
  case (empty T)
  then show ?case by (intro exI[of _ r]) simp
next
  case (pad T b recs)
  have at: "at_stream (r\<lparr>rrec := []\<rparr>) (replicate (pageSize - T mod pageSize) 0 @ b @ tail) T" using pad.prems(1) by (simp add: at_stream_def)
  obtain r' where r': "read_turn rf (r\<lparr>rrec := []\<rparr>) = TZeros r'" "at_stream r' (b @ tail) (T + (pageSize - T mod pageSize))"
    "rrec r' = []" "rerr r' = None"
    by (rule read_turn_pad[OF at pad.hyps(1)]) (use pad.prems(2) in simp)
  have "r'\<lparr>rrec := []\<rparr> = r'" using r'(3) by (cases r') simp
  then have "Reader_next rf r = Reader_next rf r'"
    unfolding Reader_next_def next_loop.simps[of rf 0 "r\<lparr>rrec := []\<rparr>"] r'(1) by simp
  then have "read_all rf f a r = read_all rf f a r'"
    by (simp add: read_all.simps[of rf f a r] read_all.simps[of rf f a r'] Reader_Next_def)
  with pad.IH[OF r'(2,4)] show ?case by (metis add.assoc length_append length_replicate)
next
  case (rec T rec b b' recs)
  have "at_stream (r\<lparr>rrec := []\<rparr>) (b @ b' @ tail) T" using rec.prems(1) by (simp add: at_stream_def)
  from next_loop_frags[OF rec.hyps(1) this] obtain r' where
    r': "Reader_next rf r = Some (None, r')" "at_stream r' (b' @ tail) (T + length b)" "rrec r' = rec" "rerr r' = None"
    using rec.prems(2) by (auto simp: Reader_next_def)
  have "r'\<lparr>rerr := None\<rparr> = r'" using r'(4) by (cases r') simp
  then have "Reader_Next rf r = Some (True, r')"
    unfolding Reader_Next_def r'(1) by simp
  then have "read_all rf f a r = read_all rf f (f rec a) r'"
    using r'(3) by (simp add: read_all.simps[of rf f a r])
  with rec.IH[OF r'(2,4), of "f rec a"] show ?case by (simp add: add.assoc)
qed

lemma Reader_next_eof:
  assumes "at_stream r [] T"
  shows "\<exists>s. next_loop rf i r = Some (Some EOF, r\<lparr>rdr := s\<rparr>)"
proof -
  obtain s where "rf 1 (rdr r) = (([], Some EOF), s)" using read_eof[of "rdr r" 1] assms by (auto simp: at_stream_def)
  then have "next_loop rf i r = Some (Some EOF, r\<lparr>rdr := s\<rparr>)"
    by (subst next_loop.simps) (simp add: read_turn_def)
  then show ?thesis by blast
qed

lemma read_all_end:
  assumes "Reader_next rf r = Some (Some EOF, r')"
  shows "read_all rf f a r = Some (a, r')"
  using assms by (simp add: read_all.simps[of rf f a r] Reader_Next_def)

text \<open>Reading a whole stream ends without an error.\<close>

lemma read_all_stream:
  assumes "stream T bs recs" "at_stream r bs T" "rerr r = None"
  shows "\<exists>r'. read_all rf f a r = Some (fold f recs a, r') \<and> rerr r' = None"
proof -
  obtain r1 where r1: "at_stream r1 [] (T + length bs)" "rerr r1 = None" "read_all rf f a r = read_all rf f (fold f recs a) r1"
    using read_all_prefix[OF assms(1), of r "[]" f a] assms(2,3) by auto
  have "at_stream (r1\<lparr>rrec := []\<rparr>) [] (T + length bs)" using r1(1) by (simp add: at_stream_def)
  then obtain s where "Reader_next rf r1 = Some (Some EOF, r1\<lparr>rrec := [], rdr := s\<rparr>)"
    using Reader_next_eof[of "r1\<lparr>rrec := []\<rparr>" _ 0] by (auto simp: Reader_next_def)
  from read_all_end[OF this, of f "fold f recs a"] show ?thesis using r1(2,3) by simp
qed

text \<open>A first fragment with nothing after it reads like the end of the log.\<close>

lemma read_all_torn:
  assumes "stream T bs recs" "length part \<le> pageSize - 7" "at_stream r (bs @ frag_bytes recFirst part) T" "rerr r = None"
  shows "\<exists>r'. read_all rf f a r = Some (fold f recs a, r') \<and> rerr r' = None"
proof -
  obtain r1 where r1: "at_stream r1 (frag_bytes recFirst part @ []) (T + length bs)" "rerr r1 = None"
      "read_all rf f a r = read_all rf f (fold f recs a) r1"
    using read_all_prefix[OF assms(1,3,4), of f a] by auto
  have at: "at_stream (r1\<lparr>rrec := []\<rparr>) (frag_bytes recFirst part @ []) (T + length bs)"
    using r1(1) by (simp add: at_stream_def)
  obtain r2 where r2: "read_turn rf (r1\<lparr>rrec := []\<rparr>) = TFrag (recType_byte recFirst) r2"
    "at_stream r2 [] (T + length bs + 7 + length part)" "rerr r2 = None"
    by (rule read_turn_frag[OF at assms(2)]) (use r1(2) in auto)
  obtain s where "next_loop rf (Suc 0) r2 = Some (Some EOF, r2\<lparr>rdr := s\<rparr>)"
    using Reader_next_eof[OF r2(2)] by blast
  then have "Reader_next rf r1 = Some (Some EOF, r2\<lparr>rdr := s\<rparr>)"
    using r2(1) by (simp add: Reader_next_def next_loop.simps[of rf 0 "r1\<lparr>rrec := []\<rparr>"])
  from read_all_end[OF this, of f "fold f recs a"] show ?thesis using r1(3) r2(3) by simp
qed

end

end
