(* ===== verification/Wal_Writer.thy ===== *)
theory Wal_Writer
  imports Wal_Laws
begin

text \<open>
  The writer of \<^verbatim>\<open>wal/wal.go\<close>: whatever sequence of batches is logged, with the log closed or
  abandoned and opened again in between, the segments hold exactly the logged records.
\<close>

section \<open>The active segment\<close>

text \<open>The contents of the active segment: what was written and what waits in the page.\<close>

definition active :: "WAL \<Rightarrow> u8 list" where
  "active w = snd (last (wdir w)) @ drop (flushed (wpage w)) (take (alloc (wpage w)) (pbuf (wpage w)))"

text \<open>The invariant of page and directory; \<open>room\<close> says that the page is not full.\<close>

definition page_inv :: "WAL \<Rightarrow> bool" where
  "page_inv w \<longleftrightarrow>
     length (pbuf (wpage w)) = pageSize \<and> flushed (wpage w) \<le> alloc (wpage w) \<and> alloc (wpage w) \<le> pageSize \<and>
     drop (alloc (wpage w)) (pbuf (wpage w)) = replicate (pageSize - alloc (wpage w)) 0 \<and>
     length (active w) mod pageSize = alloc (wpage w) mod pageSize \<and>
     wdir w \<noteq> [] \<and> fst (last (wdir w)) = segment w \<and> segment w \<notin> fst ` set (butlast (wdir w))"

definition room :: "WAL \<Rightarrow> bool" where
  "room w \<longleftrightarrow> alloc (wpage w) + 7 \<le> pageSize"

lemma page_full_iff: "alloc (wpage w) \<le> pageSize \<Longrightarrow> page_full (wpage w) \<longleftrightarrow> \<not> room w"
  by (auto simp: page_full_def room_def recordHeaderSize_def)

lemma dir_write_last:
  assumes "d \<noteq> []" "fst (last d) = k" "k \<notin> fst ` set (butlast d)"
  shows "dir_write k bs d = butlast d @ [(k, snd (last d) @ bs)]"
proof -
  have "map (\<lambda>(i, c). (i, if i = k then c @ bs else c)) (butlast d) = butlast d"
    using assms(3) by (intro map_idI) (auto simp: image_iff)
  moreover have "dir_write k bs d = dir_write k bs (butlast d @ [last d])" using assms(1) by simp
  ultimately show ?thesis using assms(2) by (simp only: dir_write_def map_append) (simp add: case_prod_beta)
qed

text \<open>Fields that writing to the active segment leaves alone.\<close>

definition same_frame :: "WAL \<Rightarrow> WAL \<Rightarrow> bool" where
  "same_frame w w' \<longleftrightarrow> butlast (wdir w') = butlast (wdir w) \<and> segment w' = segment w \<and> segmentSize w' = segmentSize w"

lemma same_frame_refl [simp]: "same_frame w w"
  by (simp add: same_frame_def)

lemma same_frame_trans [trans]: "same_frame w w' \<Longrightarrow> same_frame w' w'' \<Longrightarrow> same_frame w w''"
  by (simp add: same_frame_def)

lemma fill_page:
  assumes "n mod P = a mod P" "a \<le> P"
  shows "(n + (P - a)) mod P = (0 :: nat)"
proof -
  have "(n + (P - a)) mod P = (a + (P - a)) mod P" using assms(1) by (rule mod_add_cong) simp
  then show ?thesis using assms(2) by simp
qed

lemma flushPage_inv:
  fixes c :: bool and w :: WAL
  assumes "page_inv w"
  defines "cl \<equiv> c \<or> \<not> room w"
  shows "page_inv (flushPage c w)" "same_frame w (flushPage c w)"
    "active (flushPage c w) = active w @ (if cl then replicate (pageSize - alloc (wpage w)) 0 else [])"
    "alloc (wpage (flushPage c w)) = (if cl then 0 else alloc (wpage w))"
    "flushed (wpage (flushPage c w)) = alloc (wpage (flushPage c w))"
proof -
  let ?p = "wpage w"
  have i: "length (pbuf ?p) = pageSize" "flushed ?p \<le> alloc ?p" "alloc ?p \<le> pageSize"
    "drop (alloc ?p) (pbuf ?p) = replicate (pageSize - alloc ?p) 0"
    "length (active w) mod pageSize = alloc ?p mod pageSize"
    and d: "wdir w \<noteq> []" "fst (last (wdir w)) = segment w" "segment w \<notin> fst ` set (butlast (wdir w))"
    using assms(1) by (auto simp: page_inv_def)
  have full: "page_full ?p \<longleftrightarrow> \<not> room w" using i(3) by (rule page_full_iff)
  define a where "a = (if cl then pageSize else alloc ?p)"
  define data where "data = take (a - flushed ?p) (drop (flushed ?p) (pbuf ?p))"
  have ld: "length data = a - flushed ?p" using i a_def by (simp add: data_def)
  have data: "data = drop (flushed ?p) (take (alloc ?p) (pbuf ?p)) @ (if cl then replicate (pageSize - alloc ?p) 0 else [])"
  proof (cases cl)
    case True
    then have "data = drop (flushed ?p) (pbuf ?p)" using i by (simp add: data_def a_def)
    also have "\<dots> = drop (flushed ?p) (take (alloc ?p) (pbuf ?p) @ drop (alloc ?p) (pbuf ?p))" by simp
    also have "\<dots> = drop (flushed ?p) (take (alloc ?p) (pbuf ?p)) @ drop (alloc ?p) (pbuf ?p)"
      using i(1-3) by (subst drop_append) simp
    finally show ?thesis using True i(4) by simp
  qed (simp add: data_def a_def drop_take)
  define w' where "w' = w\<lparr>wdir := dir_write (segment w) data (wdir w)\<rparr>"
  have fl: "flushPage c w =
    (if cl then w'\<lparr>wpage := ?p\<lparr>pbuf := map (\<lambda>_. 0) (pbuf ?p), alloc := 0, flushed := 0\<rparr>, donePages := donePages w + 1\<rparr>
     else w'\<lparr>wpage := ?p\<lparr>flushed := alloc ?p\<rparr>\<rparr>)"
  proof (cases cl)
    case True
    then have "(c \<or> page_full ?p) = True" "data = take (pageSize - flushed ?p) (drop (flushed ?p) (pbuf ?p))"
      using full by (auto simp: cl_def data_def a_def)
    with True show ?thesis by (simp add: flushPage_def Let_def w'_def)
  next
    case False
    then have "(c \<or> page_full ?p) = False" "data = take (alloc ?p - flushed ?p) (drop (flushed ?p) (pbuf ?p))"
      "flushed ?p + length data = alloc ?p"
      using full ld i(2) by (auto simp: cl_def data_def a_def)
    with False show ?thesis by (simp add: flushPage_def Let_def w'_def del: length_take)
  qed
  have dir: "wdir (flushPage c w) = butlast (wdir w) @ [(segment w, snd (last (wdir w)) @ data)]"
    using dir_write_last[OF d] by (simp add: fl w'_def)
  show act: "active (flushPage c w) = active w @ (if cl then replicate (pageSize - alloc ?p) 0 else [])"
    unfolding active_def dir by (simp add: fl data)
  show al: "alloc (wpage (flushPage c w)) = (if cl then 0 else alloc ?p)"
    "flushed (wpage (flushPage c w)) = alloc (wpage (flushPage c w))" by (simp_all add: fl)
  have "length (active (flushPage c w)) mod pageSize = alloc (wpage (flushPage c w)) mod pageSize"
    using i(5) fill_page[OF i(5,3)] by (simp add: act al)
  then show "page_inv (flushPage c w)"
    using i d dir unfolding page_inv_def by (simp add: fl w'_def map_replicate_const)
  show "same_frame w (flushPage c w)" by (simp add: same_frame_def dir) (simp add: fl w'_def)
qed

section \<open>Logging one record\<close>

definition pads :: "nat \<Rightarrow> u8 list \<Rightarrow> bool" where
  "pads T z \<longleftrightarrow> z = [] \<or> T mod pageSize \<noteq> 0 \<and> z = replicate (pageSize - T mod pageSize) 0"

lemma stream_pads: "pads T z \<Longrightarrow> stream T z []"
  using stream.pad[of T "[]" "[]"] by (auto simp: pads_def intro: stream.empty)

lemma flush_pads:
  assumes "page_inv w" "c \<Longrightarrow> alloc (wpage w) \<noteq> 0"
  shows "\<exists>z. active (flushPage c w) = active w @ z \<and> pads (length (active w)) z"
proof -
  have i: "length (active w) mod pageSize = alloc (wpage w) mod pageSize" "alloc (wpage w) \<le> pageSize"
    using assms(1) by (auto simp: page_inv_def)
  have "pads (length (active w)) (replicate (pageSize - alloc (wpage w)) 0)" if "alloc (wpage w) \<noteq> 0"
    using i that by (cases "alloc (wpage w) = pageSize") (auto simp: pads_def)
  moreover have "\<not> room w \<Longrightarrow> alloc (wpage w) \<noteq> 0" using page_facts by (auto simp: room_def)
  moreover have "pads (length (active w)) []" by (simp add: pads_def)
  ultimately show ?thesis using flushPage_inv(3)[OF assms(1), of c] assms(2) by auto
qed

lemma store_frag:
  assumes "page_inv w" "alloc (wpage w) + length b \<le> pageSize"
  defines "w' \<equiv> w\<lparr>wpage := (wpage w)\<lparr>pbuf := copy_at (pbuf (wpage w)) (alloc (wpage w)) b,
                               alloc := alloc (wpage w) + length b\<rparr>\<rparr>"
  shows "page_inv w'" "active w' = active w @ b"
proof -
  let ?p = "wpage w"
  have i: "length (pbuf ?p) = pageSize" "flushed ?p \<le> alloc ?p" "alloc ?p \<le> pageSize"
    "drop (alloc ?p) (pbuf ?p) = replicate (pageSize - alloc ?p) 0"
    "length (active w) mod pageSize = alloc ?p mod pageSize"
    using assms(1) by (auto simp: page_inv_def)
  have buf: "copy_at (pbuf ?p) (alloc ?p) b = take (alloc ?p) (pbuf ?p) @ b @ drop (alloc ?p + length b) (pbuf ?p)"
    using i(1) assms(2) by (simp add: copy_at_def Let_def)
  have rest: "drop (alloc ?p + length b) (pbuf ?p) = replicate (pageSize - (alloc ?p + length b)) 0"
    using arg_cong[OF i(4), of "drop (length b)"] by (simp add: add.commute)
  show act: "active w' = active w @ b"
    using i(1-3) by (simp add: active_def w'_def buf)
  have "length (active w') mod pageSize = (alloc ?p + length b) mod pageSize"
    unfolding act length_append using i(5) by (rule mod_add_cong) simp
  moreover have "length (pbuf (wpage w')) = pageSize" "alloc (wpage w') = alloc ?p + length b"
    "flushed (wpage w') = flushed ?p" "drop (alloc ?p + length b) (pbuf (wpage w')) = replicate (pageSize - (alloc ?p + length b)) 0"
    "wdir w' = wdir w" "segment w' = segment w"
    using i(1,3) assms(2) rest by (simp_all add: w'_def buf)
  ultimately show "page_inv w'"
    using assms(1,2) i(2) unfolding page_inv_def by simp
qed

lemma put_frag_inv:
  fixes w :: WAL and rec :: "u8 list"
  assumes "page_inv w" "room w"
  defines "part \<equiv> take (frag_len rec (wpage w)) rec"
  shows "\<exists>z. page_inv (put_frag i rec final w) \<and> room (put_frag i rec final w) \<and>
    same_frame w (put_frag i rec final w) \<and>
    active (put_frag i rec final w) = active w @ frag_bytes (frag_type i part rec) part @ z \<and>
    pads (length (active w) + 7 + length part) z \<and>
    (final \<longrightarrow> flushed (wpage (put_frag i rec final w)) = alloc (wpage (put_frag i rec final w)))"
proof -
  define b where "b = frag_bytes (frag_type i part rec) part"
  define w1 where "w1 = w\<lparr>wpage := (wpage w)\<lparr>pbuf := copy_at (pbuf (wpage w)) (alloc (wpage w)) b,
                               alloc := alloc (wpage w) + length b\<rparr>\<rparr>"
  have "frag_len rec (wpage w) \<le> pageSize - alloc (wpage w) - 7" by (simp add: frag_len_def recordHeaderSize_def)
  moreover have "length part \<le> frag_len rec (wpage w)" by (simp add: part_def)
  ultimately have "alloc (wpage w) + length b \<le> pageSize" using assms(2) by (simp add: b_def room_def)
  note w1 = store_frag[OF assms(1) this, folded w1_def]
  have sf: "same_frame w w1" by (simp add: same_frame_def w1_def)
  have len: "length (active w1) = length (active w) + 7 + length part" by (simp add: w1(2) b_def)
  have pf: "put_frag i rec final w =
      (if final \<or> frag_type i part rec \<noteq> recFull \<or> page_full (wpage w1) then flushPage False w1 else w1)"
    by (simp add: put_frag_def Let_def part_def w1_def b_def recordHeaderSize_def add.assoc)
  have full: "page_full (wpage w1) \<longleftrightarrow> \<not> room w1" by (rule page_full_iff) (use w1(1) in \<open>simp add: page_inv_def\<close>)
  show ?thesis
  proof (cases "final \<or> frag_type i part rec \<noteq> recFull \<or> page_full (wpage w1)")
    case True
    then have pf: "put_frag i rec final w = flushPage False w1" using pf by simp
    obtain z where z: "active (flushPage False w1) = active w1 @ z" "pads (length (active w1)) z"
      using flush_pads[OF w1(1), of False] by auto
    have "room (flushPage False w1)"
      using flushPage_inv(4)[OF w1(1), of False] page_facts by (auto simp: room_def)
    then show ?thesis
      unfolding pf using flushPage_inv(1,5)[OF w1(1), of False] z w1(2)
        same_frame_trans[OF sf flushPage_inv(2)[OF w1(1), of False]] len
      by (intro exI[of _ z]) (simp add: b_def ac_simps)
  next
    case False
    then show ?thesis using pf full w1 sf by (auto simp: pads_def b_def)
  qed
qed

lemma log_loop_inv:
  "page_inv w \<Longrightarrow> room w \<Longrightarrow>
   \<exists>b z. frags i (length (active w)) rec b \<and> pads (length (active w) + length b) z \<and>
     active (log_loop i rec final w) = active w @ b @ z \<and> page_inv (log_loop i rec final w) \<and>
     room (log_loop i rec final w) \<and> same_frame w (log_loop i rec final w) \<and>
     (final \<longrightarrow> flushed (wpage (log_loop i rec final w)) = alloc (wpage (log_loop i rec final w)))"
proof (induction i rec final w rule: log_loop.induct)
  case (1 i rec final w)
  define l where "l = frag_len rec (wpage w)"
  define T where "T = length (active w)"
  have a: "T mod pageSize = alloc (wpage w)" "alloc (wpage w) + 7 \<le> pageSize"
    using "1.prems" by (auto simp: page_inv_def room_def T_def)
  from put_frag_inv[OF "1.prems", where rec = rec and i = i and final = final] obtain z where
    z: "page_inv (put_frag i rec final w)" "room (put_frag i rec final w)" "same_frame w (put_frag i rec final w)"
      "active (put_frag i rec final w) = active w @ frag_bytes (frag_type i (take l rec) rec) (take l rec) @ z"
      "pads (T + 7 + length (take l rec)) z"
      "final \<longrightarrow> flushed (wpage (put_frag i rec final w)) = alloc (wpage (put_frag i rec final w))"
    unfolding l_def T_def by blast
  show ?case
  proof (cases "l < length rec")
    case False
    then have "take l rec = rec" "l = length rec" by (auto simp: l_def frag_len_def)
    moreover from this have "length rec + 7 + alloc (wpage w) \<le> pageSize" using a(2)
      by (simp add: l_def frag_len_def recordHeaderSize_def)
    ultimately have "frags i T rec (frag_bytes (frag_type i (take l rec) rec) (take l rec))"
      using frags.final[of T rec i] a(1) by (simp add: frag_type_def split: if_splits)
    moreover have eq: "log_loop i rec final w = put_frag i rec final w"
      using False by (subst log_loop.simps) (simp add: l_def)
    moreover have "pads (T + length (frag_bytes (frag_type i (take l rec) rec) (take l rec))) z"
      using z(5) by (simp add: ac_simps)
    ultimately show ?thesis using z(1-4,6) unfolding eq T_def by blast
  next
    case True
    then have l: "l = pageSize - alloc (wpage w) - 7" by (simp add: l_def frag_len_def recordHeaderSize_def)
    then have page: "T mod pageSize + 7 + length (take l rec) = pageSize" using True a by simp
    then have "(T + 7 + length (take l rec)) mod pageSize = 0"
      by (metis add.assoc mod_add_left_eq mod_self)
    then have "z = []" using z(5) by (auto simp: pads_def)
    let ?w = "put_frag i rec final w" and ?ty = "if i = 0 then recFirst else recMiddle"
    have act: "active ?w = active w @ frag_bytes ?ty (take l rec)"
      using z(4) \<open>z = []\<close> True by (simp add: frag_type_def)
    then have len: "length (active ?w) = T + 7 + length (take l rec)" by (simp add: T_def)
    have step: "log_loop i rec final w = log_loop (Suc i) (drop l rec) final ?w"
      using True by (subst log_loop.simps) (simp add: l_def Let_def)
    obtain b z' where b: "frags (Suc i) (T + 7 + length (take l rec)) (drop l rec) b"
      "pads (T + 7 + length (take l rec) + length b) z'"
      "active (log_loop (Suc i) (drop l rec) final ?w) = active ?w @ b @ z'"
      "page_inv (log_loop (Suc i) (drop l rec) final ?w)" "room (log_loop (Suc i) (drop l rec) final ?w)"
      "same_frame ?w (log_loop (Suc i) (drop l rec) final ?w)"
      "final \<longrightarrow> flushed (wpage (log_loop (Suc i) (drop l rec) final ?w)) = alloc (wpage (log_loop (Suc i) (drop l rec) final ?w))"
      using "1.IH"[OF refl refl _ z(1,2)] True unfolding l_def[symmetric] len by auto
    have "frags i T (take l rec @ drop l rec) (frag_bytes ?ty (take l rec) @ b)"
      by (rule frags.split[OF page _ b(1)]) (use True in simp)
    moreover have "pads (T + length (frag_bytes ?ty (take l rec) @ b)) z'" using b(2) by (simp add: ac_simps)
    moreover have "active (log_loop (Suc i) (drop l rec) final ?w) = active w @ (frag_bytes ?ty (take l rec) @ b) @ z'"
      using b(3) act by simp
    ultimately show ?thesis
      unfolding step T_def[symmetric] append_take_drop_id
      using b(4,5,7) same_frame_trans[OF z(3) b(6)] by blast
  qed
qed

section \<open>The whole log\<close>

text \<open>
  The segments before the active one are whole pages; every segment on its own holds records, so
  no record crosses segments. Segment numbers are consecutive.
\<close>

definition closed_segments :: "dir \<Rightarrow> u8 list list list \<Rightarrow> bool" where
  "closed_segments d rss \<longleftrightarrow> list_all2 (\<lambda>(k, c) rs. stream 0 c rs \<and> length c mod pageSize = 0) d rss"

definition numbered :: "dir \<Rightarrow> int \<Rightarrow> bool" where
  "numbered d k \<longleftrightarrow> (\<exists>f. 0 \<le> f \<and> f \<le> k \<and> map fst d = [f..k])"

definition holds :: "WAL \<Rightarrow> u8 list list \<Rightarrow> bool" where
  "holds w recs \<longleftrightarrow>
     page_inv w \<and> room w \<and> numbered (wdir w) (segment w) \<and>
     (\<exists>rss rs. closed_segments (butlast (wdir w)) rss \<and> stream 0 (active w) rs \<and> recs = concat rss @ rs)"

definition settled :: "WAL \<Rightarrow> bool" where
  "settled w \<longleftrightarrow> flushed (wpage w) = alloc (wpage w)"

lemma map_fst_last: "d \<noteq> [] \<Longrightarrow> map fst d = map fst (butlast d) @ [fst (last d)]"
  by (induction d) auto

lemma numbered_same:
  assumes "page_inv w" "page_inv w'" "same_frame w w'" "numbered (wdir w) (segment w)"
  shows "numbered (wdir w') (segment w')"
proof -
  have split: "map fst (wdir v) = map fst (butlast (wdir v)) @ [segment v]" if "page_inv v" for v
    using that map_fst_last[of "wdir v"] by (simp add: page_inv_def)
  have "map fst (wdir w') = map fst (wdir w)"
    using split[OF assms(1)] split[OF assms(2)] assms(3) by (simp add: same_frame_def)
  then show ?thesis using assms(3,4) by (simp add: numbered_def same_frame_def)
qed

lemma holds_extend:
  assumes "holds w recs" "page_inv w'" "room w'" "same_frame w w'"
    and "active w' = active w @ b" "stream (length (active w)) b new"
  shows "holds w' (recs @ new)"
proof -
  obtain rss rs where "closed_segments (butlast (wdir w)) rss" "stream 0 (active w) rs" "recs = concat rss @ rs"
    using assms(1) by (auto simp: holds_def)
  moreover have "stream 0 (active w @ b) (rs @ new)"
    using stream_append[OF calculation(2)] assms(6) by simp
  moreover have "numbered (wdir w') (segment w')"
    using assms(1,2,4) numbered_same[of w w'] by (auto simp: holds_def)
  moreover have "butlast (wdir w') = butlast (wdir w)" using assms(4) by (simp add: same_frame_def)
  ultimately have "closed_segments (butlast (wdir w')) rss \<and> stream 0 (active w') (rs @ new) \<and>
      recs @ new = concat rss @ rs @ new \<and> numbered (wdir w') (segment w')"
    using assms(5) by simp
  then show ?thesis using assms(2,3) unfolding holds_def by blast
qed

lemma holds_flush:
  assumes "holds w recs" "alloc (wpage w) > 0"
  shows "holds (flushPage True w) recs" "alloc (wpage (flushPage True w)) = 0" "settled (flushPage True w)"
proof -
  have pi: "page_inv w" using assms(1) by (simp add: holds_def)
  note fl = flushPage_inv[OF pi, of True]
  obtain z where "active (flushPage True w) = active w @ z" "pads (length (active w)) z"
    using flush_pads[OF pi, of True] assms(2) by auto
  moreover have "room (flushPage True w)" using fl(4) page_facts by (simp add: room_def)
  ultimately show "holds (flushPage True w) recs"
    using holds_extend[OF assms(1) fl(1) _ fl(2)] stream_pads by fastforce
  show "alloc (wpage (flushPage True w)) = 0" "settled (flushPage True w)" using fl by (simp_all add: settled_def)
qed

lemma insort_last:
  "\<forall>x\<in>set d. fst x < k \<Longrightarrow> insort_key fst (k, c) d = d @ [(k :: int, c)]"
  by (induction d) auto

lemma numbered_next:
  assumes "numbered d k"
  shows "CreateSegment (k + 1) d = d @ [(k + 1, [])]" "numbered (d @ [(k + 1, [])]) (k + 1)" "k + 1 \<notin> fst ` set d"
proof -
  obtain f where f: "0 \<le> f" "f \<le> k" "map fst d = [f..k]" using assms by (auto simp: numbered_def)
  have "fst ` set d = {f..k}" using arg_cong[OF f(3), of set] by simp
  then have "\<forall>x\<in>set d. fst x < k + 1" by force
  moreover from this show nin: "k + 1 \<notin> fst ` set d" by auto
  ultimately show "CreateSegment (k + 1) d = d @ [(k + 1, [])]"
    by (simp add: CreateSegment_def insort_last)
  have "[f..k + 1] = [f..k] @ [k + 1]" using f by (simp add: upto_rec2)
  then show "numbered (d @ [(k + 1, [])]) (k + 1)" using f by (auto simp: numbered_def intro!: exI[of _ f])
qed

lemma active_settled: "settled w \<Longrightarrow> active w = snd (last (wdir w))"
  by (simp add: settled_def active_def)

lemma nextSegment_holds:
  assumes "holds w recs"
  shows "holds (nextSegment w) recs" "active (nextSegment w) = []" "settled (nextSegment w)" "alloc (wpage (nextSegment w)) = 0"
    "segmentSize (nextSegment w) = segmentSize w" "donePages (nextSegment w) = 0" "segment (nextSegment w) = segment w + 1"
proof -
  define v where "v = (if alloc (wpage w) > 0 then flushPage True w else w)"
  have v: "holds v recs" "alloc (wpage v) = 0" "segmentSize v = segmentSize w" "segment v = segment w"
    using holds_flush[OF assms] assms flushPage_inv(2)[of w True]
    by (auto simp: v_def holds_def same_frame_def)
  have pv: "page_inv v" "numbered (wdir v) (segment v)" using v(1) by (auto simp: holds_def)
  have fv: "flushed (wpage v) = 0" "settled v" using pv(1) v(2) by (auto simp: page_inv_def settled_def)
  have nx: "nextSegment w = v\<lparr>wdir := wdir v @ [(segment v + 1, [])], segment := segment v + 1, donePages := 0\<rparr>"
    using numbered_next[OF pv(2)] by (simp add: nextSegment_def v_def Let_def)
  show act: "active (nextSegment w) = []" using v(2) by (simp add: nx active_def)
  obtain rss rs where rs: "closed_segments (butlast (wdir v)) rss" "stream 0 (active v) rs" "recs = concat rss @ rs"
    using v(1) by (auto simp: holds_def)
  have "length (active v) mod pageSize = 0" "wdir v \<noteq> []" using pv(1) v(2) by (auto simp: page_inv_def)
  then have "closed_segments (butlast (wdir v) @ [last (wdir v)]) (rss @ [rs])"
    using rs(1,2) active_settled[OF fv(2)] unfolding closed_segments_def
    by (intro list_all2_appendI) (auto simp: case_prod_beta)
  then have "closed_segments (wdir v) (rss @ [rs])" using \<open>wdir v \<noteq> []\<close> by simp
  moreover have "page_inv (nextSegment w)"
    using pv(1) v(2) fv(1) numbered_next(3)[OF pv(2)] act unfolding page_inv_def by (simp add: nx)
  ultimately show "holds (nextSegment w) recs"
    unfolding holds_def act
  proof (intro conjI exI)
    show "room (nextSegment w)" using v(1) by (simp add: holds_def nx room_def)
    show "numbered (wdir (nextSegment w)) (segment (nextSegment w))" using numbered_next(2)[OF pv(2)] by (simp add: nx)
    show "recs = concat (rss @ [rs]) @ []" using rs(3) by simp
    show "stream 0 [] []" by (rule stream.empty)
  qed (simp_all add: nx)
  show "settled (nextSegment w)" "alloc (wpage (nextSegment w)) = 0" "segmentSize (nextSegment w) = segmentSize w"
    "donePages (nextSegment w) = 0" "segment (nextSegment w) = segment w + 1"
    using v(2,3,4) fv(2) by (simp_all add: nx settled_def)
qed

lemma log_loop_holds:
  assumes "holds w recs"
  shows "holds (log_loop 0 rec final w) (recs @ [rec])" "final \<Longrightarrow> settled (log_loop 0 rec final w)"
    "segment (log_loop 0 rec final w) = segment w"
proof -
  have w: "page_inv w" "room w" using assms by (auto simp: holds_def)
  obtain b z where b: "frags 0 (length (active w)) rec b" "pads (length (active w) + length b) z"
    "active (log_loop 0 rec final w) = active w @ b @ z" "page_inv (log_loop 0 rec final w)"
    "room (log_loop 0 rec final w)" "same_frame w (log_loop 0 rec final w)"
    "final \<longrightarrow> flushed (wpage (log_loop 0 rec final w)) = alloc (wpage (log_loop 0 rec final w))"
    using log_loop_inv[OF w, of 0 rec final] by blast
  have "stream (length (active w)) (b @ z) [rec]"
    using stream.rec[OF b(1) stream_pads[OF b(2)]] .
  then show "holds (log_loop 0 rec final w) (recs @ [rec])"
    using holds_extend[OF assms b(4,5,6,3)] by blast
  show "final \<Longrightarrow> settled (log_loop 0 rec final w)" using b(7) by (simp add: settled_def)
  show "segment (log_loop 0 rec final w) = segment w" using b(6) by (simp add: same_frame_def)
qed

lemma log_holds:
  assumes "holds w recs"
  shows "holds (log rec final w) (recs @ [rec])" "final \<Longrightarrow> settled (log rec final w)"
    "segment (log rec final w) \<le> segment w + 1"
  using log_loop_holds[OF assms] log_loop_holds[OF nextSegment_holds(1)[OF assms]] nextSegment_holds(7)[OF assms]
  by (simp_all add: log_def Let_def)

lemma Log_holds:
  "holds w recs \<Longrightarrow> holds (Log rs w) (recs @ rs) \<and> (rs \<noteq> [] \<or> settled w \<longrightarrow> settled (Log rs w)) \<and>
     segment (Log rs w) \<le> segment w + int (length rs)"
proof (induction rs arbitrary: w recs)
  case (Cons r rs)
  from Cons.IH[OF log_holds(1)[OF Cons.prems, of r "rs = []"]] log_holds(2)[OF Cons.prems, of "rs = []" r]
    log_holds(3)[OF Cons.prems, of r "rs = []"]
  show ?case by auto
qed simp

lemma Close_holds:
  assumes "holds w recs"
  shows "holds (WAL_Close w) recs" "settled (WAL_Close w)" "segment (WAL_Close w) = segment w"
  using holds_flush[OF assms] assms flushPage_inv(2)[of w True]
  by (auto simp: WAL_Close_def holds_def page_inv_def settled_def same_frame_def)

section \<open>Opening and reading a directory\<close>

definition dir_holds :: "dir \<Rightarrow> u8 list list \<Rightarrow> bool" where
  "dir_holds d recs \<longleftrightarrow>
     d \<noteq> [] \<and> numbered d (fst (last d)) \<and>
     (\<exists>rss rs. closed_segments (butlast d) rss \<and> stream 0 (snd (last d)) rs \<and> recs = concat rss @ rs)"

lemma holds_dir: "holds w recs \<Longrightarrow> settled w \<Longrightarrow> dir_holds (wdir w) recs"
  by (auto simp: holds_def dir_holds_def active_settled page_inv_def)

lemma list_loop_upto:
  "f \<le> k + 1 \<Longrightarrow> refs = [] \<or> prev = f - 1 \<Longrightarrow> list_loop (map Some [f..k]) refs prev = Ok (refs @ [f..k])"
proof (induction "nat (k + 1 - f)" arbitrary: f refs prev)
  case 0
  then show ?case by simp
next
  case (Suc n)
  then have "[f..k] = f # [f + 1..k]" by (simp add: upto_rec1)
  then show ?case using Suc.prems Suc.hyps(1)[of "f + 1" "refs @ [f]" f] Suc.hyps(2) by auto
qed

lemma listSegments_numbered:
  assumes "numbered d k"
  shows "listSegments (ReadDir d) = Ok (map fst d)"
proof -
  obtain f where f: "f \<le> k" "map fst d = [f..k]" using assms by (auto simp: numbered_def)
  have "ReadDir d = map Some [f..k]" unfolding ReadDir_def f(2)[symmetric] by simp
  then show ?thesis using f list_loop_upto[of f k "[]" 0] by (simp add: listSegments_def sorted_upto sort_key_id_if_sorted)
qed

lemma numbered_facts:
  assumes "numbered d k"
  shows "d \<noteq> []" "distinct (map fst d)" "fst (last d) = k" "0 \<le> k" "map_of d k = Some (snd (last d))"
    "k \<notin> fst ` set (butlast d)" "Segments d = Ok (fst (d ! 0), k)"
proof -
  obtain f where f: "0 \<le> f" "f \<le> k" "map fst d = [f..k]" using assms by (auto simp: numbered_def)
  show ne: "d \<noteq> []" using f(2,3) by auto
  show dist: "distinct (map fst d)" unfolding f(3) by simp
  have "last (map fst d) = k" unfolding f(3) using f(2) by (simp add: upto_rec2)
  then show l: "fst (last d) = k" using ne by (simp add: last_map)
  show "0 \<le> k" using f by simp
  have d: "d = butlast d @ [(k, snd (last d))]" using ne l by (metis append_butlast_last_id prod.collapse)
  have "distinct (map fst (butlast d @ [(k, snd (last d))]))" using dist d by simp
  then show "k \<notin> fst ` set (butlast d)" by simp
  show "map_of d k = Some (snd (last d))" using dist ne l by (metis last_in_set map_of_is_SomeI prod.collapse)
  have "map fst d ! (length (map fst d) - 1) = k" using l ne by (simp add: last_conv_nth)
  then show "Segments d = Ok (fst (d ! 0), k)"
    using listSegments_numbered[OF assms] ne by (simp add: Segments_def)
qed

lemma NewSize_fresh:
  assumes "sz mod pageSize = 0"
  shows "\<exists>w. NewSize [] sz = Ok w \<and> holds w [] \<and> settled w \<and> segmentSize w = sz \<and> segment w = 0"
proof -
  have "listSegments (ReadDir []) = Ok []" by (simp add: listSegments_def ReadDir_def)
  then have "NewSize [] sz = Ok \<lparr>wdir = [(0, [])], segmentSize = sz, segment = 0, donePages = 0, wpage = new_page\<rparr>"
    using assms by (simp add: NewSize_def Segments_def CreateSegment_def)
  moreover have "numbered [(0, [])] 0" unfolding numbered_def by (rule exI[of _ 0]) simp
  ultimately show ?thesis
    using page_facts
    by (auto simp: holds_def page_inv_def room_def settled_def new_page_def active_def closed_segments_def
        intro!: exI[of _ "[]"] stream.empty)
qed

lemma NewSize_reopen:
  assumes "dir_holds d recs" "sz mod pageSize = 0"
  shows "\<exists>w. NewSize d sz = Ok w \<and> holds w recs \<and> settled w \<and> segmentSize w = sz \<and> segment w = fst (last d) \<and>
    butlast (wdir w) = butlast d \<and> alloc (wpage w) = 0 \<and> donePages w = int (length (active w) div pageSize) \<and>
    (\<exists>z. active w = snd (last d) @ z \<and> pads (length (snd (last d))) z)"
proof -
  define k where "k = fst (last d)"
  define c where "c = snd (last d)"
  have num: "numbered d k" using assms(1) by (simp add: dir_holds_def k_def)
  note nf = numbered_facts[OF num]
  define z :: "u8 list" where "z = (if length c mod pageSize = 0 then [] else replicate (pageSize - length c mod pageSize) 0)"
  define d' where "d' = butlast d @ [(k, c @ z)]"
  have "OpenWriteSegment k d = Ok d'"
    using nf(5) dir_write_last[OF nf(1,3,6)] nf(1,3)
    by (auto simp: OpenWriteSegment_def Let_def d'_def z_def c_def)
  moreover have dl: "map_of d' k = Some (c @ z)" using nf(6) by (simp add: d'_def map_add_Some_iff map_of_eq_None_iff)
  ultimately have new: "NewSize d sz = Ok \<lparr>wdir = d', segmentSize = sz, segment = k,
      donePages = int (length (c @ z) div pageSize), wpage = new_page\<rparr>" (is "_ = Ok ?w")
    using assms(2) nf(4,7) by (simp add: NewSize_def)
  have "(length c + (pageSize - length c mod pageSize)) mod pageSize = 0"
    by (rule fill_page) (use page_facts in \<open>simp_all add: less_imp_le\<close>)
  then have len: "length (c @ z) mod pageSize = 0" by (simp add: z_def)
  have act: "active ?w = c @ z" by (simp add: active_def new_page_def d'_def)
  have num': "numbered d' k"
  proof -
    have "map fst d' = map fst d" using map_fst_last[OF nf(1)] nf(3) by (simp add: d'_def)
    then show ?thesis using num nf(1) by (simp add: numbered_def)
  qed
  obtain rss rs where rs: "closed_segments (butlast d) rss" "stream 0 c rs" "recs = concat rss @ rs"
    using assms(1) by (auto simp: dir_holds_def c_def)
  have pz: "pads (length c) z" by (simp add: pads_def z_def)
  have "stream 0 (c @ z) (rs @ [])"
    by (rule stream_append[OF rs(2)]) (use stream_pads[OF pz] in simp)
  moreover have "page_inv ?w" using nf(6) len act by (simp add: page_inv_def new_page_def d'_def)
  ultimately have "holds ?w recs"
    using rs act num' page_facts unfolding holds_def by (auto simp: d'_def room_def new_page_def)
  moreover have "settled ?w" "alloc (wpage ?w) = 0" by (simp_all add: settled_def new_page_def)
  moreover have "butlast (wdir ?w) = butlast d" "donePages ?w = int (length (active ?w) div pageSize)"
    using act by (simp_all add: d'_def)
  moreover have "\<exists>z. active ?w = snd (last d) @ z \<and> pads (length (snd (last d))) z"
    unfolding act c_def[symmetric] using pz by blast
  ultimately show ?thesis using new by (simp add: k_def)
qed

text \<open>All closed segments and the last one, read in sequence, are one stream.\<close>

lemma closed_stream:
  "closed_segments d rss \<Longrightarrow> stream 0 (concat (map snd d)) (concat rss) \<and> length (concat (map snd d)) mod pageSize = 0"
  unfolding closed_segments_def
proof (induction rule: list_all2_induct)
  case (Cons x xs rs rss)
  obtain k c where x: "x = (k, c)" by (cases x)
  then have c: "stream 0 c rs" "length c mod pageSize = 0" using Cons.hyps by auto
  have "stream (0 + length c) (concat (map snd xs)) (concat rss)"
    by (rule stream_shift[OF conjunct1[OF Cons.IH]]) (simp add: c)
  from stream_append[OF c(1) this] show ?case
    using Cons.IH c(2) by (simp add: x) (metis mod_add_eq mod_0 add_0)
qed (simp add: stream.empty)

lemma dir_stream: "dir_holds d recs \<Longrightarrow> stream 0 (concat (map snd d)) recs"
proof -
  assume "dir_holds d recs"
  then obtain rss rs where d: "d \<noteq> []" "closed_segments (butlast d) rss" "stream 0 (snd (last d)) rs" "recs = concat rss @ rs"
    by (auto simp: dir_holds_def)
  note cs = closed_stream[OF d(2)]
  have "stream (0 + length (concat (map snd (butlast d)))) (snd (last d)) rs"
    by (rule stream_shift[OF d(3)]) (use cs in simp)
  from stream_append[OF conjunct1[OF cs] this]
  have "stream 0 (concat (map snd (butlast d @ [last d]))) (concat rss @ rs)" by simp
  then show ?thesis using d(1,4) by simp
qed

lemma range_loop_all:
  assumes "distinct (map fst d)" "\<forall>k\<in>fst ` set ds. 0 \<le> k \<and> k \<le> n" "set ds \<subseteq> set d"
  shows "range_loop 0 n (map fst ds) d ss = ss @ ds"
  using assms(2,3)
proof (induction ds arbitrary: ss)
  case (Cons x ds)
  have "map_of d (fst x) = Some (snd x)" using assms(1) Cons.prems(2) by (simp add: map_of_is_SomeI)
  then show ?case using Cons by auto
qed simp

text \<open>What a client reads from a directory: the records and the error at the end.\<close>

definition wal_read :: "dir \<Rightarrow> (u8 list list \<times> CorruptionErr option) option" where
  "wal_read d =
     (case NewSegmentsReader d of
        Ok r \<Rightarrow> map_option (\<lambda>(recs, r). (recs, Reader_Err_segments r))
                 (read_all segments_ReadFull (\<lambda>rec recs. recs @ [rec]) [] (NewReader r))
      | _ \<Rightarrow> None)"

lemma fold_snoc: "fold (\<lambda>x xs. xs @ [x]) ys xs = xs @ ys"
  by (induction ys arbitrary: xs) auto

lemma NewSegmentsReader_numbered:
  assumes "numbered d k" "k < 2 ^ 31"
  shows "NewSegmentsReader d = Ok (newSegmentBufReader d)"
proof -
  obtain f where f: "0 \<le> f" "map fst d = [f..k]" using assms(1) by (auto simp: numbered_def)
  have "fst ` set d = {f..k}" using arg_cong[OF f(2), of set] by simp
  then have "\<forall>k\<in>fst ` set d. 0 \<le> k \<and> k \<le> 2 ^ 31 - 1" using f(1) assms(2) by auto
  then have "range_loop 0 (2 ^ 31 - 1) (map fst d) d [] = d"
    using range_loop_all[OF numbered_facts(2)[OF assms(1)], of d "2 ^ 31 - 1" "[]"] by simp
  then show ?thesis
    using listSegments_numbered[OF assms(1)] by (simp add: NewSegmentsReader_def NewSegmentsRangeReader_def)
qed

lemma at_new_reader: "segments_source.at_stream (NewReader (newSegmentBufReader d)) (concat (map snd d)) 0"
  by (simp add: segments_source.at_stream_def NewReader_def newSegmentBufReader_def seg_avail_def)

lemma wal_read_end:
  assumes "numbered d k" "k < 2 ^ 31"
    and "read_all segments_ReadFull (\<lambda>rec recs. recs @ [rec]) [] (NewReader (newSegmentBufReader d)) = Some (recs, r')" "rerr r' = None"
  shows "wal_read d = Some (recs, None)"
  using assms(3,4) by (simp add: wal_read_def NewSegmentsReader_numbered[OF assms(1,2)] Reader_Err_segments_def)

lemma wal_read_holds:
  assumes "dir_holds d recs" "fst (last d) < 2 ^ 31"
  shows "wal_read d = Some (recs, None)"
proof -
  have num: "numbered d (fst (last d))" using assms(1) by (simp add: dir_holds_def)
  from segments_source.read_all_stream[OF dir_stream[OF assms(1)] at_new_reader, of "\<lambda>rec recs. recs @ [rec]" "[]"]
  obtain r' where "read_all segments_ReadFull (\<lambda>rec recs. recs @ [rec]) [] (NewReader (newSegmentBufReader d)) = Some (recs, r')"
    "rerr r' = None" by (auto simp: fold_snoc NewReader_def)
  then show ?thesis using wal_read_end[OF num assms(2)] by blast
qed

section \<open>Properties\<close>

datatype wal_op = Log_op "u8 list list" | Close_op | Crash_op

text \<open>
  A life of the log: batches are logged, and in between it is closed, or the process dies, and the
  directory is opened again.
\<close>

fun wal_step :: "nat \<Rightarrow> wal_op \<Rightarrow> WAL \<Rightarrow> WAL outcome" where
  "wal_step sz (Log_op rs) w = Ok (Log rs w)"
| "wal_step sz Close_op w = NewSize (wdir (WAL_Close w)) sz"
| "wal_step sz Crash_op w = NewSize (wdir w) sz"

fun wal_run :: "nat \<Rightarrow> wal_op list \<Rightarrow> WAL \<Rightarrow> WAL outcome" where
  "wal_run sz [] w = Ok w"
| "wal_run sz (op # ops) w = bind_outcome (wal_step sz op w) (wal_run sz ops)"

fun logged :: "wal_op list \<Rightarrow> u8 list list" where
  "logged [] = []"
| "logged (Log_op rs # ops) = rs @ logged ops"
| "logged (op # ops) = logged ops"

lemma last_segment: "holds w recs \<Longrightarrow> fst (last (wdir w)) = segment w"
  by (simp add: holds_def page_inv_def)

lemma wal_run_holds:
  "holds w recs \<Longrightarrow> settled w \<Longrightarrow> sz mod pageSize = 0 \<Longrightarrow>
   \<exists>w'. wal_run sz ops w = Ok w' \<and> holds w' (recs @ logged ops) \<and> settled w' \<and>
     segment w' \<le> segment w + int (length (logged ops))"
proof (induction ops arbitrary: w recs)
  case (Cons op ops)
  show ?case
  proof (cases op)
    case (Log_op rs)
    have l: "holds (Log rs w) (recs @ rs)" "settled (Log rs w)" "segment (Log rs w) \<le> segment w + int (length rs)"
      using Log_holds[OF Cons.prems(1), of rs] Cons.prems(2) by auto
    from Cons.IH[OF l(1,2) Cons.prems(3)] l(3) show ?thesis by (auto simp: Log_op)
  next
    case Close_op
    note cl = Close_holds[OF Cons.prems(1)]
    obtain w1 where w1: "NewSize (wdir (WAL_Close w)) sz = Ok w1" "holds w1 recs" "settled w1" "segment w1 = segment w"
      using NewSize_reopen[OF holds_dir[OF cl(1,2)] Cons.prems(3)] last_segment[OF cl(1)] cl(3) by auto
    from Cons.IH[OF w1(2,3) Cons.prems(3)] w1 show ?thesis by (auto simp: Close_op)
  next
    case Crash_op
    obtain w1 where w1: "NewSize (wdir w) sz = Ok w1" "holds w1 recs" "settled w1" "segment w1 = segment w"
      using NewSize_reopen[OF holds_dir[OF Cons.prems(1,2)] Cons.prems(3)] last_segment[OF Cons.prems(1)] by auto
    from Cons.IH[OF w1(2,3) Cons.prems(3)] w1 show ?thesis by (auto simp: Crash_op)
  qed
qed simp

text \<open>
  C3. Durability and round trip of the write ahead log: from a new log, after any sequence of
  logged batches, of closing and of dying between batches with the directory opened again, every
  operation succeeds, and reading the segments delivers exactly the logged records, of any
  length, in order, and ends without an error.
\<close>

theorem wal_round_trip:
  assumes "sz mod pageSize = 0" "length (logged ops) < 2 ^ 31"
  shows "\<exists>w0 w. NewSize [] sz = Ok w0 \<and> wal_run sz ops w0 = Ok w \<and> wal_read (wdir w) = Some (logged ops, None)"
proof -
  obtain w0 where w0: "NewSize [] sz = Ok w0" "holds w0 []" "settled w0" "segment w0 = 0"
    using NewSize_fresh[OF assms(1)] by blast
  then obtain w where w: "wal_run sz ops w0 = Ok w" "holds w (logged ops)" "settled w" "segment w \<le> int (length (logged ops))"
    using wal_run_holds[OF w0(2,3) assms(1), of ops] by auto
  have "fst (last (wdir w)) < 2 ^ 31" using last_segment[OF w(2)] w(4) assms(2) by simp
  then show ?thesis using w0(1) w(1) wal_read_holds[OF holds_dir[OF w(2,3)]] by auto
qed

theorem wal_round_trip_witness:
  "\<exists>w0 w. NewSize [] (2 * pageSize) = Ok w0 \<and> wal_run (2 * pageSize) [Log_op [[1, 2], []], Close_op, Log_op [[3]]] w0 = Ok w \<and>
    wal_read (wdir w) = Some ([[1, 2], [], [3]], None)"
  using wal_round_trip[of "2 * pageSize" "[Log_op [[1, 2], []], Close_op, Log_op [[3]]]"] by simp

end
