(* ===== verification/Wal_Repair.thy ===== *)
theory Wal_Repair
  imports Wal_Writer
begin

text \<open>
  Truncation, damage and repair of the write ahead log of \<^verbatim>\<open>wal/wal.go\<close>, and the size of its
  segments.
\<close>

section \<open>Truncation\<close>

lemma drop_upto: "drop n [f..k] = [f + int n..k]"
proof (induction n arbitrary: f)
  case (Suc n)
  show ?case
  proof (cases "f \<le> k")
    case True
    then show ?thesis using Suc[of "f + 1"] by (simp add: upto_rec1 algebra_simps)
  qed simp
qed simp

lemma filter_numbered:
  "map fst d = [f..k] \<Longrightarrow> filter (\<lambda>x. i \<le> fst x) d = drop (nat (i - f)) d"
proof (induction d arbitrary: f)
  case (Cons x d)
  then have "f \<le> k" by (cases "f \<le> k") auto
  with Cons.prems have fk: "f \<le> k" "fst x = f" "map fst d = [f + 1..k]" by (auto simp: upto_rec1)
  show ?case
  proof (cases "i \<le> f")
    case True
    have "\<forall>y\<in>set d. i \<le> fst y" using arg_cong[OF fk(3), of set] True by (auto simp: image_iff set_eq_iff) force
    then show ?thesis using True fk by simp
  next
    case False
    then have "nat (i - f) = Suc (nat (i - (f + 1)))" by simp
    then show ?thesis using False fk Cons.IH[OF fk(3)] by simp
  qed
qed simp

lemma truncate_loop_filter:
  "sorted refs \<Longrightarrow> truncate_loop i refs d = filter (\<lambda>(k, c). \<not> (k \<in> set refs \<and> k < i)) d"
proof (induction refs arbitrary: d)
  case (Cons r refs)
  show ?case
  proof (cases "r \<ge> i")
    case True
    then have "\<forall>k\<in>set (r # refs). \<not> k < i" using Cons.prems by force
    then show ?thesis using True by (auto intro!: filter_True[symmetric])
  next
    case False
    then show ?thesis using Cons by (auto intro!: filter_cong)
  qed
qed simp

lemma truncate_holds:
  assumes "dir_holds d recs" "i \<le> fst (last d)"
  defines "d' \<equiv> truncate_loop i (map fst d) d"
  shows "\<exists>old kept. recs = old @ kept \<and> dir_holds d' kept \<and> fst (last d') = fst (last d) \<and> (\<forall>k\<in>fst ` set d'. i \<le> k)"
proof -
  define k where "k = fst (last d)"
  obtain f where f: "0 \<le> f" "f \<le> k" "map fst d = [f..k]"
    using assms(1) by (auto simp: dir_holds_def numbered_def k_def)
  define n where "n = nat (i - f)"
  have len: "length d = nat (k - f + 1)" using arg_cong[OF f(3), of length] by simp
  then have n: "n < length d" using assms(2) f(2) by (simp add: n_def k_def)
  have d': "d' = filter (\<lambda>x. i \<le> fst x) d"
  proof -
    have "sorted (map fst d)" unfolding f(3) by (rule sorted_upto)
    moreover have "(case x of (k, c) \<Rightarrow> \<not> (k \<in> set (map fst d) \<and> k < i)) \<longleftrightarrow> i \<le> fst x" if "x \<in> set d" for x
      using that by (auto simp: case_prod_beta)
    ultimately show ?thesis unfolding d'_def by (simp add: truncate_loop_filter cong: filter_cong)
  qed
  then have drop: "d' = drop n d" using filter_numbered[OF f(3), of i] by (simp add: n_def)
  obtain rss rs where r: "closed_segments (butlast d) rss" "stream 0 (snd (last d)) rs" "recs = concat rss @ rs"
    using assms(1) by (auto simp: dir_holds_def)
  have last: "last d' = last d" "d' \<noteq> []" using n by (auto simp: drop)
  have "closed_segments (butlast d') (drop n rss)"
    using r(1) by (simp add: drop closed_segments_def butlast_drop list_all2_dropI)
  moreover have "map fst d' = [f + int n..k]"
    unfolding drop drop_map[symmetric] f(3) by (rule drop_upto)
  then have "numbered d' (fst (last d'))"
    using f n len last by (auto simp: numbered_def k_def intro!: exI[of _ "f + int n"])
  ultimately have "dir_holds d' (concat (drop n rss) @ rs)"
    using r(2) last unfolding dir_holds_def by auto
  moreover have "recs = concat (take n rss) @ concat (drop n rss) @ rs"
    using r(3) by (metis append_take_drop_id append.assoc concat_append)
  moreover have "\<forall>k\<in>fst ` set d'. i \<le> k" by (auto simp: d')
  ultimately show ?thesis using last(1) by metis
qed

section \<open>Repair\<close>

text \<open>
  A damaged directory: whole segments before the one with number \<open>k\<close>, whose contents are records
  followed by bytes at which the reader stops with an error, and any segments behind it.
\<close>

definition stops_at :: "nat \<Rightarrow> u8 list \<Rightarrow> bool" where
  "stops_at T bad \<longleftrightarrow>
     (\<exists>e r. next_loop file_ReadFull 0 \<lparr>rdr = bad, rerr = None, rrec = [], total = T\<rparr> = Some (Some e, r))"

lemma fold_Log_holds: "holds w recs \<Longrightarrow> settled w \<Longrightarrow>
  holds (fold (\<lambda>rec w. Log [rec] w) rs w) (recs @ rs) \<and> settled (fold (\<lambda>rec w. Log [rec] w) rs w) \<and>
  segment (fold (\<lambda>rec w. Log [rec] w) rs w) \<le> segment w + int (length rs)"
proof (induction rs arbitrary: w recs)
  case (Cons r rs)
  have "holds (Log [r] w) (recs @ [r])" "settled (Log [r] w)" "segment (Log [r] w) \<le> segment w + 1"
    using Log_holds[OF Cons.prems(1), of "[r]"] by auto
  from Cons.IH[OF this(1,2)] this(3) show ?case by auto
qed simp

lemma repair_read:
  assumes "stream 0 good rs" "stops_at (length good) bad"
  shows "\<exists>r. read_all file_ReadFull f a (NewReader (good @ bad)) = Some (fold f rs a, r)"
proof -
  have "file_source.at_stream (NewReader (good @ bad)) (good @ bad) 0"
    by (simp add: file_source.at_stream_def NewReader_def)
  from file_source.read_all_prefix[OF assms(1) this, of f a]
  obtain r1 where r1: "file_source.at_stream r1 bad (0 + length good)" "rerr r1 = None"
    "read_all file_ReadFull f a (NewReader (good @ bad)) = read_all file_ReadFull f (fold f rs a) r1"
    by (auto simp: NewReader_def)
  have "r1\<lparr>rrec := []\<rparr> = \<lparr>rdr = bad, rerr = None, rrec = [], total = length good\<rparr>"
    using r1(1,2) by (cases r1) (simp add: file_source.at_stream_def)
  then obtain e r where "Reader_next file_ReadFull r1 = Some (Some e, r)"
    using assms(2) by (auto simp: Reader_next_def stops_at_def)
  then show ?thesis unfolding r1(3) by (subst read_all.simps) (simp add: Reader_Next_def)
qed

lemma Repair_holds:
  assumes d: "wdir w = d0 @ (k, good @ bad) # d1" "numbered (wdir w) (segment w)"
    and good: "closed_segments d0 rss" "stream 0 good rs" "stops_at (length good) bad"
    and w: "wpage w = new_page"
  shows "\<exists>w'. Repair (Some \<lparr>ce_Segment = k, ce_Offset = pos, ce_Err = e\<rparr>) w = Some (Ok w') \<and>
    holds w' (concat rss @ rs) \<and> settled w' \<and> segment w' \<le> k + int (length rs)"
proof -
  obtain f where f: "0 \<le> f" "map fst (wdir w) = [f..segment w]" using d(2) by (auto simp: numbered_def)
  have "sorted_wrt (<) (map fst (wdir w))" unfolding f(2) by (rule sorted_wrt_upto)
  then have lt: "\<forall>x\<in>set d0. fst x < k" and gt: "\<forall>x\<in>set d1. k < fst x"
    unfolding d(1) by (simp_all add: sorted_wrt_append)
  have k: "f \<le> k" "k \<le> segment w" using arg_cong[OF f(2), of set] unfolding d(1) by auto
  have fst_d: "map fst (d0 @ [(k, c)]) = [f..k]" for c :: "u8 list"
  proof -
    have "filter (\<lambda>i. i \<le> k) (map fst d0) = map fst d0" using lt by (force intro: filter_True)
    moreover have "filter (\<lambda>i. i \<le> k) (map fst d1) = []" using gt by (force simp: filter_empty_conv)
    ultimately have "map fst (d0 @ [(k, c)]) = filter (\<lambda>i. i \<le> k) (map fst (wdir w))"
      unfolding d(1) by simp
    also have "\<dots> = filter (\<lambda>i. i \<le> k) ([f..k] @ [k + 1..segment w])"
      unfolding f(2) using upto_split2[OF k] by simp
    also have "\<dots> = [f..k]" by (simp add: filter_empty_conv filter_id_conv)
    finally show ?thesis .
  qed
  have num: "numbered (d0 @ [(k, [])]) k" using fst_d f(1) k(1) by (auto simp: numbered_def)
  define w1 where "w1 = w\<lparr>wdir := d0 @ [(k, [])], segment := k\<rparr>"
  have "page_inv w1" "room w1" "numbered (wdir w1) (segment w1)"
    using num lt w page_facts by (auto simp: page_inv_def room_def active_def w1_def new_page_def)
  moreover have "closed_segments (butlast (wdir w1)) rss" "stream 0 (active w1) []" "concat rss = concat rss @ []"
    using good(1) w by (auto simp: w1_def active_def new_page_def intro: stream.empty)
  ultimately have "holds w1 (concat rss)" unfolding holds_def by blast
  moreover have "settled w1" by (simp add: settled_def w1_def w new_page_def)
  ultimately have fin: "holds (fold (\<lambda>rec w. Log [rec] w) rs w1) (concat rss @ rs)"
    "settled (fold (\<lambda>rec w. Log [rec] w) rs w1)" "segment (fold (\<lambda>rec w. Log [rec] w) rs w1) \<le> k + int (length rs)"
    using fold_Log_holds[of w1 "concat rss" rs] by (auto simp: w1_def)
  have keep: "filter (\<lambda>(j, c). \<not> (j \<in> set (map fst (wdir w)) \<and> j > k)) (wdir w) = d0 @ [(k, good @ bad)]"
  proof -
    have "filter (\<lambda>(j, c). \<not> (j \<in> set (map fst (wdir w)) \<and> j > k)) d0 = d0" using lt by (force intro: filter_True)
    moreover have "filter (\<lambda>(j, c). \<not> (j \<in> set (map fst (wdir w)) \<and> j > k)) d1 = []"
      unfolding d(1) using gt by (force simp: filter_empty_conv)
    ultimately show ?thesis by (simp add: d(1))
  qed
  have mo: "map_of (d0 @ [(k, good @ bad)]) k = Some (good @ bad)"
    using lt by (force simp: map_add_Some_iff map_of_eq_None_iff)
  have rm: "filter (\<lambda>(j, c). j \<noteq> k) (d0 @ [(k, good @ bad)]) = d0"
  proof -
    have "filter (\<lambda>(j, c). j \<noteq> k) d0 = d0" using lt by (force intro: filter_True)
    then show ?thesis by simp
  qed
  have cr: "CreateSegment k d0 = d0 @ [(k, [])]"
    using lt insort_last[OF lt] by (force simp: CreateSegment_def)
  obtain r where "read_all file_ReadFull (\<lambda>rec w. Log [rec] w) w1 (NewReader (good @ bad)) = Some (fold (\<lambda>rec w. Log [rec] w) rs w1, r)"
    using repair_read[OF good(2,3), of "\<lambda>rec w. Log [rec] w" w1] by blast
  then have "Repair (Some \<lparr>ce_Segment = k, ce_Offset = pos, ce_Err = e\<rparr>) w = Some (Ok (fold (\<lambda>rec w. Log [rec] w) rs w1))"
    using f(1) k(1) unfolding Repair_def option.case CorruptionErr.select_convs listSegments_numbered[OF d(2)]
      outcome.case Let_def keep mo rm cr w1_def[symmetric] by (simp del: Log.simps)
  then show ?thesis using fin by blast
qed

section \<open>The size of segments\<close>

text \<open>The number of completed pages and the page in progress account for the active segment.\<close>

definition counted :: "WAL \<Rightarrow> bool" where
  "counted w \<longleftrightarrow> int (length (active w)) = donePages w * int pageSize + int (alloc (wpage w))"

lemma donePages_flush: "page_inv w \<Longrightarrow> donePages (flushPage c w) = donePages w + (if c \<or> \<not> room w then 1 else 0)"
  using page_full_iff[of w] by (auto simp: flushPage_def Let_def page_inv_def)

lemma counted_flush:
  assumes "page_inv w" "counted w"
  shows "counted (flushPage c w)"
proof -
  have "alloc (wpage w) \<le> pageSize" using assms(1) by (simp add: page_inv_def)
  then show ?thesis
    using assms(2) flushPage_inv(3,4)[OF assms(1), of c] donePages_flush[OF assms(1), of c]
    by (auto simp: counted_def of_nat_diff algebra_simps)
qed

lemma counted_put_frag:
  assumes "page_inv w" "room w" "counted w"
  shows "counted (put_frag i rec final w)"
proof -
  define part where "part = take (frag_len rec (wpage w)) rec"
  define b where "b = frag_bytes (frag_type i part rec) part"
  define w1 where "w1 = w\<lparr>wpage := (wpage w)\<lparr>pbuf := copy_at (pbuf (wpage w)) (alloc (wpage w)) b,
                               alloc := alloc (wpage w) + length b\<rparr>\<rparr>"
  have "frag_len rec (wpage w) \<le> pageSize - alloc (wpage w) - 7" by (simp add: frag_len_def recordHeaderSize_def)
  moreover have "length part \<le> frag_len rec (wpage w)" by (simp add: part_def)
  ultimately have "alloc (wpage w) + length b \<le> pageSize" using assms(2) by (simp add: b_def room_def)
  note w1 = store_frag[OF assms(1) this, folded w1_def]
  have "counted w1" using assms(3) w1(2) by (simp add: counted_def w1_def)
  moreover have "put_frag i rec final w = flushPage False w1 \<or> put_frag i rec final w = w1"
    by (simp add: put_frag_def Let_def part_def w1_def b_def recordHeaderSize_def add.assoc)
  ultimately show ?thesis using counted_flush[OF w1(1)] by auto
qed

lemma counted_log_loop: "page_inv w \<Longrightarrow> room w \<Longrightarrow> counted w \<Longrightarrow> counted (log_loop i rec final w)"
proof (induction i rec final w rule: log_loop.induct)
  case (1 i rec final w)
  from put_frag_inv[OF "1.prems"(1,2), where rec = rec and i = i and final = final]
  have "page_inv (put_frag i rec final w)" "room (put_frag i rec final w)" by auto
  with "1.IH"[OF refl refl] counted_put_frag[OF "1.prems"] show ?case
    by (subst log_loop.simps) (simp add: Let_def)
qed

text \<open>A record that fits the free space of the pages does not leave them.\<close>

lemma frags_fit:
  "frags i T rec b \<Longrightarrow> T mod pageSize + 7 \<le> pageSize \<Longrightarrow>
   length rec \<le> (pageSize - T mod pageSize - 7) + (pageSize - 7) * n \<Longrightarrow> T + length b \<le> (T div pageSize + 1 + n) * pageSize"
proof (induction arbitrary: n rule: frags.induct)
  case (final T rec i)
  have "T = T div pageSize * pageSize + T mod pageSize" by simp
  then have "T + (7 + length rec) \<le> T div pageSize * pageSize + pageSize" using final.hyps by linarith
  then show ?case by (simp add: algebra_simps)
next
  case (split T part rest i b)
  let ?T = "T + 7 + length part"
  have "T = T div pageSize * pageSize + T mod pageSize" by simp
  then have "?T = T div pageSize * pageSize + pageSize" using split.hyps(1) by linarith
  then have T: "?T = (T div pageSize + 1) * pageSize" by simp
  then have T': "?T mod pageSize = 0" "?T div pageSize = T div pageSize + 1" using page_facts by simp_all
  have rest: "length rest \<le> (pageSize - 7) * n" using split.prems split.hyps(1) by simp
  then obtain m where m: "n = Suc m" using split.hyps(2) by (cases n) auto
  have "?T + length b \<le> (?T div pageSize + 1 + m) * pageSize"
    by (rule split.IH) (use T' rest m page_facts in \<open>simp_all\<close>)
  then show ?case unfolding T' m by (simp add: algebra_simps)
qed

lemma pads_fit:
  assumes "pads T z" "T \<le> q * pageSize"
  shows "T + length z \<le> q * pageSize"
proof (cases "z = []")
  case False
  then have z: "T mod pageSize \<noteq> 0" "length z = pageSize - T mod pageSize" using assms(1) by (auto simp: pads_def)
  have T: "T = T div pageSize * pageSize + T mod pageSize" "T mod pageSize < pageSize" using page_facts by simp_all
  have "T div pageSize < q"
  proof (rule ccontr)
    assume "\<not> T div pageSize < q"
    then have "q * pageSize \<le> T div pageSize * pageSize" by simp
    then show False using T z(1) assms(2) by linarith
  qed
  then have "Suc (T div pageSize) * pageSize \<le> q * pageSize" by (intro mult_le_mono1) simp
  then have "T div pageSize * pageSize + pageSize \<le> q * pageSize" by simp
  then show ?thesis using T z(2) by linarith
qed (use assms in simp)

text \<open>No segment is longer than the segment size.\<close>

definition bounded :: "WAL \<Rightarrow> bool" where
  "bounded w \<longleftrightarrow>
     segmentSize w mod pageSize = 0 \<and> counted w \<and> length (active w) \<le> segmentSize w \<and>
     (\<forall>(k, c)\<in>set (butlast (wdir w)). length c \<le> segmentSize w)"

definition fits :: "nat \<Rightarrow> u8 list \<Rightarrow> bool" where
  "fits sz rec \<longleftrightarrow> 0 < length rec \<and> length rec \<le> (pageSize - 7) * (sz div pageSize)"

lemma log_loop_bounded:
  assumes "holds w recs" "bounded w"
    and "int (length rec) \<le> int pageSize - int (alloc (wpage w)) - 7 + (int pageSize - 7) * (int (pagesPerSegment w) - donePages w - 1)"
    and "0 < length rec"
  shows "bounded (log_loop 0 rec final w)"
proof -
  have w: "page_inv w" "room w" using assms(1) by (auto simp: holds_def)
  define T where "T = length (active w)"
  define q where "q = T div pageSize"
  have al: "alloc (wpage w) = T mod pageSize" "T mod pageSize + 7 \<le> pageSize"
    using w by (auto simp: page_inv_def room_def T_def)
  have "int T = int q * int pageSize + int (T mod pageSize)" by (simp add: q_def flip: of_nat_mult of_nat_add)
  then have dp: "donePages w = int q"
    using assms(2) page_facts al by (simp add: bounded_def counted_def T_def)
  have sz: "segmentSize w = pagesPerSegment w * pageSize"
    using assms(2) by (auto simp: bounded_def pagesPerSegment_def)
  have "int q + 1 \<le> int (pagesPerSegment w)"
  proof (rule ccontr)
    assume "\<not> ?thesis"
    then have "int (pagesPerSegment w) - donePages w - 1 \<le> -1" using dp by simp
    then have "(int pageSize - 7) * (int (pagesPerSegment w) - donePages w - 1) \<le> (int pageSize - 7) * -1"
      using page_facts by (intro mult_left_mono) auto
    then show False using assms(3,4) by simp
  qed
  then obtain n where n: "pagesPerSegment w = q + 1 + n" by (metis nat_le_iff_add of_nat_1 of_nat_add of_nat_le_iff)
  have "int (length rec) \<le> int ((pageSize - T mod pageSize - 7) + (pageSize - 7) * n)"
    using assms(3) al dp n page_facts(2) by (simp add: of_nat_diff)
  then have fit: "length rec \<le> (pageSize - T mod pageSize - 7) + (pageSize - 7) * n" by linarith
  obtain b z where b: "frags 0 T rec b" "pads (T + length b) z" "active (log_loop 0 rec final w) = active w @ b @ z"
    "page_inv (log_loop 0 rec final w)" "room (log_loop 0 rec final w)" "same_frame w (log_loop 0 rec final w)"
    using log_loop_inv[OF w, of 0 rec final] unfolding T_def by blast
  have "T + length b \<le> pagesPerSegment w * pageSize" using frags_fit[OF b(1) al(2) fit] n by (simp add: q_def)
  from pads_fit[OF b(2) this] have "length (active (log_loop 0 rec final w)) \<le> segmentSize w"
    using b(3) sz by (simp add: T_def)
  then show ?thesis
    using assms(2) b(6) counted_log_loop[OF w, of 0 rec final] by (auto simp: bounded_def same_frame_def)
qed

lemma holds_bounded_last: "holds w recs \<Longrightarrow> settled w \<Longrightarrow> bounded w \<Longrightarrow> \<forall>(k, c)\<in>set (wdir w). length c \<le> segmentSize w"
  using append_butlast_last_id[of "wdir w"] active_settled[of w]
  by (auto simp: holds_def page_inv_def bounded_def dest: in_set_butlastD)
    (metis append_butlast_last_id Un_iff case_prodD empty_iff insert_iff list.set(1,2) set_append snd_conv)

lemma page_multiple:
  assumes "sz mod pageSize = 0"
  obtains q where "sz = q * pageSize"
  using that[of "sz div pageSize"] div_mult_mod_eq[of sz pageSize] assms by linarith

lemma flush_bounded:
  assumes "holds w recs" "bounded w" "alloc (wpage w) > 0"
  shows "bounded (flushPage True w)"
proof -
  have w: "page_inv w" using assms(1) by (simp add: holds_def)
  obtain z where z: "active (flushPage True w) = active w @ z" "pads (length (active w)) z"
    using flush_pads[OF w, of True] assms(3) by auto
  obtain q where q: "segmentSize w = q * pageSize" using assms(2) by (meson bounded_def page_multiple)
  then have "length (active w) + length z \<le> segmentSize w"
    using pads_fit[OF z(2), of q] assms(2) by (simp add: bounded_def)
  then show ?thesis
    using assms(2) z(1) flushPage_inv(2)[OF w, of True] counted_flush[OF w, of True]
    by (auto simp: bounded_def same_frame_def)
qed

lemma nextSegment_bounded:
  assumes "holds w recs" "bounded w"
  shows "bounded (nextSegment w)"
proof -
  define v where "v = (if alloc (wpage w) > 0 then flushPage True w else w)"
  have v: "holds v recs" "bounded v" "settled v"
    using holds_flush[OF assms(1)] flush_bounded[OF assms] assms
    by (auto simp: v_def holds_def page_inv_def settled_def)
  have "numbered (wdir v) (segment v)" using v(1) by (simp add: holds_def)
  then have "butlast (wdir (nextSegment w)) = wdir v" "segmentSize (nextSegment w) = segmentSize v"
    using numbered_next(1) by (simp_all add: nextSegment_def v_def Let_def)
  then show ?thesis
    using holds_bounded_last[OF v(1,3,2)] nextSegment_holds[OF assms(1)] v(2)
    by (simp add: bounded_def counted_def)
qed

lemma log_bounded:
  assumes "holds w recs" "bounded w" "fits (segmentSize w) rec"
  shows "bounded (log rec final w)"
proof (cases "int (length rec) > page_remaining (wpage w) - int recordHeaderSize +
      (int pageSize - int recordHeaderSize) * (int (pagesPerSegment w) - donePages w - 1)")
  case False
  then have "bounded (log_loop 0 rec final w)"
    using log_loop_bounded[OF assms(1,2), of rec final] assms(3) by (simp add: fits_def page_remaining_def recordHeaderSize_def)
  then show ?thesis using False by (simp add: log_def Let_def)
next
  case True
  note nx = nextSegment_holds[OF assms(1)]
  have "segmentSize w div pageSize \<noteq> 0" using assms(3) unfolding fits_def by (metis mult_0_right not_less)
  then obtain m where m: "pagesPerSegment (nextSegment w) = Suc m" "segmentSize w div pageSize = Suc m"
    using nx(5) by (metis not0_implies_Suc pagesPerSegment_def)
  have "bounded (log_loop 0 rec final (nextSegment w))"
  proof (rule log_loop_bounded[OF nx(1) nextSegment_bounded[OF assms(1,2)]])
    show "0 < length rec" using assms(3) by (simp add: fits_def)
    have "int (length rec) \<le> int ((pageSize - 7) * Suc m)" using assms(3) m(2) by (simp add: fits_def del: of_nat_mult of_nat_Suc)
    also have "\<dots> = (int pageSize - 7) * (int m + 1)" using page_facts(2) by (simp add: of_nat_diff distrib_left)
    finally show "int (length rec) \<le> int pageSize - int (alloc (wpage (nextSegment w))) - 7 +
        (int pageSize - 7) * (int (pagesPerSegment (nextSegment w)) - donePages (nextSegment w) - 1)"
      using nx(4,6) m(1) by (simp add: algebra_simps)
  qed
  then show ?thesis using True by (simp add: log_def Let_def)
qed

lemma segmentSize_log: "holds w recs \<Longrightarrow> segmentSize (log rec final w) = segmentSize w"
proof -
  assume w: "holds w recs"
  have "segmentSize (log_loop 0 rec final v) = segmentSize v" if "holds v recs" for v
    using log_loop_inv[of v 0 rec final] that by (auto simp: holds_def same_frame_def)
  then show ?thesis using w nextSegment_holds[OF w] by (simp add: log_def Let_def)
qed

lemma Log_bounded:
  "holds w recs \<Longrightarrow> bounded w \<Longrightarrow> \<forall>r\<in>set rs. fits (segmentSize w) r \<Longrightarrow>
     bounded (Log rs w) \<and> segmentSize (Log rs w) = segmentSize w"
proof (induction rs arbitrary: w recs)
  case (Cons r rs)
  note l = log_holds(1)[OF Cons.prems(1), of r "rs = []"] log_bounded[OF Cons.prems(1,2), of r "rs = []"]
    segmentSize_log[OF Cons.prems(1), of r "rs = []"]
  show ?case using Cons.IH[OF l(1)] l Cons.prems(3) by simp
qed simp

lemma NewSize_bounded:
  assumes "dir_holds d recs" "sz mod pageSize = 0" "\<forall>(k, c)\<in>set d. length c \<le> sz" "NewSize d sz = Ok w"
  shows "bounded w" "segmentSize w = sz"
proof -
  obtain z where w: "page_inv w" "segmentSize w = sz" "butlast (wdir w) = butlast d" "alloc (wpage w) = 0"
    "donePages w = int (length (active w) div pageSize)" "active w = snd (last d) @ z" "pads (length (snd (last d))) z"
    using NewSize_reopen[OF assms(1,2)] assms(4) by (auto simp: holds_def)
  obtain q where q: "sz = q * pageSize" using page_multiple[OF assms(2)] .
  have "last d \<in> set d" using assms(1) by (simp add: dir_holds_def)
  then have "length (snd (last d)) \<le> q * pageSize" using assms(3) q by (auto simp: case_prod_beta)
  from pads_fit[OF w(7) this] have "length (active w) \<le> sz" using w(6) q by simp
  moreover have "length (active w) = length (active w) div pageSize * pageSize"
    using w(1,4) by (metis add.right_neutral div_mult_mod_eq mod_0 page_inv_def)
  then have "counted w" using w(4,5) by (simp add: counted_def flip: of_nat_mult)
  ultimately show "bounded w" "segmentSize w = sz"
    using w(2,3) assms(2,3) by (auto simp: bounded_def dest: in_set_butlastD)
qed

lemma wal_run_bounded:
  "holds w recs \<Longrightarrow> settled w \<Longrightarrow> bounded w \<Longrightarrow> segmentSize w = sz \<Longrightarrow> sz mod pageSize = 0 \<Longrightarrow>
   \<forall>r\<in>set (logged ops). fits sz r \<Longrightarrow> wal_run sz ops w = Ok w' \<Longrightarrow>
   bounded w' \<and> settled w' \<and> holds w' (recs @ logged ops) \<and> segmentSize w' = sz"
proof (induction ops arbitrary: w recs)
  case (Cons op ops)
  have reopen: "bounded v" "segmentSize v = sz" "holds v recs" "settled v"
    if u: "holds u recs" "settled u" "bounded u" "segmentSize u = sz" and v: "NewSize (wdir u) sz = Ok v" for u v
    using NewSize_bounded[OF holds_dir[OF u(1,2)] Cons.prems(5) _ v] holds_bounded_last[OF u(1,2,3)] u(4)
      NewSize_reopen[OF holds_dir[OF u(1,2)] Cons.prems(5)] v by auto
  show ?case
  proof (cases op)
    case (Log_op rs)
    then have "\<forall>r\<in>set rs. fits (segmentSize w) r" using Cons.prems(4,6) by auto
    note l = Log_bounded[OF Cons.prems(1,3) this] Log_holds[OF Cons.prems(1), of rs]
    then show ?thesis using Cons.IH[of "Log rs w" "recs @ rs"] Cons.prems Log_op by auto
  next
    case Close_op
    note cl = Close_holds[OF Cons.prems(1)]
    have "bounded (WAL_Close w)" "segmentSize (WAL_Close w) = sz"
      using Cons.prems(3,4) flush_bounded[OF Cons.prems(1,3)] flushPage_inv(2)[of w True] Cons.prems(1)
      by (auto simp: WAL_Close_def same_frame_def holds_def)
    note re = reopen[OF cl(1,2) this]
    obtain v where v: "NewSize (wdir (WAL_Close w)) sz = Ok v" "wal_run sz ops v = Ok w'"
      using Cons.prems(7) Close_op by (cases "NewSize (wdir (WAL_Close w)) sz") auto
    then show ?thesis using Cons.IH[of v recs] re[OF v(1)] Cons.prems(5,6) Close_op by auto
  next
    case Crash_op
    obtain v where v: "NewSize (wdir w) sz = Ok v" "wal_run sz ops v = Ok w'"
      using Cons.prems(7) Crash_op by (cases "NewSize (wdir w) sz") auto
    then show ?thesis using Cons.IH[of v recs] reopen[OF Cons.prems(1-4) v(1)] Cons.prems(5,6) Crash_op by auto
  qed
qed simp

section \<open>Properties\<close>

text \<open>
  Truncation: dropping the segments before \<open>i\<close> from a log removes a prefix of its records,
  all those of the dropped segments and no others, and what is left reads without an error. No
  record spans two segments.
\<close>

theorem wal_truncate_prefix:
  assumes "sz mod pageSize = 0" "NewSize [] sz = Ok w0" "wal_run sz ops w0 = Ok w"
    and "i \<le> segment w" "length (logged ops) < 2 ^ 31"
  shows "\<exists>w' old kept. Truncate i w = Ok w' \<and> logged ops = old @ kept \<and>
    (\<forall>k\<in>fst ` set (wdir w'). i \<le> k) \<and> wal_read (wdir w') = Some (kept, None)"
proof -
  have w0: "holds w0 []" "settled w0" "segment w0 = 0" using NewSize_fresh[OF assms(1)] assms(2) by auto
  have w: "holds w (logged ops)" "settled w" "segment w \<le> int (length (logged ops))"
    using wal_run_holds[OF w0(1,2) assms(1), of ops] assms(3) w0(3) by auto
  define d' where "d' = truncate_loop i (map fst (wdir w)) (wdir w)"
  have "numbered (wdir w) (segment w)" using w(1) by (simp add: holds_def)
  then have "Truncate i w = Ok (w\<lparr>wdir := d'\<rparr>)" by (simp add: Truncate_def listSegments_numbered d'_def)
  moreover obtain old kept where "logged ops = old @ kept" "dir_holds d' kept" "fst (last d') = segment w"
    "\<forall>k\<in>fst ` set d'. i \<le> k"
    using truncate_holds[OF holds_dir[OF w(1,2)], of i] last_segment[OF w(1)] assms(4) unfolding d'_def by auto
  moreover have "segment w < 2 ^ 31" using w(3) assms(5) by simp
  ultimately show ?thesis using wal_read_holds[of d' kept] by (intro exI[of _ "w\<lparr>wdir := d'\<rparr>"]) auto
qed

theorem wal_truncate_prefix_witness:
  "\<exists>w0 w w' old kept. NewSize [] pageSize = Ok w0 \<and> wal_run pageSize [Log_op [[1], [2]]] w0 = Ok w \<and>
     Truncate 0 w = Ok w' \<and> [[1], [2]] = old @ kept \<and> wal_read (wdir w') = Some (kept, None)"
proof -
  have sz: "pageSize mod pageSize = 0" by simp
  obtain w0 where w0: "NewSize [] pageSize = Ok w0" "holds w0 []" "settled w0" using NewSize_fresh[OF sz] by blast
  obtain w where w: "wal_run pageSize [Log_op [[1], [2]]] w0 = Ok w" "holds w [[1], [2]]"
    using wal_run_holds[OF w0(2,3) sz, of "[Log_op [[1], [2]]]"] by auto
  have "0 \<le> segment w" using w(2) by (auto simp: holds_def numbered_def)
  from wal_truncate_prefix[OF sz w0(1) w(1) this] show ?thesis using w0(1) w(1) by force
qed

text \<open>
  C18. Repair: in a directory with whole segments before the damaged one, the repair of a
  corruption reported in it keeps exactly the records before the damage: it succeeds, reading
  afterwards delivers these records and ends without an error, and the segments behind are gone.
\<close>

theorem Repair_keeps_prefix:
  assumes "wdir w = d0 @ (k, good @ bad) # d1" "numbered (wdir w) (segment w)" "wpage w = new_page"
    and "closed_segments d0 rss" "stream 0 good rs" "stops_at (length good) bad" "k + int (length rs) < 2 ^ 31"
  shows "\<exists>w'. Repair (Some \<lparr>ce_Segment = k, ce_Offset = pos, ce_Err = e\<rparr>) w = Some (Ok w') \<and>
    wal_read (wdir w') = Some (concat rss @ rs, None)"
proof -
  obtain w' where w': "Repair (Some \<lparr>ce_Segment = k, ce_Offset = pos, ce_Err = e\<rparr>) w = Some (Ok w')"
    "holds w' (concat rss @ rs)" "settled w'" "segment w' \<le> k + int (length rs)"
    using Repair_holds[OF assms(1,2,4,5,6,3)] by blast
  then have "fst (last (wdir w')) < 2 ^ 31" using last_segment[OF w'(2)] assms(7) by simp
  then show ?thesis using w'(1) wal_read_holds[OF holds_dir[OF w'(2,3)]] by blast
qed

theorem Repair_keeps_prefix_witness:
  "\<exists>w'. Repair (Some \<lparr>ce_Segment = 0, ce_Offset = 13, ce_Err = ErrUnexpectedEOF\<rparr>)
      \<lparr>wdir = [(0, frag_bytes recFull [7] @ [1, 0]), (1, [9])], segmentSize = pageSize, segment = 1, donePages = 0, wpage = new_page\<rparr>
      = Some (Ok w') \<and> wal_read (wdir w') = Some ([[7]], None)"
proof -
  have "frags 0 0 [7] (frag_bytes (if (0 :: nat) = 0 then recFull else recLast) [7])"
    by (rule frags.final) (simp add: pageSize_def)
  from stream.rec[OF this stream.empty] have good: "stream 0 (frag_bytes recFull [7]) [[7]]" by simp
  have "stops_at (length (frag_bytes recFull [7])) [1, 0]"
    by (simp add: stops_at_def next_loop.simps read_turn_def read_body_def file_ReadFull_def recordHeaderSize_def)
  moreover have "numbered [(0, frag_bytes recFull [7] @ [1, 0]), (1, [9])] 1"
    unfolding numbered_def by (rule exI[of _ 0]) (simp add: upto_rec1)
  ultimately show ?thesis
    using Repair_keeps_prefix[of "\<lparr>wdir = [(0, frag_bytes recFull [7] @ [1, 0]), (1, [9])], segmentSize = pageSize,
        segment = 1, donePages = 0, wpage = new_page\<rparr>" "[]" 0 "frag_bytes recFull [7]" "[1, 0]" "[(1, [9])]" "[]" "[[7]]"] good
    by (simp add: closed_segments_def)
qed

text \<open>
  The segment size is a bound: if no record is empty and each fits the pages of one segment,
  no segment file ever grows beyond the segment size, over any life of the log.
\<close>

theorem wal_segments_bounded:
  assumes "sz mod pageSize = 0" "NewSize [] sz = Ok w0" "wal_run sz ops w0 = Ok w"
    and "\<forall>r\<in>set (logged ops). 0 < length r \<and> length r \<le> (pageSize - recordHeaderSize) * (sz div pageSize)"
  shows "\<forall>(k, c)\<in>set (wdir w). length c \<le> sz"
proof -
  have w0: "holds w0 []" "settled w0" "segmentSize w0 = sz" using NewSize_fresh[OF assms(1)] assms(2) by auto
  have "w0 = \<lparr>wdir = [(0, [])], segmentSize = sz, segment = 0, donePages = 0, wpage = new_page\<rparr>"
    using assms(1,2) by (simp add: NewSize_def Segments_def CreateSegment_def listSegments_def ReadDir_def)
  then have "bounded w0" using assms(1) by (simp add: bounded_def counted_def active_def new_page_def)
  moreover have "\<forall>r\<in>set (logged ops). fits sz r" using assms(4) by (simp add: fits_def recordHeaderSize_def)
  ultimately have "bounded w \<and> settled w \<and> holds w (logged ops) \<and> segmentSize w = sz"
    using wal_run_bounded[OF w0(1,2) _ w0(3) assms(1) _ assms(3)] by simp
  then show ?thesis using holds_bounded_last by blast
qed

theorem wal_segments_bounded_witness:
  "\<exists>w0 w. NewSize [] pageSize = Ok w0 \<and> wal_run pageSize [Log_op [[1], [2]]] w0 = Ok w \<and>
     list_all (\<lambda>kc. length (snd kc) \<le> pageSize) (wdir w)"
proof -
  have sz: "pageSize mod pageSize = 0" by simp
  obtain w0 where w0: "NewSize [] pageSize = Ok w0" "holds w0 []" "settled w0" using NewSize_fresh[OF sz] by blast
  obtain w where w: "wal_run pageSize [Log_op [[1], [2]]] w0 = Ok w"
    using wal_run_holds[OF w0(2,3) sz, of "[Log_op [[1], [2]]]"] by auto
  have "Suc 0 \<le> pageSize - recordHeaderSize" by (simp add: pageSize_def recordHeaderSize_def)
  then have "\<forall>(k, c)\<in>set (wdir w). length c \<le> pageSize"
    using wal_segments_bounded[OF sz w0(1) w] page_facts(4) by simp
  then show ?thesis using w0(1) w by (auto simp: list_all_iff)
qed

text \<open>
  C31. A torn record is not noticed: when the last segment ends after the first fragment of a
  record, the reader delivers the records before it and ends without an error.
\<close>

theorem torn_record_unnoticed:
  assumes "dir_holds d recs" "fst (last d) < 2 ^ 31" "length part \<le> pageSize - recordHeaderSize"
  shows "wal_read (butlast d @ [(fst (last d), snd (last d) @ frag_bytes recFirst part)]) = Some (recs, None)"
proof -
  let ?d = "butlast d @ [(fst (last d), snd (last d) @ frag_bytes recFirst part)]"
  have d: "d \<noteq> []" "numbered d (fst (last d))" using assms(1) by (auto simp: dir_holds_def)
  have "map fst ?d = map fst d" using map_fst_last[OF d(1)] by simp
  then have num: "numbered ?d (fst (last d))" using d(2) by (simp add: numbered_def)
  have "concat (map snd d) = concat (map snd (butlast d @ [last d]))" using d(1) by simp
  then have eq: "concat (map snd ?d) = concat (map snd d) @ frag_bytes recFirst part" by simp
  have at: "segments_source.at_stream (NewReader (newSegmentBufReader ?d)) (concat (map snd d) @ frag_bytes recFirst part) 0"
    unfolding eq[symmetric] by (rule at_new_reader)
  have "length part \<le> pageSize - 7" using assms(3) by (simp add: recordHeaderSize_def)
  from segments_source.read_all_torn[OF dir_stream[OF assms(1)] this at, of "\<lambda>rec recs. recs @ [rec]" "[]"]
  obtain r' where "read_all segments_ReadFull (\<lambda>rec recs. recs @ [rec]) [] (NewReader (newSegmentBufReader ?d)) = Some (recs, r')"
    "rerr r' = None" by (auto simp: fold_snoc NewReader_def)
  then show ?thesis using wal_read_end[OF num assms(2)] by blast
qed

theorem torn_record_unnoticed_witness:
  "wal_read [(0, frag_bytes recFirst [5])] = Some ([], None)"
proof -
  have "numbered [(0, [])] 0" unfolding numbered_def by (rule exI[of _ 0]) simp
  then have "dir_holds [(0, [])] []"
    by (auto simp: dir_holds_def closed_segments_def intro!: exI[of _ "[]"] stream.empty)
  from torn_record_unnoticed[OF this, of "[5]"] show ?thesis by (simp add: pageSize_def recordHeaderSize_def)
qed

end
