(* ===== verification/MemSeries.thy ===== *)
theory MemSeries
  imports Xor Labels Tombstones
begin

text \<open>
  The in-memory series of \<^verbatim>\<open>head.go\<close>: its chunks, how a sample is appended and when a new chunk
  is cut, truncation, and the iterator that serves the last four samples from a buffer. Timestamps
  are integers with \<^verbatim>\<open>int64\<close> wrap-around written out. The appender of a series shares the bit
  stream of the chunk it was made for, which is always the last one while there is a chunk, so
  writing through it also updates that chunk.
\<close>

section \<open>Time ranges\<close>

definition rangeForTimestamp :: "int \<Rightarrow> int \<Rightarrow> (int \<times> int) outcome" where
  "rangeForTimestamp t width =
     (if width = 0 then Panic
      else let mint = i64 (i64 (go_div t width) * width) in Ok (mint, i64 (mint + width)))"

definition clampInterval :: "int \<Rightarrow> int \<Rightarrow> int \<Rightarrow> int \<Rightarrow> int \<times> int" where
  "clampInterval a b mint maxt =
     (let a = (if a < mint then mint else a); b = (if b > maxt then maxt else b) in (a, b))"

definition computeChunkEndTime :: "int \<Rightarrow> int \<Rightarrow> int \<Rightarrow> int outcome" where
  "computeChunkEndTime start cur mx =
     (let d = i64 (i64 (i64 (cur - start) + 1) * 4) in
      if d = 0 then Panic
      else
        let a = i64 (go_div (i64 (mx - start)) d) in
        if a = 0 then Ok mx else Ok (i64 (start + i64 (go_div (i64 (mx - start)) a))))"

section \<open>Series and chunks\<close>

record memChunk =
  mc_chunk :: XORChunk
  mc_minTime :: int
  mc_maxTime :: int

definition OverlapsClosedInterval :: "memChunk \<Rightarrow> int \<Rightarrow> int \<Rightarrow> bool" where
  "OverlapsClosedInterval mc mint maxt \<longleftrightarrow> mc_minTime mc \<le> maxt \<and> mint \<le> mc_maxTime mc"

type_synonym sample = "int \<times> f64"

record memSeries =
  ms_ref :: u64
  ms_lset :: Labels
  ms_chunks :: "memChunk list"
  ms_chunkRange :: int
  firstChunkID :: int
  nextAt :: int
  lastValue :: f64
  sampleBuf :: "sample list"
  pendingCommit :: bool
  ms_app :: "xorAppender option"

definition newMemSeries :: "Labels \<Rightarrow> u64 \<Rightarrow> int \<Rightarrow> memSeries" where
  "newMemSeries lset ref chunkRange =
     \<lparr>ms_ref = ref, ms_lset = lset, ms_chunks = [], ms_chunkRange = chunkRange, firstChunkID = 0,
      nextAt = MinInt64, lastValue = 0, sampleBuf = replicate 4 (0, 0), pendingCommit = False, ms_app = None\<rparr>"

definition memSeries_head :: "memSeries \<Rightarrow> memChunk option" where
  "memSeries_head s =
     (if length (ms_chunks s) = 0 then None else Some (ms_chunks s ! (length (ms_chunks s) - 1)))"

definition memSeries_minTime :: "memSeries \<Rightarrow> int" where
  "memSeries_minTime s = (if length (ms_chunks s) = 0 then MinInt64 else mc_minTime (ms_chunks s ! 0))"

definition memSeries_maxTime :: "memSeries \<Rightarrow> int" where
  "memSeries_maxTime s = (case memSeries_head s of None \<Rightarrow> MinInt64 | Some c \<Rightarrow> mc_maxTime c)"

definition cut :: "int \<Rightarrow> memSeries \<Rightarrow> (memChunk \<times> memSeries) outcome" where
  "cut mint s =
     (let c = \<lparr>mc_chunk = NewXORChunk, mc_minTime = mint, mc_maxTime = MinInt64\<rparr>;
          s = s\<lparr>ms_chunks := ms_chunks s @ [c]\<rparr>
      in bind_outcome (rangeForTimestamp mint (ms_chunkRange s)) (\<lambda>(_, nextAt').
           let s = s\<lparr>nextAt := nextAt'\<rparr> in
           case Appender (mc_chunk c) of
             Ok app \<Rightarrow> Ok (c, s\<lparr>ms_app := Some app\<rparr>)
           | _ \<Rightarrow> Panic))"

definition appendable :: "int \<Rightarrow> f64 \<Rightarrow> memSeries \<Rightarrow> go_error option" where
  "appendable t v s =
     (case memSeries_head s of
        None \<Rightarrow> None
      | Some c \<Rightarrow>
          if t > mc_maxTime c then None
          else if t < mc_maxTime c then Some ErrOutOfOrderSample
          else if lastValue s \<noteq> v then Some ErrAmendSample
          else None)"

definition memSeries_chunk :: "memSeries \<Rightarrow> int \<Rightarrow> memChunk option" where
  "memSeries_chunk s k =
     (let ix = k - firstChunkID s in
      if ix < 0 \<or> ix \<ge> int (length (ms_chunks s)) then None else Some (ms_chunks s ! nat ix))"

definition chunkID :: "memSeries \<Rightarrow> int \<Rightarrow> int" where
  "chunkID s pos = pos + firstChunkID s"

fun truncate_count :: "int \<Rightarrow> memChunk list \<Rightarrow> nat" where
  "truncate_count mint [] = 0"
| "truncate_count mint (c # cs) = (if mc_maxTime c \<ge> mint then 0 else Suc (truncate_count mint cs))"

definition truncateChunksBefore :: "int \<Rightarrow> memSeries \<Rightarrow> nat \<times> memSeries" where
  "truncateChunksBefore mint s =
     (let k = truncate_count mint (ms_chunks s)
      in (k, s\<lparr>ms_chunks := drop k (ms_chunks s), firstChunkID := firstChunkID s + int k\<rparr>))"

definition samplesPerChunk :: nat where "samplesPerChunk = 120"

text \<open>The last part of \<open>append\<close>: write the sample through the appender, into the last chunk.\<close>

definition store_sample :: "int \<Rightarrow> f64 \<Rightarrow> memSeries \<Rightarrow> memSeries outcome" where
  "store_sample t v s =
     (case ms_app s of
        None \<Rightarrow> Panic
      | Some app \<Rightarrow>
          bind_outcome (Append (word_of_int t) v app) (\<lambda>app.
            let i = length (ms_chunks s) - 1;
                c = (ms_chunks s ! i)\<lparr>mc_chunk := app_chunk app, mc_maxTime := t\<rparr>
            in Ok (s\<lparr>ms_app := Some app, ms_chunks := (ms_chunks s)[i := c], lastValue := v,
                     sampleBuf := [sampleBuf s ! 1, sampleBuf s ! 2, sampleBuf s ! 3, (t, v)]\<rparr>)))"

definition memSeries_append :: "int \<Rightarrow> f64 \<Rightarrow> memSeries \<Rightarrow> ((bool \<times> bool) \<times> memSeries) outcome" where
  "memSeries_append t v s =
     bind_outcome
       (case memSeries_head s of
          None \<Rightarrow> bind_outcome (cut t s) (\<lambda>(c, s). Ok (c, True, s))
        | Some c \<Rightarrow> Ok (c, False, s))
       (\<lambda>(c, chunkCreated, s).
     bind_outcome (NumSamples (mc_chunk c)) (\<lambda>numSamples.
       if mc_maxTime c \<ge> t then Ok ((False, chunkCreated), s)
       else
         bind_outcome
           (if unat numSamples = samplesPerChunk div 4 then
              bind_outcome (computeChunkEndTime (mc_minTime c) (mc_maxTime c) (nextAt s)) (\<lambda>n. Ok (s\<lparr>nextAt := n\<rparr>))
            else Ok s)
           (\<lambda>s.
         bind_outcome
           (if t \<ge> nextAt s then bind_outcome (cut t s) (\<lambda>(c, s). Ok (True, s)) else Ok (chunkCreated, s))
           (\<lambda>(chunkCreated, s).
         bind_outcome (store_sample t v s) (\<lambda>s. Ok ((True, chunkCreated), s))))))"

section \<open>Reading a chunk of a series\<close>

record memSafeIterator =
  si_Iterator :: xorIterator
  si_i :: int
  si_total :: int
  si_buf :: "sample list"

text \<open>The iterators \<^verbatim>\<open>memSeries.iterator\<close> returns.\<close>

datatype memIterator = NopIterator | ChunkIterator xorIterator | SafeIterator memSafeIterator

definition memSafeIterator_Next :: "memSafeIterator \<Rightarrow> (bool \<times> memSafeIterator) outcome" where
  "memSafeIterator_Next it =
     (if si_i it + 1 \<ge> si_total it then Ok (False, it)
      else
        let it = it\<lparr>si_i := si_i it + 1\<rparr> in
        if si_total it - si_i it > 4 then
          bind_outcome (Next (si_Iterator it)) (\<lambda>(ok, x). Ok (ok, it\<lparr>si_Iterator := x\<rparr>))
        else Ok (True, it))"

definition memSafeIterator_At :: "memSafeIterator \<Rightarrow> sample outcome" where
  "memSafeIterator_At it =
     (if si_total it - si_i it > 4 then (case At (si_Iterator it) of (t, v) \<Rightarrow> Ok (sint t, v))
      else
        let k = 4 - (si_total it - si_i it) in
        if 0 \<le> k \<and> k < int (length (si_buf it)) then Ok (si_buf it ! nat k) else Panic)"

definition memSeries_iterator :: "memSeries \<Rightarrow> int \<Rightarrow> memIterator outcome" where
  "memSeries_iterator s k =
     (case memSeries_chunk s k of
        None \<Rightarrow> Ok NopIterator
      | Some c \<Rightarrow>
          if k - firstChunkID s < int (length (ms_chunks s)) - 1 then
            bind_outcome (iterator (mc_chunk c)) (\<lambda>it. Ok (ChunkIterator it))
          else
            bind_outcome (iterator (mc_chunk c)) (\<lambda>it.
            bind_outcome (NumSamples (mc_chunk c)) (\<lambda>n.
              Ok (SafeIterator \<lparr>si_Iterator = it, si_i = -1, si_total = int (unat n), si_buf = sampleBuf s\<rparr>))))"

fun memIterator_Next :: "memIterator \<Rightarrow> (bool \<times> memIterator) outcome" where
  "memIterator_Next NopIterator = Ok (False, NopIterator)"
| "memIterator_Next (ChunkIterator it) = bind_outcome (Next it) (\<lambda>(ok, it). Ok (ok, ChunkIterator it))"
| "memIterator_Next (SafeIterator it) = bind_outcome (memSafeIterator_Next it) (\<lambda>(ok, it). Ok (ok, SafeIterator it))"

fun memIterator_At :: "memIterator \<Rightarrow> sample outcome" where
  "memIterator_At NopIterator = Ok (0, 0)"
| "memIterator_At (ChunkIterator it) = (case At it of (t, v) \<Rightarrow> Ok (sint t, v))"
| "memIterator_At (SafeIterator it) = memSafeIterator_At it"

fun memIterator_Err :: "memIterator \<Rightarrow> go_error option" where
  "memIterator_Err NopIterator = None"
| "memIterator_Err (ChunkIterator it) = it_err it"
| "memIterator_Err (SafeIterator it) = it_err (si_Iterator it)"

text \<open>A client's loop \<^verbatim>\<open>for it.Next() { out = append(out, it.At()) }\<close> ends: every turn counts a sample.\<close>

fun samples_left :: "memIterator \<Rightarrow> nat" where
  "samples_left NopIterator = 0"
| "samples_left (ChunkIterator it) = unat (numTotal it - numRead it)"
| "samples_left (SafeIterator it) = nat (si_total it - si_i it)"

lemma memIterator_Next_decreases: "memIterator_Next it = Ok (True, it') \<Longrightarrow> samples_left it' < samples_left it"
  by (cases it) (auto simp: memSafeIterator_Next_def Let_def advanced_def dest!: Next_advanced
      simp: word_sub_decreases split: if_splits)

function drain :: "memIterator \<Rightarrow> (sample list \<times> memIterator) outcome" where
  "drain it =
     (case memIterator_Next it of
        Ok (True, it') \<Rightarrow>
          bind_outcome (memIterator_At it') (\<lambda>x.
          bind_outcome (drain it') (\<lambda>(xs, it''). Ok (x # xs, it'')))
      | Ok (False, it') \<Rightarrow> Ok ([], it')
      | Fail e \<Rightarrow> Fail e
      | Panic \<Rightarrow> Panic)"
  by pat_completeness auto
termination by (relation "measure samples_left") (auto dest: memIterator_Next_decreases)

declare drain.simps [simp del]

section \<open>Arithmetic of ranges\<close>

lemma bind_outcome_assoc: "bind_outcome (bind_outcome m f) g = bind_outcome m (\<lambda>x. bind_outcome (f x) g)"
  by (cases m) simp_all

text \<open>Timestamps and ranges far enough from the limits of \<^verbatim>\<open>int64\<close> that no step wraps.\<close>

definition time_ok :: "int \<Rightarrow> bool" where
  "time_ok t \<longleftrightarrow> - (2 ^ 60) \<le> t \<and> t \<le> 2 ^ 60"

definition width_ok :: "int \<Rightarrow> bool" where
  "width_ok w \<longleftrightarrow> 0 < w \<and> w \<le> 2 ^ 58"

text \<open>The end of the range of width \<open>w\<close> that \<open>t\<close> falls into; below zero the ranges are rounded up.\<close>

definition range_end :: "int \<Rightarrow> int \<Rightarrow> int" where
  "range_end w t = go_div t w * w + w"

lemma time_ok_i64 [simp]: "time_ok t \<Longrightarrow> in_i64 t" "time_ok t \<Longrightarrow> MinInt64 < t"
  by (auto simp: time_ok_def in_i64_def)

lemma go_div_bounds:
  assumes "0 < w"
  shows "t - w < go_div t w * w" "go_div t w * w < t + w"
proof -
  have "t - w < go_div t w * w \<and> go_div t w * w < t + w"
  proof (cases "0 \<le> t")
    case True
    with assms have "go_div t w * w = t - t mod w" by (simp add: minus_mod_eq_div_mult)
    moreover have "0 \<le> t mod w" "t mod w < w" using assms by simp_all
    ultimately show ?thesis using assms by linarith
  next
    case False
    then have eq: "go_div t w * w = - ((- t) div w * w)" using assms by (simp add: go_div_neg)
    have "(- t) div w * w = - t - (- t) mod w" by (simp add: minus_mod_eq_div_mult)
    moreover have "0 \<le> (- t) mod w" "(- t) mod w < w" using assms by simp_all
    ultimately show ?thesis unfolding eq using assms by linarith
  qed
  then show "t - w < go_div t w * w" "go_div t w * w < t + w" by simp_all
qed

lemma range_end_bounds:
  assumes "0 < w"
  shows "t < range_end w t" "range_end w t < t + 2 * w"
  using go_div_bounds [OF assms, of t] by (simp_all add: range_end_def)

lemma int_div_le: "0 \<le> (a :: int) \<Longrightarrow> 0 < b \<Longrightarrow> a div b \<le> a"
  using zdiv_mono2 [of a 1 b] by simp

lemma go_div_abs: "\<bar>go_div a b\<bar> \<le> \<bar>a\<bar>"
proof -
  have "0 \<le> \<bar>a\<bar> div \<bar>b\<bar>" by (cases "b = 0") (simp_all add: pos_imp_zdiv_nonneg_iff)
  then have "\<bar>go_div a b\<bar> \<le> \<bar>a\<bar> div \<bar>b\<bar>" by (auto simp: go_div_def abs_mult sgn_if)
  also have "\<dots> \<le> \<bar>a\<bar>" by (cases "b = 0") (simp_all add: int_div_le)
  finally show ?thesis .
qed

lemma rangeForTimestamp_ok:
  assumes "time_ok t" "width_ok w"
  shows "rangeForTimestamp t w = Ok (go_div t w * w, range_end w t)"
proof -
  have w: "0 < w" "w \<le> 2 ^ 58" using assms by (simp_all add: width_ok_def)
  have b: "t - w < go_div t w * w" "go_div t w * w < t + w" using go_div_bounds [OF w(1)] by simp_all
  have "in_i64 (go_div t w)" using go_div_abs [of t w] assms(1) by (auto simp: in_i64_def time_ok_def)
  moreover have "in_i64 (go_div t w * w)" "in_i64 (go_div t w * w + w)"
    using b w assms(1) unfolding in_i64_def time_ok_def by simp_all
  ultimately show ?thesis using w by (simp add: rangeForTimestamp_def range_end_def Let_def)
qed

lemma computeChunkEndTime_ok:
  assumes "time_ok start" "time_ok cur" "start \<le> cur" "cur < mx" "mx \<le> start + 2 ^ 59"
  shows "\<exists>n. computeChunkEndTime start cur mx = Ok n \<and> cur < n \<and> n \<le> mx"
proof -
  let ?d = "(cur - start + 1) * 4" and ?r = "mx - start"
  have st: "- (2 ^ 60) \<le> start" "start \<le> 2 ^ 60" using assms(1) by (simp_all add: time_ok_def)
  have d: "0 < ?d" "in_i64 (cur - start)" "in_i64 (cur - start + 1)" "in_i64 ?d" and r: "0 < ?r" "in_i64 ?r"
    using assms(3-5) by (simp_all add: in_i64_def)
  have a0: "0 \<le> ?r div ?d" "?r div ?d \<le> ?r" using d(1) r(1) by (simp_all add: pos_imp_zdiv_nonneg_iff int_div_le)
  then have a: "in_i64 (?r div ?d)" using assms(5) by (simp add: in_i64_def)
  show ?thesis
  proof (cases "?r div ?d = 0")
    case True
    then show ?thesis using d r a assms(4) by (simp add: computeChunkEndTime_def Let_def)
  next
    case False
    let ?a = "?r div ?d"
    have pos: "0 < ?a" using a0 False by simp
    have "?a * ?d \<le> ?r" using d(1) pos_mod_sign [of ?d ?r] by (simp add: div_mult_mod_eq minus_mod_eq_div_mult [symmetric] del: pos_mod_sign)
    then have lower: "?d \<le> ?r div ?a" using pos zdiv_mono1 [of "?a * ?d" ?r ?a] by simp
    have upper: "?r div ?a \<le> ?r" "0 \<le> ?r div ?a" using pos r by (simp_all add: int_div_le pos_imp_zdiv_nonneg_iff)
    have "in_i64 (?r div ?a)" using upper assms(5) by (simp add: in_i64_def)
    moreover have "in_i64 (start + ?r div ?a)" using upper assms(5) st by (simp add: in_i64_def)
    ultimately have "computeChunkEndTime start cur mx = Ok (start + ?r div ?a)"
      using d r a pos False by (simp add: computeChunkEndTime_def Let_def)
    then show ?thesis using lower upper assms(3) by auto
  qed
qed

section \<open>What a series holds\<close>

definition enc_samples :: "sample list \<Rightarrow> (u64 \<times> f64) list" where
  "enc_samples xs = map (\<lambda>(t, v). (word_of_int t, v)) xs"

lemma enc_samples_simps [simp]:
  "enc_samples [] = []" "enc_samples (xs @ ys) = enc_samples xs @ enc_samples ys"
  "enc_samples [(t, v)] = [(word_of_int t, v)]" "length (enc_samples xs) = length xs"
  by (simp_all add: enc_samples_def)

definition chunk_rep :: "memChunk \<Rightarrow> sample list \<Rightarrow> bool" where
  "chunk_rep c xs \<longleftrightarrow> xs \<noteq> [] \<and> length xs < 65536 \<and> mc_minTime c = fst (hd xs) \<and> mc_maxTime c = fst (last xs)
     \<and> (\<exists>a. AppendAll (enc_samples xs) new_appender = Ok a \<and> mc_chunk c = app_chunk a)"

text \<open>The buffer holds the last four samples of the open chunk, or all of them behind older ones.\<close>

definition buf_rep :: "sample list \<Rightarrow> sample list \<Rightarrow> bool" where
  "buf_rep buf xs \<longleftrightarrow> length buf = 4 \<and> drop (4 - length xs) buf = drop (length xs - 4) xs"

definition increasing :: "sample list \<Rightarrow> bool" where
  "increasing xs \<longleftrightarrow> sorted_wrt (<) (map fst xs) \<and> list_all (time_ok \<circ> fst) xs"

text \<open>
  \<open>open_rep s xs\<close>: the appender, the buffer and the last value belong to the open chunk, which
  holds \<open>xs\<close>; \<open>series_rep s css\<close>: the chunks of \<open>s\<close> hold the non-empty sample lists \<open>css\<close>.
\<close>

definition open_rep :: "memSeries \<Rightarrow> sample list \<Rightarrow> bool" where
  "open_rep s xs \<longleftrightarrow> buf_rep (sampleBuf s) xs \<and> (\<exists>a. ms_app s = Some a \<and> AppendAll (enc_samples xs) new_appender = Ok a)
     \<and> (xs \<noteq> [] \<longrightarrow> lastValue s = snd (last xs))"

definition series_rep :: "memSeries \<Rightarrow> sample list list \<Rightarrow> bool" where
  "series_rep s css \<longleftrightarrow> list_all2 chunk_rep (ms_chunks s) css \<and> increasing (concat css) \<and> length (sampleBuf s) = 4
     \<and> (css \<noteq> [] \<longrightarrow> open_rep s (last css))"

text \<open>No chunk crosses the end of the range its first sample is in, and the cut time keeps it so.\<close>

definition series_range :: "memSeries \<Rightarrow> bool" where
  "series_range s \<longleftrightarrow> width_ok (ms_chunkRange s)
     \<and> list_all (\<lambda>c. mc_maxTime c < range_end (ms_chunkRange s) (mc_minTime c)) (ms_chunks s)
     \<and> (ms_chunks s \<noteq> [] \<longrightarrow> mc_maxTime (last (ms_chunks s)) < nextAt s
          \<and> nextAt s \<le> range_end (ms_chunkRange s) (mc_minTime (last (ms_chunks s))))"

lemma chunk_rep_NumSamples: "chunk_rep c xs \<Longrightarrow> NumSamples (mc_chunk c) = Ok (of_nat (length xs))"
  using new_chunk_delivers [of "enc_samples xs"] by (auto simp: chunk_rep_def)

lemma cut_ok:
  assumes "time_ok t" "width_ok (ms_chunkRange s)"
  defines "c \<equiv> \<lparr>mc_chunk = NewXORChunk, mc_minTime = t, mc_maxTime = MinInt64\<rparr>"
  shows "cut t s = Ok (c, s\<lparr>ms_chunks := ms_chunks s @ [c], nextAt := range_end (ms_chunkRange s) t, ms_app := Some new_appender\<rparr>)"
  using rangeForTimestamp_ok [OF assms(1,2)] by (simp add: cut_def c_def Let_def Appender_new)

lemma buf_rep_push:
  assumes "buf_rep buf xs"
  shows "buf_rep [buf ! 1, buf ! 2, buf ! 3, y] (xs @ [y])"
proof -
  have len: "length buf = 4" and eq: "drop (4 - length xs) buf = drop (length xs - 4) xs"
    using assms by (simp_all add: buf_rep_def)
  have push: "[buf ! 1, buf ! 2, buf ! 3, y] = drop 1 buf @ [y]"
    using len by (auto simp: numeral_eq_Suc length_Suc_conv)
  show ?thesis
  proof (cases "length xs < 4")
    case True
    then have "drop (3 - length xs) (drop 1 buf) = drop (4 - length xs) buf" by (simp add: Suc_diff_le [symmetric])
    with True len eq show ?thesis unfolding push by (simp add: buf_rep_def)
  next
    case False
    then have "drop (length xs - 3) xs = drop 1 (drop (length xs - 4) xs)" by (simp add: Suc_diff_le [symmetric])
    with False len eq show ?thesis unfolding push by (simp add: buf_rep_def)
  qed
qed

lemma buf_rep_empty: "length buf = 4 \<Longrightarrow> buf_rep buf []"
  by (simp add: buf_rep_def)

lemma increasing_append: "increasing (xs @ ys) \<longleftrightarrow> increasing xs \<and> increasing ys \<and> (\<forall>x \<in> set xs. \<forall>y \<in> set ys. fst x < fst y)"
  by (auto simp: increasing_def sorted_wrt_append)

lemma increasing_snoc:
  assumes "increasing xs" "time_ok t" "xs \<noteq> [] \<Longrightarrow> fst (last xs) < t"
  shows "increasing (xs @ [(t, v)])"
proof (cases xs rule: rev_cases)
  case (snoc ys y)
  with assms show ?thesis by (fastforce simp: increasing_def sorted_wrt_append)
qed (use assms in \<open>simp add: increasing_def\<close>)

lemma store_sample_ok:
  assumes "ms_chunks s = cs @ [c]" "open_rep s xs" "length xs < 65535"
    and "mc_minTime c = (if xs = [] then t else fst (hd xs))" "list_all2 chunk_rep cs css"
    and "increasing (concat css @ xs @ [(t, v)])"
  shows "\<exists>a c'. store_sample t v s = Ok (s\<lparr>ms_app := Some a, ms_chunks := cs @ [c'], lastValue := v,
      sampleBuf := [sampleBuf s ! 1, sampleBuf s ! 2, sampleBuf s ! 3, (t, v)]\<rparr>)
    \<and> mc_minTime c' = mc_minTime c \<and> mc_maxTime c' = t
    \<and> series_rep (s\<lparr>ms_app := Some a, ms_chunks := cs @ [c'], lastValue := v,
      sampleBuf := [sampleBuf s ! 1, sampleBuf s ! 2, sampleBuf s ! 3, (t, v)]\<rparr>) (css @ [xs @ [(t, v)]])"
proof -
  obtain a where a: "ms_app s = Some a" "AppendAll (enc_samples xs) new_appender = Ok a" and b: "buf_rep (sampleBuf s) xs"
    using assms(2) by (auto simp: open_rep_def)
  have "length (enc_samples (xs @ [(t, v)])) < 65536" using assms(3) by simp
  from new_chunk_delivers [OF this] a(2) obtain a' where
    a': "Append (word_of_int t) v a = Ok a'" "AppendAll (enc_samples (xs @ [(t, v)])) new_appender = Ok a'"
    by (auto simp: AppendAll_append)
  let ?c = "c\<lparr>mc_chunk := app_chunk a', mc_maxTime := t\<rparr>"
  have "chunk_rep ?c (xs @ [(t, v)])"
    using assms(3,4) a'(2) by (auto simp: chunk_rep_def)
  then show ?thesis using assms(1,5,6) a a' buf_rep_push [OF b, of "(t, v)"]
    by (intro exI [of _ a'] exI [of _ ?c])
      (auto simp: store_sample_def series_rep_def open_rep_def list_all2_appendI nth_append list_update_append buf_rep_def)
qed

text \<open>
  One append. A sample that is not newer than the last one is refused and nothing changes; any
  other is added at the end, in the open chunk or in a new one.
\<close>

definition series_grows :: "int \<Rightarrow> f64 \<Rightarrow> sample list list \<Rightarrow> sample list list \<Rightarrow> bool" where
  "series_grows t v css css' \<longleftrightarrow> css' = css @ [[(t, v)]] \<or> (css \<noteq> [] \<and> css' = butlast css @ [last css @ [(t, v)]])"

lemma series_grows_concat: "series_grows t v css css' \<Longrightarrow> concat css' = concat css @ [(t, v)]"
  by (cases css rule: rev_cases) (auto simp: series_grows_def)

text \<open>The fields of a series that no append touches.\<close>

definition same_series :: "memSeries \<Rightarrow> memSeries \<Rightarrow> bool" where
  "same_series s s' \<longleftrightarrow> ms_ref s' = ms_ref s \<and> ms_lset s' = ms_lset s \<and> ms_chunkRange s' = ms_chunkRange s
     \<and> firstChunkID s' = firstChunkID s \<and> pendingCommit s' = pendingCommit s"

definition cut_and_store :: "int \<Rightarrow> f64 \<Rightarrow> memSeries \<Rightarrow> memSeries outcome" where
  "cut_and_store t v s = bind_outcome (cut t s) (\<lambda>(c, s). store_sample t v s)"

lemma cut_and_store_ok:
  assumes "series_rep s css" "series_range s" "time_ok t" "css \<noteq> [] \<Longrightarrow> fst (last (concat css)) < t"
  shows "\<exists>s'. cut_and_store t v s = Ok s' \<and> series_rep s' (css @ [[(t, v)]]) \<and> series_range s' \<and> same_series s s'"
proof -
  let ?w = "ms_chunkRange s"
  have w: "width_ok ?w" using assms(2) by (simp add: series_range_def)
  let ?c = "\<lparr>mc_chunk = NewXORChunk, mc_minTime = t, mc_maxTime = MinInt64\<rparr>"
  let ?s = "s\<lparr>ms_chunks := ms_chunks s @ [?c], nextAt := range_end ?w t, ms_app := Some new_appender\<rparr>"
  have "open_rep ?s []" using assms(1) by (simp add: open_rep_def buf_rep_empty series_rep_def)
  moreover have "concat css \<noteq> [] \<Longrightarrow> css \<noteq> []" by auto
  then have "increasing (concat css @ [(t, v)])"
    using assms(1,3,4) by (intro increasing_snoc) (auto simp: series_rep_def)
  ultimately obtain a c' where c': "store_sample t v ?s = Ok (?s\<lparr>ms_app := Some a, ms_chunks := ms_chunks s @ [c'], lastValue := v,
      sampleBuf := [sampleBuf s ! 1, sampleBuf s ! 2, sampleBuf s ! 3, (t, v)]\<rparr>)" "mc_minTime c' = t" "mc_maxTime c' = t"
    "series_rep (?s\<lparr>ms_app := Some a, ms_chunks := ms_chunks s @ [c'], lastValue := v,
      sampleBuf := [sampleBuf s ! 1, sampleBuf s ! 2, sampleBuf s ! 3, (t, v)]\<rparr>) (css @ [[(t, v)]])"
    using store_sample_ok [of ?s "ms_chunks s" ?c "[]" t css v] assms(1) by (auto simp: series_rep_def)
  moreover have "t < range_end ?w t" using w range_end_bounds(1) by (simp add: width_ok_def)
  ultimately show ?thesis using assms(2) cut_ok [OF assms(3) w]
    by (auto simp: cut_and_store_def series_range_def same_series_def)
qed

lemma increasing_last: "increasing xs \<Longrightarrow> xs \<noteq> [] \<Longrightarrow> fst (hd xs) \<le> fst (last xs) \<and> time_ok (fst (hd xs)) \<and> time_ok (fst (last xs))"
  by (cases xs; cases xs rule: rev_cases) (auto simp: increasing_def sorted_wrt_append list_all_iff less_le)

lemma append_cut_time:
  assumes "chunk_rep c xs" "increasing xs" "mc_maxTime c < nx" "nx \<le> range_end w (mc_minTime c)" "width_ok w"
  shows "\<exists>nx'. (if b then computeChunkEndTime (mc_minTime c) (mc_maxTime c) nx else Ok nx) = Ok nx'
     \<and> mc_maxTime c < nx' \<and> nx' \<le> range_end w (mc_minTime c)"
proof -
  have x: "mc_minTime c \<le> mc_maxTime c" "time_ok (mc_minTime c)" "time_ok (mc_maxTime c)"
    using assms(1) increasing_last [OF assms(2)] by (simp_all add: chunk_rep_def)
  have "nx \<le> mc_minTime c + 2 ^ 59"
    using assms(4,5) range_end_bounds(2) [of w "mc_minTime c"] by (simp add: width_ok_def)
  from computeChunkEndTime_ok [OF x(2,3,1) assms(3) this] assms(3,4) show ?thesis by fastforce
qed

lemma append_to_open:
  assumes "series_rep s css" "series_range s" "css \<noteq> []" "time_ok t" "fst (last (last css)) < t" "t < nextAt s"
    "length (last css) < 65535"
  shows "\<exists>s'. store_sample t v s = Ok s' \<and> series_rep s' (butlast css @ [last css @ [(t, v)]]) \<and> series_range s' \<and> same_series s s'"
proof -
  obtain ds xs where css: "css = ds @ [xs]" using assms(3) by (cases css rule: rev_cases) auto
  then obtain cs c where c: "ms_chunks s = cs @ [c]" "chunk_rep c xs" "list_all2 chunk_rep cs ds"
    using assms(1) by (auto simp: series_rep_def list_all2_append2 list_all2_Cons2)
  have "xs \<noteq> []" using c(2) by (simp add: chunk_rep_def)
  moreover have "increasing (concat css @ [(t, v)])"
    using assms(1,4,5) css \<open>xs \<noteq> []\<close> by (intro increasing_snoc) (auto simp: series_rep_def)
  moreover have "open_rep s xs" "mc_minTime c = fst (hd xs)" using assms(1) css c(2) by (auto simp: series_rep_def chunk_rep_def)
  ultimately obtain a c' where c': "store_sample t v s = Ok (s\<lparr>ms_app := Some a, ms_chunks := cs @ [c'], lastValue := v,
      sampleBuf := [sampleBuf s ! 1, sampleBuf s ! 2, sampleBuf s ! 3, (t, v)]\<rparr>)" "mc_minTime c' = mc_minTime c" "mc_maxTime c' = t"
    "series_rep (s\<lparr>ms_app := Some a, ms_chunks := cs @ [c'], lastValue := v,
      sampleBuf := [sampleBuf s ! 1, sampleBuf s ! 2, sampleBuf s ! 3, (t, v)]\<rparr>) (ds @ [xs @ [(t, v)]])"
    using store_sample_ok [OF c(1), of xs t ds v] c(3) assms(7) css by auto
  then show ?thesis using assms(2,6) c css by (auto simp: series_range_def same_series_def)
qed

lemma series_rep_nextAt: "series_rep (s\<lparr>nextAt := n\<rparr>) css = series_rep s css"
  by (simp add: series_rep_def open_rep_def)

lemma memSeries_append_new:
  assumes "series_rep s css" "series_range s" "time_ok t" "css \<noteq> [] \<Longrightarrow> fst (last (last css)) < t"
    and "css \<noteq> [] \<Longrightarrow> length (last css) < 65535"
  shows "\<exists>b s' css'. memSeries_append t v s = Ok ((True, b), s') \<and> series_rep s' css' \<and> series_grows t v css css'
     \<and> series_range s' \<and> same_series s s'"
proof (cases css rule: rev_cases)
  case Nil
  let ?c = "\<lparr>mc_chunk = NewXORChunk, mc_minTime = t, mc_maxTime = MinInt64\<rparr>"
  have w: "width_ok (ms_chunkRange s)" using assms(2) by (simp add: series_range_def)
  have "ms_chunks s = []" using assms(1) Nil by (simp add: series_rep_def)
  moreover have "\<not> range_end (ms_chunkRange s) t \<le> t" using range_end_bounds(1) w by (simp add: width_ok_def not_le)
  moreover have "NumSamples NewXORChunk = Ok 0" using new_chunk_delivers [of "[]"] by (simp add: app_chunk_def new_appender_def NewXORChunk_def)
  ultimately have "memSeries_append t v s = bind_outcome (cut_and_store t v s) (\<lambda>s. Ok ((True, True), s))"
    using time_ok_i64(2) [OF assms(3)] cut_ok [OF assms(3) w]
    by (simp add: memSeries_append_def memSeries_head_def samplesPerChunk_def cut_and_store_def not_le)
  then show ?thesis using cut_and_store_ok [OF assms(1-3), of v] Nil by (auto simp: series_grows_def)
next
  case (snoc ds xs)
  then obtain cs c where c: "ms_chunks s = cs @ [c]" "chunk_rep c xs"
    using assms(1) by (auto simp: series_rep_def list_all2_append2 list_all2_Cons2)
  have xs: "xs \<noteq> []" "mc_maxTime c < t" "increasing xs"
    using c(2) assms(1,4) snoc by (auto simp: chunk_rep_def series_rep_def increasing_append)
  let ?b = "unat (of_nat (length xs) :: u16) = samplesPerChunk div 4"
  obtain nx where nx: "(if ?b then computeChunkEndTime (mc_minTime c) (mc_maxTime c) (nextAt s) else Ok (nextAt s)) = Ok nx"
    "mc_maxTime c < nx" "nx \<le> range_end (ms_chunkRange s) (mc_minTime c)"
    using append_cut_time [OF c(2) xs(3), of "nextAt s" "ms_chunkRange s" ?b] assms(2) c(1) by (auto simp: series_range_def)
  let ?s = "s\<lparr>nextAt := nx\<rparr>"
  have s': "series_rep ?s css" "series_range ?s" using assms(1,2) nx(2,3) c(1) by (simp_all add: series_rep_nextAt series_range_def)
  have eq: "memSeries_append t v s =
      (if t \<ge> nx then bind_outcome (cut_and_store t v ?s) (\<lambda>s. Ok ((True, True), s))
       else bind_outcome (store_sample t v ?s) (\<lambda>s. Ok ((True, False), s)))"
    using nx(1) xs(2) c(1)
    by (cases ?b) (auto simp: memSeries_append_def memSeries_head_def chunk_rep_NumSamples [OF c(2)] cut_and_store_def
        not_le [symmetric] bind_outcome_assoc case_prod_beta)
  have same: "same_series ?s s1 \<Longrightarrow> same_series s s1" for s1 by (simp add: same_series_def)
  show ?thesis
  proof (cases "t \<ge> nx")
    case True
    from cut_and_store_ok [OF s' assms(3), of v] True eq same assms(4) xs(1) snoc show ?thesis
      by (fastforce simp: series_grows_def)
  next
    case False
    from append_to_open [OF s' _ assms(3), of v] False eq same assms(4,5) xs(1) snoc show ?thesis
      by (fastforce simp: series_grows_def)
  qed
qed

lemma memSeries_append_old:
  assumes "series_rep s css" "css \<noteq> []" "t \<le> fst (last (last css))"
  shows "memSeries_append t v s = Ok ((False, False), s)"
proof -
  obtain ds xs where css: "css = ds @ [xs]" using assms(2) by (cases css rule: rev_cases) auto
  then obtain cs c where c: "ms_chunks s = cs @ [c]" "chunk_rep c xs"
    using assms(1) by (auto simp: series_rep_def list_all2_append2 list_all2_Cons2)
  then have "t \<le> mc_maxTime c" using assms(3) css by (simp add: chunk_rep_def)
  then show ?thesis using c by (simp add: memSeries_append_def memSeries_head_def chunk_rep_NumSamples [OF c(2)])
qed

lemma series_rep_last:
  assumes "series_rep s css" "css \<noteq> []"
  shows "memSeries_maxTime s = fst (last (last css))" "memSeries_head s \<noteq> None" "lastValue s = snd (last (last css))"
    "last css \<noteq> []" "concat css \<noteq> []" "last (concat css) = last (last css)"
proof -
  obtain ds xs where css: "css = ds @ [xs]" using assms(2) by (cases css rule: rev_cases) auto
  then obtain cs c where c: "ms_chunks s = cs @ [c]" "chunk_rep c xs" "list_all2 chunk_rep cs ds"
    using assms(1) by (auto simp: series_rep_def list_all2_append2 list_all2_Cons2)
  then show "memSeries_maxTime s = fst (last (last css))" "memSeries_head s \<noteq> None" "lastValue s = snd (last (last css))"
    "last css \<noteq> []" "concat css \<noteq> []" "last (concat css) = last (last css)"
    using assms css by (auto simp: memSeries_maxTime_def memSeries_head_def chunk_rep_def series_rep_def open_rep_def)
qed

lemma series_rep_new: "series_rep (newMemSeries ls r w) []"
  by (simp add: series_rep_def newMemSeries_def increasing_def)

lemma series_range_new: "width_ok w \<Longrightarrow> series_range (newMemSeries ls r w)"
  by (simp add: series_range_def newMemSeries_def)

section \<open>Truncation\<close>

lemma truncate_count_eq: "truncate_count mint cs = length (takeWhile (\<lambda>c. mc_maxTime c < mint) cs)"
  by (induction cs) auto

lemma drop_truncate_count: "drop (truncate_count mint cs) cs = dropWhile (\<lambda>c. mc_maxTime c < mint) cs"
  by (induction cs) auto

lemma truncate_count_le: "truncate_count mint cs \<le> length cs"
  by (induction cs) auto

lemma truncateChunksBefore_proj:
  "fst (truncateChunksBefore mint s) = truncate_count mint (ms_chunks s)"
  "snd (truncateChunksBefore mint s) = s\<lparr>ms_chunks := drop (truncate_count mint (ms_chunks s)) (ms_chunks s),
     firstChunkID := firstChunkID s + int (truncate_count mint (ms_chunks s))\<rparr>"
  by (simp_all add: truncateChunksBefore_def Let_def)

lemma series_rep_truncate:
  assumes "series_rep s css"
  shows "series_rep (snd (truncateChunksBefore mint s)) (drop (fst (truncateChunksBefore mint s)) css)"
proof -
  let ?k = "truncate_count mint (ms_chunks s)"
  have "increasing (concat (take ?k css) @ concat (drop ?k css))"
    using assms by (simp add: series_rep_def flip: concat_append)
  then show ?thesis using assms
    by (auto simp: series_rep_def truncateChunksBefore_proj increasing_append open_rep_def intro: list_all2_dropI)
qed

lemma series_range_truncate: "series_range s \<Longrightarrow> series_range (snd (truncateChunksBefore mint s))"
  by (auto simp: series_range_def truncateChunksBefore_proj list_all_iff dest: in_set_dropD)

text \<open>Truncation drops a prefix of the samples, all older than \<open>mint\<close>.\<close>

lemma truncated_samples_old:
  assumes "series_rep s css" "x \<in> set (concat (take (fst (truncateChunksBefore mint s)) css))"
  shows "fst x < mint"
proof -
  let ?k = "truncate_count mint (ms_chunks s)"
  from assms(2) obtain i where i: "i < ?k" "i < length css" "x \<in> set (css ! i)"
    by (force simp: truncateChunksBefore_proj in_set_conv_nth)
  have len: "length (ms_chunks s) = length css" using assms(1) by (auto simp: series_rep_def dest: list_all2_lengthD)
  have rep: "chunk_rep (ms_chunks s ! i) (css ! i)" using assms(1) i by (auto simp: series_rep_def dest: list_all2_nthD2)
  have "ms_chunks s ! i = takeWhile (\<lambda>c. mc_maxTime c < mint) (ms_chunks s) ! i" using i by (simp add: truncate_count_eq takeWhile_nth)
  then have lt: "mc_maxTime (ms_chunks s ! i) < mint" using i
    by (metis truncate_count_eq nth_mem set_takeWhileD)
  obtain us vs where "css = us @ css ! i # vs" using i(2) by (metis id_take_nth_drop)
  then have "increasing (css ! i)" using assms(1) unfolding series_rep_def
    by (metis concat.simps(2) concat_append increasing_append)
  then have "fst x \<le> fst (last (css ! i))"
    using i(3) by (cases "css ! i" rule: rev_cases) (auto simp: increasing_def sorted_wrt_append less_imp_le)
  with rep lt show ?thesis by (simp add: chunk_rep_def)
qed

lemma memSeries_chunk_truncate:
  "memSeries_chunk (snd (truncateChunksBefore mint s)) k =
     (if k < firstChunkID s + int (fst (truncateChunksBefore mint s)) then None else memSeries_chunk s k)"
proof -
  let ?k = "truncate_count mint (ms_chunks s)"
  have "?k + nat (k - (firstChunkID s + int ?k)) = nat (k - firstChunkID s)" if "firstChunkID s + int ?k \<le> k"
    using that by simp
  then show ?thesis using truncate_count_le [of mint "ms_chunks s"]
    by (auto simp: memSeries_chunk_def truncateChunksBefore_proj Let_def nth_drop)
qed

section \<open>Reading back\<close>

lemma drain_chunk:
  assumes "reads it (enc_samples xs) it'" "numRead it' = numTotal it'" "list_all (in_i64 \<circ> fst) xs"
  shows "drain (ChunkIterator it) = Ok (xs, ChunkIterator it')"
  using assms
proof (induction xs arbitrary: it)
  case Nil
  then show ?case by (simp add: drain.simps Next_def)
next
  case (Cons x xs)
  obtain t v where x: "x = (t, v)" by (cases x)
  with Cons.prems obtain it1 where "Next it = Ok (True, it1)" "At it1 = (word_of_int t, v)" "reads it1 (enc_samples xs) it'"
    by (auto simp: enc_samples_def)
  with Cons x show ?case by (simp add: drain.simps [of "ChunkIterator it"] sint_word_of_int)
qed

lemma readSigBits_err: "readSigBits it = Ok (True, it') \<Longrightarrow> it_err it' = it_err it"
  by (auto simp: readSigBits_def Let_def dest!: it_read_True)

lemma readValue_err: "readValue it = Ok (True, it') \<Longrightarrow> it_err it' = it_err it"
  by (auto simp: readValue_def Let_def dest!: it_read_True readSigBits_err split: if_splits)

lemma Next_True_err: "Next it = Ok (True, it') \<Longrightarrow> it_err it' = None"
  by (auto simp: Next_def readDod_def applyDod_def Let_def dest!: it_read_True readValue_err split: if_splits)

lemma buf_rep_nth:
  assumes "buf_rep buf (pre @ y # ys)" "length ys < 4"
  shows "buf ! (3 - length ys) = y"
proof -
  let ?xs = "pre @ y # ys"
  let ?n = "length ?xs"
  define m where "m = (if ?n < 4 then length pre else 3 - length ys)"
  have "drop (4 - ?n) buf ! m = drop (?n - 4) ?xs ! m" and len: "length buf = 4" using assms(1) by (simp_all only: buf_rep_def)
  moreover have "drop (4 - ?n) buf ! m = buf ! (4 - ?n + m)" using len by (intro nth_drop) simp
  moreover have "drop (?n - 4) ?xs ! m = ?xs ! (?n - 4 + m)" by (intro nth_drop) simp
  moreover have "4 - ?n + m = 3 - length ys" "?n - 4 + m = length pre" using assms(2) by (auto simp: m_def)
  ultimately show ?thesis by simp
qed

lemma drain_safe:
  assumes "length ys > 4 \<Longrightarrow> reads it (enc_samples ys) it'" "it_err it = None" "buf_rep buf (pre @ ys)"
    "list_all (in_i64 \<circ> fst) ys"
  shows "\<exists>it''. drain (SafeIterator \<lparr>si_Iterator = it, si_i = int (length pre) - 1, si_total = int (length (pre @ ys)), si_buf = buf\<rparr>)
      = Ok (ys, it'') \<and> memIterator_Err it'' = None"
  using assms
proof (induction ys arbitrary: pre it)
  case Nil
  then show ?case by (simp add: drain.simps memSafeIterator_Next_def)
next
  case (Cons y ys)
  obtain t v where y: "y = (t, v)" by (cases y)
  let ?si = "\<lambda>it i. \<lparr>si_Iterator = it, si_i = i, si_total = int (length (pre @ y # ys)), si_buf = buf\<rparr>"
  obtain it1 where it1: "memSafeIterator_Next (?si it (int (length pre) - 1)) = Ok (True, ?si it1 (int (length pre)))"
    "memSafeIterator_At (?si it1 (int (length pre))) = Ok y" "it_err it1 = None"
    "length ys > 4 \<Longrightarrow> reads it1 (enc_samples ys) it'"
  proof (cases "length (y # ys) > 4")
    case True
    with Cons.prems(1) obtain it1 where n: "Next it = Ok (True, it1)" "At it1 = (word_of_int t, v)" "reads it1 (enc_samples ys) it'"
      by (auto simp: enc_samples_def y)
    then show ?thesis using that [of it1] True Cons.prems(4) Next_True_err [OF n(1)] y
      by (simp add: memSafeIterator_Next_def memSafeIterator_At_def Let_def sint_word_of_int)
  next
    case False
    have "length buf = 4" "buf ! (3 - length ys) = y"
      using Cons.prems(3) buf_rep_nth [of buf pre y ys] False by (simp_all add: buf_rep_def)
    moreover have "nat (3 - int (length ys)) = 3 - length ys" by simp
    ultimately show ?thesis using that [of it] False Cons.prems(2)
      by (simp add: memSafeIterator_Next_def memSafeIterator_At_def Let_def)
  qed
  from Cons.IH [of it1 "pre @ [y]"] it1(3,4) Cons.prems(3,4) obtain it'' where
    "drain (SafeIterator (?si it1 (int (length pre)))) = Ok (ys, it'')" "memIterator_Err it'' = None" by auto
  moreover from this it1(1,2) have "drain (SafeIterator (?si it (int (length pre) - 1))) = Ok (y # ys, it'')"
    by (subst drain.simps) simp
  ultimately show ?case by blast
qed

text \<open>Every chunk of a series reads back as the samples it holds, the open one through the buffer.\<close>

lemma memSeries_iterator_reads:
  assumes "series_rep s css" "j < length css"
  shows "\<exists>it it'. memSeries_iterator s (chunkID s (int j)) = Ok it \<and> drain it = Ok (css ! j, it') \<and> memIterator_Err it' = None"
proof -
  let ?c = "ms_chunks s ! j" and ?xs = "css ! j"
  have len: "length (ms_chunks s) = length css" using assms(1) by (auto simp: series_rep_def dest: list_all2_lengthD)
  have rep: "chunk_rep ?c ?xs" using assms by (auto simp: series_rep_def dest: list_all2_nthD2)
  have all: "list_all (in_i64 \<circ> fst) ?xs"
    using assms by (auto simp: series_rep_def increasing_def list_all_iff) (metis nth_mem fst_conv time_ok_i64(1))
  from rep new_chunk_delivers [of "enc_samples ?xs"] obtain it0 it where
    it: "iterator (mc_chunk ?c) = Ok it0" "reads it0 (enc_samples ?xs) it" "numRead it = numTotal it" "it_err it = None"
    by (auto simp: chunk_rep_def)
  have c: "memSeries_chunk s (chunkID s (int j)) = Some ?c"
    using assms(2) len by (simp add: memSeries_chunk_def chunkID_def)
  show ?thesis
  proof (cases "j = length css - 1")
    case False
    then have "memSeries_iterator s (chunkID s (int j)) = Ok (ChunkIterator it0)"
      using c it(1) len assms(2) by (simp add: memSeries_iterator_def chunkID_def)
    then show ?thesis using drain_chunk [OF it(2,3) all] it(4) by simp
  next
    case True
    have "unat (of_nat (length ?xs) :: u16) = length ?xs" using rep by (simp add: chunk_rep_def unat_of_nat take_bit_nat_eq_self)
    then have n: "uint (of_nat (length ?xs) :: u16) = int (length ?xs)" by (metis uint_nat)
    have "memSeries_iterator s (chunkID s (int j)) =
        Ok (SafeIterator \<lparr>si_Iterator = it0, si_i = -1, si_total = int (length ?xs), si_buf = sampleBuf s\<rparr>)"
      using c it(1) len assms(2) chunk_rep_NumSamples [OF rep] n True by (simp add: memSeries_iterator_def chunkID_def)
    moreover have "buf_rep (sampleBuf s) ?xs" using assms True by (auto simp: series_rep_def open_rep_def last_conv_nth)
    moreover have "it_err it0 = None" using it(1) by (auto simp: iterator_def)
    ultimately show ?thesis using drain_safe [of ?xs it0 it "sampleBuf s" "[]"] it(2) all by auto
  qed
qed

section \<open>Runs of a series\<close>

text \<open>
  What a reader sees of a series: its chunks by their ids, in order, each drained through its
  iterator.
\<close>

definition read_chunk :: "memSeries \<Rightarrow> int \<Rightarrow> sample list outcome" where
  "read_chunk s k =
     bind_outcome (memSeries_iterator s k) (\<lambda>it.
     bind_outcome (drain it) (\<lambda>(xs, it'). case memIterator_Err it' of None \<Rightarrow> Ok xs | Some e \<Rightarrow> Fail e))"

fun read_ids :: "memSeries \<Rightarrow> int list \<Rightarrow> sample list outcome" where
  "read_ids s [] = Ok []"
| "read_ids s (k # ks) = bind_outcome (read_chunk s k) (\<lambda>xs. bind_outcome (read_ids s ks) (\<lambda>ys. Ok (xs @ ys)))"

definition read_series :: "memSeries \<Rightarrow> sample list outcome" where
  "read_series s = read_ids s (map (\<lambda>j. chunkID s (int j)) [0..<length (ms_chunks s)])"

text \<open>
  \<open>memSeries_run w s ys m\<close>: \<open>s\<close> is reached from a new series with chunk range \<open>w\<close> by appends and
  truncations in any order, \<open>ys\<close> are the samples the appends accepted, in order, and \<open>m\<close> is the
  largest time it was truncated to.
\<close>

inductive memSeries_run :: "int \<Rightarrow> memSeries \<Rightarrow> sample list \<Rightarrow> int \<Rightarrow> bool" for w where
  run_new: "memSeries_run w (newMemSeries ls r w) [] MinInt64"
| run_append: "memSeries_run w s ys m \<Longrightarrow> time_ok t \<Longrightarrow> length ys < 65535 \<Longrightarrow>
    memSeries_append t v s = Ok ((ok, created), s') \<Longrightarrow> memSeries_run w s' (if ok then ys @ [(t, v)] else ys) m"
| run_truncate: "memSeries_run w s ys m \<Longrightarrow>
    memSeries_run w (snd (truncateChunksBefore mint s)) ys (max m mint)"

definition run_rep :: "int \<Rightarrow> memSeries \<Rightarrow> sample list \<Rightarrow> int \<Rightarrow> sample list list \<Rightarrow> bool" where
  "run_rep w s ys m css \<longleftrightarrow> series_rep s css \<and> series_range s \<and> ms_chunkRange s = w \<and> suffix (concat css) ys
     \<and> (\<forall>x \<in> set ys. m \<le> fst x \<longrightarrow> x \<in> set (concat css))"

lemma read_ids_rep:
  assumes "series_rep s css" "\<forall>j \<in> set js. j < length css"
  shows "read_ids s (map (\<lambda>j. chunkID s (int j)) js) = Ok (concat (map ((!) css) js))"
  using assms(2)
proof (induction js)
  case (Cons j js)
  then obtain it it' where "memSeries_iterator s (chunkID s (int j)) = Ok it" "drain it = Ok (css ! j, it')" "memIterator_Err it' = None"
    using memSeries_iterator_reads [OF assms(1), of j] by auto
  then have "read_chunk s (chunkID s (int j)) = Ok (css ! j)" by (simp add: read_chunk_def)
  with Cons show ?case by simp
qed simp

lemma read_series_rep: "series_rep s css \<Longrightarrow> read_series s = Ok (concat css)"
  using read_ids_rep [of s css "[0..<length (ms_chunks s)]"] list_all2_lengthD [of chunk_rep "ms_chunks s" css]
  by (simp add: read_series_def series_rep_def map_nth)

lemma run_rep_bound:
  assumes "run_rep w s ys m css" "length ys < 65535" "css \<noteq> []"
  shows "length (last css) < 65535"
proof -
  have "length (last css) \<le> length (concat css)" using assms(3) by (cases css rule: rev_cases) auto
  also have "\<dots> \<le> length ys" using assms(1) by (auto simp: run_rep_def suffix_length_le)
  finally show ?thesis using assms(2) by simp
qed

lemma run_rep_append:
  assumes rep: "run_rep w s ys m css" and t: "time_ok t" and len: "length ys < 65535"
  shows "\<exists>ok created s' css'. memSeries_append t v s = Ok ((ok, created), s')
     \<and> run_rep w s' (if ok then ys @ [(t, v)] else ys) m css' \<and> (ok \<longleftrightarrow> ms_chunks s = [] \<or> memSeries_maxTime s < t)"
proof -
  have r: "series_rep s css" "series_range s" "ms_chunkRange s = w" "suffix (concat css) ys"
    "\<forall>x \<in> set ys. m \<le> fst x \<longrightarrow> x \<in> set (concat css)" using rep by (simp_all add: run_rep_def)
  have nil: "ms_chunks s = [] \<longleftrightarrow> css = []" using r(1) by (auto simp: series_rep_def)
  show ?thesis
  proof (cases "css \<noteq> [] \<and> t \<le> fst (last (last css))")
    case True
    then show ?thesis using memSeries_append_old [OF r(1)] rep nil series_rep_last(1) [OF r(1)] by fastforce
  next
    case False
    then have "css \<noteq> [] \<Longrightarrow> fst (last (last css)) < t" by simp
    from memSeries_append_new [OF r(1,2) t this run_rep_bound [OF rep len], of v] obtain b s' css' where
      s': "memSeries_append t v s = Ok ((True, b), s')" "series_rep s' css'" "series_grows t v css css'" "series_range s'" "same_series s s'"
      by blast
    have "run_rep w s' (ys @ [(t, v)]) m css'"
      using s' r(3-5) series_grows_concat [OF s'(3)] by (auto simp: run_rep_def same_series_def suffix_def)
    then show ?thesis using s'(1) False nil series_rep_last(1) [OF r(1)] by fastforce
  qed
qed

lemma run_rep_truncate:
  assumes "run_rep w s ys m css"
  shows "run_rep w (snd (truncateChunksBefore mint s)) ys (max m mint) (drop (fst (truncateChunksBefore mint s)) css)"
proof -
  let ?k = "fst (truncateChunksBefore mint s)"
  have r: "series_rep s css" "series_range s" "ms_chunkRange s = w" "suffix (concat css) ys"
    "\<forall>x \<in> set ys. m \<le> fst x \<longrightarrow> x \<in> set (concat css)" using assms by (simp_all add: run_rep_def)
  have split: "concat css = concat (take ?k css) @ concat (drop ?k css)" by (simp flip: concat_append)
  have "suffix (concat (drop ?k css)) (concat css)" by (rule suffixI [OF split])
  with r(4) have "suffix (concat (drop ?k css)) ys" by (rule suffix_order.trans [rotated])
  moreover have "x \<in> set (concat (drop ?k css))" if "x \<in> set ys" "max m mint \<le> fst x" for x
    using r(5) that truncated_samples_old [OF r(1), of x mint] unfolding split by fastforce
  ultimately show ?thesis using series_rep_truncate [OF r(1)] series_range_truncate [OF r(2)] r(3)
    by (auto simp: run_rep_def truncateChunksBefore_proj)
qed

lemma memSeries_run_rep:
  assumes "memSeries_run w s ys m" "width_ok w"
  shows "\<exists>css. run_rep w s ys m css"
  using assms(1)
proof induction
  case (run_new ls r)
  have "ms_chunkRange (newMemSeries ls r w) = w" by (simp add: newMemSeries_def)
  then have "run_rep w (newMemSeries ls r w) [] MinInt64 []"
    using series_rep_new series_range_new [OF assms(2)] by (simp add: run_rep_def)
  then show ?case by blast
next
  case (run_append s ys m t v ok created s')
  then obtain css where "run_rep w s ys m css" by blast
  from run_rep_append [OF this run_append.hyps(2,3), of v] run_append.hyps(4) show ?case by auto
next
  case (run_truncate s ys m mint)
  then show ?case using run_rep_truncate by blast
qed

lemma chunks_ordered:
  "list_all2 chunk_rep cs css \<Longrightarrow> increasing (concat css) \<Longrightarrow>
   sorted_wrt (\<lambda>a b. mc_maxTime a < mc_minTime b) cs \<and> list_all (\<lambda>c. mc_minTime c \<le> mc_maxTime c \<and> time_ok (mc_minTime c)) cs"
proof (induction rule: list_all2_induct)
  case (Cons c cs xs css)
  have inc: "increasing xs" "increasing (concat css)" "\<forall>x \<in> set xs. \<forall>y \<in> set (concat css). fst x < fst y"
    using Cons.prems by (simp_all add: increasing_append)
  have xs: "xs \<noteq> []" "mc_minTime c = fst (hd xs)" "mc_maxTime c = fst (last xs)" using Cons.hyps(1) by (simp_all add: chunk_rep_def)
  have "mc_maxTime c < mc_minTime d" if "d \<in> set cs" for d
  proof -
    obtain i where "i < length cs" "d = cs ! i" using \<open>d \<in> set cs\<close> by (auto simp: in_set_conv_nth)
    with Cons.hyps(2) have "css ! i \<in> set css" "chunk_rep d (css ! i)" by (auto simp: list_all2_conv_all_nth)
    then obtain ys where "ys \<in> set css" "chunk_rep d ys" by blast
    then have "hd ys \<in> set (concat css)" "mc_minTime d = fst (hd ys)" by (auto simp: chunk_rep_def intro!: bexI [of _ ys])
    with inc(3) [rule_format, of "last xs" "hd ys"] xs show ?thesis by simp
  qed
  with Cons.IH [OF inc(2)] xs increasing_last [OF inc(1)] show ?case by simp
qed simp

section \<open>Properties\<close>


lemma one_append_run: "\<exists>s. memSeries_run 100 s [(250, 7)] MinInt64 \<and> width_ok 100"
proof -
  have w: "width_ok 100" by (simp add: width_ok_def)
  have t: "time_ok 250" by (simp add: time_ok_def)
  obtain b s' where "memSeries_append 250 7 (newMemSeries [] 1 100) = Ok ((True, b), s')"
    using memSeries_append_new [OF series_rep_new series_range_new [OF w] t, of 7 "[]" 1] by auto
  from run_append [OF run_new t _ this] w show ?thesis by auto
qed


text \<open>
  C20. The chunks of a series. Along every run the chunks are in order and do not overlap in time,
  and none of them extends beyond the end of the chunk range its first sample is in, whatever cut
  time \<open>computeChunkEndTime\<close> chose: a block boundary never falls inside a chunk.
\<close>

theorem series_chunks_within_range:
  assumes "memSeries_run w s ys m" "width_ok w"
  shows "sorted_wrt (\<lambda>a b. mc_maxTime a < mc_minTime b) (ms_chunks s)
    \<and> list_all (\<lambda>c. mc_minTime c \<le> mc_maxTime c
        \<and> (\<exists>lo hi. rangeForTimestamp (mc_minTime c) w = Ok (lo, hi) \<and> mc_maxTime c < hi)) (ms_chunks s)"
proof -
  obtain css where "run_rep w s ys m css" using memSeries_run_rep [OF assms] by blast
  then have r: "list_all2 chunk_rep (ms_chunks s) css" "increasing (concat css)" "series_range s" "ms_chunkRange s = w"
    by (simp_all add: run_rep_def series_rep_def)
  then show ?thesis using chunks_ordered [OF r(1,2)] rangeForTimestamp_ok [OF _ assms(2)]
    by (auto simp: series_range_def list_all_iff)
qed

theorem series_chunks_within_range_witness:
  "\<exists>s. memSeries_run 100 s [(250, 7)] MinInt64 \<and> width_ok 100
    \<and> sorted_wrt (\<lambda>a b. mc_maxTime a < mc_minTime b) (ms_chunks s)"
proof -
  obtain s where s: "memSeries_run 100 s [(250, 7)] MinInt64" "width_ok 100" using one_append_run by blast
  with series_chunks_within_range [OF s] show ?thesis by blast
qed

text \<open>
  C21. Appending to a series never panics, and the check made when a sample enters a transaction
  agrees with the append made at its commit: \<open>append\<close> takes a sample exactly if the series is
  empty or the sample is newer than its newest one, and \<open>appendable\<close> lets through exactly those
  and repetitions of the newest sample.
\<close>

theorem append_total_and_checked:
  assumes "memSeries_run w s ys m" "width_ok w" "time_ok t" "length ys < 65535"
  shows "\<exists>ok created s'. memSeries_append t v s = Ok ((ok, created), s')
    \<and> (ok \<longleftrightarrow> ms_chunks s = [] \<or> memSeries_maxTime s < t)
    \<and> (appendable t v s = None \<longleftrightarrow> ok \<or> (t = memSeries_maxTime s \<and> v = lastValue s))"
proof -
  obtain css where "run_rep w s ys m css" using memSeries_run_rep [OF assms(1,2)] by blast
  from run_rep_append [OF this assms(3,4), of v] show ?thesis
    by (fastforce simp: appendable_def memSeries_maxTime_def memSeries_head_def)
qed

theorem append_total_and_checked_witness:
  "\<exists>s. memSeries_run 100 s [(250, 7)] MinInt64 \<and> width_ok 100 \<and> time_ok 260 \<and> length [(250 :: int, 7 :: f64)] < 65535
    \<and> (\<exists>ok created s'. memSeries_append 260 8 s = Ok ((ok, created), s'))"
proof -
  obtain s where s: "memSeries_run 100 s [(250, 7)] MinInt64" "width_ok 100" using one_append_run by blast
  have t: "time_ok 260" "length [(250 :: int, 7 :: f64)] < 65535" by (simp_all add: time_ok_def)
  from append_total_and_checked [OF s t, of 8] s t show ?thesis by auto
qed

end
