(* ===== verification/Head.thy ===== *)
theory Head
  imports MemSeries MemPostings Wal_Record Wal
begin

text \<open>
  The head block of \<^verbatim>\<open>head.go\<close>: the striped maps of series by id and by hash, the creation of
  series, the transactions of its appenders and garbage collection. Series are objects that both
  maps and open transactions point to, so they live in an explicit store, \<open>h_heap\<close>, and a pointer
  is an address in it. The locks make the operations on one series and on one stripe atomic; here
  the calls run one after another. Metrics, logging and buffer pools have no effect on the data and
  are left out, and writing to the log does not fail. \<^verbatim>\<open>sum64\<close> is the hash function of the xxhash
  package.
\<close>

section \<open>Series by hash and by id\<close>

type_synonym ptr = nat
type_synonym store = "memSeries list"

type_synonym seriesHashmap = "u64 \<Rightarrow> ptr list"

fun find_series :: "store \<Rightarrow> ptr list \<Rightarrow> Labels \<Rightarrow> ptr option" where
  "find_series st [] lset = None"
| "find_series st (p # ps) lset = (if Equals (ms_lset (st ! p)) lset then Some p else find_series st ps lset)"

definition seriesHashmap_get :: "store \<Rightarrow> seriesHashmap \<Rightarrow> u64 \<Rightarrow> Labels \<Rightarrow> ptr option" where
  "seriesHashmap_get st hm hash lset = find_series st (hm hash) lset"

fun set_series :: "store \<Rightarrow> ptr list \<Rightarrow> ptr \<Rightarrow> ptr list" where
  "set_series st [] s = [s]"
| "set_series st (prev # ps) s =
     (if Equals (ms_lset (st ! prev)) (ms_lset (st ! s)) then s # ps else prev # set_series st ps s)"

definition seriesHashmap_set :: "store \<Rightarrow> seriesHashmap \<Rightarrow> u64 \<Rightarrow> ptr \<Rightarrow> seriesHashmap" where
  "seriesHashmap_set st hm hash s = hm(hash := set_series st (hm hash) s)"

definition seriesHashmap_del :: "store \<Rightarrow> seriesHashmap \<Rightarrow> u64 \<Rightarrow> Labels \<Rightarrow> seriesHashmap" where
  "seriesHashmap_del st hm hash lset = hm(hash := filter (\<lambda>p. \<not> Equals (ms_lset (st ! p)) lset) (hm hash))"

record stripeSeries =
  ss_series :: "u64 \<Rightarrow> u64 \<Rightarrow> ptr option"
  ss_hashes :: "u64 \<Rightarrow> seriesHashmap"

definition stripeSize :: nat where "stripeSize = 2 ^ 14"
definition stripeMask :: u64 where "stripeMask = 2 ^ 14 - 1"

definition newStripeSeries :: stripeSeries where
  "newStripeSeries = \<lparr>ss_series = (\<lambda>i. Map.empty), ss_hashes = (\<lambda>i hash. [])\<rparr>"

definition getByID :: "stripeSeries \<Rightarrow> u64 \<Rightarrow> ptr option" where
  "getByID s k = ss_series s (k AND stripeMask) k"

definition getByHash :: "store \<Rightarrow> stripeSeries \<Rightarrow> u64 \<Rightarrow> Labels \<Rightarrow> ptr option" where
  "getByHash st s hash lset = seriesHashmap_get st (ss_hashes s (hash AND stripeMask)) hash lset"

definition getOrSet :: "store \<Rightarrow> stripeSeries \<Rightarrow> u64 \<Rightarrow> ptr \<Rightarrow> (ptr \<times> bool) \<times> stripeSeries" where
  "getOrSet st s hash p =
     (let i = hash AND stripeMask in
      case seriesHashmap_get st (ss_hashes s i) hash (ms_lset (st ! p)) of
        Some prev \<Rightarrow> ((prev, False), s)
      | None \<Rightarrow>
          let s = s\<lparr>ss_hashes := (ss_hashes s)(i := seriesHashmap_set st (ss_hashes s i) hash p)\<rparr>;
              ref = ms_ref (st ! p); j = ref AND stripeMask
          in ((p, True), s\<lparr>ss_series := (ss_series s)(j := (ss_series s j)(ref \<mapsto> p))\<rparr>))"

text \<open>
  Garbage collection visits stripe after stripe, in each the hashes in the order of the Go map,
  here the list \<open>order i\<close>, and for each hash the series it had when the visit began.
\<close>

record gc_state =
  gc_heap :: store
  gc_stripes :: stripeSeries
  gc_deleted :: "u64 set"
  gc_rmChunks :: nat

definition gc_series :: "int \<Rightarrow> u64 \<Rightarrow> u64 \<Rightarrow> ptr \<Rightarrow> gc_state \<Rightarrow> gc_state" where
  "gc_series mint i hash p g =
     (let (k, series) = truncateChunksBefore mint (gc_heap g ! p);
          g = g\<lparr>gc_heap := (gc_heap g)[p := series], gc_rmChunks := gc_rmChunks g + k\<rparr>
      in if length (ms_chunks series) > 0 \<or> pendingCommit series then g
         else
           let ref = ms_ref series; j = ref AND stripeMask; s = gc_stripes g;
               s = s\<lparr>ss_hashes := (ss_hashes s)(i := seriesHashmap_del (gc_heap g) (ss_hashes s i) hash (ms_lset series))\<rparr>;
               s = s\<lparr>ss_series := (ss_series s)(j := (ss_series s j)(ref := None))\<rparr>
           in g\<lparr>gc_deleted := insert ref (gc_deleted g), gc_stripes := s\<rparr>)"

definition gc_hash :: "int \<Rightarrow> u64 \<Rightarrow> u64 \<Rightarrow> gc_state \<Rightarrow> gc_state" where
  "gc_hash mint i hash g = fold (gc_series mint i hash) (ss_hashes (gc_stripes g) i hash) g"

definition stripeSeries_gc :: "(u64 \<Rightarrow> u64 list) \<Rightarrow> int \<Rightarrow> store \<Rightarrow> stripeSeries \<Rightarrow> gc_state" where
  "stripeSeries_gc order mint st s =
     fold (\<lambda>i. fold (gc_hash mint i) (order i)) (map of_nat [0..<stripeSize])
       \<lparr>gc_heap = st, gc_stripes = s, gc_deleted = {}, gc_rmChunks = 0\<rparr>"

section \<open>The head\<close>

record Head =
  h_chunkRange :: int
  h_wal :: "WAL option"
  h_minTime :: int
  h_maxTime :: int
  lastSeriesID :: u64
  h_heap :: store
  h_series :: stripeSeries
  h_symbols :: "gostring set"
  h_values :: "gostring \<rightharpoonup> gostring set"
  h_postings :: MemPostings
  h_tombstones :: memTombstones

definition NewHead :: "WAL option \<Rightarrow> int \<Rightarrow> Head outcome" where
  "NewHead w chunkRange =
     (if chunkRange < 1 then Fail (ErrMsg ''invalid chunk range'')
      else Ok \<lparr>h_chunkRange = chunkRange, h_wal = w, h_minTime = MaxInt64, h_maxTime = MinInt64, lastSeriesID = 0,
               h_heap = [], h_series = newStripeSeries, h_symbols = {}, h_values = Map.empty,
               h_postings = NewUnorderedMemPostings, h_tombstones = NewMemTombstones\<rparr>)"

text \<open>With no concurrent writer the compare-and-swap loops take one turn.\<close>

definition updateMinMaxTime :: "int \<Rightarrow> int \<Rightarrow> Head \<Rightarrow> Head" where
  "updateMinMaxTime mint maxt h =
     (let h = (if mint \<ge> h_minTime h then h else h\<lparr>h_minTime := mint\<rparr>)
      in if maxt \<le> h_maxTime h then h else h\<lparr>h_maxTime := maxt\<rparr>)"

definition initTime :: "int \<Rightarrow> Head \<Rightarrow> bool \<times> Head" where
  "initTime t h =
     (if h_minTime h \<noteq> MaxInt64 then (False, h)
      else
        let h = h\<lparr>h_minTime := t\<rparr>
        in (True, if h_maxTime h = MinInt64 then h\<lparr>h_maxTime := t\<rparr> else h))"

text \<open>Name and value of a label enter the symbols and the label values.\<close>

definition add_symbol :: "Label \<Rightarrow> Head \<Rightarrow> Head" where
  "add_symbol l h =
     (let valset = (case h_values h (Name l) of None \<Rightarrow> {} | Some vs \<Rightarrow> vs)
      in h\<lparr>h_values := (h_values h)(Name l \<mapsto> insert (Value l) valset),
           h_symbols := insert (Value l) (insert (Name l) (h_symbols h))\<rparr>)"

definition getOrCreateWithID :: "u64 \<Rightarrow> u64 \<Rightarrow> Labels \<Rightarrow> Head \<Rightarrow> (ptr \<times> bool) \<times> Head" where
  "getOrCreateWithID k hash lset h =
     (let p = length (h_heap h);
          h = h\<lparr>h_heap := h_heap h @ [newMemSeries lset k (h_chunkRange h)]\<rparr>
      in case getOrSet (h_heap h) (h_series h) hash p of
           ((s, created), ss) \<Rightarrow>
             let h = h\<lparr>h_series := ss\<rparr> in
             if \<not> created then ((s, False), h)
             else ((s, True), fold add_symbol lset (h\<lparr>h_postings := MemPostings_Add (h_postings h) k lset\<rparr>)))"

definition getOrCreate :: "u64 \<Rightarrow> Labels \<Rightarrow> Head \<Rightarrow> (ptr \<times> bool) \<times> Head" where
  "getOrCreate hash lset h =
     (case getByHash (h_heap h) (h_series h) hash lset of
        Some s \<Rightarrow> ((s, False), h)
      | None \<Rightarrow>
          let k = lastSeriesID h + 1; h = h\<lparr>lastSeriesID := k\<rparr>
          in getOrCreateWithID k hash lset h)"

section \<open>Transactions\<close>

record headAppender =
  ha_minValidTime :: int
  ha_mint :: int
  ha_maxt :: int
  ha_series :: "RefSeries list"
  ha_samples :: "(RefSample \<times> ptr) list"

definition appender :: "Head \<Rightarrow> headAppender" where
  "appender h = \<lparr>ha_minValidTime = i64 (h_maxTime h - go_div (h_chunkRange h) 2), ha_mint = MaxInt64, ha_maxt = MinInt64,
     ha_series = [], ha_samples = []\<rparr>"

definition headAppender_AddFast :: "u64 \<Rightarrow> int \<Rightarrow> f64 \<Rightarrow> Head \<times> headAppender \<Rightarrow> go_error option \<times> Head \<times> headAppender" where
  "headAppender_AddFast ref t v = (\<lambda>(h, a).
     if t < ha_minValidTime a then (Some ErrOutOfBounds, h, a)
     else case getByID (h_series h) ref of
        None \<Rightarrow> (Some ErrNotFound, h, a)
      | Some p \<Rightarrow>
          case appendable t v (h_heap h ! p) of
            Some err \<Rightarrow> (Some err, h, a)
          | None \<Rightarrow>
              let h = h\<lparr>h_heap := (h_heap h)[p := (h_heap h ! p)\<lparr>pendingCommit := True\<rparr>]\<rparr>;
                  a = (if t < ha_mint a then a\<lparr>ha_mint := t\<rparr> else a);
                  a = (if t > ha_maxt a then a\<lparr>ha_maxt := t\<rparr> else a)
              in (None, h, a\<lparr>ha_samples := ha_samples a @ [(\<lparr>Ref = ref, T = t, V = v\<rparr>, p)]\<rparr>))"

definition headAppender_Add :: "(u8 list \<Rightarrow> u64) \<Rightarrow> Labels \<Rightarrow> int \<Rightarrow> f64 \<Rightarrow> Head \<times> headAppender \<Rightarrow>
    (u64 \<times> go_error option) \<times> Head \<times> headAppender" where
  "headAppender_Add sum64 lset t v = (\<lambda>(h, a).
     if t < ha_minValidTime a then ((0, Some ErrOutOfBounds), h, a)
     else case getOrCreate (Hash sum64 lset) lset h of
        ((p, created), h) \<Rightarrow>
          let ref = ms_ref (h_heap h ! p);
              a = (if created then a\<lparr>ha_series := ha_series a @ [\<lparr>series_Ref = ref, series_Labels = lset\<rparr>]\<rparr> else a);
              (err, h, a) = headAppender_AddFast ref t v (h, a)
          in ((ref, err), h, a))"

definition headAppender_log :: "headAppender \<Rightarrow> Head \<Rightarrow> Head" where
  "headAppender_log a h =
     (case h_wal h of
        None \<Rightarrow> h
      | Some w \<Rightarrow>
          let w = (if length (ha_series a) > 0 then Log [Encoder_Series (ha_series a) []] w else w);
              w = (if length (ha_samples a) > 0 then Log [Encoder_Samples (map fst (ha_samples a)) []] w else w)
          in h\<lparr>h_wal := Some w\<rparr>)"

fun commit_samples :: "(RefSample \<times> ptr) list \<Rightarrow> store \<Rightarrow> nat \<Rightarrow> (store \<times> nat) outcome" where
  "commit_samples [] st n = Ok (st, n)"
| "commit_samples ((s, p) # ss) st n =
     bind_outcome (memSeries_append (T s) (V s) (st ! p)) (\<lambda>((ok, chunkCreated), series).
       commit_samples ss (st[p := series\<lparr>pendingCommit := False\<rparr>]) (if ok then n else n - 1))"

definition headAppender_Commit :: "Head \<times> headAppender \<Rightarrow> (nat \<times> Head) outcome" where
  "headAppender_Commit = (\<lambda>(h, a).
     let h = headAppender_log a h in
     bind_outcome (commit_samples (ha_samples a) (h_heap h) (length (ha_samples a))) (\<lambda>(st, n).
       Ok (n, updateMinMaxTime (ha_mint a) (ha_maxt a) (h\<lparr>h_heap := st\<rparr>))))"

definition headAppender_Rollback :: "Head \<times> headAppender \<Rightarrow> Head" where
  "headAppender_Rollback = (\<lambda>(h, a).
     let st = fold (\<lambda>(s, p) st. st[p := (st ! p)\<lparr>pendingCommit := False\<rparr>]) (ha_samples a) (h_heap h)
     in headAppender_log (a\<lparr>ha_samples := []\<rparr>) (h\<lparr>h_heap := st\<rparr>))"

text \<open>The appender of a head without time bounds takes them from the first sample added.\<close>

datatype Appender_impl = InitAppender "headAppender option" | HeadAppender headAppender

definition Head_Appender :: "Head \<Rightarrow> Appender_impl" where
  "Head_Appender h = (if h_minTime h = MaxInt64 then InitAppender None else HeadAppender (appender h))"

fun Appender_Add :: "(u8 list \<Rightarrow> u64) \<Rightarrow> Labels \<Rightarrow> int \<Rightarrow> f64 \<Rightarrow> Head \<times> Appender_impl \<Rightarrow>
    (u64 \<times> go_error option) \<times> Head \<times> Appender_impl" where
  "Appender_Add sum64 lset t v (h, HeadAppender a) =
     (case headAppender_Add sum64 lset t v (h, a) of (r, h, a) \<Rightarrow> (r, h, HeadAppender a))"
| "Appender_Add sum64 lset t v (h, InitAppender (Some a)) =
     (case headAppender_Add sum64 lset t v (h, a) of (r, h, a) \<Rightarrow> (r, h, InitAppender (Some a)))"
| "Appender_Add sum64 lset t v (h, InitAppender None) =
     (let h = snd (initTime t h)
      in case headAppender_Add sum64 lset t v (h, appender h) of (r, h, a) \<Rightarrow> (r, h, InitAppender (Some a)))"

fun Appender_AddFast :: "u64 \<Rightarrow> int \<Rightarrow> f64 \<Rightarrow> Head \<times> Appender_impl \<Rightarrow> go_error option \<times> Head \<times> Appender_impl" where
  "Appender_AddFast ref t v (h, HeadAppender a) =
     (case headAppender_AddFast ref t v (h, a) of (r, h, a) \<Rightarrow> (r, h, HeadAppender a))"
| "Appender_AddFast ref t v (h, InitAppender (Some a)) =
     (case headAppender_AddFast ref t v (h, a) of (r, h, a) \<Rightarrow> (r, h, InitAppender (Some a)))"
| "Appender_AddFast ref t v (h, InitAppender None) = (Some ErrNotFound, h, InitAppender None)"

fun Appender_Commit :: "Head \<times> Appender_impl \<Rightarrow> (nat \<times> Head) outcome" where
  "Appender_Commit (h, HeadAppender a) = headAppender_Commit (h, a)"
| "Appender_Commit (h, InitAppender (Some a)) = headAppender_Commit (h, a)"
| "Appender_Commit (h, InitAppender None) = Ok (0, h)"

fun Appender_Rollback :: "Head \<times> Appender_impl \<Rightarrow> Head" where
  "Appender_Rollback (h, HeadAppender a) = headAppender_Rollback (h, a)"
| "Appender_Rollback (h, InitAppender (Some a)) = headAppender_Rollback (h, a)"
| "Appender_Rollback (h, InitAppender None) = h"

section \<open>Garbage collection\<close>

definition gc_symbol :: "Label \<Rightarrow> Postings \<Rightarrow> gostring set \<times> (gostring \<rightharpoonup> gostring set) \<Rightarrow>
    go_error option \<times> gostring set \<times> (gostring \<rightharpoonup> gostring set)" where
  "gc_symbol l p = (\<lambda>(symbols, values).
     (None, insert (Value l) (insert (Name l) symbols),
      values(Name l \<mapsto> insert (Value l) (case values (Name l) of None \<Rightarrow> {} | Some ss \<Rightarrow> ss))))"

text \<open>\<open>keys\<close> is the order in which \<^verbatim>\<open>postings.Iter\<close> visits the label pairs that are left.\<close>

definition Head_gc :: "(u64 \<Rightarrow> u64 list) \<Rightarrow> Label list \<Rightarrow> Head \<Rightarrow> Head" where
  "Head_gc order keys h =
     (let g = stripeSeries_gc order (h_minTime h) (h_heap h) (h_series h);
          postings = MemPostings_Delete (h_postings h) (gc_deleted g);
          (_, symbols, values) = MemPostings_Iter keys postings gc_symbol ({}, Map.empty)
      in h\<lparr>h_heap := gc_heap g, h_series := gc_stripes g, h_postings := postings,
           h_symbols := symbols, h_values := values\<rparr>)"

section \<open>Reading the head\<close>

definition packChunkID :: "u64 \<Rightarrow> u64 \<Rightarrow> u64 outcome" where
  "packChunkID sid cid =
     (if sid > 2 ^ 40 - 1 then Panic
      else if cid > 2 ^ 24 - 1 then Panic
      else Ok (push_bit 24 sid OR cid))"

definition unpackChunkID :: "u64 \<Rightarrow> u64 \<times> u64" where
  "unpackChunkID k = (drop_bit 24 k, drop_bit 40 (push_bit 40 k))"

record rangeReader =
  rr_mint :: int
  rr_maxt :: int

text \<open>\<^verbatim>\<open>indexRange\<close> and \<^verbatim>\<open>chunksRange\<close>: readers of the head limited to a time range.\<close>

definition head_range :: "Head \<Rightarrow> int \<Rightarrow> int \<Rightarrow> rangeReader" where
  "head_range h mint maxt = \<lparr>rr_mint = (if h_minTime h > mint then h_minTime h else mint), rr_maxt = maxt\<rparr>"

record Meta =
  Meta_Ref :: u64
  MinTime :: int
  MaxTime :: int

text \<open>A chunk handed out to a reader: the series and the chunk id, read under the series' lock.\<close>

record safeChunk =
  sc_s :: ptr
  sc_cid :: int

definition safeChunk_Iterator :: "Head \<Rightarrow> safeChunk \<Rightarrow> memIterator outcome" where
  "safeChunk_Iterator h c = memSeries_iterator (h_heap h ! sc_s c) (sc_cid c)"

definition headChunkReader_Chunk :: "Head \<Rightarrow> rangeReader \<Rightarrow> u64 \<Rightarrow> safeChunk outcome" where
  "headChunkReader_Chunk h r ref =
     (let (sid, cid) = unpackChunkID ref in
      case getByID (h_series h) sid of
        None \<Rightarrow> Fail ErrNotFound
      | Some p \<Rightarrow>
          let s = h_heap h ! p in
          case memSeries_chunk s (uint cid) of
            None \<Rightarrow> Fail ErrNotFound
          | Some c \<Rightarrow>
              if \<not> OverlapsClosedInterval c (rr_mint r) (rr_maxt r) then Fail ErrNotFound
              else Ok \<lparr>sc_s = p, sc_cid = uint cid\<rparr>)"

fun series_metas :: "rangeReader \<Rightarrow> memSeries \<Rightarrow> nat \<Rightarrow> memChunk list \<Rightarrow> Meta list outcome" where
  "series_metas r s i [] = Ok []"
| "series_metas r s i (c # cs) =
     (if \<not> OverlapsClosedInterval c (rr_mint r) (rr_maxt r) then series_metas r s (Suc i) cs
      else
        bind_outcome (packChunkID (ms_ref s) (word_of_int (chunkID s (int i)))) (\<lambda>ref.
        bind_outcome (series_metas r s (Suc i) cs) (\<lambda>ms.
          Ok (\<lparr>Meta_Ref = ref, MinTime = mc_minTime c, MaxTime = mc_maxTime c\<rparr> # ms))))"

definition headIndexReader_Series :: "Head \<Rightarrow> rangeReader \<Rightarrow> u64 \<Rightarrow> (Labels \<times> Meta list) outcome" where
  "headIndexReader_Series h r ref =
     (case getByID (h_series h) ref of
        None \<Rightarrow> Fail ErrNotFound
      | Some p \<Rightarrow>
          let s = h_heap h ! p in
          bind_outcome (series_metas r s 0 (ms_chunks s)) (\<lambda>chks. Ok (ms_lset s, chks)))"

definition headIndexReader_LabelValues :: "Head \<Rightarrow> gostring list \<Rightarrow> gostring list outcome" where
  "headIndexReader_LabelValues h names =
     (case names of
        [name] \<Rightarrow> Ok (case h_values h name of None \<Rightarrow> [] | Some vs \<Rightarrow> sorted_list_of_set vs)
      | _ \<Rightarrow> Fail ErrInvalidSize)"

definition headIndexReader_Postings :: "Head \<Rightarrow> gostring \<Rightarrow> gostring \<Rightarrow> Postings" where
  "headIndexReader_Postings h name value = MemPostings_Get (h_postings h) name value"

text \<open>
  Ids sorted by the labels of their series. An id without a series is not less than any other, so
  with one among them the comparison is no order; without one it is, as label sets are unique.
\<close>

definition series_Less :: "Head \<Rightarrow> u64 \<Rightarrow> u64 \<Rightarrow> bool" where
  "series_Less h i j =
     (case (getByID (h_series h) i, getByID (h_series h) j) of
        (Some a, Some b) \<Rightarrow> Compare (ms_lset (h_heap h ! a)) (ms_lset (h_heap h ! b)) < 0
      | _ \<Rightarrow> False)"

definition headIndexReader_SortedPostings :: "Head \<Rightarrow> Postings \<Rightarrow> Postings option" where
  "headIndexReader_SortedPostings h p =
     Option.bind (expand_loop [] p) (\<lambda>(ep, p).
       Some (case Postings_Err p of
               Some e \<Rightarrow> ErrPostings e
             | None \<Rightarrow> newListPostings (sort_Slice (series_Less h) ep)))"

end
