(* ===== verification/Querier.thy ===== *)
theory Querier
  imports MemPostings "HOL-Library.Sublist"
begin

text \<open>
  Selecting series in \<^verbatim>\<open>querier.go\<close>: from label matchers to a postings iterator over the ids
  of the matching series, against any index reader. The interface \<^verbatim>\<open>IndexReader\<close> is a record
  of the functions the code calls, and what the querier relies on is the locale \<open>index_reader\<close>.
\<close>

section \<open>The index reader\<close>

text \<open>
  The label values of one name are a list of strings (tuples of length one). \<open>None\<close> as the result
  of \<open>ix_SortedPostings\<close> would be a call that does not return.
\<close>

record IndexReader =
  ix_LabelValues :: "gostring \<Rightarrow> gostring list outcome"
  ix_Postings :: "gostring \<Rightarrow> gostring \<Rightarrow> Postings outcome"
  ix_SortedPostings :: "Postings \<Rightarrow> Postings option"

fun all_outcomes :: "('a \<Rightarrow> 'b outcome) \<Rightarrow> 'a list \<Rightarrow> 'b list outcome" where
  "all_outcomes f [] = Ok []"
| "all_outcomes f (x # xs) = bind_outcome (f x) (\<lambda>y. bind_outcome (all_outcomes f xs) (\<lambda>ys. Ok (y # ys)))"

section \<open>Matchers to postings\<close>

text \<open>
  The predicate \<^verbatim>\<open>tuplesByPrefix\<close> searches with. The length it cuts the value to is compared
  with the length of the tuple, which is one, and not with that of the value: a prefix of one byte
  makes it slice an empty value out of range.
\<close>

definition prefix_test :: "gostring \<Rightarrow> gostring \<Rightarrow> bool outcome" where
  "prefix_test pfx val =
     (let l = (if length pfx > 1 then length val else length pfx) in
      if l > length val then Panic else Ok (take l val \<ge> pfx))"

function search_outcome :: "(nat \<Rightarrow> bool outcome) \<Rightarrow> nat \<Rightarrow> nat \<Rightarrow> nat outcome" where
  "search_outcome f i j =
     (if i < j then
        (let h = (i + j) div 2 in
         bind_outcome (f h) (\<lambda>ok. if \<not> ok then search_outcome f (h + 1) j else search_outcome f i h))
      else Ok i)"
  by pat_completeness auto
termination
  by (relation "measure (\<lambda>(f, i, j). j - i)") auto

declare search_outcome.simps [simp del]

definition tuplesByPrefix :: "gostring \<Rightarrow> gostring list \<Rightarrow> gostring list outcome" where
  "tuplesByPrefix pfx ts =
     bind_outcome (search_outcome (\<lambda>i. prefix_test pfx (ts ! i)) 0 (length ts)) (\<lambda>i.
       Ok (takeWhile (\<lambda>v. prefix pfx v) (drop i ts)))"

definition postingsForUnsetLabelMatcher :: "IndexReader \<Rightarrow> Matcher \<Rightarrow> Postings outcome" where
  "postingsForUnsetLabelMatcher ix mt =
     bind_outcome (ix_LabelValues ix (Matcher_Name mt)) (\<lambda>tpls.
       let res = filter (\<lambda>v. \<not> Matcher_Matches mt v) tpls in
       bind_outcome (all_outcomes (ix_Postings ix (Matcher_Name mt)) res) (\<lambda>rit.
       bind_outcome (case AllPostingsKey of (n, v) \<Rightarrow> ix_Postings ix n v) (\<lambda>allPostings.
         Ok (Without allPostings (Merge rit)))))"

definition postingsForMatcher :: "IndexReader \<Rightarrow> Matcher \<Rightarrow> Postings outcome" where
  "postingsForMatcher ix mt =
     (if Matcher_Matches mt [] then postingsForUnsetLabelMatcher ix mt
      else case mt of
        EqualMatcher n v \<Rightarrow> ix_Postings ix n v
      | _ \<Rightarrow>
          bind_outcome (ix_LabelValues ix (Matcher_Name mt)) (\<lambda>tpls.
          bind_outcome (case mt of PrefixMatcher n pfx \<Rightarrow> tuplesByPrefix pfx tpls
                                 | _ \<Rightarrow> Ok (filter (Matcher_Matches mt) tpls)) (\<lambda>res.
            if length res = 0 then Ok EmptyPostings
            else bind_outcome (all_outcomes (ix_Postings ix (Matcher_Name mt)) res) (\<lambda>rit. Ok (Merge rit)))))"

definition PostingsForMatchers :: "IndexReader \<Rightarrow> Matcher list \<Rightarrow> Postings outcome option" where
  "PostingsForMatchers ix ms =
     (case all_outcomes (postingsForMatcher ix) ms of
        Ok its \<Rightarrow> map_option Ok (ix_SortedPostings ix (Intersect its))
      | Fail e \<Rightarrow> Some (Fail e)
      | Panic \<Rightarrow> Some Panic)"

fun mergeStrings :: "gostring list \<Rightarrow> gostring list \<Rightarrow> gostring list" where
  "mergeStrings (a # as) (b # bs) =
     (let d = strings_Compare a b in
      if d = 0 then a # mergeStrings as bs
      else if d < 0 then a # mergeStrings as (b # bs)
      else b # mergeStrings (a # as) bs)"
| "mergeStrings [] bs = bs"
| "mergeStrings as [] = as"

section \<open>Prefix search\<close>

lemma search_outcome_Ok:
  "(\<And>k. i \<le> k \<Longrightarrow> k < j \<Longrightarrow> f k = Ok (g k)) \<Longrightarrow> search_outcome f i j = Ok (search_loop g i j)"
proof (induction f i j rule: search_outcome.induct)
  case (1 f i j)
  show ?case
  proof (cases "i < j")
    case True
    let ?h = "(i + j) div 2"
    have h: "f ?h = Ok (g ?h)" "i \<le> ?h" "?h < j" using 1(3) True by auto
    show ?thesis
    proof (cases "g ?h")
      case g: True
      then have "search_outcome f i ?h = Ok (search_loop g i ?h)" using 1(2) [OF True refl h(1)] 1(3) h(3) by auto
      then show ?thesis using True h(1) g
        by (subst search_outcome.simps, subst search_loop.simps) (simp add: Let_def del: bind_outcome_Ok_iff)
    next
      case g: False
      then have "search_outcome f (?h + 1) j = Ok (search_loop g (?h + 1) j)" using 1(1) [OF True refl h(1)] 1(3) h(2) by auto
      then show ?thesis using True h(1) g
        by (subst search_outcome.simps, subst search_loop.simps) (simp add: Let_def del: bind_outcome_Ok_iff)
    qed
  next
    case False
    then show ?thesis by (subst search_outcome.simps, subst search_loop.simps) simp
  qed
qed

lemma prefix_between: "pfx \<le> v \<Longrightarrow> v \<le> w \<Longrightarrow> prefix pfx w \<Longrightarrow> prefix pfx v" for v w :: gostring
proof (induction pfx arbitrary: v w)
  case (Cons a pfx)
  then obtain w' where w: "w = a # w'" "prefix pfx w'" by (cases w) auto
  with Cons.prems show ?case using Cons.IH by (cases v) auto
qed simp

lemma prefix_le: "prefix pfx v \<Longrightarrow> pfx \<le> v" for v :: gostring
proof (induction pfx arbitrary: v)
  case (Cons a pfx)
  then show ?case by (cases v) auto
qed simp

lemma prefix_test_le: "pfx \<noteq> [] \<Longrightarrow> v \<noteq> [] \<Longrightarrow> prefix_test pfx v = Ok (pfx \<le> v)"
  by (cases pfx; cases v; cases "tl pfx") (auto simp: prefix_test_def Let_def)

lemma takeWhile_prefix:
  "sorted_wrt (<) ts \<Longrightarrow> \<forall>v \<in> set ts. pfx \<le> v \<Longrightarrow> takeWhile (prefix pfx) ts = filter (prefix pfx) ts" for ts :: "gostring list"
proof (induction ts)
  case (Cons v ts)
  show ?case
  proof (cases "prefix pfx v")
    case False
    then have "\<not> prefix pfx w" if "w \<in> set ts" for w
      using that Cons.prems prefix_between [of pfx v w] by (auto simp: less_imp_le)
    with False show ?thesis by simp
  qed (use Cons in simp)
qed simp

lemma tuplesByPrefix_filter:
  assumes "sorted_wrt (<) ts" "pfx \<noteq> []" "[] \<notin> set ts"
  shows "tuplesByPrefix pfx ts = Ok (filter (prefix pfx) ts)"
proof -
  have "ts ! k \<noteq> []" if "k < length ts" for k using assms(3) that nth_mem by metis
  then have "search_outcome (\<lambda>i. prefix_test pfx (ts ! i)) 0 (length ts) = Ok (sort_Search (length ts) (\<lambda>i. pfx \<le> ts ! i))"
    unfolding sort_Search_def using assms(2) by (intro search_outcome_Ok) (simp add: prefix_test_le)
  moreover have "drop (sort_Search (length ts) (\<lambda>i. pfx \<le> ts ! i)) ts = filter (\<lambda>v. pfx \<le> v) ts"
    by (rule search_drop [OF assms(1)]) simp
  moreover have "takeWhile (prefix pfx) (filter (\<lambda>v. pfx \<le> v) ts) = filter (prefix pfx) ts"
  proof -
    have "takeWhile (prefix pfx) (filter (\<lambda>v. pfx \<le> v) ts) = filter (prefix pfx) (filter (\<lambda>v. pfx \<le> v) ts)"
      using assms(1) by (intro takeWhile_prefix) (auto intro: sorted_wrt_filter)
    also have "\<dots> = filter (prefix pfx) ts" by (auto intro!: filter_cong dest: prefix_le)
    finally show ?thesis .
  qed
  ultimately show ?thesis by (simp add: tuplesByPrefix_def)
qed

section \<open>The contract of an index reader\<close>

definition valid_lset :: "Labels \<Rightarrow> bool" where
  "valid_lset lset \<longleftrightarrow> distinct (map Name lset) \<and> list_all (\<lambda>l. Name l \<noteq> [] \<and> Value l \<noteq> []) lset"

lemma valid_lset_keys: "valid_lset ls \<Longrightarrow> distinct ls \<and> allPostingsKey \<notin> set ls"
  by (auto simp: valid_lset_def allPostingsKey_def list_all_iff distinct_map)

lemma Labels_Get_mem:
  assumes "valid_lset ls" "v \<noteq> []"
  shows "Labels_Get ls n = v \<longleftrightarrow> \<lparr>Name = n, Value = v\<rparr> \<in> set ls"
  using assms
proof (induction ls)
  case (Cons l ls)
  have ls: "valid_lset ls" using Cons.prems(1) by (simp add: valid_lset_def)
  show ?case
  proof (cases "Name l = n")
    case True
    then have "\<lparr>Name = n, Value = v\<rparr> \<notin> set ls" using Cons.prems(1) by (force simp: valid_lset_def image_iff)
    then show ?thesis using True by (cases l) auto
  next
    case False
    then show ?thesis using Cons.IH [OF ls Cons.prems(2)] by auto
  qed
qed simp

text \<open>The ids of the series whose labels satisfy \<open>P\<close>.\<close>

definition selected :: "(u64 \<times> Labels) set \<Rightarrow> (Labels \<Rightarrow> bool) \<Rightarrow> u64 set" where
  "selected R P = {k. \<exists>ls. (k, ls) \<in> R \<and> P ls}"

text \<open>A new iterator of a shape the combinators support, over a set of ids and without an error.\<close>

definition selects :: "u64 \<Rightarrow> Postings \<Rightarrow> u64 set \<Rightarrow> bool" where
  "selects K p X \<longleftrightarrow> (\<exists>s. ishape s \<and> fresh K s p \<and> shape_err s = None \<and> rem p = X)"

definition matches_label :: "Matcher \<Rightarrow> Labels \<Rightarrow> bool" where
  "matches_label mt ls \<longleftrightarrow> Matcher_Matches mt (Labels_Get ls (Matcher_Name mt))"

text \<open>
  An index reader of a state \<open>h\<close> represents the series \<open>series h\<close>: it knows at least their label
  values, in order, and its postings for a label pair are new iterators over exactly the ids of
  the series that have it. \<open>top\<close> bounds the ids.
\<close>

locale index_reader =
  fixes reader_inv :: "'h \<Rightarrow> bool"
    and ix :: "'h \<Rightarrow> IndexReader"
    and series :: "'h \<Rightarrow> (u64 \<times> Labels) set"
    and top :: "'h \<Rightarrow> u64"
  assumes labels_law: "reader_inv h \<Longrightarrow> (k, ls) \<in> series h \<Longrightarrow> valid_lset ls"
    and unique_law: "reader_inv h \<Longrightarrow> (k, ls) \<in> series h \<Longrightarrow> (k, ls') \<in> series h \<Longrightarrow> ls' = ls"
    and values_law: "reader_inv h \<Longrightarrow> name \<noteq> [] \<Longrightarrow> \<exists>vs. ix_LabelValues (ix h) name = Ok vs \<and> sorted_wrt (<) vs \<and> [] \<notin> set vs
      \<and> (\<forall>(k, ls) \<in> series h. \<forall>v. \<lparr>Name = name, Value = v\<rparr> \<in> set ls \<longrightarrow> v \<in> set vs)"
    and postings_law: "reader_inv h \<Longrightarrow> \<exists>p s. ix_Postings (ix h) name value = Ok p \<and> mshape s \<and> fresh (top h) s p \<and> shape_err s = None
      \<and> rem p = series_with (series h) \<lparr>Name = name, Value = value\<rparr>"
begin

lemma postings_values:
  assumes "reader_inv h"
  shows "\<exists>rit. all_outcomes (ix_Postings (ix h) name) vs = Ok rit \<and> (\<forall>p \<in> set rit. \<exists>s. mshape s \<and> fresh (top h) s p \<and> shape_err s = None)
    \<and> (\<Union>p \<in> set rit. rem p) = (\<Union>v \<in> set vs. series_with (series h) \<lparr>Name = name, Value = v\<rparr>) \<and> length rit = length vs"
proof (induction vs)
  case (Cons v vs)
  then obtain rit where "all_outcomes (ix_Postings (ix h) name) vs = Ok rit" "\<forall>p \<in> set rit. \<exists>s. mshape s \<and> fresh (top h) s p \<and> shape_err s = None"
    "(\<Union>p \<in> set rit. rem p) = (\<Union>v \<in> set vs. series_with (series h) \<lparr>Name = name, Value = v\<rparr>)" "length rit = length vs" by blast
  moreover obtain p s where "ix_Postings (ix h) name v = Ok p" "mshape s" "fresh (top h) s p" "shape_err s = None"
    "rem p = series_with (series h) \<lparr>Name = name, Value = v\<rparr>" using postings_law [OF assms] by blast
  ultimately show ?case by auto
qed simp

lemma merged_values:
  assumes "reader_inv h"
  shows "\<exists>rit s. all_outcomes (ix_Postings (ix h) name) vs = Ok rit \<and> mshape s \<and> fresh (top h) s (Merge rit) \<and> shape_err s = None
    \<and> rem (Merge rit) = (\<Union>v \<in> set vs. series_with (series h) \<lparr>Name = name, Value = v\<rparr>)"
proof -
  obtain rit where rit: "all_outcomes (ix_Postings (ix h) name) vs = Ok rit" "\<forall>p \<in> set rit. \<exists>s. mshape s \<and> fresh (top h) s p \<and> shape_err s = None"
    "(\<Union>p \<in> set rit. rem p) = (\<Union>v \<in> set vs. series_with (series h) \<lparr>Name = name, Value = v\<rparr>)"
    using postings_values [OF assms] by blast
  have "\<forall>p \<in> set rit. Postings_Err p = None" using rit(2) inv_err by (fastforce simp: fresh_def)
  then have "first_err (map Postings_Err rit) = None" by (induction rit) auto
  moreover have "\<forall>p \<in> set rit. \<exists>s. mshape s \<and> fresh (top h) s p" using rit(2) by blast
  ultimately show ?thesis using Merge_fresh [of rit "top h"] rit(1,3) by auto
qed

end

context index_reader
begin

text \<open>The ids with one of some label values, seen from the labels of the series.\<close>

lemma series_with_values:
  assumes inv: "reader_inv h" and "[] \<notin> set vs"
  shows "(\<Union>v \<in> set vs. series_with (series h) \<lparr>Name = n, Value = v\<rparr>) = selected (series h) (\<lambda>ls. Labels_Get ls n \<in> set vs)"
proof -
  have "k \<in> series_with (series h) \<lparr>Name = n, Value = v\<rparr> \<longleftrightarrow> (\<exists>ls. (k, ls) \<in> series h \<and> Labels_Get ls n = v)" if "v \<in> set vs" for k v
  proof -
    have v: "v \<noteq> []" using assms(2) that by auto
    then have "\<lparr>Name = n, Value = v\<rparr> \<noteq> allPostingsKey" by (simp add: allPostingsKey_def)
    then show ?thesis using Labels_Get_mem [OF labels_law [OF inv] v] by (auto simp: series_with_def)
  qed
  then show ?thesis by (auto simp: selected_def)
qed

lemma known_value:
  assumes "reader_inv h" "ix_LabelValues (ix h) n = Ok vs" "n \<noteq> []" "(k, ls) \<in> series h" "Labels_Get ls n \<noteq> []"
  shows "Labels_Get ls n \<in> set vs"
  using values_law [OF assms(1,3)] assms(2,4) Labels_Get_mem [OF labels_law [OF assms(1,4)] assms(5), of n] by fastforce

lemma selected_values:
  assumes inv: "reader_inv h" and n: "n \<noteq> []" and vs: "ix_LabelValues (ix h) n = Ok vs" "[] \<notin> set vs" and P: "\<not> P []"
  shows "selected (series h) (\<lambda>ls. Labels_Get ls n \<in> set (filter P vs)) = selected (series h) (\<lambda>ls. P (Labels_Get ls n))"
  using known_value [OF inv vs(1) n] P unfolding selected_def by fastforce

lemma unset_matcher:
  assumes inv: "reader_inv h" and n: "Matcher_Name mt \<noteq> []" and empty: "Matcher_Matches mt []"
  shows "\<exists>p. postingsForUnsetLabelMatcher (ix h) mt = Ok p \<and> selects (top h) p (selected (series h) (matches_label mt))"
proof -
  let ?n = "Matcher_Name mt"
  obtain vs where vs: "ix_LabelValues (ix h) ?n = Ok vs" "[] \<notin> set vs" using values_law [OF inv n] by blast
  let ?res = "filter (\<lambda>v. \<not> Matcher_Matches mt v) vs"
  obtain rit s where rit: "all_outcomes (ix_Postings (ix h) ?n) ?res = Ok rit" "mshape s" "fresh (top h) s (Merge rit)" "shape_err s = None"
    "rem (Merge rit) = (\<Union>v \<in> set ?res. series_with (series h) \<lparr>Name = ?n, Value = v\<rparr>)"
    using merged_values [OF inv, of ?n ?res] by blast
  obtain p t where p: "ix_Postings (ix h) [] [] = Ok p" "mshape t" "fresh (top h) t p" "shape_err t = None"
    "rem p = series_with (series h) allPostingsKey" using postings_law [OF inv, of "[]" "[]"] unfolding allPostingsKey_def by blast
  have drop: "rem (Merge rit) = selected (series h) (\<lambda>ls. \<not> matches_label mt ls)"
    unfolding rit(5) matches_label_def using series_with_values [OF inv, of ?res] selected_values [OF inv n vs, of "\<lambda>v. \<not> Matcher_Matches mt v"] vs(2) empty
    by simp
  have "rem p - rem (Merge rit) = selected (series h) (matches_label mt)"
    unfolding p(5) drop using unique_law [OF inv] by (auto simp: series_with_def selected_def)
  then have "rem (Without p (Merge rit)) = selected (series h) (matches_label mt)" by (simp add: Without_def newRemovedPostings_def)
  moreover have "postingsForUnsetLabelMatcher (ix h) mt = Ok (Without p (Merge rit))"
    using vs(1) rit(1) p(1) by (simp add: postingsForUnsetLabelMatcher_def AllPostingsKey_def allPostingsKey_def)
  ultimately show ?thesis using fresh_without [OF p(3) rit(3)] p(2,4) rit(2,4)
    by (auto simp: selects_def intro!: exI [of _ "WithoutS t s"])
qed

lemma set_matcher:
  assumes inv: "reader_inv h" and n: "Matcher_Name mt \<noteq> []" and empty: "\<not> Matcher_Matches mt []"
  shows "\<exists>p. postingsForMatcher (ix h) mt = Ok p \<and> selects (top h) p (selected (series h) (matches_label mt))"
proof (cases "\<exists>n v. mt = EqualMatcher n v")
  case True
  then obtain n v where mt: "mt = EqualMatcher n v" by blast
  have v: "v \<noteq> []" using empty mt by simp
  obtain p s where p: "ix_Postings (ix h) n v = Ok p" "mshape s" "fresh (top h) s p" "shape_err s = None"
    "rem p = series_with (series h) \<lparr>Name = n, Value = v\<rparr>" using postings_law [OF inv] by blast
  have "rem p = selected (series h) (matches_label mt)"
    unfolding p(5) using series_with_values [OF inv, of "[v]" n] v by (simp add: matches_label_def [abs_def] mt)
  moreover have "ishape s" using p(2) by (cases s) auto
  ultimately show ?thesis using p(1,3,4) v by (auto simp: postingsForMatcher_def mt selects_def)
next
  case False
  let ?n = "Matcher_Name mt"
  obtain vs where vs: "ix_LabelValues (ix h) ?n = Ok vs" "[] \<notin> set vs" "sorted_wrt (<) vs" using values_law [OF inv n] by blast
  let ?res = "filter (Matcher_Matches mt) vs"
  have res: "(case mt of PrefixMatcher n pfx \<Rightarrow> tuplesByPrefix pfx vs | _ \<Rightarrow> Ok (filter (Matcher_Matches mt) vs)) = Ok ?res"
    using tuplesByPrefix_filter [OF vs(3) _ vs(2)] empty by (cases mt) (auto intro!: filter_cong)
  obtain rit s where rit: "all_outcomes (ix_Postings (ix h) ?n) ?res = Ok rit" "mshape s" "fresh (top h) s (Merge rit)" "shape_err s = None"
    "rem (Merge rit) = (\<Union>v \<in> set ?res. series_with (series h) \<lparr>Name = ?n, Value = v\<rparr>)"
    using merged_values [OF inv, of ?n ?res] by blast
  have sel: "rem (Merge rit) = selected (series h) (matches_label mt)"
    unfolding rit(5) matches_label_def using series_with_values [OF inv, of ?res] selected_values [OF inv n vs(1,2), of "Matcher_Matches mt"] vs(2) empty
    by simp
  have "postingsForMatcher (ix h) mt = (if ?res = [] then Ok EmptyPostings else Ok (Merge rit))"
    using False empty vs(1) res rit(1) by (cases mt) (auto simp: postingsForMatcher_def)
  moreover have "EmptyPostings = Merge rit" if "?res = []" using that rit(1) by simp
  ultimately have "postingsForMatcher (ix h) mt = Ok (Merge rit)" by (auto split: if_splits)
  moreover have "ishape s" using rit(2) by (cases s) auto
  ultimately show ?thesis using rit(3,4) sel by (auto simp: selects_def)
qed

lemma postingsForMatcher_selects:
  assumes "reader_inv h" "Matcher_Name mt \<noteq> []"
  shows "\<exists>p. postingsForMatcher (ix h) mt = Ok p \<and> selects (top h) p (selected (series h) (matches_label mt))"
proof (cases "Matcher_Matches mt []")
  case True
  then show ?thesis using unset_matcher [OF assms True] by (simp add: postingsForMatcher_def)
qed (rule set_matcher [OF assms])

lemma matchers_select:
  assumes "reader_inv h" "\<forall>mt \<in> set ms. Matcher_Name mt \<noteq> []"
  shows "\<exists>its. all_outcomes (postingsForMatcher (ix h)) ms = Ok its \<and> length its = length ms
    \<and> (\<forall>p \<in> set its. \<exists>s. ishape s \<and> fresh (top h) s p \<and> shape_err s = None)
    \<and> (\<Inter>p \<in> set its. rem p) = (\<Inter>mt \<in> set ms. selected (series h) (matches_label mt))"
  using assms(2)
proof (induction ms)
  case (Cons mt ms)
  have "Matcher_Name mt \<noteq> []" using Cons.prems by simp
  from postingsForMatcher_selects [OF assms(1) this] obtain p where
    p: "postingsForMatcher (ix h) mt = Ok p" "selects (top h) p (selected (series h) (matches_label mt))" by blast
  obtain its where its: "all_outcomes (postingsForMatcher (ix h)) ms = Ok its" "length its = length ms"
    "\<forall>p \<in> set its. \<exists>s. ishape s \<and> fresh (top h) s p \<and> shape_err s = None"
    "(\<Inter>p \<in> set its. rem p) = (\<Inter>mt \<in> set ms. selected (series h) (matches_label mt))"
    using Cons.IH Cons.prems by (metis list.set_intros(2))
  show ?case using p its by (intro exI [of _ "p # its"]) (auto simp: selects_def)
qed simp

text \<open>The ids behind a non-empty list of matchers are those of the series that all of them match.\<close>

lemma Intersect_selects:
  assumes inv: "reader_inv h" and ms: "ms \<noteq> []" "\<forall>mt \<in> set ms. Matcher_Name mt \<noteq> []"
  shows "\<exists>its. all_outcomes (postingsForMatcher (ix h)) ms = Ok its \<and> selects (top h) (Intersect its) (selected (series h) (Selector_Matches ms))"
proof -
  obtain its where its: "all_outcomes (postingsForMatcher (ix h)) ms = Ok its" "length its = length ms"
    "\<forall>p \<in> set its. \<exists>s. ishape s \<and> fresh (top h) s p \<and> shape_err s = None"
    "(\<Inter>p \<in> set its. rem p) = (\<Inter>mt \<in> set ms. selected (series h) (matches_label mt))"
    using matchers_select [OF inv ms(2)] by blast
  have "its \<noteq> []" using its(2) ms(1) by auto
  moreover have "\<forall>p \<in> set its. Postings_Err p = None" using its(3) inv_err by (fastforce simp: fresh_def)
  then have "first_err (map Postings_Err its) = None" by (induction its) auto
  ultimately obtain s where s: "ishape s" "fresh (top h) s (Intersect its)" "rem (Intersect its) = (\<Inter>p \<in> set its. rem p)" "shape_err s = None"
    using Intersect_fresh [of its "top h"] its(3) by metis
  have "Selector_Matches qs ls \<longleftrightarrow> (\<forall>mt \<in> set qs. matches_label mt ls)" for qs ls by (induction qs) (auto simp: matches_label_def)
  then have sel: "k \<in> selected (series h) (Selector_Matches ms) \<longleftrightarrow> (\<exists>ls. (k, ls) \<in> series h \<and> (\<forall>mt \<in> set ms. matches_label mt ls))" for k
    by (simp add: selected_def)
  have "k \<in> (\<Inter>mt \<in> set ms. selected (series h) (matches_label mt)) \<longleftrightarrow> k \<in> selected (series h) (Selector_Matches ms)" for k
  proof
    assume k: "k \<in> (\<Inter>mt \<in> set ms. selected (series h) (matches_label mt))"
    then obtain ls where ls: "(k, ls) \<in> series h" using ms(1) by (cases ms) (auto simp: selected_def)
    have "matches_label mt ls" if "mt \<in> set ms" for mt using k that unique_law [OF inv ls] by (auto simp: selected_def)
    with ls sel show "k \<in> selected (series h) (Selector_Matches ms)" by blast
  next
    assume "k \<in> selected (series h) (Selector_Matches ms)"
    then show "k \<in> (\<Inter>mt \<in> set ms. selected (series h) (matches_label mt))" unfolding sel by (auto simp: selected_def)
  qed
  then have "rem (Intersect its) = selected (series h) (Selector_Matches ms)" unfolding s(3) its(4) by blast
  with s(1,2,4) its(1) show ?thesis unfolding selects_def by blast
qed

end

end
