(* ===== verification/Head_Laws.thy ===== *)
theory Head_Laws
  imports Head Querier
begin

text \<open>
  The invariant of the head and what its operations keep of it: the two maps of series agree with
  each other, with the postings index and with the label values, and every series in the store holds a
  sequence of samples. What a client can read of a series is \<open>samples_of\<close>.
\<close>

section \<open>The striped maps\<close>

definition stripes_inv :: "(Labels \<Rightarrow> u64) \<Rightarrow> store \<Rightarrow> stripeSeries \<Rightarrow> bool" where
  "stripes_inv hash st s \<longleftrightarrow>
     (\<forall>i k p. ss_series s i k = Some p \<longrightarrow> i = k AND stripeMask \<and> p < length st \<and> ms_ref (st ! p) = k
        \<and> (let x = hash (ms_lset (st ! p)) in p \<in> set (ss_hashes s (x AND stripeMask) x)))
   \<and> (\<forall>i x p. p \<in> set (ss_hashes s i x) \<longrightarrow> i = x AND stripeMask \<and> p < length st \<and> hash (ms_lset (st ! p)) = x
        \<and> getByID s (ms_ref (st ! p)) = Some p)
   \<and> (\<forall>i x. distinct (map (\<lambda>p. ms_lset (st ! p)) (ss_hashes s i x)))"

lemma stripes_invI:
  assumes "\<And>i k p. ss_series s i k = Some p \<Longrightarrow> i = k AND stripeMask \<and> p < length st \<and> ms_ref (st ! p) = k
        \<and> (let x = hash (ms_lset (st ! p)) in p \<in> set (ss_hashes s (x AND stripeMask) x))"
    and "\<And>i x p. p \<in> set (ss_hashes s i x) \<Longrightarrow> i = x AND stripeMask \<and> p < length st \<and> hash (ms_lset (st ! p)) = x
        \<and> getByID s (ms_ref (st ! p)) = Some p"
    and "\<And>i x. distinct (map (\<lambda>p. ms_lset (st ! p)) (ss_hashes s i x))"
  shows "stripes_inv hash st s"
  using assms unfolding stripes_inv_def by blast

lemma stripes_inv_id:
  assumes "stripes_inv hash st s" "getByID s k = Some p"
  shows "p < length st" "ms_ref (st ! p) = k"
    "p \<in> set (ss_hashes s (hash (ms_lset (st ! p)) AND stripeMask) (hash (ms_lset (st ! p))))"
  using assms unfolding stripes_inv_def getByID_def by (auto simp: Let_def)

lemma stripes_inv_hash:
  assumes "stripes_inv hash st s" "p \<in> set (ss_hashes s i x)"
  shows "i = x AND stripeMask" "p < length st" "hash (ms_lset (st ! p)) = x" "getByID s (ms_ref (st ! p)) = Some p"
  using assms unfolding stripes_inv_def by blast+

lemma stripes_inv_distinct: "stripes_inv hash st s \<Longrightarrow> distinct (map (\<lambda>p. ms_lset (st ! p)) (ss_hashes s i x))"
  unfolding stripes_inv_def by blast

lemma stripes_inv_new: "stripes_inv hash st newStripeSeries"
  by (auto simp: stripes_inv_def newStripeSeries_def)

text \<open>The invariant only depends on the ids and the labels of the series in the store.\<close>

definition same_ids :: "store \<Rightarrow> store \<Rightarrow> bool" where
  "same_ids st st' \<longleftrightarrow> length st \<le> length st' \<and>
     (\<forall>p < length st. ms_ref (st' ! p) = ms_ref (st ! p) \<and> ms_lset (st' ! p) = ms_lset (st ! p))"

lemma same_idsD: "same_ids st st' \<Longrightarrow> p < length st \<Longrightarrow> p < length st' \<and> ms_ref (st' ! p) = ms_ref (st ! p) \<and> ms_lset (st' ! p) = ms_lset (st ! p)"
  by (auto simp: same_ids_def)

lemma stripes_inv_store:
  assumes "stripes_inv hash st s" "same_ids st st'"
  shows "stripes_inv hash st' s"
proof (rule stripes_invI)
  fix i k p assume "ss_series s i k = Some p"
  with assms(1) have p: "i = k AND stripeMask" "p < length st" "ms_ref (st ! p) = k"
    "p \<in> set (ss_hashes s (hash (ms_lset (st ! p)) AND stripeMask) (hash (ms_lset (st ! p))))"
    unfolding stripes_inv_def by (auto simp: Let_def)
  with same_idsD [OF assms(2) p(2)] show "i = k AND stripeMask \<and> p < length st' \<and> ms_ref (st' ! p) = k
      \<and> (let x = hash (ms_lset (st' ! p)) in p \<in> set (ss_hashes s (x AND stripeMask) x))" by simp
next
  fix i x p assume "p \<in> set (ss_hashes s i x)"
  from stripes_inv_hash [OF assms(1) this] same_idsD [OF assms(2)]
  show "i = x AND stripeMask \<and> p < length st' \<and> hash (ms_lset (st' ! p)) = x \<and> getByID s (ms_ref (st' ! p)) = Some p" by simp
next
  fix i x
  have "map (\<lambda>p. ms_lset (st' ! p)) (ss_hashes s i x) = map (\<lambda>p. ms_lset (st ! p)) (ss_hashes s i x)"
    using stripes_inv_hash(2) [OF assms(1)] same_idsD [OF assms(2)] by simp
  then show "distinct (map (\<lambda>p. ms_lset (st' ! p)) (ss_hashes s i x))" using stripes_inv_distinct [OF assms(1)] by (simp only:)
qed

lemma find_series_None: "find_series st ps lset = None \<longleftrightarrow> (\<forall>p \<in> set ps. ms_lset (st ! p) \<noteq> lset)"
  by (induction ps) (auto simp: Equals_iff)

lemma find_series_Some: "find_series st ps lset = Some p \<Longrightarrow> p \<in> set ps \<and> ms_lset (st ! p) = lset"
  by (induction ps) (auto simp: Equals_iff split: if_splits)

lemma find_series_mem:
  "distinct (map (\<lambda>p. ms_lset (st ! p)) ps) \<Longrightarrow> p \<in> set ps \<Longrightarrow> find_series st ps (ms_lset (st ! p)) = Some p"
  by (induction ps) (auto simp: Equals_iff)

lemma find_series_cong: "(\<And>p. p \<in> set ps \<Longrightarrow> ms_lset (st' ! p) = ms_lset (st ! p)) \<Longrightarrow> find_series st' ps lset = find_series st ps lset"
  by (induction ps) auto

lemma set_series_new: "find_series st ps (ms_lset (st ! p)) = None \<Longrightarrow> set_series st ps p = ps @ [p]"
  by (induction ps) (auto simp: Equals_iff split: if_splits)

lemma getByHash_iff:
  assumes "stripes_inv hash st s"
  shows "getByHash st s (hash lset) lset = Some p \<longleftrightarrow> getByID s (ms_ref (st ! p)) = Some p \<and> ms_lset (st ! p) = lset"
proof
  assume "getByHash st s (hash lset) lset = Some p"
  then have p: "p \<in> set (ss_hashes s (hash lset AND stripeMask) (hash lset))" "ms_lset (st ! p) = lset"
    unfolding getByHash_def seriesHashmap_get_def using find_series_Some by blast+
  with stripes_inv_hash [OF assms p(1)] show "getByID s (ms_ref (st ! p)) = Some p \<and> ms_lset (st ! p) = lset" by simp
next
  assume p: "getByID s (ms_ref (st ! p)) = Some p \<and> ms_lset (st ! p) = lset"
  with stripes_inv_id(3) [OF assms] have "p \<in> set (ss_hashes s (hash lset AND stripeMask) (hash lset))" by blast
  from find_series_mem [OF stripes_inv_distinct [OF assms] this] p
  show "getByHash st s (hash lset) lset = Some p" by (simp add: getByHash_def seriesHashmap_get_def)
qed

lemma getByHash_store:
  assumes "stripes_inv hash st s" "same_ids st st'"
  shows "getByHash st' s (hash lset) lset = getByHash st s (hash lset) lset"
proof -
  have "find_series st' (ss_hashes s i x) lset = find_series st (ss_hashes s i x) lset" for i x
    using stripes_inv_hash(2) [OF assms(1)] same_idsD [OF assms(2)] by (intro find_series_cong) blast
  then show ?thesis by (simp add: getByHash_def seriesHashmap_get_def)
qed

text \<open>Registering a series that is in neither map.\<close>

lemma getOrSet_new:
  assumes inv: "stripes_inv hash st s" and p: "p < length st" "getByID s (ms_ref (st ! p)) = None"
    and new: "getByHash st s (hash (ms_lset (st ! p))) (ms_lset (st ! p)) = None"
  shows "\<exists>s'. getOrSet st s (hash (ms_lset (st ! p))) p = ((p, True), s') \<and> stripes_inv hash st s'
    \<and> getByID s' = (getByID s)(ms_ref (st ! p) \<mapsto> p)"
proof -
  let ?x = "hash (ms_lset (st ! p))" and ?k = "ms_ref (st ! p)"
  let ?i = "?x AND stripeMask" and ?j = "?k AND stripeMask"
  let ?hs = "(ss_hashes s)(?i := (ss_hashes s ?i)(?x := ss_hashes s ?i ?x @ [p]))"
  let ?s = "s\<lparr>ss_hashes := ?hs, ss_series := (ss_series s)(?j := (ss_series s ?j)(?k \<mapsto> p))\<rparr>"
  have none: "find_series st (ss_hashes s ?i ?x) (ms_lset (st ! p)) = None"
    using new by (simp add: getByHash_def seriesHashmap_get_def)
  then have "getOrSet st s ?x p = ((p, True), ?s)"
    by (simp add: getOrSet_def seriesHashmap_get_def seriesHashmap_set_def set_series_new Let_def)
  moreover have id': "getByID ?s = (getByID s)(?k \<mapsto> p)" by (auto simp: getByID_def fun_eq_iff)
  moreover have "stripes_inv hash st ?s"
  proof (rule stripes_invI)
    fix i k q assume "ss_series ?s i k = Some q"
    then consider "i = ?j" "k = ?k" "q = p" | "ss_series s i k = Some q"
      by (cases "i = ?j"; cases "k = ?k") simp_all
    then show "i = k AND stripeMask \<and> q < length st \<and> ms_ref (st ! q) = k
        \<and> (let x = hash (ms_lset (st ! q)) in q \<in> set (ss_hashes ?s (x AND stripeMask) x))"
    proof cases
      case 1
      then show ?thesis using p(1) by simp
    next
      case 2
      with inv have "i = k AND stripeMask \<and> q < length st \<and> ms_ref (st ! q) = k
        \<and> (let x = hash (ms_lset (st ! q)) in q \<in> set (ss_hashes s (x AND stripeMask) x))" unfolding stripes_inv_def by blast
      then show ?thesis by (auto simp: Let_def)
    qed
  next
    fix i x q assume "q \<in> set (ss_hashes ?s i x)"
    then consider "i = ?i" "x = ?x" "q = p" | "q \<in> set (ss_hashes s i x)"
      by (cases "i = ?i"; cases "x = ?x") auto
    then show "i = x AND stripeMask \<and> q < length st \<and> hash (ms_lset (st ! q)) = x \<and> getByID ?s (ms_ref (st ! q)) = Some q"
    proof cases
      case 1
      then show ?thesis using p(1) unfolding id' by simp
    next
      case 2
      from stripes_inv_hash [OF inv 2] p(2) show ?thesis unfolding id' by auto
    qed
  next
    fix i x
    show "distinct (map (\<lambda>q. ms_lset (st ! q)) (ss_hashes ?s i x))"
      using stripes_inv_distinct [OF inv] none by (auto simp: find_series_None)
  qed
  ultimately show ?thesis by blast
qed

section \<open>A series and its samples\<close>

text \<open>The abstract series is the list of its samples; a sample that is not newer than the last is refused.\<close>

definition accept :: "sample list \<Rightarrow> sample \<Rightarrow> sample list" where
  "accept xs x = (if xs = [] \<or> fst (last xs) < fst x then xs @ [x] else xs)"

definition holds_samples :: "int \<Rightarrow> memSeries \<Rightarrow> sample list \<Rightarrow> bool" where
  "holds_samples w s xs \<longleftrightarrow> (\<exists>css. series_rep s css \<and> concat css = xs) \<and> series_range s \<and> ms_chunkRange s = w"

lemma holds_samples_read: "holds_samples w s xs \<Longrightarrow> read_series s = Ok xs"
  by (auto simp: holds_samples_def read_series_rep)

lemma holds_samples_new: "width_ok w \<Longrightarrow> holds_samples w (newMemSeries lset k w) []"
  using series_rep_new [of lset k w] series_range_new [of w lset k]
  by (auto simp: holds_samples_def newMemSeries_def)

lemma holds_samples_pending: "holds_samples w (s\<lparr>pendingCommit := b\<rparr>) xs = holds_samples w s xs"
  by (simp add: holds_samples_def series_rep_def open_rep_def series_range_def)

lemma holds_samples_increasing: "holds_samples w s xs \<Longrightarrow> increasing xs"
  by (auto simp: holds_samples_def series_rep_def)

lemma holds_samples_nil: "holds_samples w s xs \<Longrightarrow> ms_chunks s = [] \<longleftrightarrow> xs = []"
  using series_rep_last(5) by (fastforce simp: holds_samples_def series_rep_def)

lemma holds_samples_append:
  assumes "holds_samples w s xs" "time_ok t" "length xs < 65535"
  shows "\<exists>ok created s'. memSeries_append t v s = Ok ((ok, created), s') \<and> holds_samples w s' (accept xs (t, v)) \<and> same_series s s'
    \<and> (ok \<longleftrightarrow> xs = [] \<or> fst (last xs) < t)"
proof -
  obtain css where r: "series_rep s css" "concat css = xs" "series_range s" "ms_chunkRange s = w"
    using assms(1) by (auto simp: holds_samples_def)
  show ?thesis
  proof (cases "xs \<noteq> [] \<and> t \<le> fst (last xs)")
    case True
    then have "css \<noteq> []" using r(2) by auto
    moreover from this True have "t \<le> fst (last (last css))" using r(2) series_rep_last(6) [OF r(1)] by simp
    ultimately have "css \<noteq> []" "t \<le> fst (last (last css))" by simp_all
    from memSeries_append_old [OF r(1) this] assms(1) True show ?thesis
      by (auto simp: accept_def same_series_def)
  next
    case False
    have "css \<noteq> [] \<Longrightarrow> fst (last (last css)) < t" using False r series_rep_last(5,6) [OF r(1)] by auto
    moreover have "css \<noteq> [] \<Longrightarrow> length (last css) < 65535" using assms(3) r(2) by (cases css rule: rev_cases) auto
    ultimately obtain b s' css' where s': "memSeries_append t v s = Ok ((True, b), s')" "series_rep s' css'"
      "series_grows t v css css'" "series_range s'" "same_series s s'"
      using memSeries_append_new [OF r(1,3) assms(2), of v] by blast
    moreover have "holds_samples w s' (accept xs (t, v))"
      using s' r False series_grows_concat [OF s'(3)] by (auto simp: holds_samples_def accept_def same_series_def)
    ultimately show ?thesis using False by auto
  qed
qed

lemma holds_samples_truncate:
  assumes "holds_samples w s xs"
  shows "\<exists>zs. holds_samples w (snd (truncateChunksBefore mint s)) zs \<and> suffix zs xs \<and> (\<forall>x \<in> set xs. mint \<le> fst x \<longrightarrow> x \<in> set zs)"
proof -
  let ?k = "fst (truncateChunksBefore mint s)"
  obtain css where r: "series_rep s css" "concat css = xs" "series_range s" "ms_chunkRange s = w"
    using assms by (auto simp: holds_samples_def)
  have split: "xs = concat (take ?k css) @ concat (drop ?k css)" using r(2) by (simp flip: concat_append)
  have "holds_samples w (snd (truncateChunksBefore mint s)) (concat (drop ?k css))"
    using series_rep_truncate [OF r(1)] series_range_truncate [OF r(3)] r(4)
    by (auto simp: holds_samples_def truncateChunksBefore_proj)
  moreover have "x \<in> set (concat (drop ?k css))" if "x \<in> set xs" "mint \<le> fst x" for x
    using that truncated_samples_old [OF r(1), of x mint] unfolding split by fastforce
  ultimately show ?thesis using suffixI [OF split] by blast
qed

lemma appendable_samples:
  assumes "holds_samples w s xs"
  shows "appendable t v s =
    (if xs = [] \<or> fst (last xs) < t then None
     else if t < fst (last xs) then Some ErrOutOfOrderSample
     else if snd (last xs) \<noteq> v then Some ErrAmendSample else None)"
proof -
  obtain css where r: "series_rep s css" "concat css = xs" using assms by (auto simp: holds_samples_def)
  show ?thesis
  proof (cases "css = []")
    case True
    then have "memSeries_head s = None" using r(1) by (simp add: memSeries_head_def series_rep_def)
    then show ?thesis using True r(2) by (simp add: appendable_def)
  next
    case False
    note l = series_rep_last [OF r(1) False]
    obtain c where "memSeries_head s = Some c" using l(2) by blast
    then show ?thesis using l r(2) by (auto simp: appendable_def memSeries_maxTime_def)
  qed
qed

section \<open>Committing samples\<close>

definition samples_at :: "ptr \<Rightarrow> (RefSample \<times> ptr) list \<Rightarrow> sample list" where
  "samples_at p ss = map (\<lambda>(s, _). (T s, V s)) (filter (\<lambda>(_, q). q = p) ss)"

lemma samples_at_simps [simp]:
  "samples_at p [] = []"
  "samples_at p ((s, q) # ss) = (if q = p then (T s, V s) # samples_at p ss else samples_at p ss)"
  by (simp_all add: samples_at_def)

lemma length_accept: "length (accept xs x) \<le> Suc (length xs)"
  by (simp add: accept_def)

lemma commit_samples_ok:
  assumes "\<forall>(s, p) \<in> set ss. p < length st \<and> time_ok (T s)" "\<forall>p < length st. holds_samples w (st ! p) (xs p)"
    "\<forall>(s, p) \<in> set ss. length (xs p) + length (samples_at p ss) \<le> 65535"
  shows "\<exists>st' n'. commit_samples ss st n = Ok (st', n') \<and> length st' = length st \<and>
    (\<forall>p < length st. holds_samples w (st' ! p) (foldl accept (xs p) (samples_at p ss))
       \<and> ms_ref (st' ! p) = ms_ref (st ! p) \<and> ms_lset (st' ! p) = ms_lset (st ! p)
       \<and> pendingCommit (st' ! p) = (pendingCommit (st ! p) \<and> samples_at p ss = []))"
  using assms
proof (induction ss arbitrary: st xs n)
  case (Cons sq ss)
  obtain s q where sq: "sq = (s, q)" by (cases sq)
  have q: "q < length st" "time_ok (T s)" "length (xs q) < 65535" using Cons.prems sq by fastforce+
  from holds_samples_append [of w "st ! q" "xs q" "T s" "V s"] Cons.prems(2) q obtain ok c s' where
    s': "memSeries_append (T s) (V s) (st ! q) = Ok ((ok, c), s')" "holds_samples w s' (accept (xs q) (T s, V s))" "same_series (st ! q) s'"
    by blast
  let ?st = "st[q := s'\<lparr>pendingCommit := False\<rparr>]" and ?xs = "xs(q := accept (xs q) (T s, V s))"
  have "\<forall>p < length ?st. holds_samples w (?st ! p) (?xs p)"
    using Cons.prems(2) s'(2) by (simp add: nth_list_update holds_samples_pending)
  moreover have "\<forall>(s, p) \<in> set ss. length (?xs p) + length (samples_at p ss) \<le> 65535"
    using Cons.prems(3) length_accept [of "xs q" "(T s, V s)"] by (fastforce simp: sq)
  ultimately have "\<exists>st' n'. commit_samples ss ?st (if ok then n else n - 1) = Ok (st', n') \<and> length st' = length ?st \<and>
    (\<forall>p < length ?st. holds_samples w (st' ! p) (foldl accept (?xs p) (samples_at p ss))
       \<and> ms_ref (st' ! p) = ms_ref (?st ! p) \<and> ms_lset (st' ! p) = ms_lset (?st ! p)
       \<and> pendingCommit (st' ! p) = (pendingCommit (?st ! p) \<and> samples_at p ss = []))"
    using Cons.prems(1) sq by (intro Cons.IH) auto
  then obtain st' n' where st': "commit_samples ss ?st (if ok then n else n - 1) = Ok (st', n')" "length st' = length st"
    "\<forall>p < length st. holds_samples w (st' ! p) (foldl accept (?xs p) (samples_at p ss))
       \<and> ms_ref (st' ! p) = ms_ref (?st ! p) \<and> ms_lset (st' ! p) = ms_lset (?st ! p)
       \<and> pendingCommit (st' ! p) = (pendingCommit (?st ! p) \<and> samples_at p ss = [])" by auto
  moreover have "commit_samples (sq # ss) st n = Ok (st', n')" using st'(1) s'(1) sq by simp
  moreover have "\<forall>p < length st. holds_samples w (st' ! p) (foldl accept (xs p) (samples_at p (sq # ss)))
       \<and> ms_ref (st' ! p) = ms_ref (st ! p) \<and> ms_lset (st' ! p) = ms_lset (st ! p)
       \<and> pendingCommit (st' ! p) = (pendingCommit (st ! p) \<and> samples_at p (sq # ss) = [])"
    using st'(3) s'(3) sq by (auto simp: nth_list_update same_series_def)
  ultimately show ?case by blast
qed simp

section \<open>The invariant of the head\<close>

definition live :: "Head \<Rightarrow> (u64 \<times> Labels) set" where
  "live h = {(k, ms_lset (h_heap h ! p)) | k p. getByID (h_series h) k = Some p}"

definition labels_known :: "Head \<Rightarrow> Labels \<Rightarrow> bool" where
  "labels_known h ls \<longleftrightarrow> (\<forall>l \<in> set ls. Name l \<in> h_symbols h \<and> Value l \<in> h_symbols h
     \<and> (\<exists>vs. h_values h (Name l) = Some vs \<and> Value l \<in> vs))"

definition values_sound :: "(gostring \<rightharpoonup> gostring set) \<Rightarrow> bool" where
  "values_sound f \<longleftrightarrow> (\<forall>n vs. f n = Some vs \<longrightarrow> finite vs \<and> (n \<noteq> [] \<longrightarrow> [] \<notin> vs))"

definition values_ok :: "Head \<Rightarrow> bool" where
  "values_ok h \<longleftrightarrow> (\<forall>(k, ls) \<in> live h. labels_known h ls \<and> valid_lset ls) \<and> values_sound (h_values h)"

definition store_ok :: "int \<Rightarrow> store \<Rightarrow> bool" where
  "store_ok w st \<longleftrightarrow> (\<forall>s \<in> set st. \<exists>xs. holds_samples w s xs)"

definition head_inv :: "(u8 list \<Rightarrow> u64) \<Rightarrow> Head \<Rightarrow> bool" where
  "head_inv sum64 h \<longleftrightarrow> stripes_inv (Hash sum64) (h_heap h) (h_series h) \<and> width_ok (h_chunkRange h)
     \<and> (\<forall>k p. getByID (h_series h) k = Some p \<longrightarrow> 0 < k \<and> k \<le> lastSeriesID h)
     \<and> store_ok (h_chunkRange h) (h_heap h) \<and> represents (h_postings h) (live h) \<and> values_ok h"

text \<open>What a client can read under a label set: nothing, or the samples of its series.\<close>

definition samples_of :: "(u8 list \<Rightarrow> u64) \<Rightarrow> Head \<Rightarrow> Labels \<Rightarrow> sample list outcome option" where
  "samples_of sum64 h lset =
     map_option (\<lambda>p. read_series (h_heap h ! p)) (getByHash (h_heap h) (h_series h) (Hash sum64 lset) lset)"

lemma head_inv_new:
  assumes "NewHead w r = Ok h" "width_ok r"
  shows "head_inv sum64 h" "samples_of sum64 h lset = None" "h_heap h = []"
  using assms represents_New(2) stripes_inv_new [unfolded newStripeSeries_def]
  by (auto simp: NewHead_def head_inv_def store_ok_def live_def values_ok_def values_sound_def getByID_def
      newStripeSeries_def samples_of_def getByHash_def seriesHashmap_get_def split: if_splits)

lemma store_ok_nth: "store_ok w st \<Longrightarrow> p < length st \<Longrightarrow> \<exists>xs. holds_samples w (st ! p) xs"
  by (auto simp: store_ok_def)

lemma store_ok_update: "store_ok w st \<Longrightarrow> holds_samples w s xs \<Longrightarrow> store_ok w (st[p := s])"
  by (auto simp: store_ok_def dest!: set_update_subset_insert [THEN subsetD])

text \<open>A change of series that keeps their ids and labels keeps the invariant.\<close>

lemma live_store:
  assumes "stripes_inv hash (h_heap h) (h_series h)" "same_ids (h_heap h) st"
  shows "live (h\<lparr>h_heap := st\<rparr>) = live h"
  using stripes_inv_id(1) [OF assms(1)] same_idsD [OF assms(2)] unfolding live_def by fastforce

lemma head_inv_store:
  assumes "head_inv sum64 h" "same_ids (h_heap h) st" "store_ok (h_chunkRange h) st"
  shows "head_inv sum64 (h\<lparr>h_heap := st\<rparr>)"
proof -
  have inv: "stripes_inv (Hash sum64) (h_heap h) (h_series h)" using assms(1) by (simp add: head_inv_def)
  note live_store [OF inv assms(2)]
  moreover have "labels_known (h\<lparr>h_heap := st\<rparr>) = labels_known h" by (simp add: labels_known_def fun_eq_iff)
  ultimately show ?thesis
    using assms(1,3) stripes_inv_store [OF inv assms(2)] by (simp add: head_inv_def values_ok_def)
qed

lemma same_ids_update:
  "ms_ref s = ms_ref (st ! p) \<Longrightarrow> ms_lset s = ms_lset (st ! p) \<Longrightarrow> same_ids st (st[p := s])"
  unfolding same_ids_def by (metis length_list_update nth_list_update_eq nth_list_update_neq order_refl)

lemma same_ids_append: "same_ids st (st @ ys)"
  by (simp add: same_ids_def nth_append)

section \<open>Creating series\<close>

lemma add_symbol_fields [simp]:
  "h_heap (fold add_symbol ls h) = h_heap h" "h_series (fold add_symbol ls h) = h_series h"
  "h_postings (fold add_symbol ls h) = h_postings h" "h_chunkRange (fold add_symbol ls h) = h_chunkRange h"
  "lastSeriesID (fold add_symbol ls h) = lastSeriesID h" "h_wal (fold add_symbol ls h) = h_wal h"
  "h_minTime (fold add_symbol ls h) = h_minTime h" "h_maxTime (fold add_symbol ls h) = h_maxTime h"
  "h_tombstones (fold add_symbol ls h) = h_tombstones h" "live (fold add_symbol ls h) = live h"
  by (induction ls arbitrary: h) (simp_all add: add_symbol_def live_def)

lemma add_symbol_values:
  "h_symbols (add_symbol l h) = {Name l, Value l} \<union> h_symbols h"
  "h_values (add_symbol l h) n = (if n = Name l then Some (insert (Value l) (case h_values h n of None \<Rightarrow> {} | Some vs \<Rightarrow> vs)) else h_values h n)"
  by (auto simp: add_symbol_def)

lemma labels_known_add: "labels_known h ls \<Longrightarrow> labels_known (fold add_symbol ls' h) ls"
proof (induction ls' arbitrary: h)
  case (Cons l ls')
  then have "labels_known (add_symbol l h) ls" by (fastforce simp: labels_known_def add_symbol_values)
  with Cons.IH show ?case by simp
qed simp

lemma labels_known_added: "labels_known (fold add_symbol ls h) ls"
proof (induction ls arbitrary: h)
  case (Cons l ls)
  have "labels_known (add_symbol l h) [l]" by (simp add: labels_known_def add_symbol_values)
  from labels_known_add [OF this, of ls] Cons.IH [of "add_symbol l h"] show ?case
    by (auto simp: labels_known_def)
qed (simp add: labels_known_def)

lemma values_add:
  "values_sound (h_values h) \<Longrightarrow> \<forall>l \<in> set ls. Value l \<noteq> [] \<Longrightarrow> values_sound (h_values (fold add_symbol ls h))"
proof (induction ls arbitrary: h)
  case (Cons l ls)
  have "values_sound (h_values (add_symbol l h))"
  proof (unfold values_sound_def, intro allI impI)
    fix n vs assume vs: "h_values (add_symbol l h) n = Some vs"
    have "finite ws \<and> (n \<noteq> [] \<longrightarrow> [] \<notin> ws)" if "h_values h n = Some ws" for ws using that Cons.prems(1) by (simp add: values_sound_def)
    then show "finite vs \<and> (n \<noteq> [] \<longrightarrow> [] \<notin> vs)" using vs Cons.prems(2) unfolding add_symbol_values
      by (cases "n = Name l"; cases "h_values h n"; simp; auto)
  qed
  then show ?case using Cons.IH Cons.prems(2) by simp
qed simp

text \<open>
  The fields of the head that creating a series and adding samples to a transaction leave alone,
  and the series that existed before.
\<close>

definition extends_head :: "Head \<Rightarrow> Head \<Rightarrow> bool" where
  "extends_head h h' \<longleftrightarrow> h_chunkRange h' = h_chunkRange h \<and> h_wal h' = h_wal h \<and> h_minTime h' = h_minTime h
     \<and> h_maxTime h' = h_maxTime h \<and> h_tombstones h' = h_tombstones h \<and> same_ids (h_heap h) (h_heap h')
     \<and> (\<forall>p < length (h_heap h). read_series (h_heap h' ! p) = read_series (h_heap h ! p))
     \<and> getByID (h_series h) \<subseteq>\<^sub>m getByID (h_series h')"

lemma extends_head_refl [simp]: "extends_head h h"
  by (simp add: extends_head_def same_ids_def)

lemma getOrCreateWithID_new:
  assumes inv: "head_inv sum64 h" and l: "valid_lset lset" and k: "0 < k" "getByID (h_series h) k = None" "k \<le> K" "lastSeriesID h \<le> K"
    and new: "getByHash (h_heap h) (h_series h) (Hash sum64 lset) lset = None"
  shows "\<exists>h'. getOrCreateWithID k (Hash sum64 lset) lset h = ((length (h_heap h), True), h')
    \<and> head_inv sum64 (h'\<lparr>lastSeriesID := K\<rparr>) \<and> extends_head h h' \<and> h_heap h' = h_heap h @ [newMemSeries lset k (h_chunkRange h)]
    \<and> getByID (h_series h') = (getByID (h_series h))(k \<mapsto> length (h_heap h)) \<and> lastSeriesID h' = lastSeriesID h"
proof -
  let ?p = "length (h_heap h)" and ?s = "newMemSeries lset k (h_chunkRange h)"
  let ?st = "h_heap h @ [?s]"
  have si: "stripes_inv (Hash sum64) (h_heap h) (h_series h)" using inv by (simp add: head_inv_def)
  have s: "ms_lset ?s = lset" "ms_ref ?s = k" by (simp_all add: newMemSeries_def)
  have "getByHash ?st (h_series h) (Hash sum64 lset) lset = None"
    using getByHash_store [OF si same_ids_append] new by simp
  with getOrSet_new [OF stripes_inv_store [OF si same_ids_append [of _ "[?s]"]], of ?p] s k(2) obtain ss where
    ss: "getOrSet ?st (h_series h) (Hash sum64 lset) ?p = ((?p, True), ss)" "stripes_inv (Hash sum64) ?st ss"
      "getByID ss = (getByID (h_series h))(k \<mapsto> ?p)" by auto
  define h1 where "h1 = h\<lparr>h_heap := ?st, h_series := ss, h_postings := MemPostings_Add (h_postings h) k lset\<rparr>"
  let ?h = "fold add_symbol lset h1"
  have h1: "h_heap h1 = ?st" "h_series h1 = ss" "h_postings h1 = MemPostings_Add (h_postings h) k lset"
    "h_chunkRange h1 = h_chunkRange h" by (simp_all add: h1_def)
  have eq: "getOrCreateWithID k (Hash sum64 lset) lset h = ((?p, True), ?h)"
    using ss(1) by (simp add: getOrCreateWithID_def h1_def Let_def)
  have live: "live h1 = insert (k, lset) (live h)"
    using stripes_inv_id(1) [OF si] k(2) s(1) by (fastforce simp: live_def h1_def ss(3) nth_append split: if_splits)
  have "k \<notin> fst ` live h" using k(2) by (auto simp: live_def)
  then have "represents (MemPostings_Add (h_postings h) k lset) (insert (k, lset) (live h))"
    using inv valid_lset_keys [OF l] by (intro represents_Add) (auto simp: head_inv_def)
  moreover have "labels_known h1 ls" if "labels_known h ls" for ls using that by (simp add: labels_known_def h1_def)
  then have "\<forall>(x, ls) \<in> insert (k, lset) (live h). labels_known ?h ls \<and> valid_lset ls"
    using inv l labels_known_add [of h1 _ lset] labels_known_added [of lset h1] by (auto simp: head_inv_def values_ok_def)
  moreover have "values_sound (h_values ?h)"
    using inv l by (intro values_add) (simp_all add: head_inv_def values_ok_def h1_def valid_lset_def list_all_iff)
  moreover have "store_ok (h_chunkRange h) ?st"
    using inv holds_samples_new [of "h_chunkRange h" lset k] by (auto simp: head_inv_def store_ok_def)
  moreover have "live (?h\<lparr>lastSeriesID := K\<rparr>) = live ?h" "labels_known (?h\<lparr>lastSeriesID := K\<rparr>) = labels_known ?h"
    by (simp_all add: live_def labels_known_def fun_eq_iff)
  moreover have "0 < x \<and> x \<le> K" if "getByID ss x = Some q" for x q
    using that inv k(1,3,4) unfolding ss(3) head_inv_def by (auto split: if_splits intro: order_trans)
  ultimately have "head_inv sum64 (?h\<lparr>lastSeriesID := K\<rparr>)"
    using inv ss(2) live h1 by (auto simp: head_inv_def values_ok_def)
  moreover have "extends_head h ?h" using k(2) ss(3)
    by (auto simp: extends_head_def h1_def same_ids_append nth_append map_le_def)
  ultimately show ?thesis using eq ss(3) by (auto simp: h1_def)
qed

lemma head_inv_lastSeriesID:
  assumes "head_inv sum64 h" "lastSeriesID h \<le> K"
  shows "head_inv sum64 (h\<lparr>lastSeriesID := K\<rparr>)"
proof -
  have "live (h\<lparr>lastSeriesID := K\<rparr>) = live h" "labels_known (h\<lparr>lastSeriesID := K\<rparr>) = labels_known h"
    by (simp_all add: live_def labels_known_def fun_eq_iff)
  then show ?thesis using assms by (auto simp: head_inv_def values_ok_def intro: order_trans)
qed

lemma getOrCreate_ok:
  assumes inv: "head_inv sum64 h" and l: "valid_lset lset" and room: "lastSeriesID h + 1 \<noteq> 0"
  obtains p created h' where "getOrCreate (Hash sum64 lset) lset h = ((p, created), h')" "head_inv sum64 h'" "extends_head h h'"
    "getByID (h_series h') (ms_ref (h_heap h' ! p)) = Some p" "ms_lset (h_heap h' ! p) = lset"
    "created \<longleftrightarrow> samples_of sum64 h lset = None" "created \<longrightarrow> read_series (h_heap h' ! p) = Ok []"
    "\<not> created \<longrightarrow> h' = h"
    "created \<longrightarrow> getByID (h_series h') = (getByID (h_series h))(ms_ref (h_heap h' ! p) \<mapsto> p) \<and> p = length (h_heap h)"
    "lastSeriesID h' = (if created then lastSeriesID h + 1 else lastSeriesID h)"
proof (cases "getByHash (h_heap h) (h_series h) (Hash sum64 lset) lset")
  case (Some p)
  have "stripes_inv (Hash sum64) (h_heap h) (h_series h)" using inv by (simp add: head_inv_def)
  from getByHash_iff [OF this] Some have "getByID (h_series h) (ms_ref (h_heap h ! p)) = Some p" "ms_lset (h_heap h ! p) = lset" by blast+
  moreover have "getOrCreate (Hash sum64 lset) lset h = ((p, False), h)" using Some by (simp add: getOrCreate_def)
  ultimately show ?thesis using that [of p False h] inv Some by (simp add: samples_of_def)
next
  case None
  let ?k = "lastSeriesID h + 1" and ?h = "h\<lparr>lastSeriesID := lastSeriesID h + 1\<rparr>"
  have lt: "lastSeriesID h < ?k" using room unatSuc [of "lastSeriesID h"] by (simp add: word_less_nat_alt add.commute)
  have "getByID (h_series h) ?k = None" using inv lt unfolding head_inv_def by (metis not_le option.exhaust)
  moreover have "0 < ?k" using room by (simp add: word_gt_0)
  ultimately obtain h' where h': "getOrCreateWithID ?k (Hash sum64 lset) lset ?h = ((length (h_heap h), True), h')"
    "head_inv sum64 (h'\<lparr>lastSeriesID := ?k\<rparr>)" "extends_head ?h h'" "h_heap h' = h_heap h @ [newMemSeries lset ?k (h_chunkRange h)]"
    "getByID (h_series h') = (getByID (h_series h))(?k \<mapsto> length (h_heap h))" "lastSeriesID h' = ?k"
    using getOrCreateWithID_new [OF head_inv_lastSeriesID [OF inv less_imp_le [OF lt]] l, of ?k ?k] None by auto
  then have "h'\<lparr>lastSeriesID := ?k\<rparr> = h'" by simp
  with h' None that [of "length (h_heap h)" True h'] show ?thesis
    using holds_samples_read [OF holds_samples_new [of "h_chunkRange h" lset ?k]] inv
    by (simp add: getOrCreate_def samples_of_def extends_head_def newMemSeries_def head_inv_def)
qed

lemma samples_of_Some:
  assumes "head_inv sum64 h"
  shows "samples_of sum64 h ls = Some r \<longleftrightarrow>
    (\<exists>p. getByID (h_series h) (ms_ref (h_heap h ! p)) = Some p \<and> ms_lset (h_heap h ! p) = ls \<and> r = read_series (h_heap h ! p))"
proof -
  have "stripes_inv (Hash sum64) (h_heap h) (h_series h)" using assms by (simp add: head_inv_def)
  from getByHash_iff [OF this] show ?thesis by (auto simp: samples_of_def)
qed

lemma head_inv_id:
  assumes "head_inv sum64 h" "getByID (h_series h) k = Some p"
  shows "p < length (h_heap h)" "ms_ref (h_heap h ! p) = k"
  using assms stripes_inv_id [of "Hash sum64"] by (auto simp: head_inv_def)

lemma samples_of_live:
  assumes "head_inv sum64 h" "getByID (h_series h) k = Some p"
  shows "samples_of sum64 h (ms_lset (h_heap h ! p)) = Some (read_series (h_heap h ! p))"
  unfolding samples_of_Some [OF assms(1)] using head_inv_id(2) [OF assms] assms(2) by blast

lemma samples_of_Ok:
  assumes "head_inv sum64 h" "getByID (h_series h) k = Some p"
  shows "\<exists>xs. holds_samples (h_chunkRange h) (h_heap h ! p) xs \<and> samples_of sum64 h (ms_lset (h_heap h ! p)) = Some (Ok xs)"
  using samples_of_live [OF assms] store_ok_nth [of "h_chunkRange h" "h_heap h" p] stripes_inv_id(1) [of "Hash sum64" _ _ k p] assms
  by (auto simp: head_inv_def holds_samples_read)

lemma samples_of_extends:
  assumes "head_inv sum64 h" "head_inv sum64 h'" "extends_head h h'" "samples_of sum64 h ls = Some r"
  shows "samples_of sum64 h' ls = Some r"
proof -
  obtain p where p: "getByID (h_series h) (ms_ref (h_heap h ! p)) = Some p" "ms_lset (h_heap h ! p) = ls" "r = read_series (h_heap h ! p)"
    using assms(4) samples_of_Some [OF assms(1)] by blast
  note lt = head_inv_id(1) [OF assms(1) p(1)]
  have "same_ids (h_heap h) (h_heap h')" "getByID (h_series h) \<subseteq>\<^sub>m getByID (h_series h')" "read_series (h_heap h' ! p) = r"
    using assms(3) lt p(3) by (simp_all add: extends_head_def)
  with p lt have "getByID (h_series h') (ms_ref (h_heap h' ! p)) = Some p \<and> ms_lset (h_heap h' ! p) = ls \<and> r = read_series (h_heap h' ! p)"
    by (auto simp: map_le_def dom_def dest: same_idsD)
  then show ?thesis using samples_of_Some [OF assms(2)] by blast
qed

lemma samples_of_same_series:
  assumes "head_inv sum64 h" "same_ids (h_heap h) (h_heap h')" "h_series h' = h_series h"
    and "\<forall>p < length (h_heap h). read_series (h_heap h' ! p) = read_series (h_heap h ! p)"
  shows "samples_of sum64 h' ls = samples_of sum64 h ls"
proof -
  have inv: "stripes_inv (Hash sum64) (h_heap h) (h_series h)" using assms(1) by (simp add: head_inv_def)
  have "p < length (h_heap h)" if "getByHash (h_heap h) (h_series h) (Hash sum64 ls) ls = Some p" for p
    using that getByHash_iff [OF inv] head_inv_id(1) [OF assms(1)] by blast
  then show ?thesis using getByHash_store [OF inv assms(2)] assms(3,4)
    by (cases "getByHash (h_heap h) (h_series h) (Hash sum64 ls) ls") (auto simp: samples_of_def)
qed

lemma extends_head_trans: "extends_head h1 h2 \<Longrightarrow> extends_head h2 h3 \<Longrightarrow> extends_head h1 h3"
  by (auto simp: extends_head_def same_ids_def intro: map_le_trans)

section \<open>Adding to a transaction\<close>

text \<open>The samples already committed under a label set, and the verdict on a new sample.\<close>

definition committed :: "(u8 list \<Rightarrow> u64) \<Rightarrow> Head \<Rightarrow> Labels \<Rightarrow> sample list" where
  "committed sum64 h lset = (case samples_of sum64 h lset of Some (Ok xs) \<Rightarrow> xs | _ \<Rightarrow> [])"

definition add_verdict :: "int \<Rightarrow> sample list \<Rightarrow> int \<Rightarrow> f64 \<Rightarrow> go_error option" where
  "add_verdict minValidTime xs t v =
     (if t < minValidTime then Some ErrOutOfBounds
      else if xs = [] \<or> fst (last xs) < t then None
      else if t < fst (last xs) then Some ErrOutOfOrderSample
      else if snd (last xs) \<noteq> v then Some ErrAmendSample else None)"

definition tx_ok :: "Head \<Rightarrow> headAppender \<Rightarrow> bool" where
  "tx_ok h a \<longleftrightarrow> (\<forall>(s, p) \<in> set (ha_samples a). p < length (h_heap h) \<and> ms_ref (h_heap h ! p) = Ref s \<and> time_ok (T s))"

lemma tx_ok_extends: "tx_ok h a \<Longrightarrow> extends_head h h' \<Longrightarrow> tx_ok h' a"
  by (fastforce simp: tx_ok_def extends_head_def dest: same_idsD)

lemma samples_of_created:
  assumes "head_inv sum64 h" "head_inv sum64 h'" "extends_head h h'" "samples_of sum64 h lset = None"
    "getByID (h_series h') = (getByID (h_series h))(k \<mapsto> p)" "ms_ref (h_heap h' ! p) = k" "ms_lset (h_heap h' ! p) = lset"
    "read_series (h_heap h' ! p) = Ok []"
  shows "samples_of sum64 h' ls = (if ls = lset then Some (Ok []) else samples_of sum64 h ls)"
proof (cases "samples_of sum64 h ls")
  case (Some r)
  then show ?thesis using samples_of_extends [OF assms(1-3)] assms(4) by auto
next
  case None
  have "samples_of sum64 h' ls = None" if "ls \<noteq> lset"
  proof (rule ccontr)
    assume "samples_of sum64 h' ls \<noteq> None"
    then obtain q where q: "getByID (h_series h') (ms_ref (h_heap h' ! q)) = Some q" "ms_lset (h_heap h' ! q) = ls"
      using samples_of_Some [OF assms(2)] by blast
    with assms(5,7) that have "getByID (h_series h) (ms_ref (h_heap h' ! q)) = Some q" by (auto split: if_splits)
    moreover from head_inv_id(1) [OF assms(1) this] have "q < length (h_heap h)" .
    then have "ms_lset (h_heap h ! q) = ls" using q(2) assms(3) by (auto simp: extends_head_def dest: same_idsD)
    ultimately have "samples_of sum64 h ls \<noteq> None" using samples_of_live [OF assms(1)] by fastforce
    with None show False by simp
  qed
  moreover have "samples_of sum64 h' lset = Some (Ok [])"
    using samples_of_live [OF assms(2), of k p] assms(5-8) by simp
  ultimately show ?thesis using None by auto
qed

lemma AddFast_ok:
  assumes inv: "head_inv sum64 h" and tx: "tx_ok h a" and t: "time_ok t" and p: "getByID (h_series h) ref = Some p"
    and err_def: "err = add_verdict (ha_minValidTime a) (committed sum64 h (ms_lset (h_heap h ! p))) t v"
  obtains h' a' where "headAppender_AddFast ref t v (h, a) = (err, h', a')" "head_inv sum64 h'" "tx_ok h' a'" "extends_head h h'"
    "h_series h' = h_series h" "lastSeriesID h' = lastSeriesID h" "ha_minValidTime a' = ha_minValidTime a" "ha_series a' = ha_series a"
    "ha_samples a' = (if err = None then ha_samples a @ [(\<lparr>Ref = ref, T = t, V = v\<rparr>, p)] else ha_samples a)"
proof -
  note lt = head_inv_id [OF inv p]
  obtain xs where xs: "holds_samples (h_chunkRange h) (h_heap h ! p) xs" "samples_of sum64 h (ms_lset (h_heap h ! p)) = Some (Ok xs)"
    using samples_of_Ok [OF inv p] by blast
  have verdict: "err = (if t < ha_minValidTime a then Some ErrOutOfBounds else appendable t v (h_heap h ! p))"
    unfolding err_def committed_def xs(2) by (simp add: add_verdict_def appendable_samples [OF xs(1)])
  let ?st = "(h_heap h)[p := (h_heap h ! p)\<lparr>pendingCommit := True\<rparr>]"
  have ids: "same_ids (h_heap h) ?st" by (rule same_ids_update) simp_all
  have "store_ok (h_chunkRange h) ?st" using inv xs(1)
    by (intro store_ok_update) (auto simp: head_inv_def holds_samples_pending)
  from head_inv_store [OF inv ids this] have inv': "head_inv sum64 (h\<lparr>h_heap := ?st\<rparr>)" .
  have read: "read_series ((h_heap h ! p)\<lparr>pendingCommit := True\<rparr>) = read_series (h_heap h ! p)"
    using holds_samples_read [OF xs(1)] holds_samples_read [OF holds_samples_pending [THEN iffD2, OF xs(1)]] by simp
  have ext: "extends_head h (h\<lparr>h_heap := ?st\<rparr>)" using ids lt read by (auto simp: extends_head_def nth_list_update)
  let ?a = "(if t > ha_maxt (if t < ha_mint a then a\<lparr>ha_mint := t\<rparr> else a) then (if t < ha_mint a then a\<lparr>ha_mint := t\<rparr> else a)\<lparr>ha_maxt := t\<rparr>
      else (if t < ha_mint a then a\<lparr>ha_mint := t\<rparr> else a))\<lparr>ha_samples := ha_samples a @ [(\<lparr>Ref = ref, T = t, V = v\<rparr>, p)]\<rparr>"
  have tx': "tx_ok (h\<lparr>h_heap := ?st\<rparr>) ?a" using tx_ok_extends [OF tx ext] lt t by (auto simp: tx_ok_def)
  show ?thesis
  proof (cases "err = None")
    case True
    then have "headAppender_AddFast ref t v (h, a) = (err, h\<lparr>h_heap := ?st\<rparr>, ?a)"
      using verdict p by (auto simp: headAppender_AddFast_def Let_def split: if_splits)
    from that [OF this inv' tx' ext] True show ?thesis by simp
  next
    case False
    then have "headAppender_AddFast ref t v (h, a) = (err, h, a)"
      using verdict p by (auto simp: headAppender_AddFast_def split: if_splits option.splits)
    from that [OF this inv tx] False show ?thesis by simp
  qed
qed

lemma Add_ok:
  assumes inv: "head_inv sum64 h" and tx: "tx_ok h a" and l: "valid_lset lset" and t: "time_ok t" and room: "lastSeriesID h + 1 \<noteq> 0"
    and err_def: "err = add_verdict (ha_minValidTime a) (committed sum64 h lset) t v"
  obtains ref h' a' where "headAppender_Add sum64 lset t v (h, a) = ((ref, err), h', a')" "head_inv sum64 h'" "tx_ok h' a'"
    "extends_head h h'" "ha_minValidTime a' = ha_minValidTime a" "unat (lastSeriesID h') \<le> unat (lastSeriesID h) + 1"
    "\<forall>ls. samples_of sum64 h' ls = (if ls = lset \<and> samples_of sum64 h ls = None \<and> err = None then Some (Ok []) else samples_of sum64 h ls)"
    "err \<noteq> None \<longrightarrow> ha_samples a' = ha_samples a"
    "err = None \<longrightarrow> (\<exists>p. ha_samples a' = ha_samples a @ [(\<lparr>Ref = ref, T = t, V = v\<rparr>, p)]
       \<and> getByID (h_series h') ref = Some p \<and> ms_lset (h_heap h' ! p) = lset)"
proof (cases "t < ha_minValidTime a")
  case True
  then have "headAppender_Add sum64 lset t v (h, a) = ((0, err), h, a)" "err \<noteq> None"
    by (simp_all add: headAppender_Add_def err_def add_verdict_def)
  from that [OF this(1) inv tx] this(2) show ?thesis by simp
next
  case False
  obtain p created h1 where h1: "getOrCreate (Hash sum64 lset) lset h = ((p, created), h1)" "head_inv sum64 h1" "extends_head h h1"
    "getByID (h_series h1) (ms_ref (h_heap h1 ! p)) = Some p" "ms_lset (h_heap h1 ! p) = lset"
    "created \<longleftrightarrow> samples_of sum64 h lset = None" "created \<longrightarrow> read_series (h_heap h1 ! p) = Ok []" "\<not> created \<longrightarrow> h1 = h"
    "created \<longrightarrow> getByID (h_series h1) = (getByID (h_series h))(ms_ref (h_heap h1 ! p) \<mapsto> p) \<and> p = length (h_heap h)"
    "lastSeriesID h1 = (if created then lastSeriesID h + 1 else lastSeriesID h)"
    by (rule getOrCreate_ok [OF inv l room])
  have s1: "samples_of sum64 h1 ls = (if ls = lset \<and> samples_of sum64 h ls = None then Some (Ok []) else samples_of sum64 h ls)" for ls
  proof (cases created)
    case True
    then show ?thesis using samples_of_created [OF inv h1(2,3), of lset "ms_ref (h_heap h1 ! p)" p ls] h1(5-7,9) by auto
  qed (use h1(6,8) in auto)
  have com: "committed sum64 h1 lset = committed sum64 h lset" by (simp add: committed_def s1 split: option.splits)
  let ?a = "if created then a\<lparr>ha_series := ha_series a @ [\<lparr>series_Ref = ms_ref (h_heap h1 ! p), series_Labels = lset\<rparr>]\<rparr> else a"
  have tx1: "tx_ok h1 ?a" using tx_ok_extends [OF tx h1(3)] by (simp add: tx_ok_def)
  have "ha_minValidTime ?a = ha_minValidTime a" by simp
  then have err1: "err = add_verdict (ha_minValidTime ?a) (committed sum64 h1 (ms_lset (h_heap h1 ! p))) t v"
    using h1(5) com err_def by simp
  obtain h' a' where h': "headAppender_AddFast (ms_ref (h_heap h1 ! p)) t v (h1, ?a) = (err, h', a')" "head_inv sum64 h'" "tx_ok h' a'"
    "extends_head h1 h'" "h_series h' = h_series h1" "lastSeriesID h' = lastSeriesID h1" "ha_minValidTime a' = ha_minValidTime ?a"
    "ha_samples a' = (if err = None then ha_samples ?a @ [(\<lparr>Ref = ms_ref (h_heap h1 ! p), T = t, V = v\<rparr>, p)] else ha_samples ?a)"
    by (rule AddFast_ok [OF h1(2) tx1 t h1(4) err1])
  have eq: "headAppender_Add sum64 lset t v (h, a) = ((ms_ref (h_heap h1 ! p), err), h', a')"
    using False h1(1) h'(1) by (simp add: headAppender_Add_def Let_def)
  have s': "samples_of sum64 h' ls = samples_of sum64 h1 ls" for ls
    using h'(4,5) by (intro samples_of_same_series [OF h1(2)]) (simp_all add: extends_head_def)
  have new: "samples_of sum64 h lset = None \<longrightarrow> err = None" using False by (simp add: err_def add_verdict_def committed_def)
  have "p < length (h_heap h1)" using head_inv_id(1) [OF h1(2,4)] .
  then have lset: "ms_lset (h_heap h' ! p) = lset" using h'(4) h1(5) by (auto simp: extends_head_def dest: same_idsD)
  show ?thesis
  proof (rule that [OF eq h'(2,3) extends_head_trans [OF h1(3) h'(4)]])
    show "ha_minValidTime a' = ha_minValidTime a" using h'(7) by simp
    show "unat (lastSeriesID h') \<le> unat (lastSeriesID h) + 1"
      using h'(6) h1(10) unatSuc [of "lastSeriesID h"] room by (simp add: add.commute)
    show "\<forall>ls. samples_of sum64 h' ls = (if ls = lset \<and> samples_of sum64 h ls = None \<and> err = None then Some (Ok []) else samples_of sum64 h ls)"
      using s1 s' new by auto
    show "err \<noteq> None \<longrightarrow> ha_samples a' = ha_samples a" using h'(8) by simp
    show "err = None \<longrightarrow> (\<exists>q. ha_samples a' = ha_samples a @ [(\<lparr>Ref = ms_ref (h_heap h1 ! p), T = t, V = v\<rparr>, q)]
       \<and> getByID (h_series h') (ms_ref (h_heap h1 ! p)) = Some q \<and> ms_lset (h_heap h' ! q) = lset)"
      using h'(5,8) h1(4) lset by simp
  qed
qed

lemma id_not_last: "unat (x :: u64) + 1 < 2 ^ 64 \<Longrightarrow> x + 1 \<noteq> 0"
proof
  assume "unat x + 1 < 2 ^ 64" "x + 1 = 0"
  moreover from this have "x = - 1" by (simp add: eq_neg_iff_add_eq_0)
  ultimately show False by (simp add: unsigned_minus_1_eq_mask mask_eq_exp_minus_1)
qed

section \<open>Transactions\<close>

text \<open>A batch of \<^verbatim>\<open>Add\<close> calls on one appender, with the errors they return.\<close>

fun Add_all :: "(u8 list \<Rightarrow> u64) \<Rightarrow> (Labels \<times> int \<times> f64) list \<Rightarrow> Head \<times> headAppender \<Rightarrow>
    go_error option list \<times> Head \<times> headAppender" where
  "Add_all sum64 [] s = ([], s)"
| "Add_all sum64 ((lset, t, v) # rs) s =
     (case headAppender_Add sum64 lset t v s of ((ref, err), s) \<Rightarrow>
        case Add_all sum64 rs s of (errs, s) \<Rightarrow> (err # errs, s))"

definition request_ok :: "Labels \<times> int \<times> f64 \<Rightarrow> bool" where
  "request_ok = (\<lambda>(lset, t, v). valid_lset lset \<and> time_ok t)"

text \<open>The samples of a batch under a label set that were let through.\<close>

definition admitted :: "(u8 list \<Rightarrow> u64) \<Rightarrow> Head \<Rightarrow> int \<Rightarrow> (Labels \<times> int \<times> f64) list \<Rightarrow> Labels \<Rightarrow> sample list" where
  "admitted sum64 h minValidTime rs ls =
     map snd (filter (\<lambda>(lset, t, v). lset = ls \<and> add_verdict minValidTime (committed sum64 h lset) t v = None) rs)"

lemma Add_all_ok:
  assumes "head_inv sum64 h" "tx_ok h a" "list_all request_ok rs" "unat (lastSeriesID h) + length rs < 2 ^ 64"
  shows "\<exists>h' a'. Add_all sum64 rs (h, a) = (map (\<lambda>(lset, t, v). add_verdict (ha_minValidTime a) (committed sum64 h lset) t v) rs, h', a')
     \<and> head_inv sum64 h' \<and> tx_ok h' a' \<and> extends_head h h'
     \<and> (\<forall>ls. samples_of sum64 h' ls = (if samples_of sum64 h ls = None \<and> admitted sum64 h (ha_minValidTime a) rs ls \<noteq> [] then Some (Ok []) else samples_of sum64 h ls))
     \<and> (\<exists>ps. ha_samples a' = ha_samples a @ ps \<and> length ps \<le> length rs
          \<and> (\<forall>(s, p) \<in> set ps. getByID (h_series h') (Ref s) = Some p)
          \<and> (\<forall>ls. map (\<lambda>(s, _). (T s, V s)) (filter (\<lambda>(_, p). ms_lset (h_heap h' ! p) = ls) ps) = admitted sum64 h (ha_minValidTime a) rs ls))"
  using assms
proof (induction rs arbitrary: h a)
  case Nil
  then show ?case by (auto simp: admitted_def)
next
  case (Cons r rs)
  obtain lset t v where r: "r = (lset, t, v)" by (cases r)
  let ?err = "add_verdict (ha_minValidTime a) (committed sum64 h lset) t v"
  have ok: "valid_lset lset" "time_ok t" using Cons.prems(3) r by (simp_all add: request_ok_def)
  have "unat (lastSeriesID h) + 1 < 2 ^ 64" using Cons.prems(4) by simp
  then have room: "lastSeriesID h + 1 \<noteq> 0" by (rule id_not_last)
  obtain ref h1 a1 where h1: "headAppender_Add sum64 lset t v (h, a) = ((ref, ?err), h1, a1)" "head_inv sum64 h1" "tx_ok h1 a1"
    "extends_head h h1" "ha_minValidTime a1 = ha_minValidTime a" "unat (lastSeriesID h1) \<le> unat (lastSeriesID h) + 1"
    "\<forall>ls. samples_of sum64 h1 ls = (if ls = lset \<and> samples_of sum64 h ls = None \<and> ?err = None then Some (Ok []) else samples_of sum64 h ls)"
    "?err \<noteq> None \<longrightarrow> ha_samples a1 = ha_samples a"
    "?err = None \<longrightarrow> (\<exists>p. ha_samples a1 = ha_samples a @ [(\<lparr>Ref = ref, T = t, V = v\<rparr>, p)]
       \<and> getByID (h_series h1) ref = Some p \<and> ms_lset (h_heap h1 ! p) = lset)"
    by (rule Add_ok [OF Cons.prems(1,2) ok room refl])
  have com: "committed sum64 h1 ls = committed sum64 h ls" for ls
    using h1(7) by (cases "samples_of sum64 h ls") (auto simp: committed_def)
  then have adm: "admitted sum64 h1 m qs ls = admitted sum64 h m qs ls" for m qs ls by (simp add: admitted_def)
  have adm_Cons: "admitted sum64 h (ha_minValidTime a) (r # rs) ls =
      (if ls = lset \<and> ?err = None then [(t, v)] else []) @ admitted sum64 h (ha_minValidTime a) rs ls" for ls
    by (auto simp: admitted_def r)
  have "unat (lastSeriesID h1) + length rs < 2 ^ 64" using Cons.prems(4) h1(6) by simp
  from Cons.IH [OF h1(2,3) _ this] Cons.prems(3) obtain h' a' ps where
    h': "Add_all sum64 rs (h1, a1) = (map (\<lambda>(lset, t, v). add_verdict (ha_minValidTime a) (committed sum64 h lset) t v) rs, h', a')"
      "head_inv sum64 h'" "tx_ok h' a'" "extends_head h1 h'"
    and s': "\<forall>ls. samples_of sum64 h' ls = (if samples_of sum64 h1 ls = None \<and> admitted sum64 h (ha_minValidTime a) rs ls \<noteq> [] then Some (Ok []) else samples_of sum64 h1 ls)"
    and ps: "ha_samples a' = ha_samples a1 @ ps" "length ps \<le> length rs" "\<forall>(s, p) \<in> set ps. getByID (h_series h') (Ref s) = Some p"
      "\<forall>ls. map (\<lambda>(s, _). (T s, V s)) (filter (\<lambda>(_, p). ms_lset (h_heap h' ! p) = ls) ps) = admitted sum64 h (ha_minValidTime a) rs ls"
    unfolding h1(5) com adm by auto
  have all: "Add_all sum64 (r # rs) (h, a) =
      (map (\<lambda>(lset, t, v). add_verdict (ha_minValidTime a) (committed sum64 h lset) t v) (r # rs), h', a')"
    using h1(1) h'(1) r by simp
  have samples: "\<forall>ls. samples_of sum64 h' ls = (if samples_of sum64 h ls = None \<and> admitted sum64 h (ha_minValidTime a) (r # rs) ls \<noteq> []
      then Some (Ok []) else samples_of sum64 h ls)"
    using s' h1(7) by (auto simp: adm_Cons)
  have "\<exists>qs. ha_samples a' = ha_samples a @ qs \<and> length qs \<le> length (r # rs)
      \<and> (\<forall>(s, p) \<in> set qs. getByID (h_series h') (Ref s) = Some p)
      \<and> (\<forall>ls. map (\<lambda>(s, _). (T s, V s)) (filter (\<lambda>(_, p). ms_lset (h_heap h' ! p) = ls) qs) = admitted sum64 h (ha_minValidTime a) (r # rs) ls)"
  proof (cases "?err = None")
    case True
    with h1(9) obtain p where p: "ha_samples a1 = ha_samples a @ [(\<lparr>Ref = ref, T = t, V = v\<rparr>, p)]"
      "getByID (h_series h1) ref = Some p" "ms_lset (h_heap h1 ! p) = lset" by blast
    have "getByID (h_series h') ref = Some p" "ms_lset (h_heap h' ! p) = lset"
      using p h'(4) head_inv_id(1) [OF h1(2) p(2)] by (auto simp: extends_head_def map_le_def dom_def dest: same_idsD)
    then show ?thesis using ps p True
      by (intro exI [of _ "(\<lparr>Ref = ref, T = t, V = v\<rparr>, p) # ps"]) (simp add: adm_Cons)
  next
    case False
    then show ?thesis using ps h1(8) by (intro exI [of _ ps]) (simp add: adm_Cons)
  qed
  then show ?case using all h'(2,3) extends_head_trans [OF h1(4) h'(4)] samples by blast
qed

text \<open>Time bounds, the log and tombstones play no part in the invariant.\<close>

lemma head_fields [simp]:
  "live (h\<lparr>h_minTime := x\<rparr>) = live h" "live (h\<lparr>h_maxTime := x\<rparr>) = live h" "live (h\<lparr>h_wal := w\<rparr>) = live h"
  "live (h\<lparr>h_tombstones := t\<rparr>) = live h"
  "labels_known (h\<lparr>h_minTime := x\<rparr>) = labels_known h" "labels_known (h\<lparr>h_maxTime := x\<rparr>) = labels_known h"
  "labels_known (h\<lparr>h_wal := w\<rparr>) = labels_known h" "labels_known (h\<lparr>h_tombstones := t\<rparr>) = labels_known h"
  by (auto simp: live_def labels_known_def fun_eq_iff)

lemma head_inv_fields [simp]:
  "head_inv sum64 (h\<lparr>h_minTime := x\<rparr>) = head_inv sum64 h" "head_inv sum64 (h\<lparr>h_maxTime := x\<rparr>) = head_inv sum64 h"
  "head_inv sum64 (h\<lparr>h_wal := w\<rparr>) = head_inv sum64 h" "head_inv sum64 (h\<lparr>h_tombstones := t\<rparr>) = head_inv sum64 h"
  "samples_of sum64 (h\<lparr>h_minTime := x\<rparr>) = samples_of sum64 h" "samples_of sum64 (h\<lparr>h_maxTime := x\<rparr>) = samples_of sum64 h"
  "samples_of sum64 (h\<lparr>h_wal := w\<rparr>) = samples_of sum64 h" "samples_of sum64 (h\<lparr>h_tombstones := t\<rparr>) = samples_of sum64 h"
  by (simp_all add: head_inv_def values_ok_def samples_of_def fun_eq_iff)

lemma updateMinMaxTime_inv [simp]:
  "head_inv sum64 (updateMinMaxTime a b h) = head_inv sum64 h" "samples_of sum64 (updateMinMaxTime a b h) = samples_of sum64 h"
  by (simp_all add: updateMinMaxTime_def Let_def)

lemma headAppender_log_inv [simp]:
  "head_inv sum64 (headAppender_log a h) = head_inv sum64 h" "samples_of sum64 (headAppender_log a h) = samples_of sum64 h"
  "h_heap (headAppender_log a h) = h_heap h" "h_series (headAppender_log a h) = h_series h"
  "h_chunkRange (headAppender_log a h) = h_chunkRange h"
  by (simp_all add: headAppender_log_def Let_def split: option.split)

lemma live_unique:
  assumes "head_inv sum64 h" "getByID (h_series h) k = Some p" "getByID (h_series h) k' = Some p'"
    "ms_lset (h_heap h ! p) = ms_lset (h_heap h ! p')"
  shows "p = p'"
proof -
  have inv: "stripes_inv (Hash sum64) (h_heap h) (h_series h)" using assms(1) by (simp add: head_inv_def)
  have "getByHash (h_heap h) (h_series h) (Hash sum64 (ms_lset (h_heap h ! p))) (ms_lset (h_heap h ! p)) = Some p"
    "getByHash (h_heap h) (h_series h) (Hash sum64 (ms_lset (h_heap h ! p))) (ms_lset (h_heap h ! p)) = Some p'"
    unfolding getByHash_iff [OF inv] using assms head_inv_id(2) [OF assms(1)] by auto
  then show ?thesis by simp
qed

lemma Commit_ok:
  assumes inv: "head_inv sum64 h" and tx: "tx_ok h a" and live: "\<forall>(s, p) \<in> set (ha_samples a). getByID (h_series h) (Ref s) = Some p"
    and bound: "\<forall>ls. length (committed sum64 h ls) + length (ha_samples a) \<le> 65535"
  shows "\<exists>n h'. headAppender_Commit (h, a) = Ok (n, h') \<and> head_inv sum64 h'
    \<and> (\<forall>ls. samples_of sum64 h' ls = map_option (\<lambda>_. Ok (foldl accept (committed sum64 h ls)
          (map (\<lambda>(s, _). (T s, V s)) (filter (\<lambda>(_, p). ms_lset (h_heap h ! p) = ls) (ha_samples a))))) (samples_of sum64 h ls))"
proof -
  let ?h = "headAppender_log a h" and ?ss = "ha_samples a"
  define xs where "xs p = (case read_series (h_heap h ! p) of Ok ys \<Rightarrow> ys | _ \<Rightarrow> [])" for p
  have hold: "\<forall>p < length (h_heap h). holds_samples (h_chunkRange h) (h_heap h ! p) (xs p)"
  proof (intro allI impI)
    fix p assume "p < length (h_heap h)"
    with inv store_ok_nth obtain ys where "holds_samples (h_chunkRange h) (h_heap h ! p) ys" unfolding head_inv_def by blast
    then show "holds_samples (h_chunkRange h) (h_heap h ! p) (xs p)" by (simp add: xs_def holds_samples_read)
  qed
  have com: "committed sum64 h (ms_lset (h_heap h ! p)) = xs p" if "getByID (h_series h) k = Some p" for k p
    using samples_of_live [OF inv that] by (simp add: committed_def xs_def)
  have "length (xs p) + length ?ss \<le> 65535" if "(s, p) \<in> set ?ss" for s p
    using live that bound [rule_format, of "ms_lset (h_heap h ! p)"] com [of "Ref s" p] by fastforce
  moreover have "length (samples_at p ?ss) \<le> length ?ss" for p by (simp add: samples_at_def)
  ultimately have "\<forall>(s, p) \<in> set ?ss. length (xs p) + length (samples_at p ?ss) \<le> 65535"
    by (blast intro: order_trans [OF add_left_mono])
  from commit_samples_ok [OF _ hold this, of "length ?ss"] tx obtain st n where
    st: "commit_samples ?ss (h_heap h) (length ?ss) = Ok (st, n)" "length st = length (h_heap h)"
      "\<forall>p < length (h_heap h). holds_samples (h_chunkRange h) (st ! p) (foldl accept (xs p) (samples_at p ?ss))
         \<and> ms_ref (st ! p) = ms_ref (h_heap h ! p) \<and> ms_lset (st ! p) = ms_lset (h_heap h ! p)"
    by (fastforce simp: tx_ok_def)
  let ?h' = "h\<lparr>h_heap := st\<rparr>"
  have ids: "same_ids (h_heap h) st" using st(2,3) by (simp add: same_ids_def)
  have inv': "head_inv sum64 ?h'"
    using st(2,3) by (intro head_inv_store [OF inv ids]) (fastforce simp: store_ok_def in_set_conv_nth)
  have "samples_of sum64 ?h' ls = map_option (\<lambda>_. Ok (foldl accept (committed sum64 h ls)
      (map (\<lambda>(s, _). (T s, V s)) (filter (\<lambda>(_, p). ms_lset (h_heap h ! p) = ls) ?ss)))) (samples_of sum64 h ls)" for ls
  proof (cases "getByHash (h_heap h) (h_series h) (Hash sum64 ls) ls")
    case None
    then show ?thesis using getByHash_store [of "Hash sum64" "h_heap h" "h_series h" st ls] inv ids
      by (simp add: samples_of_def head_inv_def)
  next
    case (Some p)
    then have p: "getByID (h_series h) (ms_ref (h_heap h ! p)) = Some p" "ms_lset (h_heap h ! p) = ls"
      using getByHash_iff [of "Hash sum64" "h_heap h" "h_series h" ls p] inv by (simp_all add: head_inv_def)
    have "samples_at p ?ss = map (\<lambda>(s, _). (T s, V s)) (filter (\<lambda>(_, q). ms_lset (h_heap h ! q) = ls) ?ss)"
      unfolding samples_at_def using live live_unique [OF inv _ p(1)] p(2)
      by (intro arg_cong [of _ _ "map _"] filter_cong) fastforce+
    then show ?thesis using Some getByHash_store [of "Hash sum64" "h_heap h" "h_series h" st ls] inv ids
        st(3) head_inv_id(1) [OF inv p(1)] com [OF p(1)] p(2)
      by (auto simp: samples_of_def head_inv_def holds_samples_read)
  qed
  moreover have "headAppender_Commit (h, a) = Ok (n, updateMinMaxTime (ha_mint a) (ha_maxt a) (?h\<lparr>h_heap := st\<rparr>))"
    using st(1) by (simp add: headAppender_Commit_def Let_def)
  moreover have "?h\<lparr>h_heap := st\<rparr> = headAppender_log a ?h'"
    by (simp add: headAppender_log_def Let_def split: option.split)
  ultimately show ?thesis using inv' by (intro exI [of _ n] exI) auto
qed

definition clear_pending :: "(RefSample \<times> ptr) list \<Rightarrow> store \<Rightarrow> store" where
  "clear_pending ss st = fold (\<lambda>(s, p) st. st[p := (st ! p)\<lparr>pendingCommit := False\<rparr>]) ss st"

lemma clear_pending_nth:
  "length (clear_pending ss st) = length st \<and> (\<forall>p < length st. \<exists>b. clear_pending ss st ! p = (st ! p)\<lparr>pendingCommit := b\<rparr>)"
proof (induction ss arbitrary: st)
  case Nil
  have "\<exists>b. s = s\<lparr>pendingCommit := b\<rparr>" for s :: memSeries by (rule exI [of _ "pendingCommit s"]) simp
  then show ?case by (simp add: clear_pending_def)
next
  case (Cons x ss)
  obtain s q where x: "x = (s, q)" by (cases x)
  let ?st = "st[q := (st ! q)\<lparr>pendingCommit := False\<rparr>]"
  have "clear_pending (x # ss) st = clear_pending ss ?st" by (simp add: clear_pending_def x)
  moreover have "\<exists>b. ?st ! p = (st ! p)\<lparr>pendingCommit := b\<rparr>" if "p < length st" for p
    using that by (cases "p = q") (auto intro: exI [of _ "pendingCommit (st ! p)"])
  ultimately show ?case using Cons.IH [of ?st] by (fastforce simp: nth_list_update)
qed

lemma clear_pending_extends:
  assumes inv: "head_inv sum64 h"
  shows "head_inv sum64 (h\<lparr>h_heap := clear_pending ss (h_heap h)\<rparr>)" "extends_head h (h\<lparr>h_heap := clear_pending ss (h_heap h)\<rparr>)"
proof -
  let ?st = "clear_pending ss (h_heap h)"
  have len: "length ?st = length (h_heap h)" using clear_pending_nth [of ss "h_heap h"] by blast
  have pend: "\<exists>b. ?st ! p = (h_heap h ! p)\<lparr>pendingCommit := b\<rparr>" if "p < length (h_heap h)" for p
    using clear_pending_nth that by blast
  have ids: "same_ids (h_heap h) ?st" using len pend by (fastforce simp: same_ids_def)
  have hold: "\<exists>xs. holds_samples (h_chunkRange h) (?st ! p) xs \<and> holds_samples (h_chunkRange h) (h_heap h ! p) xs"
    if p: "p < length (h_heap h)" for p
    using pend [OF p] store_ok_nth [of "h_chunkRange h" "h_heap h" p] p inv by (auto simp: head_inv_def holds_samples_pending)
  then have "store_ok (h_chunkRange h) ?st" using len by (fastforce simp: store_ok_def in_set_conv_nth)
  from head_inv_store [OF inv ids this] show "head_inv sum64 (h\<lparr>h_heap := ?st\<rparr>)" .
  have "read_series (?st ! p) = read_series (h_heap h ! p)" if "p < length (h_heap h)" for p
    using hold [OF that] holds_samples_read by fastforce
  then show "extends_head h (h\<lparr>h_heap := ?st\<rparr>)" using ids by (simp add: extends_head_def)
qed

lemma Rollback_eq: "headAppender_Rollback (h, a) = headAppender_log (a\<lparr>ha_samples := []\<rparr>) (h\<lparr>h_heap := clear_pending (ha_samples a) (h_heap h)\<rparr>)"
  by (simp add: headAppender_Rollback_def clear_pending_def Let_def)

lemma Rollback_ok:
  assumes inv: "head_inv sum64 h"
  shows "head_inv sum64 (headAppender_Rollback (h, a)) \<and> samples_of sum64 (headAppender_Rollback (h, a)) ls = samples_of sum64 h ls"
proof -
  note c = clear_pending_extends [OF inv, of "ha_samples a"]
  have "samples_of sum64 (h\<lparr>h_heap := clear_pending (ha_samples a) (h_heap h)\<rparr>) ls = samples_of sum64 h ls"
    using c(2) by (intro samples_of_same_series [OF inv]) (simp_all add: extends_head_def)
  with c(1) show ?thesis by (simp add: Rollback_eq)
qed

text \<open>A head with one empty series.\<close>

lemma one_series_head:
  assumes "NewHead None 100 = Ok h0" "getOrCreate (Hash (\<lambda>_. 0) [\<lparr>Name = [97], Value = [98]\<rparr>]) [\<lparr>Name = [97], Value = [98]\<rparr>] h0 = ((p, b), h)"
  shows "head_inv (\<lambda>_. 0) h" "ss_hashes (h_series h) = (\<lambda>i x. [])(0 := (\<lambda>x. [])(0 := [0]))"
    "samples_of (\<lambda>_. 0) h [\<lparr>Name = [97], Value = [98]\<rparr>] = Some (Ok [])"
    "finite (dom (m (MemPostings_Delete (h_postings h) D)))" "getByID (h_series h) 1 = Some p" "h_heap h ! p = newMemSeries [\<lparr>Name = [97], Value = [98]\<rparr>] 1 100"
proof -
  let ?l = "[\<lparr>Name = [97], Value = [98]\<rparr>]"
  have w: "width_ok 100" by (simp add: width_ok_def)
  note new = head_inv_new(1,2) [OF assms(1) w, of "\<lambda>_. 0"]
  have l: "valid_lset ?l" by (simp add: valid_lset_def)
  have h0: "h0 = \<lparr>h_chunkRange = 100, h_wal = None, h_minTime = MaxInt64, h_maxTime = MinInt64, lastSeriesID = 0,
               h_heap = [], h_series = newStripeSeries, h_symbols = {}, h_values = Map.empty,
               h_postings = NewUnorderedMemPostings, h_tombstones = NewMemTombstones\<rparr>"
    using assms(1) by (simp add: NewHead_def)
  then have room: "lastSeriesID h0 + 1 \<noteq> 0" by simp
  obtain p' b' h' where h': "getOrCreate (Hash (\<lambda>_. 0) ?l) ?l h0 = ((p', b'), h')" "head_inv (\<lambda>_. 0) h'"
    "getByID (h_series h') (ms_ref (h_heap h' ! p')) = Some p'" "ms_lset (h_heap h' ! p') = ?l"
    "b' \<longleftrightarrow> samples_of (\<lambda>_. 0) h0 ?l = None" "b' \<longrightarrow> read_series (h_heap h' ! p') = Ok []"
    by (rule getOrCreate_ok [OF new(1) l room])
  then have h: "head_inv (\<lambda>_. 0) h" "getByID (h_series h) (ms_ref (h_heap h ! p)) = Some p"
    "ms_lset (h_heap h ! p) = ?l" "read_series (h_heap h ! p) = Ok []"
    using assms(2) new(2) [of ?l] by simp_all
  show "head_inv (\<lambda>_. 0) h" by (rule h(1))
  show "samples_of (\<lambda>_. 0) h ?l = Some (Ok [])" using samples_of_live [OF h(1,2)] h(3,4) by simp
  have s: "ss_hashes (h_series h) = (\<lambda>i x. [])(0 := (\<lambda>x. [])(0 := [0]))"
    "h_postings h = MemPostings_Add NewUnorderedMemPostings 1 ?l" "h_heap h ! p = newMemSeries ?l 1 100"
    using assms(2) by (auto simp: h0 getOrCreate_def getByHash_def seriesHashmap_get_def newStripeSeries_def getOrCreateWithID_def
        getOrSet_def seriesHashmap_set_def Let_def Hash_def add_symbol_def)
  show "ss_hashes (h_series h) = (\<lambda>i x. [])(0 := (\<lambda>x. [])(0 := [0]))" "h_heap h ! p = newMemSeries ?l 1 100" by (rule s)+
  show "getByID (h_series h) 1 = Some p" using h(2) by (simp add: s(3) newMemSeries_def)
  have "dom (m (h_postings h)) \<subseteq> {\<lparr>Name = [97], Value = [98]\<rparr>, allPostingsKey}"
    by (auto simp: s(2) MemPostings_Add_def addFor_def NewUnorderedMemPostings_def split: if_splits)
  then have "finite (dom (m (h_postings h)))" by (rule finite_subset) simp
  moreover have "dom (m (MemPostings_Delete (h_postings h) D)) \<subseteq> dom (m (h_postings h))"
    by (auto simp: MemPostings_Delete_def bind_eq_Some_conv)
  ultimately show "finite (dom (m (MemPostings_Delete (h_postings h) D)))" by (rule finite_subset [rotated])
qed

section \<open>Properties\<close>

text \<open>
  C6. A transaction. Each \<^verbatim>\<open>Add\<close> of a batch answers from the samples committed before the batch
  began: out of bounds, out of order, an amended value, or no error. Until the commit no series
  changes, except that new ones appear, empty; the commit appends to every series, in the order of
  the batch, the samples that were let through and are still newer than what it holds, and the
  head stays consistent.
\<close>

theorem transaction_commits:
  assumes "head_inv sum64 h" "list_all request_ok rs" "unat (lastSeriesID h) + length rs < 2 ^ 64"
    and "\<forall>ls. length (committed sum64 h ls) + length rs \<le> 65535"
  defines "minValidTime \<equiv> ha_minValidTime (appender h)"
  shows "\<exists>h1 a n h2. Add_all sum64 rs (h, appender h)
      = (map (\<lambda>(lset, t, v). add_verdict minValidTime (committed sum64 h lset) t v) rs, h1, a)
    \<and> (\<forall>ls. committed sum64 h1 ls = committed sum64 h ls)
    \<and> headAppender_Commit (h1, a) = Ok (n, h2) \<and> head_inv sum64 h2
    \<and> (\<forall>ls. samples_of sum64 h2 ls = (if admitted sum64 h minValidTime rs ls = [] then samples_of sum64 h ls
          else Some (Ok (foldl accept (committed sum64 h ls) (admitted sum64 h minValidTime rs ls)))))"
proof -
  have "tx_ok h (appender h)" by (simp add: tx_ok_def appender_def)
  from Add_all_ok [OF assms(1) this assms(2,3)] obtain h1 a where
    h1: "Add_all sum64 rs (h, appender h) = (map (\<lambda>(lset, t, v). add_verdict minValidTime (committed sum64 h lset) t v) rs, h1, a)"
      "head_inv sum64 h1" "tx_ok h1 a"
    and s1: "\<And>ls. samples_of sum64 h1 ls = (if samples_of sum64 h ls = None \<and> admitted sum64 h minValidTime rs ls \<noteq> [] then Some (Ok []) else samples_of sum64 h ls)"
    and ss: "length (ha_samples a) \<le> length rs" "\<forall>(s, p) \<in> set (ha_samples a). getByID (h_series h1) (Ref s) = Some p"
      "\<And>ls. map (\<lambda>(s, _). (T s, V s)) (filter (\<lambda>(_, p). ms_lset (h_heap h1 ! p) = ls) (ha_samples a)) = admitted sum64 h minValidTime rs ls"
    unfolding minValidTime_def by (auto simp: appender_def)
  have com: "committed sum64 h1 ls = committed sum64 h ls" for ls by (auto simp: committed_def s1)
  have "\<forall>ls. length (committed sum64 h1 ls) + length (ha_samples a) \<le> 65535"
    using assms(4) ss(1) unfolding com by (meson add_le_cancel_left order_trans)
  from Commit_ok [OF h1(2,3) ss(2) this] obtain n h2 where h2: "headAppender_Commit (h1, a) = Ok (n, h2)" "head_inv sum64 h2"
    "\<And>ls. samples_of sum64 h2 ls = map_option (\<lambda>_. Ok (foldl accept (committed sum64 h ls) (admitted sum64 h minValidTime rs ls))) (samples_of sum64 h1 ls)"
    unfolding com ss(3) by blast
  have "samples_of sum64 h ls = Some (Ok (committed sum64 h ls))" if "samples_of sum64 h ls \<noteq> None" for ls
    using that samples_of_Some [OF assms(1), of ls] samples_of_Ok [OF assms(1)] by (fastforce simp: committed_def)
  then have "samples_of sum64 h2 ls = (if admitted sum64 h minValidTime rs ls = [] then samples_of sum64 h ls
      else Some (Ok (foldl accept (committed sum64 h ls) (admitted sum64 h minValidTime rs ls))))" for ls
    unfolding h2(3) s1 by (cases "samples_of sum64 h ls") auto
  with h1(1) h2(1,2) com show ?thesis by blast
qed

lemma first_transaction:
  assumes "h = snd (initTime 250 h0)" "NewHead None 100 = Ok h0" "rs = [([\<lparr>Name = [97], Value = [98]\<rparr>], 250, 7), ([\<lparr>Name = [97], Value = [98]\<rparr>], 260, 8)]"
  shows "head_inv (\<lambda>_. 0) h" "list_all request_ok rs" "unat (lastSeriesID h) + length rs < 2 ^ 64"
    "\<forall>ls. length (committed (\<lambda>_. 0) h ls) + length rs \<le> 65535" "\<forall>ls. samples_of (\<lambda>_. 0) h ls = None"
    "ha_minValidTime (appender h) = 200"
proof -
  have w: "width_ok 100" by (simp add: width_ok_def)
  note new = head_inv_new [OF assms(2) w]
  have h: "h_minTime h0 = MaxInt64" "h_maxTime h0 = MinInt64" "lastSeriesID h0 = 0" "h_chunkRange h0 = 100" using assms(2) by (auto simp: NewHead_def)
  then have h': "h = h0\<lparr>h_minTime := 250, h_maxTime := 250\<rparr>" using assms(1) by (simp add: initTime_def Let_def)
  show "head_inv (\<lambda>_. 0) h" "\<forall>ls. samples_of (\<lambda>_. 0) h ls = None" using new(1,2) [of "\<lambda>_. 0"] by (simp_all add: h')
  then show "\<forall>ls. length (committed (\<lambda>_. 0) h ls) + length rs \<le> 65535" by (simp add: committed_def assms(3))
  show "list_all request_ok rs"
    by (simp add: assms(3) request_ok_def valid_lset_def time_ok_def)
  show "unat (lastSeriesID h) + length rs < 2 ^ 64" using h h' assms(3) by simp
  show "ha_minValidTime (appender h) = 200" using h h' by (simp add: appender_def in_i64_def)
qed

theorem transaction_commits_witness:
  "\<exists>h0 h rs h1 a n h2. NewHead None 100 = Ok h0 \<and> h = snd (initTime 250 h0)
    \<and> rs = [([\<lparr>Name = [97], Value = [98]\<rparr>], 250, 7), ([\<lparr>Name = [97], Value = [98]\<rparr>], 260, 8)]
    \<and> head_inv (\<lambda>_. 0) h \<and> list_all request_ok rs \<and> unat (lastSeriesID h) + length rs < 2 ^ 64
    \<and> Add_all (\<lambda>_. 0) rs (h, appender h) = ([None, None], h1, a) \<and> headAppender_Commit (h1, a) = Ok (n, h2)
    \<and> samples_of (\<lambda>_. 0) h2 [\<lparr>Name = [97], Value = [98]\<rparr>] = Some (Ok [(250, 7), (260, 8)])"
proof -
  define rs :: "(Labels \<times> int \<times> f64) list" where
    "rs = [([\<lparr>Name = [97], Value = [98]\<rparr>], 250, 7), ([\<lparr>Name = [97], Value = [98]\<rparr>], 260, 8)]"
  obtain h0 where h0: "NewHead None 100 = Ok h0" by (simp add: NewHead_def)
  define h where "h = snd (initTime 250 h0)"
  note f = first_transaction [OF h_def h0 rs_def]
  have com: "committed (\<lambda>_. 0) h ls = []" for ls using f(5) by (simp add: committed_def)
  have v: "map (\<lambda>(lset, t, v). add_verdict 200 [] t v) rs = [None, None]"
    "admitted (\<lambda>_. 0) h 200 rs [\<lparr>Name = [97], Value = [98]\<rparr>] = [(250, 7), (260, 8)]"
    by (simp_all add: rs_def add_verdict_def admitted_def com)
  from transaction_commits [OF f(1-4)] obtain h1 a n h2 where
    "Add_all (\<lambda>_. 0) rs (h, appender h) = ([None, None], h1, a)" "headAppender_Commit (h1, a) = Ok (n, h2)"
    "samples_of (\<lambda>_. 0) h2 [\<lparr>Name = [97], Value = [98]\<rparr>] = Some (Ok (foldl accept [] [(250, 7), (260, 8)]))"
    unfolding f(6) com v(1) by (auto simp: v(2))
  then show ?thesis using f h0 by (intro exI [of _ h0] exI [of _ h] exI [of _ rs] exI [of _ h1] exI [of _ a] exI [of _ n] exI [of _ h2])
      (simp add: accept_def h_def rs_def)
qed

text \<open>
  C22. Rolling a transaction back: the samples of every series are as before the batch, only the
  series its first samples created stay, empty, and the head stays consistent.
\<close>

theorem rollback_discards:
  assumes "head_inv sum64 h" "list_all request_ok rs" "unat (lastSeriesID h) + length rs < 2 ^ 64"
    and "Add_all sum64 rs (h, appender h) = (errs, h1, a)"
  shows "head_inv sum64 (headAppender_Rollback (h1, a))
    \<and> (\<forall>ls. samples_of sum64 (headAppender_Rollback (h1, a)) ls =
        (if samples_of sum64 h ls = None \<and> admitted sum64 h (ha_minValidTime (appender h)) rs ls \<noteq> [] then Some (Ok [])
         else samples_of sum64 h ls))"
proof -
  have "tx_ok h (appender h)" by (simp add: tx_ok_def appender_def)
  from Add_all_ok [OF assms(1) this assms(2,3)] assms(4) have h1: "head_inv sum64 h1" "tx_ok h1 a"
    "\<forall>ls. samples_of sum64 h1 ls = (if samples_of sum64 h ls = None \<and> admitted sum64 h (ha_minValidTime (appender h)) rs ls \<noteq> [] then Some (Ok [])
         else samples_of sum64 h ls)" by auto
  with Rollback_ok [OF h1(1)] show ?thesis by simp
qed

theorem rollback_discards_witness:
  "\<exists>h0 h rs errs h1 a. NewHead None 100 = Ok h0 \<and> h = snd (initTime 250 h0)
    \<and> rs = [([\<lparr>Name = [97], Value = [98]\<rparr>], 250, 7), ([\<lparr>Name = [97], Value = [98]\<rparr>], 260, 8)]
    \<and> head_inv (\<lambda>_. 0) h \<and> list_all request_ok rs \<and> unat (lastSeriesID h) + length rs < 2 ^ 64
    \<and> Add_all (\<lambda>_. 0) rs (h, appender h) = (errs, h1, a)
    \<and> samples_of (\<lambda>_. 0) (headAppender_Rollback (h1, a)) [\<lparr>Name = [97], Value = [98]\<rparr>] = Some (Ok [])"
proof -
  define rs :: "(Labels \<times> int \<times> f64) list" where
    "rs = [([\<lparr>Name = [97], Value = [98]\<rparr>], 250, 7), ([\<lparr>Name = [97], Value = [98]\<rparr>], 260, 8)]"
  obtain h0 where h0: "NewHead None 100 = Ok h0" by (simp add: NewHead_def)
  define h where "h = snd (initTime 250 h0)"
  note f = first_transaction [OF h_def h0 rs_def]
  obtain errs h1 a where a: "Add_all (\<lambda>_. 0) rs (h, appender h) = (errs, h1, a)" by (metis prod_cases3)
  have com: "committed (\<lambda>_. 0) h ls = []" for ls using f(5) by (simp add: committed_def)
  have "admitted (\<lambda>_. 0) h 200 rs [\<lparr>Name = [97], Value = [98]\<rparr>] \<noteq> []"
    by (simp add: rs_def add_verdict_def admitted_def com)
  with rollback_discards [OF f(1-3) a] f(5,6) have "samples_of (\<lambda>_. 0) (headAppender_Rollback (h1, a)) [\<lparr>Name = [97], Value = [98]\<rparr>] = Some (Ok [])"
    by simp
  then show ?thesis using f(1-3) h0 a by (intro exI [of _ h0] exI [of _ h] exI [of _ rs] exI [of _ errs] exI [of _ h1] exI [of _ a])
      (simp add: h_def rs_def)
qed

end
