(* ===== verification/Head_Gc.thy ===== *)
theory Head_Gc
  imports Head_Laws
begin

text \<open>
  Garbage collection of the head: whatever the iteration order of the hash maps, it keeps the
  invariant, removes only samples older than the head's minimum time and series without chunks
  that no transaction is about to write to, and it leaves nothing of those behind.
\<close>

section \<open>Removing one series\<close>

lemma stripes_inv_delete:
  assumes inv: "stripes_inv hash st s" and p: "p \<in> set (ss_hashes s i x)"
  defines "s' \<equiv> s\<lparr>ss_hashes := (ss_hashes s)(i := seriesHashmap_del st (ss_hashes s i) x (ms_lset (st ! p))),
     ss_series := (ss_series s)(ms_ref (st ! p) AND stripeMask := (ss_series s (ms_ref (st ! p) AND stripeMask))(ms_ref (st ! p) := None))\<rparr>"
  shows "stripes_inv hash st s'" "getByID s' k = (if k = ms_ref (st ! p) then None else getByID s k)"
    "set (ss_hashes s' j y) = set (ss_hashes s j y) - {p}"
proof -
  let ?k = "ms_ref (st ! p)"
  note pp = stripes_inv_hash [OF inv p]
  show get: "getByID s' k = (if k = ?k then None else getByID s k)" for k
    by (auto simp: s'_def getByID_def)
  have del: "filter (\<lambda>q. \<not> Equals (ms_lset (st ! q)) (ms_lset (st ! p))) (ss_hashes s i x) = filter (\<lambda>q. q \<noteq> p) (ss_hashes s i x)"
    using stripes_inv_distinct [OF inv, of i x] p by (intro filter_cong) (auto simp: Equals_iff distinct_map dest: inj_onD)
  have only: "q = p \<Longrightarrow> q \<in> set (ss_hashes s j y) \<Longrightarrow> j = i \<and> y = x" for q j y
    using stripes_inv_hash [OF inv] pp by auto
  show hs: "set (ss_hashes s' j y) = set (ss_hashes s j y) - {p}" for j y
  proof (cases "j = i \<and> y = x")
    case True
    then show ?thesis by (auto simp: s'_def seriesHashmap_del_def del)
  next
    case False
    then show ?thesis using only by (auto simp: s'_def seriesHashmap_del_def)
  qed
  show "stripes_inv hash st s'"
  proof (rule stripes_invI)
    fix j k q assume a: "ss_series s' j k = Some q"
    then have s: "ss_series s j k = Some q" by (auto simp: s'_def split: if_splits)
    with inv have q: "j = k AND stripeMask" "q < length st" "ms_ref (st ! q) = k"
      "q \<in> set (ss_hashes s (hash (ms_lset (st ! q)) AND stripeMask) (hash (ms_lset (st ! q))))"
      unfolding stripes_inv_def by (auto simp: Let_def)
    have "q \<noteq> p" using a q by (auto simp: s'_def)
    with q show "j = k AND stripeMask \<and> q < length st \<and> ms_ref (st ! q) = k
      \<and> (let x = hash (ms_lset (st ! q)) in q \<in> set (ss_hashes s' (x AND stripeMask) x))" by (simp add: hs)
  next
    fix j y q assume "q \<in> set (ss_hashes s' j y)"
    then have q: "q \<in> set (ss_hashes s j y)" "q \<noteq> p" by (simp_all add: hs)
    from stripes_inv_hash [OF inv q(1)] pp(4) q(2)
    show "j = y AND stripeMask \<and> q < length st \<and> hash (ms_lset (st ! q)) = y \<and> getByID s' (ms_ref (st ! q)) = Some q"
      by (auto simp: get)
  next
    fix j y
    have "\<exists>P. ss_hashes s' j y = filter P (ss_hashes s j y)"
    proof (cases "j = i \<and> y = x")
      case True
      then show ?thesis by (auto simp: s'_def seriesHashmap_del_def)
    next
      case False
      then have "ss_hashes s' j y = filter (\<lambda>_. True) (ss_hashes s j y)" by (auto simp: s'_def seriesHashmap_del_def)
      then show ?thesis by blast
    qed
    then obtain P where "ss_hashes s' j y = filter P (ss_hashes s j y)" by blast
    then show "distinct (map (\<lambda>p. ms_lset (st ! p)) (ss_hashes s' j y))"
      using distinct_map_filter [OF stripes_inv_distinct [OF inv, of j y], of P] by (simp only:)
  qed
qed

section \<open>The invariant of a collection\<close>

definition shrinks :: "int \<Rightarrow> int \<Rightarrow> memSeries \<Rightarrow> memSeries \<Rightarrow> bool" where
  "shrinks w mint s s' \<longleftrightarrow> ms_ref s' = ms_ref s \<and> ms_lset s' = ms_lset s \<and> pendingCommit s' = pendingCommit s
     \<and> (\<forall>xs. holds_samples w s xs \<longrightarrow>
          (\<exists>zs. holds_samples w s' zs \<and> suffix zs xs \<and> (\<forall>x \<in> set xs. mint \<le> fst x \<longrightarrow> x \<in> set zs)))"

lemma shrinks_refl: "shrinks w mint s s"
  by (auto simp: shrinks_def)

lemma shrinks_truncate: "shrinks w mint s (snd (truncateChunksBefore mint s))"
proof -
  let ?s = "snd (truncateChunksBefore mint s)"
  have "ms_ref ?s = ms_ref s \<and> ms_lset ?s = ms_lset s \<and> pendingCommit ?s = pendingCommit s" by (simp add: truncateChunksBefore_proj)
  then show ?thesis using holds_samples_truncate [of w s] unfolding shrinks_def by blast
qed

lemma shrinks_trans:
  assumes a: "shrinks w mint s1 s2" and b: "shrinks w mint s2 s3"
  shows "shrinks w mint s1 s3"
proof -
  have "\<exists>zs. holds_samples w s3 zs \<and> suffix zs xs \<and> (\<forall>x \<in> set xs. mint \<le> fst x \<longrightarrow> x \<in> set zs)" if xs: "holds_samples w s1 xs" for xs
  proof -
    obtain ys where ys: "holds_samples w s2 ys" "suffix ys xs" "\<forall>x \<in> set xs. mint \<le> fst x \<longrightarrow> x \<in> set ys"
      using a xs unfolding shrinks_def by blast
    obtain zs where zs: "holds_samples w s3 zs" "suffix zs ys" "\<forall>x \<in> set ys. mint \<le> fst x \<longrightarrow> x \<in> set zs"
      using b ys(1) unfolding shrinks_def by blast
    from zs(1) suffix_order.trans [OF zs(2) ys(2)] zs(3) ys(3) show ?thesis by blast
  qed
  then show ?thesis using a b by (simp add: shrinks_def)
qed

text \<open>What is left of a series after its turn.\<close>

definition collected :: "int \<Rightarrow> memSeries \<Rightarrow> bool" where
  "collected mint s \<longleftrightarrow> (if ms_chunks s = [] then pendingCommit s else mint \<le> mc_maxTime (hd (ms_chunks s)))"

lemma collected_truncate:
  assumes "s' = snd (truncateChunksBefore mint s)" "ms_chunks s' \<noteq> [] \<or> pendingCommit s'"
  shows "collected mint s'"
proof -
  have "ms_chunks s' = dropWhile (\<lambda>c. mc_maxTime c < mint) (ms_chunks s)"
    unfolding assms(1) by (simp add: truncateChunksBefore_proj drop_truncate_count)
  then have "mint \<le> mc_maxTime (hd (ms_chunks s'))" if "ms_chunks s' \<noteq> []"
    using that hd_dropWhile [of "\<lambda>c. mc_maxTime c < mint" "ms_chunks s"] by simp
  then show ?thesis using assms(2) by (auto simp: collected_def)
qed

definition gc_inv :: "(Labels \<Rightarrow> u64) \<Rightarrow> int \<Rightarrow> int \<Rightarrow> store \<Rightarrow> stripeSeries \<Rightarrow> u64 set \<Rightarrow> ptr set \<Rightarrow> gc_state \<Rightarrow> bool" where
  "gc_inv hash w mint st s H W g \<longleftrightarrow> stripes_inv hash (gc_heap g) (gc_stripes g) \<and> length (gc_heap g) = length st
     \<and> (\<forall>p < length st. shrinks w mint (st ! p) (gc_heap g ! p))
     \<and> (\<forall>k. getByID (gc_stripes g) k = (if k \<in> gc_deleted g then None else getByID s k))
     \<and> (\<forall>k \<in> gc_deleted g. \<exists>p. getByID s k = Some p \<and> ms_chunks (gc_heap g ! p) = [] \<and> \<not> pendingCommit (gc_heap g ! p))
     \<and> (\<forall>k p. getByID (gc_stripes g) k = Some p \<longrightarrow> hash (ms_lset (gc_heap g ! p)) \<in> H \<or> p \<in> W \<longrightarrow> collected mint (gc_heap g ! p))"

lemma gc_series_inv:
  assumes inv: "gc_inv hash w mint st s H W g" and p: "p \<in> set (ss_hashes (gc_stripes g) i x)"
  shows "gc_inv hash w mint st s H (insert p W) (gc_series mint i x p g)"
    "set (ss_hashes (gc_stripes g) j y) - {p} \<subseteq> set (ss_hashes (gc_stripes (gc_series mint i x p g)) j y)"
proof -
  have g: "stripes_inv hash (gc_heap g) (gc_stripes g)" "length (gc_heap g) = length st"
    "\<forall>p < length st. shrinks w mint (st ! p) (gc_heap g ! p)"
    "\<forall>k. getByID (gc_stripes g) k = (if k \<in> gc_deleted g then None else getByID s k)"
    "\<forall>k \<in> gc_deleted g. \<exists>p. getByID s k = Some p \<and> ms_chunks (gc_heap g ! p) = [] \<and> \<not> pendingCommit (gc_heap g ! p)"
    "\<forall>k p. getByID (gc_stripes g) k = Some p \<longrightarrow> hash (ms_lset (gc_heap g ! p)) \<in> H \<or> p \<in> W \<longrightarrow> collected mint (gc_heap g ! p)"
    using inv unfolding gc_inv_def by blast+
  note pp = stripes_inv_hash [OF g(1) p]
  obtain k se where tr: "truncateChunksBefore mint (gc_heap g ! p) = (k, se)" by (cases "truncateChunksBefore mint (gc_heap g ! p)")
  have se: "se = snd (truncateChunksBefore mint (gc_heap g ! p))" by (simp add: tr)
  let ?st = "(gc_heap g)[p := se]"
  have ids: "ms_ref se = ms_ref (gc_heap g ! p)" "ms_lset se = ms_lset (gc_heap g ! p)" "pendingCommit se = pendingCommit (gc_heap g ! p)"
    by (simp_all add: se truncateChunksBefore_proj)
  have si: "stripes_inv hash ?st (gc_stripes g)" by (rule stripes_inv_store [OF g(1) same_ids_update [OF ids(1,2)]])
  have shr: "\<forall>q < length st. shrinks w mint (st ! q) (?st ! q)"
    using g(2,3) pp(2) shrinks_trans [OF _ shrinks_truncate, of w mint _ "gc_heap g ! p"] by (auto simp: nth_list_update se)
  have ref: "ms_ref (gc_heap g ! p) \<notin> gc_deleted g" "getByID s (ms_ref (gc_heap g ! p)) = Some p"
    using pp(4) g(4) by (auto split: if_splits)
  have del: "\<exists>q. getByID s k = Some q \<and> ms_chunks (?st ! q) = [] \<and> \<not> pendingCommit (?st ! q)" if k: "k \<in> gc_deleted g" for k
  proof -
    obtain q where q: "getByID s k = Some q" "ms_chunks (gc_heap g ! q) = []" "\<not> pendingCommit (gc_heap g ! q)" using g(5) k by blast
    have "ms_chunks (?st ! q) = [] \<and> \<not> pendingCommit (?st ! q)"
    proof (cases "q = p")
      case True
      then have "?st ! q = se" using pp(2) by simp
      then show ?thesis using True q(2,3) by (simp add: se truncateChunksBefore_proj)
    qed (use q in simp)
    with q(1) show ?thesis by blast
  qed
  let ?ref = "ms_ref (gc_heap g ! p)" and ?S = "gc_stripes (gc_series mint i x p g)"
  have goal: "gc_inv hash w mint st s H (insert p W) (gc_series mint i x p g)
      \<and> (\<forall>j y. set (ss_hashes (gc_stripes g) j y) - {p} \<subseteq> set (ss_hashes ?S j y))"
  proof (cases "ms_chunks se \<noteq> [] \<or> pendingCommit se")
    case True
    then have eq: "gc_series mint i x p g = g\<lparr>gc_heap := ?st, gc_rmChunks := gc_rmChunks g + k\<rparr>"
      using tr by (simp add: gc_series_def Let_def)
    have "collected mint (?st ! q)" if "getByID (gc_stripes g) k = Some q" "hash (ms_lset (?st ! q)) \<in> H \<or> q \<in> insert p W" for k q
      using that g(6) collected_truncate [OF se True] pp(2) ids(2) by (cases "q = p") auto
    then show ?thesis unfolding gc_inv_def eq using si g(2,4) shr del by auto
  next
    case False
    let ?s = "gc_stripes g"
    let ?s' = "?s\<lparr>ss_hashes := (ss_hashes ?s)(i := seriesHashmap_del ?st (ss_hashes ?s i) x (ms_lset (?st ! p))),
     ss_series := (ss_series ?s)(ms_ref (?st ! p) AND stripeMask := (ss_series ?s (ms_ref (?st ! p) AND stripeMask))(ms_ref (?st ! p) := None))\<rparr>"
    have stp: "?st ! p = se" using pp(2) by simp
    have eq: "gc_series mint i x p g = g\<lparr>gc_heap := ?st, gc_rmChunks := gc_rmChunks g + k,
        gc_deleted := insert ?ref (gc_deleted g), gc_stripes := ?s'\<rparr>"
      using False tr stp ids(1) by (simp add: gc_series_def Let_def)
    note d = stripes_inv_delete [OF si p]
    have get: "getByID ?s' k = (if k \<in> insert ?ref (gc_deleted g) then None else getByID s k)" for k
      unfolding d(2) using g(4) stp ids(1) by simp
    have "collected mint (?st ! q)" if q: "getByID ?s' k = Some q" "hash (ms_lset (?st ! q)) \<in> H \<or> q \<in> insert p W" for k q
    proof -
      have k: "getByID ?s k = Some q" "k \<noteq> ?ref" using q(1) stp ids(1) unfolding d(2) by (auto split: if_splits)
      then have "q \<noteq> p" using stripes_inv_id(2) [OF g(1) k(1)] by auto
      with g(6) k(1) q(2) show ?thesis by auto
    qed
    moreover have "\<forall>k \<in> insert ?ref (gc_deleted g). \<exists>q. getByID s k = Some q \<and> ms_chunks (?st ! q) = [] \<and> \<not> pendingCommit (?st ! q)"
      using del ref(2) stp False by auto
    ultimately show ?thesis unfolding gc_inv_def eq using d(1,3) get g(2) shr by auto
  qed
  then show "gc_inv hash w mint st s H (insert p W) (gc_series mint i x p g)" ..
  show "set (ss_hashes (gc_stripes g) j y) - {p} \<subseteq> set (ss_hashes ?S j y)" using goal by blast
qed

section \<open>The loops\<close>

lemma gc_series_deleted: "gc_deleted g \<subseteq> gc_deleted (gc_series mint i x p g)"
  by (auto simp: gc_series_def Let_def case_prod_beta)

lemma gc_bucket_deleted: "gc_deleted g \<subseteq> gc_deleted (fold (gc_series mint i x) ps g)"
  using gc_series_deleted by (induction ps arbitrary: g) fastforce+

lemma gc_bucket_inv:
  assumes "gc_inv hash w mint st s H W g" "distinct ps" "set ps \<subseteq> set (ss_hashes (gc_stripes g) i x)"
  shows "gc_inv hash w mint st s H (set ps \<union> W) (fold (gc_series mint i x) ps g)"
  using assms
proof (induction ps arbitrary: W g)
  case (Cons p ps)
  have p: "p \<in> set (ss_hashes (gc_stripes g) i x)" using Cons.prems(3) by simp
  from gc_series_inv [OF Cons.prems(1) p] Cons.prems(2,3) Cons.IH [of "insert p W" "gc_series mint i x p g"]
  show ?case by auto
qed simp

lemma gc_hash_inv:
  assumes inv: "gc_inv hash w mint st s H {} g" and i: "i = x AND stripeMask"
  shows "gc_inv hash w mint st s (insert x H) {} (gc_hash mint i x g)"
proof -
  let ?ps = "ss_hashes (gc_stripes g) i x"
  let ?g = "gc_hash mint i x g"
  have g: "stripes_inv hash (gc_heap g) (gc_stripes g)" "length (gc_heap g) = length st"
    "\<forall>p < length st. shrinks w mint (st ! p) (gc_heap g ! p)"
    "\<forall>k. getByID (gc_stripes g) k = (if k \<in> gc_deleted g then None else getByID s k)"
    using inv unfolding gc_inv_def by blast+
  have "distinct ?ps" using stripes_inv_distinct [OF g(1), of i x] by (simp add: distinct_map)
  from gc_bucket_inv [OF inv this subset_refl] have inv': "gc_inv hash w mint st s H (set ?ps) ?g" by (simp add: gc_hash_def)
  have "p \<in> set ?ps" if p: "getByID (gc_stripes ?g) k = Some p" "hash (ms_lset (gc_heap ?g ! p)) = x" for k p
  proof -
    have "gc_deleted g \<subseteq> gc_deleted ?g" unfolding gc_hash_def by (rule gc_bucket_deleted)
    moreover have "getByID (gc_stripes ?g) k = (if k \<in> gc_deleted ?g then None else getByID s k)" using inv' by (simp add: gc_inv_def)
    ultimately have k: "getByID (gc_stripes g) k = Some p" using p(1) g(4) by (auto split: if_splits)
    from stripes_inv_id(1) [OF g(1) this] g(2) have "p < length st" by simp
    then have "ms_lset (gc_heap ?g ! p) = ms_lset (gc_heap g ! p)" using g(3) inv' by (simp add: gc_inv_def shrinks_def)
    with stripes_inv_id(3) [OF g(1) k] p(2) i show ?thesis by simp
  qed
  with inv' show ?thesis unfolding gc_inv_def by blast
qed

text \<open>An iteration order of the hash maps lists, for every stripe, the hashes that have series.\<close>

definition order_ok :: "(u64 \<Rightarrow> u64 list) \<Rightarrow> stripeSeries \<Rightarrow> bool" where
  "order_ok order s \<longleftrightarrow> (\<forall>i. distinct (order i) \<and> set (order i) = {x. ss_hashes s i x \<noteq> []})"

lemma gc_stripe_inv:
  "gc_inv hash w mint st s H {} g \<Longrightarrow> \<forall>x \<in> set xs. i = x AND stripeMask \<Longrightarrow>
   gc_inv hash w mint st s (set xs \<union> H) {} (fold (gc_hash mint i) xs g)"
proof (induction xs arbitrary: H g)
  case (Cons x xs)
  have i: "i = x AND stripeMask" using Cons.prems(2) by auto
  have xs: "\<forall>x \<in> set xs. i = x AND stripeMask" using Cons.prems(2) by auto
  from Cons.IH [OF gc_hash_inv [OF Cons.prems(1) i] xs] show ?case by simp
qed simp

lemma gc_stripes_inv:
  "gc_inv hash w mint st s H {} g \<Longrightarrow> \<forall>i \<in> set is. \<forall>x \<in> set (order i). i = x AND stripeMask \<Longrightarrow>
   gc_inv hash w mint st s ((\<Union>i \<in> set is. set (order i)) \<union> H) {} (fold (\<lambda>i. fold (gc_hash mint i) (order i)) is g)"
proof (induction "is" arbitrary: H g)
  case (Cons i "is")
  from gc_stripe_inv [OF Cons.prems(1), of "order i" i] Cons.prems(2)
    Cons.IH [of "set (order i) \<union> H" "fold (gc_hash mint i) (order i) g"] show ?case by (simp add: Un_assoc Un_left_commute)
qed simp

lemma stripe_index: "x AND stripeMask \<in> set (map of_nat [0..<stripeSize])"
proof -
  have "x AND stripeMask = take_bit 14 x" by (simp add: stripeMask_def take_bit_eq_mask mask_eq_exp_minus_1)
  then have "unat (x AND stripeMask) < 2 ^ 14" using take_bit_nat_less_exp [of 14 "unat x"] by (simp add: unsigned_take_bit_eq)
  then have "x AND stripeMask = of_nat (unat (x AND stripeMask))" "unat (x AND stripeMask) < stripeSize" by (simp_all add: stripeSize_def)
  then show ?thesis by (metis atLeast0LessThan image_eqI lessThan_iff set_map set_upt)
qed

lemma gc_inv_all:
  assumes "gc_inv hash w mint st s H {} g" "\<And>k p. getByID (gc_stripes g) k = Some p \<Longrightarrow> hash (ms_lset (gc_heap g ! p)) \<in> H"
  shows "gc_inv hash w mint st s UNIV {} g"
  using assms by (simp add: gc_inv_def)

lemma stripeSeries_gc_inv:
  assumes inv: "stripes_inv hash st s" and ord: "order_ok order s"
    and g_def: "g = stripeSeries_gc order mint st s"
  shows "gc_inv hash w mint st s UNIV {} g"
proof -
  let ?g = "\<lparr>gc_heap = st, gc_stripes = s, gc_deleted = {}, gc_rmChunks = 0\<rparr>"
  let ?H = "\<Union>i \<in> set (map of_nat [0..<stripeSize]). set (order i)"
  have start: "gc_inv hash w mint st s {} {} ?g" using inv by (simp add: gc_inv_def shrinks_refl)
  have idx: "\<forall>i \<in> set (map of_nat [0..<stripeSize]). \<forall>x \<in> set (order i). i = x AND stripeMask"
  proof (intro ballI)
    fix i x assume "x \<in> set (order i)"
    then have "ss_hashes s i x \<noteq> []" using ord by (simp add: order_ok_def)
    then show "i = x AND stripeMask" using stripes_inv_hash(1) [OF inv] by (metis last_in_set)
  qed
  have g: "gc_inv hash w mint st s ?H {} g" using gc_stripes_inv [OF start idx] by (simp add: g_def stripeSeries_gc_def)
  have "hash (ms_lset (gc_heap g ! p)) \<in> ?H" if p: "getByID (gc_stripes g) k = Some p" for k p
  proof -
    have "getByID s k = Some p" using g p unfolding gc_inv_def by (metis option.distinct(1))
    from stripes_inv_id [OF inv this] have p': "p < length st"
      "p \<in> set (ss_hashes s (hash (ms_lset (st ! p)) AND stripeMask) (hash (ms_lset (st ! p))))" by simp_all
    then have "hash (ms_lset (st ! p)) \<in> set (order (hash (ms_lset (st ! p)) AND stripeMask))"
      using ord by (auto simp: order_ok_def)
    moreover have "ms_lset (gc_heap g ! p) = ms_lset (st ! p)" using g p'(1) by (simp add: gc_inv_def shrinks_def)
    ultimately show ?thesis by (intro UN_I [OF stripe_index [of "hash (ms_lset (st ! p))"]]) simp
  qed
  with g show ?thesis by (rule gc_inv_all)
qed

section \<open>The head after a collection\<close>

lemma gc_symbols:
  "MemPostings_Iter keys p gc_symbol (sy, vs) =
     (None, sy \<union> Name ` set keys \<union> Value ` set keys,
      \<lambda>n. if vs n = None \<and> n \<notin> Name ` set keys then None
          else Some ((case vs n of None \<Rightarrow> {} | Some ss \<Rightarrow> ss) \<union> Value ` {l \<in> set keys. Name l = n}))"
proof (induction keys arbitrary: sy vs)
  case Nil
  then show ?case by (auto simp: fun_eq_iff split: option.split)
next
  case (Cons l keys)
  let ?vs = "vs(Name l \<mapsto> insert (Value l) (case vs (Name l) of None \<Rightarrow> {} | Some ss \<Rightarrow> ss))"
  have "MemPostings_Iter (l # keys) p gc_symbol (sy, vs) = MemPostings_Iter keys p gc_symbol (insert (Value l) (insert (Name l) sy), ?vs)"
    by (simp add: gc_symbol_def)
  also have "\<dots> = (None, sy \<union> Name ` set (l # keys) \<union> Value ` set (l # keys),
      \<lambda>n. if vs n = None \<and> n \<notin> Name ` set (l # keys) then None
          else Some ((case vs n of None \<Rightarrow> {} | Some ss \<Rightarrow> ss) \<union> Value ` {k \<in> set (l # keys). Name k = n}))"
    unfolding Cons.IH by (auto simp: fun_eq_iff split: option.splits)
  finally show ?case .
qed

lemma Head_gc_eq:
  assumes "g = stripeSeries_gc order (h_minTime h) (h_heap h) (h_series h)" "p = MemPostings_Delete (h_postings h) (gc_deleted g)"
  shows "Head_gc order keys h = h\<lparr>h_heap := gc_heap g, h_series := gc_stripes g, h_postings := p,
    h_symbols := Name ` set keys \<union> Value ` set keys,
    h_values := (\<lambda>n. if n \<notin> Name ` set keys then None else Some (Value ` {l \<in> set keys. Name l = n}))\<rparr>"
  unfolding Head_gc_def assms Let_def gc_symbols by (simp cong: if_cong)

lemma Head_gc_inv:
  assumes inv: "head_inv sum64 h" and ord: "order_ok order (h_series h)"
    and g_def: "g = stripeSeries_gc order (h_minTime h) (h_heap h) (h_series h)"
    and keys: "enumerates_keys keys (MemPostings_Delete (h_postings h) (gc_deleted g))"
  shows "head_inv sum64 (Head_gc order keys h)"
proof -
  let ?p = "MemPostings_Delete (h_postings h) (gc_deleted g)" and ?h = "Head_gc order keys h"
  note eq = Head_gc_eq [OF g_def refl, of keys]
  have si: "stripes_inv (Hash sum64) (h_heap h) (h_series h)" using inv by (simp add: head_inv_def)
  have g: "gc_inv (Hash sum64) (h_chunkRange h) (h_minTime h) (h_heap h) (h_series h) UNIV {} g"
    by (rule stripeSeries_gc_inv [OF si ord g_def])
  have get: "getByID (gc_stripes g) k = (if k \<in> gc_deleted g then None else getByID (h_series h) k)" for k
    using g by (simp add: gc_inv_def)
  have lset: "ms_lset (gc_heap g ! p) = ms_lset (h_heap h ! p)" if "p < length (h_heap h)" for p
    using g that by (simp add: gc_inv_def shrinks_def)
  have live: "live ?h = {(x, ls) \<in> live h. x \<notin> gc_deleted g}"
    using head_inv_id(1) [OF inv] lset by (fastforce simp: live_def eq get split: if_splits)
  have rep: "represents ?p (live ?h)" unfolding live using inv by (intro represents_Delete) (simp add: head_inv_def)
  have key: "l \<in> set keys" if "(k, ls) \<in> live ?h" "l \<in> set ls" for k ls l
  proof -
    have "k \<in> series_with (live ?h) l" using that by (auto simp: series_with_def)
    then have "k \<in> set (ids_at ?p l)" using rep by (simp add: represents_def)
    then have "l \<in> dom (m ?p)" by (cases "m ?p l") (auto simp: ids_at_def)
    then show ?thesis using keys by (simp add: enumerates_keys_def)
  qed
  have lsets: "valid_lset ls" if "(k, ls) \<in> live ?h" for k ls using that inv unfolding live head_inv_def values_ok_def by blast
  have nonempty: "Value l \<noteq> []" if l: "l \<in> set keys" "Name l \<noteq> []" for l
  proof -
    have "l \<in> dom (m ?p)" using l(1) keys by (simp add: enumerates_keys_def)
    then have "ids_at ?p l \<noteq> []" using rep by (auto simp: represents_def ids_at_def)
    then obtain k where "k \<in> series_with (live ?h) l" using rep by (fastforce simp: represents_def neq_Nil_conv)
    moreover have "l \<noteq> allPostingsKey" using l(2) by (auto simp: allPostingsKey_def)
    ultimately obtain ls where "(k, ls) \<in> live ?h" "l \<in> set ls" by (auto simp: series_with_def)
    with lsets show ?thesis by (auto simp: valid_lset_def list_all_iff)
  qed
  have "labels_known ?h ls \<and> valid_lset ls" if "(k, ls) \<in> live ?h" for k ls
    unfolding labels_known_def eq using key [OF that] lsets [OF that] by auto
  moreover have "finite vs \<and> (n \<noteq> [] \<longrightarrow> [] \<notin> vs)" if "h_values ?h n = Some vs" for n vs
    using that nonempty by (fastforce simp add: eq split: if_splits)
  ultimately have "values_ok ?h" unfolding values_ok_def values_sound_def by blast
  moreover have "store_ok (h_chunkRange h) (gc_heap g)"
  proof -
    have "\<exists>zs. holds_samples (h_chunkRange h) (gc_heap g ! p) zs" if "p < length (h_heap h)" for p
      using g that inv store_ok_nth [of "h_chunkRange h" "h_heap h" p] by (fastforce simp: gc_inv_def shrinks_def head_inv_def)
    then show ?thesis using g by (fastforce simp: store_ok_def in_set_conv_nth gc_inv_def)
  qed
  ultimately show ?thesis using inv g rep by (auto simp: head_inv_def eq gc_inv_def)
qed

lemma Head_gc_samples:
  assumes inv: "head_inv sum64 h" and ord: "order_ok order (h_series h)"
    and g_def: "g = stripeSeries_gc order (h_minTime h) (h_heap h) (h_series h)"
    and inv': "head_inv sum64 (Head_gc order keys h)" and ls: "samples_of sum64 h ls = Some (Ok xs)"
  shows "\<exists>zs. suffix zs xs \<and> (\<forall>x \<in> set xs. h_minTime h \<le> fst x \<longrightarrow> x \<in> set zs)
    \<and> (samples_of sum64 (Head_gc order keys h) ls = Some (Ok zs) \<or> samples_of sum64 (Head_gc order keys h) ls = None \<and> zs = [])"
proof -
  note eq = Head_gc_eq [OF g_def refl, of keys]
  have si: "stripes_inv (Hash sum64) (h_heap h) (h_series h)" using inv by (simp add: head_inv_def)
  have g: "gc_inv (Hash sum64) (h_chunkRange h) (h_minTime h) (h_heap h) (h_series h) UNIV {} g"
    by (rule stripeSeries_gc_inv [OF si ord g_def])
  obtain p where p: "getByID (h_series h) (ms_ref (h_heap h ! p)) = Some p" "ms_lset (h_heap h ! p) = ls" "Ok xs = read_series (h_heap h ! p)"
    using ls samples_of_Some [OF inv] by blast
  let ?k = "ms_ref (h_heap h ! p)"
  note lt = head_inv_id(1) [OF inv p(1)]
  have xs: "holds_samples (h_chunkRange h) (h_heap h ! p) xs" using samples_of_Ok [OF inv p(1)] p(2) ls by auto
  have shr: "shrinks (h_chunkRange h) (h_minTime h) (h_heap h ! p) (gc_heap g ! p)" using g lt by (simp add: gc_inv_def)
  then obtain zs where zs: "holds_samples (h_chunkRange h) (gc_heap g ! p) zs" "suffix zs xs"
    "\<forall>x \<in> set xs. h_minTime h \<le> fst x \<longrightarrow> x \<in> set zs" using xs by (auto simp: shrinks_def)
  have get: "getByID (gc_stripes g) k = (if k \<in> gc_deleted g then None else getByID (h_series h) k)" for k
    using g by (simp add: gc_inv_def)
  show ?thesis
  proof (cases "?k \<in> gc_deleted g")
    case True
    then obtain q where "getByID (h_series h) ?k = Some q" "ms_chunks (gc_heap g ! q) = []" using g by (auto simp: gc_inv_def)
    then have "zs = []" using p(1) holds_samples_nil [OF zs(1)] by simp
    moreover have "samples_of sum64 (Head_gc order keys h) ls = None"
    proof (rule ccontr)
      assume "samples_of sum64 (Head_gc order keys h) ls \<noteq> None"
      then obtain q where q: "getByID (gc_stripes g) (ms_ref (gc_heap g ! q)) = Some q" "ms_lset (gc_heap g ! q) = ls"
        using samples_of_Some [OF inv'] by (auto simp: eq)
      then have qh: "ms_ref (gc_heap g ! q) \<notin> gc_deleted g" "getByID (h_series h) (ms_ref (gc_heap g ! q)) = Some q"
        by (auto simp: get split: if_splits)
      note lq = head_inv_id [OF inv qh(2)]
      have "ms_lset (h_heap h ! q) = ls" using g lq(1) q(2) by (simp add: gc_inv_def shrinks_def)
      then have "q = p" using live_unique [OF inv qh(2) p(1)] p(2) by simp
      then show False using lq(2) qh(1) True by simp
    qed
    ultimately show ?thesis using zs(2,3) by blast
  next
    case False
    then have "getByID (gc_stripes g) ?k = Some p" using p(1) get by simp
    then have "samples_of sum64 (Head_gc order keys h) ls = Some (Ok zs)"
      using samples_of_live [OF inv', of ?k p] shr p(2) holds_samples_read [OF zs(1)] by (simp add: eq shrinks_def)
    then show ?thesis using zs(2,3) by blast
  qed
qed

text \<open>
  C23. Garbage collection is safe and complete, in whatever order the hash maps are visited: the
  head stays consistent, no sample at or after the minimum time is lost and the others disappear
  only from the front of a series, a series disappears only when nothing of it is left, and a
  series that stays has a sample at or after the minimum time in its first chunk or, without a
  chunk, a transaction about to write to it.
\<close>

theorem gc_keeps_recent_samples:
  assumes inv: "head_inv sum64 h" and ord: "order_ok order (h_series h)"
    and keys: "enumerates_keys keys (MemPostings_Delete (h_postings h)
      (gc_deleted (stripeSeries_gc order (h_minTime h) (h_heap h) (h_series h))))"
  shows "head_inv sum64 (Head_gc order keys h)
    \<and> (\<forall>ls xs. samples_of sum64 h ls = Some (Ok xs) \<longrightarrow>
        (\<exists>zs. suffix zs xs \<and> (\<forall>x \<in> set xs. h_minTime h \<le> fst x \<longrightarrow> x \<in> set zs)
          \<and> (samples_of sum64 (Head_gc order keys h) ls = Some (Ok zs)
             \<or> samples_of sum64 (Head_gc order keys h) ls = None \<and> zs = [])))
    \<and> (\<forall>k p. getByID (h_series (Head_gc order keys h)) k = Some p \<longrightarrow>
        collected (h_minTime h) (h_heap (Head_gc order keys h) ! p))"
proof -
  let ?g = "stripeSeries_gc order (h_minTime h) (h_heap h) (h_series h)"
  have si: "stripes_inv (Hash sum64) (h_heap h) (h_series h)" using inv by (simp add: head_inv_def)
  have inv': "head_inv sum64 (Head_gc order keys h)" by (rule Head_gc_inv [OF inv ord refl keys])
  moreover have "gc_inv (Hash sum64) (h_chunkRange h) (h_minTime h) (h_heap h) (h_series h) UNIV {} ?g"
    by (rule stripeSeries_gc_inv [OF si ord refl])
  then have "\<forall>k p. getByID (h_series (Head_gc order keys h)) k = Some p \<longrightarrow> collected (h_minTime h) (h_heap (Head_gc order keys h) ! p)"
    unfolding Head_gc_eq [OF refl refl] by (auto simp: gc_inv_def)
  ultimately show ?thesis using Head_gc_samples [OF inv ord refl inv'] by blast
qed

theorem gc_keeps_recent_samples_witness:
  "\<exists>h0 p b h keys. NewHead None 100 = Ok h0
    \<and> getOrCreate (Hash (\<lambda>_. 0) [\<lparr>Name = [97], Value = [98]\<rparr>]) [\<lparr>Name = [97], Value = [98]\<rparr>] h0 = ((p, b), h)
    \<and> head_inv (\<lambda>_. 0) h \<and> order_ok (\<lambda>i. if i = 0 then [0] else []) (h_series h)
    \<and> head_inv (\<lambda>_. 0) (Head_gc (\<lambda>i. if i = 0 then [0] else []) keys h)"
proof -
  let ?o = "\<lambda>i :: u64. if i = 0 then [0] else [] :: u64 list"
  obtain h0 where h0: "NewHead None 100 = Ok h0" by (simp add: NewHead_def)
  obtain p b h where h: "getOrCreate (Hash (\<lambda>_. 0) [\<lparr>Name = [97], Value = [98]\<rparr>]) [\<lparr>Name = [97], Value = [98]\<rparr>] h0 = ((p, b), h)"
    by (metis prod.exhaust)
  note one = one_series_head [OF h0 h]
  have ord: "order_ok ?o (h_series h)" using one(2) by (auto simp: order_ok_def split: if_splits)
  obtain keys where "enumerates_keys keys (MemPostings_Delete (h_postings h) (gc_deleted (stripeSeries_gc ?o (h_minTime h) (h_heap h) (h_series h))))"
    using finite_distinct_list [OF one(4)] unfolding enumerates_keys_def by blast
  from gc_keeps_recent_samples [OF one(1) ord this] one(1) ord h0 h show ?thesis by blast
qed

end
