(* ===== verification/Head_Query.thy ===== *)
theory Head_Query
  imports Head_Gc
begin

text \<open>
  Queries against the head: its index reader keeps the contract the querier relies on, so that
  selecting series by label matchers finds exactly the series of the head that match.
\<close>

section \<open>The index reader of the head\<close>

definition head_index :: "Head \<Rightarrow> IndexReader" where
  "head_index h = \<lparr>ix_LabelValues = \<lambda>name. headIndexReader_LabelValues h [name],
                   ix_Postings = \<lambda>name value. Ok (headIndexReader_Postings h name value),
                   ix_SortedPostings = headIndexReader_SortedPostings h\<rparr>"

text \<open>The postings of the head are ordered once \<^verbatim>\<open>Init\<close> has returned.\<close>

definition readable :: "(u8 list \<Rightarrow> u64) \<Rightarrow> Head \<Rightarrow> bool" where
  "readable sum64 h \<longleftrightarrow> head_inv sum64 h \<and> ordered (h_postings h)"

lemma live_function: "(k, ls) \<in> live h \<Longrightarrow> (k, ls') \<in> live h \<Longrightarrow> ls' = ls"
  by (auto simp: live_def)

lemma live_bounds: "head_inv sum64 h \<Longrightarrow> \<forall>(k, ls) \<in> live h. 0 < k \<and> k \<le> lastSeriesID h"
  by (auto simp: live_def head_inv_def)

lemma head_values:
  assumes "head_inv sum64 h" "name \<noteq> []"
  shows "\<exists>vs. headIndexReader_LabelValues h [name] = Ok vs \<and> sorted_wrt (<) vs \<and> [] \<notin> set vs
    \<and> (\<forall>(k, ls) \<in> live h. \<forall>v. \<lparr>Name = name, Value = v\<rparr> \<in> set ls \<longrightarrow> v \<in> set vs)"
proof -
  have ok: "values_ok h" using assms(1) by (simp add: head_inv_def)
  then have known: "\<exists>vs. h_values h name = Some vs \<and> v \<in> vs" if "(k, ls) \<in> live h" "\<lparr>Name = name, Value = v\<rparr> \<in> set ls" for k ls v
    using that by (fastforce simp: values_ok_def labels_known_def)
  show ?thesis
  proof (cases "h_values h name")
    case None
    then show ?thesis using known by (auto simp: headIndexReader_LabelValues_def)
  next
    case (Some vs)
    then have "finite vs" "[] \<notin> vs" using ok assms(2) by (auto simp: values_ok_def values_sound_def)
    then show ?thesis using known Some by (auto simp: headIndexReader_LabelValues_def)
  qed
qed

interpretation head_reader: index_reader "readable sum64" head_index live lastSeriesID for sum64
proof
  fix h k ls assume "readable sum64 h" "(k, ls) \<in> live h"
  then show "valid_lset ls" by (auto simp: readable_def head_inv_def values_ok_def)
next
  fix h k ls ls' assume "(k, ls) \<in> live h" "(k, ls') \<in> live h"
  then show "ls' = ls" by (rule live_function)
next
  fix h name assume "readable sum64 h" "(name :: gostring) \<noteq> []"
  then show "\<exists>vs. ix_LabelValues (head_index h) name = Ok vs \<and> sorted_wrt (<) vs \<and> [] \<notin> set vs
      \<and> (\<forall>(k, ls) \<in> live h. \<forall>v. \<lparr>Name = name, Value = v\<rparr> \<in> set ls \<longrightarrow> v \<in> set vs)"
    using head_values [of sum64 h name] by (simp add: readable_def head_index_def)
next
  fix h name v assume h: "readable sum64 h"
  then have inv: "head_inv sum64 h" "ordered (h_postings h)" by (simp_all add: readable_def)
  then have "represents (h_postings h) (live h)" by (simp add: head_inv_def)
  note Get_fresh [OF this inv(2) live_bounds [OF inv(1)], of name v]
  then show "\<exists>p s. ix_Postings (head_index h) name v = Ok p \<and> mshape s \<and> fresh (lastSeriesID h) s p \<and> shape_err s = None
      \<and> rem p = series_with (live h) \<lparr>Name = name, Value = v\<rparr>"
    by (auto simp: head_index_def headIndexReader_Postings_def intro!: exI [of _ "Leaf None"])
qed

lemma head_inv_EnsureOrder:
  assumes "head_inv sum64 h"
  shows "head_inv sum64 (h\<lparr>h_postings := EnsureOrder (h_postings h)\<rparr>)" "ordered (h_postings (h\<lparr>h_postings := EnsureOrder (h_postings h)\<rparr>))"
proof -
  have "live (h\<lparr>h_postings := EnsureOrder (h_postings h)\<rparr>) = live h" "labels_known (h\<lparr>h_postings := EnsureOrder (h_postings h)\<rparr>) = labels_known h"
    by (simp_all add: live_def labels_known_def fun_eq_iff)
  then show "head_inv sum64 (h\<lparr>h_postings := EnsureOrder (h_postings h)\<rparr>)" "ordered (h_postings (h\<lparr>h_postings := EnsureOrder (h_postings h)\<rparr>))"
    using assms represents_EnsureOrder [of "h_postings h" "live h"] by (auto simp: head_inv_def values_ok_def)
qed

section \<open>Sorting the result\<close>

text \<open>A list delivers its elements as they are.\<close>

lemma expand_loop_list: "expand_loop res (listPostings l c) = Some (res @ l, listPostings [] 0)"
proof (induction l arbitrary: res c)
  case Nil
  show ?case by (subst expand_loop.simps) (simp add: list_Next_def)
next
  case (Cons x l)
  show ?case by (subst expand_loop.simps) (simp add: list_Next_def Cons.IH)
qed

lemma ExpandPostings_list: "ExpandPostings (newListPostings l) = Some (l, None)"
  by (simp add: ExpandPostings_def newListPostings_def expand_loop_list)

text \<open>No two series of the head have the same labels.\<close>

lemma live_labels_unique:
  assumes "head_inv sum64 h" "(i, ls) \<in> live h" "(j, ls) \<in> live h"
  shows "i = j"
proof -
  obtain p q where p: "getByID (h_series h) i = Some p" "ms_lset (h_heap h ! p) = ls"
    and q: "getByID (h_series h) j = Some q" "ms_lset (h_heap h ! q) = ls" using assms(2,3) by (auto simp: live_def)
  have "stripes_inv (Hash sum64) (h_heap h) (h_series h)" using assms(1) by (simp add: head_inv_def)
  from getByHash_iff [OF this, of ls] head_inv_id(2) [OF assms(1)] p q
  have "getByHash (h_heap h) (h_series h) (Hash sum64 ls) ls = Some p" "getByHash (h_heap h) (h_series h) (Hash sum64 ls) ls = Some q" by auto
  then have "p = q" by simp
  then show ?thesis using head_inv_id(2) [OF assms(1) p(1)] head_inv_id(2) [OF assms(1) q(1)] by simp
qed

text \<open>The labels an id stands for, as the words their order compares.\<close>

definition id_words :: "Head \<Rightarrow> u64 \<Rightarrow> gostring list list" where
  "id_words h k = label_words (ms_lset (h_heap h ! the (getByID (h_series h) k)))"

lemma series_Less_words:
  assumes "i \<in> fst ` live h" "j \<in> fst ` live h"
  shows "series_Less h i j \<longleftrightarrow> id_words h i < id_words h j"
  using assms Compare_refines_order by (auto simp: series_Less_def id_words_def live_def)

lemma id_words_inj:
  assumes "head_inv sum64 h" "i \<in> fst ` live h" "j \<in> fst ` live h" "id_words h i = id_words h j"
  shows "i = j"
proof -
  obtain a b where ab: "getByID (h_series h) i = Some a" "getByID (h_series h) j = Some b" using assms(2,3) by (auto simp: live_def)
  then have "ms_lset (h_heap h ! a) = ms_lset (h_heap h ! b)"
    using assms(4) Compare_refines_order [of "ms_lset (h_heap h ! a)" "ms_lset (h_heap h ! b)"] by (auto simp: id_words_def)
  then have "(i, ms_lset (h_heap h ! a)) \<in> live h" "(j, ms_lset (h_heap h ! a)) \<in> live h" using ab by (auto simp: live_def)
  then show ?thesis by (rule live_labels_unique [OF assms(1)])
qed

lemma sorted_by_labels:
  assumes inv: "head_inv sum64 h" and xs: "distinct xs" "set xs \<subseteq> fst ` live h"
  shows "sorted_wrt (series_Less h) (sort_Slice (series_Less h) xs)"
proof -
  let ?ys = "sort_Slice (series_Less h) xs"
  have words: "\<forall>y \<in> set xs. \<forall>z \<in> set xs. series_Less h y z \<longleftrightarrow> id_words h y < id_words h z" using xs(2) series_Less_words by blast
  then have "sorted (map (id_words h) ?ys)" by (rule sorted_sort_Slice)
  moreover have "inj_on (id_words h) (set xs)" using xs(2) id_words_inj [OF inv] by (auto simp: inj_on_def subset_iff)
  then have "distinct (map (id_words h) ?ys)" using xs(1) by (simp add: distinct_map)
  ultimately have "sorted_wrt (\<lambda>i j. id_words h i < id_words h j) ?ys" by (simp add: strict_sorted_iff flip: sorted_wrt_map)
  then show ?thesis by (rule sorted_wrt_mono_rel [rotated]) (use words in simp)
qed

lemma SortedPostings_ids:
  assumes inv: "head_inv sum64 h" and p: "selects (lastSeriesID h) p X" and X: "X \<subseteq> fst ` live h"
  shows "headIndexReader_SortedPostings h p = Some (newListPostings (sort_Slice (series_Less h) (sorted_list_of_set X))) \<and> finite X"
proof -
  obtain s where s: "ishape s" "fresh (lastSeriesID h) s p" "shape_err s = None" "rem p = X" using p by (auto simp: selects_def)
  then have "Postings_Laws.inv (lastSeriesID h) s p" by (simp add: fresh_def)
  with postings_iterator.expand_loop_rem [OF ishape_iterator [OF s(1)] this, of "[]"] s(3,4) show ?thesis
    by (auto simp: headIndexReader_SortedPostings_def)
qed

text \<open>The list of ids \<open>PostingsForMatchers\<close> returns on the head.\<close>

definition select_ids :: "Head \<Rightarrow> Matcher list \<Rightarrow> u64 list" where
  "select_ids h ms = sort_Slice (series_Less h) (sorted_list_of_set (selected (live h) (Selector_Matches ms)))"

lemma PostingsForMatchers_head:
  assumes "head_inv sum64 h" "ordered (h_postings h)" "ms \<noteq> []" "\<forall>mt \<in> set ms. Matcher_Name mt \<noteq> []"
  shows "PostingsForMatchers (head_index h) ms = Some (Ok (newListPostings (select_ids h ms)))"
    "set (select_ids h ms) = {k. \<exists>ls. (k, ls) \<in> live h \<and> Selector_Matches ms ls}" "distinct (select_ids h ms)" "sorted_wrt (series_Less h) (select_ids h ms)"
proof -
  let ?X = "selected (live h) (Selector_Matches ms)"
  have r: "readable sum64 h" using assms(1,2) by (simp add: readable_def)
  obtain its where its: "all_outcomes (postingsForMatcher (head_index h)) ms = Ok its" "selects (lastSeriesID h) (Intersect its) ?X"
    using head_reader.Intersect_selects [OF r assms(3,4)] by blast
  have X: "?X \<subseteq> fst ` live h" by (force simp: selected_def)
  have p: "headIndexReader_SortedPostings h (Intersect its) = Some (newListPostings (select_ids h ms))" "finite ?X"
    using SortedPostings_ids [OF assms(1) its(2) X] by (auto simp: select_ids_def)
  then show "sorted_wrt (series_Less h) (select_ids h ms)" unfolding select_ids_def using X by (intro sorted_by_labels [OF assms(1)]) auto
  show "PostingsForMatchers (head_index h) ms = Some (Ok (newListPostings (select_ids h ms)))"
    using its(1) p(1) by (simp add: PostingsForMatchers_def head_index_def)
  show "set (select_ids h ms) = {k. \<exists>ls. (k, ls) \<in> live h \<and> Selector_Matches ms ls}" "distinct (select_ids h ms)"
    using p(2) by (simp_all add: select_ids_def selected_def)
qed

section \<open>Selecting series\<close>

text \<open>
  Selecting series in the head by label matchers: on a consistent head whose postings are
  ordered, \<open>PostingsForMatchers\<close> returns without an error and its result delivers exactly the ids
  of the series that all the matchers match, each once and in the order of their labels. A series without
  the label of a matcher is matched as if the label were empty.
\<close>

theorem head_select:
  assumes "head_inv sum64 h" "ordered (h_postings h)" "ms \<noteq> []" "\<forall>mt \<in> set ms. Matcher_Name mt \<noteq> []"
  shows "\<exists>p ids. PostingsForMatchers (head_index h) ms = Some (Ok p) \<and> ExpandPostings p = Some (ids, None)
    \<and> set ids = {k. \<exists>ls. (k, ls) \<in> live h \<and> Selector_Matches ms ls} \<and> distinct ids \<and> sorted_wrt (series_Less h) ids"
  using PostingsForMatchers_head [OF assms] ExpandPostings_list [of "select_ids h ms"] by blast

theorem head_select_witness:
  "\<exists>h0 p b h1 h q ids. NewHead None 100 = Ok h0
    \<and> getOrCreate (Hash (\<lambda>_. 0) [\<lparr>Name = [97], Value = [98]\<rparr>]) [\<lparr>Name = [97], Value = [98]\<rparr>] h0 = ((p, b), h1)
    \<and> h = h1\<lparr>h_postings := EnsureOrder (h_postings h1)\<rparr> \<and> head_inv (\<lambda>_. 0) h \<and> ordered (h_postings h)
    \<and> PostingsForMatchers (head_index h) [PrefixMatcher [97] [98], NotMatcher (EqualMatcher [99] [100])] = Some (Ok q)
    \<and> ExpandPostings q = Some (ids, None) \<and> 1 \<in> set ids \<and> sorted_wrt (series_Less h) ids"
proof -
  let ?l = "[\<lparr>Name = [97], Value = [98]\<rparr>]" and ?ms = "[PrefixMatcher [97] [98], NotMatcher (EqualMatcher [99] [100])]"
  obtain h0 where h0: "NewHead None 100 = Ok h0" by (simp add: NewHead_def)
  obtain p b h1 where h1: "getOrCreate (Hash (\<lambda>_. 0) ?l) ?l h0 = ((p, b), h1)" by (metis surj_pair)
  note one = one_series_head [OF h0 h1]
  define h where "h = h1\<lparr>h_postings := EnsureOrder (h_postings h1)\<rparr>"
  have h: "head_inv (\<lambda>_. 0) h" "ordered (h_postings h)" unfolding h_def by (rule head_inv_EnsureOrder [OF one(1)])+
  have "\<exists>ls. (1, ls) \<in> live h \<and> Selector_Matches ?ms ls"
    using one(5,6) by (intro exI [of _ ?l]) (auto simp: live_def h_def newMemSeries_def)
  moreover obtain q ids where "PostingsForMatchers (head_index h) ?ms = Some (Ok q)" "ExpandPostings q = Some (ids, None)"
    "set ids = {k. \<exists>ls. (k, ls) \<in> live h \<and> Selector_Matches ?ms ls}" "sorted_wrt (series_Less h) ids"
    using head_select [OF h, of ?ms] by auto
  ultimately show ?thesis using h0 h1 h h_def by blast
qed

end
