(* ===== verification/Head_Reader.thy ===== *)
theory Head_Reader
  imports Head_Laws
begin

text \<open>
  Reading a series of the head through its index and chunk readers: chunk references, the chunks
  the index reader lists for a time range, and what the chunk reader delivers for them.
\<close>

section \<open>Chunk references\<close>

lemma unpack_pack:
  assumes "sid \<le> 2 ^ 40 - 1" "cid \<le> (2 ^ 24 - 1 :: u64)"
  shows "unpackChunkID (push_bit 24 sid OR cid) = (sid, cid)"
proof -
  have "unat sid \<le> unat (2 ^ 40 - 1 :: u64)" "unat cid \<le> unat (2 ^ 24 - 1 :: u64)"
    using assms by (simp_all only: word_le_nat_alt)
  then have "unat sid < 2 ^ 40" "unat cid < 2 ^ 24" by simp_all
  then have "unat sid < 2 ^ (LENGTH(64) - 24)" "unat cid < 2 ^ 24" by simp_all
  from packed_word [OF this] show ?thesis unfolding unpackChunkID_def by simp
qed

section \<open>The chunks of a series in a range\<close>

definition in_range :: "rangeReader \<Rightarrow> sample \<Rightarrow> bool" where
  "in_range r x \<longleftrightarrow> rr_mint r \<le> fst x \<and> fst x \<le> rr_maxt r"

text \<open>What a reader of the head gets for one chunk that the index lists.\<close>

definition delivers_chunk :: "Head \<Rightarrow> rangeReader \<Rightarrow> Meta \<Rightarrow> sample list \<Rightarrow> bool" where
  "delivers_chunk h r meta ys \<longleftrightarrow>
     (\<exists>c it it'. headChunkReader_Chunk h r (Meta_Ref meta) = Ok c \<and> safeChunk_Iterator h c = Ok it
        \<and> drain it = Ok (ys, it') \<and> memIterator_Err it' = None)
     \<and> ys \<noteq> [] \<and> MinTime meta = fst (hd ys) \<and> MaxTime meta = fst (last ys)"

lemma chunk_rep_outside:
  assumes "chunk_rep c xs" "increasing xs" "\<not> OverlapsClosedInterval c (rr_mint r) (rr_maxt r)"
  shows "filter (in_range r) xs = []"
proof -
  have xs: "xs \<noteq> []" "mc_minTime c = fst (hd xs)" "mc_maxTime c = fst (last xs)" using assms(1) by (simp_all add: chunk_rep_def)
  have "fst (hd xs) \<le> fst x \<and> fst x \<le> fst (last xs)" if "x \<in> set xs" for x
  proof
    show "fst (hd xs) \<le> fst x" using assms(2) that by (cases xs) (auto simp: increasing_def less_imp_le)
    show "fst x \<le> fst (last xs)" using assms(2) that by (cases xs rule: rev_cases) (auto simp: increasing_def sorted_wrt_append less_imp_le)
  qed
  then show ?thesis using assms(3) xs by (fastforce simp: filter_empty_conv in_range_def OverlapsClosedInterval_def)
qed

lemma chunk_delivered:
  assumes "getByID (h_series h) (ms_ref s) = Some p" "h_heap h ! p = s" "series_rep s css" "j < length css"
    and "OverlapsClosedInterval (ms_chunks s ! j) (rr_mint r) (rr_maxt r)"
    and "ms_ref s \<le> 2 ^ 40 - 1" "0 \<le> chunkID s (int j)" "chunkID s (int j) < 2 ^ 24"
  shows "\<exists>ref. packChunkID (ms_ref s) (word_of_int (chunkID s (int j))) = Ok ref
    \<and> delivers_chunk h r \<lparr>Meta_Ref = ref, MinTime = mc_minTime (ms_chunks s ! j), MaxTime = mc_maxTime (ms_chunks s ! j)\<rparr> (css ! j)"
proof -
  let ?cid = "word_of_int (chunkID s (int j)) :: u64"
  have u: "uint ?cid = chunkID s (int j)" using assms(7,8) by (simp add: uint_word_of_int_eq take_bit_int_eq_self)
  then have "uint ?cid \<le> uint (2 ^ 24 - 1 :: u64)" using assms(8) by simp
  then have cid: "?cid \<le> 2 ^ 24 - 1" by (simp only: word_le_def)
  have pack: "packChunkID (ms_ref s) ?cid = Ok (push_bit 24 (ms_ref s) OR ?cid)"
    using assms(6) cid by (simp add: packChunkID_def not_less)
  obtain it it' where it: "memSeries_iterator s (chunkID s (int j)) = Ok it" "drain it = Ok (css ! j, it')" "memIterator_Err it' = None"
    using memSeries_iterator_reads [OF assms(3,4)] by blast
  have len: "length (ms_chunks s) = length css" using assms(3) by (auto simp: series_rep_def dest: list_all2_lengthD)
  have "memSeries_chunk s (chunkID s (int j)) = Some (ms_chunks s ! j)"
    using assms(4) len by (simp add: memSeries_chunk_def chunkID_def)
  then have "headChunkReader_Chunk h r (push_bit 24 (ms_ref s) OR ?cid) = Ok \<lparr>sc_s = p, sc_cid = chunkID s (int j)\<rparr>"
    using assms(1,2,5) u by (simp add: headChunkReader_Chunk_def unpack_pack [OF assms(6) cid])
  moreover have "safeChunk_Iterator h \<lparr>sc_s = p, sc_cid = chunkID s (int j)\<rparr> = Ok it"
    using assms(2) it(1) by (simp add: safeChunk_Iterator_def)
  moreover have "chunk_rep (ms_chunks s ! j) (css ! j)" using assms(3,4) by (auto simp: series_rep_def dest: list_all2_nthD2)
  ultimately show ?thesis using pack it(2,3) by (auto simp: delivers_chunk_def chunk_rep_def)
qed

lemma series_metas_ok:
  assumes "getByID (h_series h) (ms_ref s) = Some p" "h_heap h ! p = s" "series_rep s css"
    and "ms_ref s \<le> 2 ^ 40 - 1" "0 \<le> firstChunkID s" "firstChunkID s + int (length css) \<le> 2 ^ 24"
  shows "j \<le> length css \<Longrightarrow> \<exists>ms yss. series_metas r s j (drop j (ms_chunks s)) = Ok ms \<and> list_all2 (delivers_chunk h r) ms yss
    \<and> filter (in_range r) (concat yss) = filter (in_range r) (concat (drop j css)) \<and> subseq yss (drop j css)"
proof (induction "length css - j" arbitrary: j)
  case 0
  have "length (ms_chunks s) = length css" using assms(3) by (auto simp: series_rep_def dest: list_all2_lengthD)
  with 0 show ?case by auto
next
  case (Suc n)
  then have j: "j < length css" "n = length css - Suc j" "Suc j \<le> length css" by auto
  have len: "length (ms_chunks s) = length css" using assms(3) by (auto simp: series_rep_def dest: list_all2_lengthD)
  let ?c = "ms_chunks s ! j"
  have d: "drop j (ms_chunks s) = ?c # drop (Suc j) (ms_chunks s)" "drop j css = css ! j # drop (Suc j) css"
    using j(1) len by (simp_all add: Cons_nth_drop_Suc)
  obtain ms yss where ms: "series_metas r s (Suc j) (drop (Suc j) (ms_chunks s)) = Ok ms" "list_all2 (delivers_chunk h r) ms yss"
    "filter (in_range r) (concat yss) = filter (in_range r) (concat (drop (Suc j) css))" "subseq yss (drop (Suc j) css)"
    using Suc.hyps(1) [OF j(2,3)] by blast
  show ?case
  proof (cases "OverlapsClosedInterval ?c (rr_mint r) (rr_maxt r)")
    case True
    have "0 \<le> chunkID s (int j)" "chunkID s (int j) < 2 ^ 24" using assms(5,6) j(1) by (simp_all add: chunkID_def)
    from chunk_delivered [OF assms(1-3) j(1) True assms(4) this] obtain ref where
      "packChunkID (ms_ref s) (word_of_int (chunkID s (int j))) = Ok ref"
      "delivers_chunk h r \<lparr>Meta_Ref = ref, MinTime = mc_minTime ?c, MaxTime = mc_maxTime ?c\<rparr> (css ! j)" by blast
    with ms True show ?thesis unfolding d
      by (intro exI [of _ "\<lparr>Meta_Ref = ref, MinTime = mc_minTime ?c, MaxTime = mc_maxTime ?c\<rparr> # ms"] exI [of _ "css ! j # yss"]) simp
  next
    case False
    have "chunk_rep ?c (css ! j)" using assms(3) j(1) by (auto simp: series_rep_def dest: list_all2_nthD2)
    moreover have "concat css = concat (take j css) @ css ! j @ concat (drop (Suc j) css)"
      using j(1) by (metis concat.simps(2) concat_append id_take_nth_drop)
    then have "increasing (css ! j)" using assms(3) by (simp add: series_rep_def increasing_append)
    ultimately have "filter (in_range r) (css ! j) = []" using chunk_rep_outside False by blast
    with ms False show ?thesis unfolding d by (intro exI [of _ ms] exI [of _ yss]) (simp add: list_emb_Cons)
  qed
qed

section \<open>Properties\<close>

text \<open>
  C24. Chunk references of the head: packing fails exactly for a series id of more than five bytes
  or a chunk id of more than three, and unpacking a packed reference gives both back.
\<close>

theorem chunk_ref_round_trip:
  "packChunkID sid cid = (if unat sid < 2 ^ 40 \<and> unat cid < 2 ^ 24 then Ok (push_bit 24 sid OR cid) else Panic)
   \<and> (case packChunkID sid cid of Ok ref \<Rightarrow> unpackChunkID ref = (sid, cid) | _ \<Rightarrow> True)"
proof -
  have "sid \<le> 2 ^ 40 - 1 \<longleftrightarrow> unat sid \<le> unat (2 ^ 40 - 1 :: u64)" "cid \<le> 2 ^ 24 - 1 \<longleftrightarrow> unat cid \<le> unat (2 ^ 24 - 1 :: u64)"
    by (simp_all only: word_le_nat_alt)
  then have "sid \<le> 2 ^ 40 - 1 \<longleftrightarrow> unat sid < 2 ^ 40" "cid \<le> 2 ^ 24 - 1 \<longleftrightarrow> unat cid < 2 ^ 24" by auto
  then show ?thesis using unpack_pack [of sid cid] by (auto simp: packChunkID_def not_less [symmetric])
qed

text \<open>
  Reading a series of the head in a time range: the index reader lists chunks, the chunk reader
  delivers every one of them without an error, with the first and last timestamps the index says,
  and together they hold exactly those samples of the series that lie in the range, besides
  others of the same chunks.
\<close>

theorem head_range_read:
  assumes inv: "head_inv sum64 h" and p: "getByID (h_series h) k = Some p" and xs: "samples_of sum64 h (ms_lset (h_heap h ! p)) = Some (Ok xs)"
    and "unat k < 2 ^ 40" "0 \<le> firstChunkID (h_heap h ! p)" "firstChunkID (h_heap h ! p) + int (length (ms_chunks (h_heap h ! p))) \<le> 2 ^ 24"
  shows "\<exists>ms yss. headIndexReader_Series h r k = Ok (ms_lset (h_heap h ! p), ms) \<and> list_all2 (delivers_chunk h r) ms yss
    \<and> filter (in_range r) (concat yss) = filter (in_range r) xs"
proof -
  let ?s = "h_heap h ! p"
  obtain css where css: "series_rep ?s css" "concat css = xs"
    using samples_of_Ok [OF inv p] xs by (auto simp: holds_samples_def)
  have len: "length (ms_chunks ?s) = length css" using css(1) by (auto simp: series_rep_def dest: list_all2_lengthD)
  have k: "ms_ref ?s = k" by (rule head_inv_id(2) [OF inv p])
  have "unat k \<le> unat (2 ^ 40 - 1 :: u64)" using assms(4) by simp
  then have "ms_ref ?s \<le> 2 ^ 40 - 1" unfolding k by (simp only: word_le_nat_alt)
  from series_metas_ok [of h ?s p css 0 r, OF _ refl css(1) this] p k assms(5,6) len css(2) show ?thesis
    by (force simp: headIndexReader_Series_def Let_def)
qed

theorem head_range_read_witness:
  "\<exists>h0 p b h. NewHead None 100 = Ok h0
    \<and> getOrCreate (Hash (\<lambda>_. 0) [\<lparr>Name = [97], Value = [98]\<rparr>]) [\<lparr>Name = [97], Value = [98]\<rparr>] h0 = ((p, b), h)
    \<and> head_inv (\<lambda>_. 0) h \<and> getByID (h_series h) 1 = Some p \<and> samples_of (\<lambda>_. 0) h (ms_lset (h_heap h ! p)) = Some (Ok [])
    \<and> unat (1 :: u64) < 2 ^ 40 \<and> (\<exists>ms. headIndexReader_Series h \<lparr>rr_mint = 0, rr_maxt = 9\<rparr> 1 = Ok (ms_lset (h_heap h ! p), ms))"
proof -
  obtain h0 where h0: "NewHead None 100 = Ok h0" by (simp add: NewHead_def)
  obtain p b h where h: "getOrCreate (Hash (\<lambda>_. 0) [\<lparr>Name = [97], Value = [98]\<rparr>]) [\<lparr>Name = [97], Value = [98]\<rparr>] h0 = ((p, b), h)"
    by (metis prod.exhaust)
  note one = one_series_head [OF h0 h]
  have s: "samples_of (\<lambda>_. 0) h (ms_lset (h_heap h ! p)) = Some (Ok [])" "firstChunkID (h_heap h ! p) = 0" "ms_chunks (h_heap h ! p) = []"
    using one(3) by (simp_all add: one(6) newMemSeries_def)
  have "unat (1 :: u64) < 2 ^ 40" "0 \<le> firstChunkID (h_heap h ! p)" "firstChunkID (h_heap h ! p) + int (length (ms_chunks (h_heap h ! p))) \<le> 2 ^ 24"
    by (simp_all add: s)
  from head_range_read [OF one(1,5) s(1) this, of "\<lparr>rr_mint = 0, rr_maxt = 9\<rparr>"] h0 h one(1,5) s(1) show ?thesis by auto
qed

end
