(* ===== verification/Series_Iter.thy ===== *)
theory Series_Iter
  imports Head Tombstones
begin

text \<open>
  Reading the samples of a series in \<^verbatim>\<open>querier.go\<close>: the iterator that drops deleted samples and
  the iterator over the chunks of a series in a time range. A chunk is anything that can be opened
  to a chunk iterator, the interface \<^verbatim>\<open>chunkenc.Chunk\<close>; the parameter \<open>chunk_it\<close> is its
  method \<^verbatim>\<open>Iterator\<close>.
\<close>

section \<open>Dropping deleted samples\<close>

record deletedIterator =
  di_it :: memIterator
  di_intervals :: Intervals

text \<open>
  The inner loop over the intervals: whether one of them holds the timestamp, and the intervals
  left. The loop drops an interval from the field exactly when it goes on to the next one.
\<close>

fun deleted_scan :: "int \<Rightarrow> Intervals \<Rightarrow> bool \<times> Intervals" where
  "deleted_scan ts [] = (False, [])"
| "deleted_scan ts (tr # trs) =
     (if inBounds tr ts then (True, tr # trs)
      else if ts > Maxt tr then deleted_scan ts trs
      else (False, tr # trs))"

function deletedIterator_Next :: "deletedIterator \<Rightarrow> (bool \<times> deletedIterator) outcome" where
  "deletedIterator_Next it =
     (case memIterator_Next (di_it it) of
        Ok (True, it1) \<Rightarrow>
          bind_outcome (memIterator_At it1) (\<lambda>(ts, _).
            case deleted_scan ts (di_intervals it) of
              (True, ivs) \<Rightarrow> deletedIterator_Next \<lparr>di_it = it1, di_intervals = ivs\<rparr>
            | (False, ivs) \<Rightarrow> Ok (True, \<lparr>di_it = it1, di_intervals = ivs\<rparr>))
      | Ok (False, it1) \<Rightarrow> Ok (False, it\<lparr>di_it := it1\<rparr>)
      | Fail e \<Rightarrow> Fail e
      | Panic \<Rightarrow> Panic)"
  by pat_completeness auto
termination by (relation "measure (samples_left \<circ> di_it)") (auto dest: memIterator_Next_decreases)

declare deletedIterator_Next.simps [simp del]

text \<open>The iterators a series iterator reads a chunk with.\<close>

datatype chunkIterator = PlainIt memIterator | DeletedIt deletedIterator

fun chunkIterator_Next :: "chunkIterator \<Rightarrow> (bool \<times> chunkIterator) outcome" where
  "chunkIterator_Next (PlainIt it) = bind_outcome (memIterator_Next it) (\<lambda>(ok, it). Ok (ok, PlainIt it))"
| "chunkIterator_Next (DeletedIt it) = bind_outcome (deletedIterator_Next it) (\<lambda>(ok, it). Ok (ok, DeletedIt it))"

fun chunkIterator_At :: "chunkIterator \<Rightarrow> sample outcome" where
  "chunkIterator_At (PlainIt it) = memIterator_At it"
| "chunkIterator_At (DeletedIt it) = memIterator_At (di_it it)"

fun chunkIterator_Err :: "chunkIterator \<Rightarrow> go_error option" where
  "chunkIterator_Err (PlainIt it) = memIterator_Err it"
| "chunkIterator_Err (DeletedIt it) = memIterator_Err (di_it it)"

fun chunk_left :: "chunkIterator \<Rightarrow> nat" where
  "chunk_left (PlainIt it) = samples_left it"
| "chunk_left (DeletedIt it) = samples_left (di_it it)"

lemma deletedIterator_Next_decreases:
  "deletedIterator_Next it = Ok (True, it') \<Longrightarrow> samples_left (di_it it') < samples_left (di_it it)"
proof (induction it rule: deletedIterator_Next.induct)
  case (1 it)
  note eq = "1.prems" [unfolded deletedIterator_Next.simps [of it]]
  then obtain it1 where n: "memIterator_Next (di_it it) = Ok (True, it1)" by (auto split: outcome.splits prod.splits bool.splits)
  with eq obtain x where x: "memIterator_At it1 = Ok x" by auto
  obtain del ivs where d: "deleted_scan (fst x) (di_intervals it) = (del, ivs)" by (cases "deleted_scan (fst x) (di_intervals it)")
  from eq n x d have it': "(if del then deletedIterator_Next \<lparr>di_it = it1, di_intervals = ivs\<rparr> else Ok (True, \<lparr>di_it = it1, di_intervals = ivs\<rparr>)) = Ok (True, it')"
    by (cases x; cases del) auto
  have "samples_left it1 < samples_left (di_it it)" by (rule memIterator_Next_decreases [OF n])
  moreover have "samples_left (di_it it') < samples_left it1" if del
    using "1.IH" [OF n refl refl x] d it' that by (cases x) fastforce
  ultimately show ?case using it' by (cases del) auto
qed

lemma chunkIterator_Next_decreases: "chunkIterator_Next it = Ok (True, it') \<Longrightarrow> chunk_left it' < chunk_left it"
  by (cases it) (auto dest: memIterator_Next_decreases deletedIterator_Next_decreases)

section \<open>The chunks of a series in a time range\<close>

text \<open>A chunk of the list: its meta data with the chunk itself.\<close>

record 'c ChunkMeta = Meta +
  cm_Chunk :: 'c

record 'c chunkSeriesIterator =
  csi_chunks :: "'c ChunkMeta list"
  csi_i :: nat
  csi_cur :: chunkIterator
  csi_mint :: int
  csi_maxt :: int
  csi_intervals :: Intervals

definition open_chunk :: "('c \<Rightarrow> memIterator outcome) \<Rightarrow> Intervals \<Rightarrow> 'c ChunkMeta \<Rightarrow> chunkIterator outcome" where
  "open_chunk chunk_it dranges c =
     bind_outcome (chunk_it (cm_Chunk c)) (\<lambda>it.
       Ok (if length dranges > 0 then DeletedIt \<lparr>di_it = it, di_intervals = dranges\<rparr> else PlainIt it))"

definition newChunkSeriesIterator ::
  "('c \<Rightarrow> memIterator outcome) \<Rightarrow> 'c ChunkMeta list \<Rightarrow> Intervals \<Rightarrow> int \<Rightarrow> int \<Rightarrow> 'c chunkSeriesIterator outcome" where
  "newChunkSeriesIterator chunk_it cs dranges mint maxt =
     (case cs of
        [] \<Rightarrow> Panic
      | c # _ \<Rightarrow>
          bind_outcome (open_chunk chunk_it dranges c) (\<lambda>it.
            Ok \<lparr>csi_chunks = cs, csi_i = 0, csi_cur = it, csi_mint = mint, csi_maxt = maxt, csi_intervals = dranges\<rparr>))"

text \<open>The first loop of \<^verbatim>\<open>Seek\<close>: \<open>Inl i\<close> when it returns false at the last chunk.\<close>

function skip_chunks :: "'c ChunkMeta list \<Rightarrow> int \<Rightarrow> nat \<Rightarrow> (nat + nat) outcome" where
  "skip_chunks cs t i =
     (if i \<ge> length cs then Panic
      else if MaxTime (cs ! i) < t then
        (if i = length cs - 1 then Ok (Inl i) else skip_chunks cs t (i + 1))
      else Ok (Inr i))"
  by pat_completeness auto
termination by (relation "measure (\<lambda>(cs, t, i). length cs - i)") auto

declare skip_chunks.simps [simp del]

text \<open>The second loop: to the first sample of the chunk at or after \<open>t\<close>.\<close>

function seek_chunk :: "int \<Rightarrow> chunkIterator \<Rightarrow> (bool \<times> chunkIterator) outcome" where
  "seek_chunk t it =
     (case chunkIterator_Next it of
        Ok (True, it1) \<Rightarrow>
          bind_outcome (chunkIterator_At it1) (\<lambda>(t0, _). if t0 \<ge> t then Ok (True, it1) else seek_chunk t it1)
      | Ok (False, it1) \<Rightarrow> Ok (False, it1)
      | Fail e \<Rightarrow> Fail e
      | Panic \<Rightarrow> Panic)"
  by pat_completeness auto
termination by (relation "measure (chunk_left \<circ> snd)") (auto dest: chunkIterator_Next_decreases)

declare seek_chunk.simps [simp del]

definition csi_Seek :: "('c \<Rightarrow> memIterator outcome) \<Rightarrow> int \<Rightarrow> 'c chunkSeriesIterator \<Rightarrow> (bool \<times> 'c chunkSeriesIterator) outcome" where
  "csi_Seek chunk_it t it =
     (if t > csi_maxt it then Ok (False, it)
      else
        let t = (if t < csi_mint it then csi_mint it else t) in
        bind_outcome (skip_chunks (csi_chunks it) t (csi_i it)) (\<lambda>r.
          case r of
            Inl i \<Rightarrow> Ok (False, it\<lparr>csi_i := i\<rparr>)
          | Inr i \<Rightarrow>
              bind_outcome (open_chunk chunk_it (csi_intervals it) (csi_chunks it ! i)) (\<lambda>c.
              bind_outcome (seek_chunk t c) (\<lambda>(ok, c).
                Ok (ok, it\<lparr>csi_i := i, csi_cur := c\<rparr>)))))"

function csi_Next :: "('c \<Rightarrow> memIterator outcome) \<Rightarrow> 'c chunkSeriesIterator \<Rightarrow> (bool \<times> 'c chunkSeriesIterator) outcome" where
  "csi_Next chunk_it it =
     bind_outcome (chunkIterator_Next (csi_cur it)) (\<lambda>(ok, c).
       let it = it\<lparr>csi_cur := c\<rparr> in
       if ok then
         bind_outcome (chunkIterator_At c) (\<lambda>(t, _).
           if t < csi_mint it then
             bind_outcome (csi_Seek chunk_it (csi_mint it) it) (\<lambda>(ok, it).
               if \<not> ok then Ok (False, it)
               else bind_outcome (chunkIterator_At (csi_cur it)) (\<lambda>(t, _). Ok (t \<le> csi_maxt it, it)))
           else Ok (\<not> t > csi_maxt it, it))
       else if chunkIterator_Err c \<noteq> None then Ok (False, it)
       else if csi_i it = length (csi_chunks it) - 1 then Ok (False, it)
       else if csi_i it + 1 \<ge> length (csi_chunks it) then Panic
       else
         bind_outcome (open_chunk chunk_it (csi_intervals it) (csi_chunks it ! (csi_i it + 1))) (\<lambda>c.
           csi_Next chunk_it (it\<lparr>csi_i := csi_i it + 1, csi_cur := c\<rparr>)))"
  by pat_completeness auto
termination by (relation "measure (\<lambda>(f, it). length (csi_chunks it) - csi_i it)") auto

declare csi_Next.simps [simp del]

definition csi_At :: "'c chunkSeriesIterator \<Rightarrow> sample outcome" where
  "csi_At it = chunkIterator_At (csi_cur it)"

definition csi_Err :: "'c chunkSeriesIterator \<Rightarrow> go_error option" where
  "csi_Err it = chunkIterator_Err (csi_cur it)"

text \<open>
  A client's loop over the iterator. It need not end: on samples out of order \<^verbatim>\<open>Next\<close> may seek
  back to the start of a chunk again and again.
\<close>

partial_function (option) csi_drain ::
  "('c \<Rightarrow> memIterator outcome) \<Rightarrow> 'c chunkSeriesIterator \<Rightarrow> sample list \<Rightarrow> (sample list \<times> 'c chunkSeriesIterator) outcome option" where
  "csi_drain chunk_it it res =
     (case csi_Next chunk_it it of
        Ok (ok, it) \<Rightarrow>
          if ok then
            (case csi_At it of
               Ok x \<Rightarrow> csi_drain chunk_it it (res @ [x])
             | Fail e \<Rightarrow> Some (Fail e)
             | Panic \<Rightarrow> Some Panic)
          else Some (Ok (res, it))
      | Fail e \<Rightarrow> Some (Fail e)
      | Panic \<Rightarrow> Some Panic)"

section \<open>What a chunk iterator delivers\<close>

fun ci_reads :: "chunkIterator \<Rightarrow> sample list \<Rightarrow> bool" where
  "ci_reads it [] = (\<exists>it'. chunkIterator_Next it = Ok (False, it') \<and> chunkIterator_Err it' = None)"
| "ci_reads it (x # xs) =
     (\<exists>it'. chunkIterator_Next it = Ok (True, it') \<and> chunkIterator_At it' = Ok x \<and> chunkIterator_Err it' = None \<and> ci_reads it' xs)"

lemma ci_reads_cong: "chunkIterator_Next a = chunkIterator_Next b \<Longrightarrow> ci_reads a xs = ci_reads b xs"
  by (cases xs) simp_all

text \<open>Draining without an error at the end means that there was none on the way.\<close>

lemma drain_safe_tail:
  assumes "drain it = Ok (xs, it')" "it = SafeIterator si" "si_total si - si_i si \<le> 4"
  shows "memIterator_Err it' = it_err (si_Iterator si)"
  using assms
proof (induction xs arbitrary: it si)
  case Nil
  then show ?case by (subst (asm) drain.simps) (auto simp: memSafeIterator_Next_def Let_def split: if_splits)
next
  case (Cons x xs)
  let ?si = "si\<lparr>si_i := si_i si + 1\<rparr>"
  have "memIterator_Next it = Ok (True, SafeIterator ?si)" and "drain (SafeIterator ?si) = Ok (xs, it')"
    using Cons.prems by (subst (asm) drain.simps, auto simp: memSafeIterator_Next_def Let_def split: if_splits)+
  from Cons.IH [OF this(2) refl] Cons.prems(3) show ?case by simp
qed

lemma drain_Next:
  assumes "drain it = Ok (x # xs, it')" "memIterator_Err it' = None"
  obtains it1 where "memIterator_Next it = Ok (True, it1)" "memIterator_At it1 = Ok x" "drain it1 = Ok (xs, it')" "memIterator_Err it1 = None"
proof -
  obtain it1 where it1: "memIterator_Next it = Ok (True, it1)" "memIterator_At it1 = Ok x" "drain it1 = Ok (xs, it')"
    using assms(1) by (subst (asm) drain.simps) (auto split: outcome.splits prod.splits bool.splits)
  moreover have "memIterator_Err it1 = None"
  proof (cases it)
    case (ChunkIterator i)
    then show ?thesis using it1(1) Next_True_err by auto
  next
    case (SafeIterator si)
    then obtain si1 where si1: "it1 = SafeIterator si1" using it1(1) by auto
    show ?thesis
    proof (cases "si_total si1 - si_i si1 > 4")
      case True
      then show ?thesis using it1(1) si1 SafeIterator Next_True_err
        by (auto simp: memSafeIterator_Next_def Let_def split: if_splits)
    next
      case False
      then show ?thesis using drain_safe_tail [OF it1(3) si1] assms(2) si1 by simp
    qed
  qed (use it1(1) in auto)
  ultimately show ?thesis by (rule that)
qed

lemma plain_reads: "drain it = Ok (xs, it') \<Longrightarrow> memIterator_Err it' = None \<Longrightarrow> ci_reads (PlainIt it) xs"
proof (induction xs arbitrary: it)
  case Nil
  then show ?case by (subst (asm) drain.simps) (auto split: outcome.splits prod.splits bool.splits)
next
  case (Cons x xs)
  obtain it1 where it1: "memIterator_Next it = Ok (True, it1)" "memIterator_At it1 = Ok x" "drain it1 = Ok (xs, it')" "memIterator_Err it1 = None"
    by (rule drain_Next [OF Cons.prems])
  from Cons.IH [OF it1(3) Cons.prems(2)] it1(1,2,4) show ?case by simp
qed

lemma deleted_scan_covered:
  assumes "wf_intervals ivs"
  shows "\<exists>ivs'. deleted_scan ts ivs = (ts \<in> covered ivs, ivs') \<and> wf_intervals ivs' \<and> (\<forall>t \<ge> ts. t \<in> covered ivs' \<longleftrightarrow> t \<in> covered ivs)"
  using assms
proof (induction ivs)
  case (Cons tr trs)
  have later: "t \<notin> covered trs" if "t \<le> Maxt tr" for t
    using that Cons.prems by (fastforce simp: covered_def)
  show ?case using Cons later [of ts] by (auto simp: inBounds_def)
qed simp

lemma deleted_reads:
  assumes "ci_reads (PlainIt it) xs" "sorted_wrt (<) (map fst xs)" "wf_intervals ivs"
  shows "ci_reads (DeletedIt \<lparr>di_it = it, di_intervals = ivs\<rparr>) (filter (\<lambda>x. fst x \<notin> covered ivs) xs)"
  using assms
proof (induction xs arbitrary: it ivs)
  case Nil
  then show ?case by (auto simp: deletedIterator_Next.simps)
next
  case (Cons x xs)
  then obtain it1 where n: "memIterator_Next it = Ok (True, it1)" "memIterator_At it1 = Ok x" "memIterator_Err it1 = None" "ci_reads (PlainIt it1) xs"
    by auto
  obtain ivs' where d: "deleted_scan (fst x) ivs = (fst x \<in> covered ivs, ivs')" "wf_intervals ivs'" "\<forall>t \<ge> fst x. t \<in> covered ivs' \<longleftrightarrow> t \<in> covered ivs"
    using deleted_scan_covered [OF Cons.prems(3), of "fst x"] by blast
  let ?it1 = "\<lparr>di_it = it1, di_intervals = ivs'\<rparr>"
  have next_it: "deletedIterator_Next \<lparr>di_it = it, di_intervals = ivs\<rparr> =
      (if fst x \<in> covered ivs then deletedIterator_Next ?it1 else Ok (True, ?it1))"
    using n(1,2) d(1) by (subst deletedIterator_Next.simps) (cases x, simp)
  have "filter (\<lambda>x. fst x \<notin> covered ivs') xs = filter (\<lambda>x. fst x \<notin> covered ivs) xs"
    using d(3) Cons.prems(2) by (auto intro!: filter_cong simp: less_imp_le)
  then have rest: "ci_reads (DeletedIt ?it1) (filter (\<lambda>x. fst x \<notin> covered ivs) xs)"
    using Cons.IH [OF n(4) _ d(2)] Cons.prems(2) by simp
  show ?case
  proof (cases "fst x \<in> covered ivs")
    case True
    then have "chunkIterator_Next (DeletedIt \<lparr>di_it = it, di_intervals = ivs\<rparr>) = chunkIterator_Next (DeletedIt ?it1)" using next_it by simp
    from ci_reads_cong [OF this] rest True show ?thesis by simp
  next
    case False
    then show ?thesis using rest next_it n(2,3) by simp
  qed
qed

lemma seek_chunk_reads:
  assumes "ci_reads it xs" "dropWhile (\<lambda>x. fst x < t) xs = y # ys"
  shows "\<exists>it'. seek_chunk t it = Ok (True, it') \<and> chunkIterator_At it' = Ok y \<and> chunkIterator_Err it' = None \<and> ci_reads it' ys"
  using assms
proof (induction xs arbitrary: it)
  case (Cons x xs)
  then obtain it1 where n: "chunkIterator_Next it = Ok (True, it1)" "chunkIterator_At it1 = Ok x" "chunkIterator_Err it1 = None" "ci_reads it1 xs" by auto
  show ?case
  proof (cases "fst x < t")
    case True
    then have "seek_chunk t it = seek_chunk t it1" using n(1,2) by (subst seek_chunk.simps) (cases x, simp)
    then show ?thesis using Cons.IH [OF n(4)] Cons.prems(2) True by simp
  next
    case False
    then have "y = x" "ys = xs" using Cons.prems(2) by auto
    then show ?thesis using n False by (subst seek_chunk.simps) (simp add: case_prod_unfold)
  qed
qed simp

section \<open>Iterating a series\<close>

text \<open>A chunk opens to samples, and its meta data has the timestamp of the last one.\<close>

definition opens :: "('c \<Rightarrow> memIterator outcome) \<Rightarrow> 'c ChunkMeta \<Rightarrow> sample list \<Rightarrow> bool" where
  "opens chunk_it c zs \<longleftrightarrow>
     (\<exists>it it'. chunk_it (cm_Chunk c) = Ok it \<and> drain it = Ok (zs, it') \<and> memIterator_Err it' = None) \<and> zs \<noteq> [] \<and> MaxTime c = fst (last zs)"

definition kept :: "Intervals \<Rightarrow> sample list \<Rightarrow> sample list" where
  "kept dranges zs = filter (\<lambda>x. fst x \<notin> covered dranges) zs"

definition reads_chunk :: "('c \<Rightarrow> memIterator outcome) \<Rightarrow> Intervals \<Rightarrow> 'c ChunkMeta \<Rightarrow> sample list \<Rightarrow> bool" where
  "reads_chunk chunk_it dranges c ys \<longleftrightarrow> (\<exists>it. open_chunk chunk_it dranges c = Ok it \<and> ci_reads it ys)"

lemma open_chunk_reads:
  assumes "opens chunk_it c zs" "sorted_wrt (<) (map fst zs)" "wf_intervals dranges"
  shows "reads_chunk chunk_it dranges c (kept dranges zs)"
proof -
  obtain it it' where it: "chunk_it (cm_Chunk c) = Ok it" "drain it = Ok (zs, it')" "memIterator_Err it' = None"
    using assms(1) by (auto simp: opens_def)
  have plain: "ci_reads (PlainIt it) zs" by (rule plain_reads [OF it(2,3)])
  show ?thesis
  proof (cases "dranges = []")
    case True
    then show ?thesis using it(1) plain by (simp add: reads_chunk_def open_chunk_def kept_def)
  next
    case False
    then show ?thesis using it(1) deleted_reads [OF plain assms(2,3)] by (simp add: reads_chunk_def open_chunk_def kept_def)
  qed
qed

text \<open>The iterator is inside a chunk with \<open>ys\<close> to come, and \<open>yss\<close> in the chunks behind.\<close>

definition at_chunk :: "('c \<Rightarrow> memIterator outcome) \<Rightarrow> 'c chunkSeriesIterator \<Rightarrow> sample list \<Rightarrow> sample list list \<Rightarrow> bool" where
  "at_chunk chunk_it it ys yss \<longleftrightarrow> ci_reads (csi_cur it) ys \<and> csi_i it < length (csi_chunks it)
     \<and> list_all2 (reads_chunk chunk_it (csi_intervals it)) (drop (Suc (csi_i it)) (csi_chunks it)) yss
     \<and> (\<forall>x \<in> set (concat (ys # yss)). csi_mint it \<le> fst x)"

lemma csi_Next_move:
  assumes "at_chunk f it [] (ys # yss)"
  shows "\<exists>it'. csi_Next f it = csi_Next f it' \<and> at_chunk f it' ys yss \<and> csi_maxt it' = csi_maxt it"
proof -
  obtain c where c: "chunkIterator_Next (csi_cur it) = Ok (False, c)" "chunkIterator_Err c = None" using assms by (auto simp: at_chunk_def)
  let ?i = "Suc (csi_i it)"
  have l2: "list_all2 (reads_chunk f (csi_intervals it)) (drop ?i (csi_chunks it)) (ys # yss)" using assms by (simp add: at_chunk_def)
  then have i: "?i < length (csi_chunks it)" using list_all2_lengthD by fastforce
  then have d: "drop ?i (csi_chunks it) = csi_chunks it ! ?i # drop (Suc ?i) (csi_chunks it)" by (rule Cons_nth_drop_Suc [symmetric])
  from l2 obtain cit where cit: "open_chunk f (csi_intervals it) (csi_chunks it ! ?i) = Ok cit" "ci_reads cit ys"
    "list_all2 (reads_chunk f (csi_intervals it)) (drop (Suc ?i) (csi_chunks it)) yss"
    by (auto simp: d reads_chunk_def)
  have "csi_Next f it = csi_Next f (it\<lparr>csi_i := ?i, csi_cur := cit\<rparr>)"
    using c i cit(1) by (subst csi_Next.simps) (auto simp: Let_def)
  moreover have "at_chunk f (it\<lparr>csi_i := ?i, csi_cur := cit\<rparr>) ys yss"
    using assms i cit(2,3) by (simp add: at_chunk_def)
  ultimately show ?thesis by (intro exI [of _ "it\<lparr>csi_i := ?i, csi_cur := cit\<rparr>"]) simp
qed

lemma csi_Next_end:
  assumes "at_chunk f it ys yss" "concat (ys # yss) = []"
  shows "\<exists>it'. csi_Next f it = Ok (False, it') \<and> csi_Err it' = None"
  using assms
proof (induction yss arbitrary: it ys)
  case Nil
  then obtain c where "chunkIterator_Next (csi_cur it) = Ok (False, c)" "chunkIterator_Err c = None" by (auto simp: at_chunk_def)
  moreover have "csi_i it = length (csi_chunks it) - 1" using Nil.prems(1) by (auto simp: at_chunk_def)
  ultimately show ?case by (subst csi_Next.simps) (simp add: Let_def csi_Err_def)
next
  case (Cons zs yss)
  with csi_Next_move [of f it zs yss] show ?case by fastforce
qed

lemma csi_Next_step:
  assumes "at_chunk f it ys yss" "concat (ys # yss) = x # xs"
  shows "\<exists>it' ys' yss'. csi_Next f it = Ok (fst x \<le> csi_maxt it, it') \<and> csi_At it' = Ok x \<and> csi_Err it' = None
    \<and> at_chunk f it' ys' yss' \<and> concat (ys' # yss') = xs \<and> csi_maxt it' = csi_maxt it"
  using assms
proof (induction yss arbitrary: it ys)
  case Nil
  then have ys: "ys = x # xs" by simp
  with Nil.prems(1) obtain c where c: "chunkIterator_Next (csi_cur it) = Ok (True, c)" "chunkIterator_At c = Ok x" "chunkIterator_Err c = None" "ci_reads c xs"
    by (auto simp: at_chunk_def)
  moreover have "csi_mint it \<le> fst x" using Nil.prems(1) ys by (simp add: at_chunk_def)
  ultimately have "csi_Next f it = Ok (fst x \<le> csi_maxt it, it\<lparr>csi_cur := c\<rparr>)"
    by (subst csi_Next.simps) (simp add: Let_def case_prod_unfold not_less not_le)
  then show ?case using c Nil.prems(1) ys
    by (intro exI [of _ "it\<lparr>csi_cur := c\<rparr>"] exI [of _ xs] exI [of _ "[]"]) (simp add: csi_At_def csi_Err_def at_chunk_def)
next
  case (Cons zs yss)
  show ?case
  proof (cases ys)
    case Nil
    with csi_Next_move [of f it zs yss] Cons.prems obtain it1 where
      it1: "csi_Next f it = csi_Next f it1" "at_chunk f it1 zs yss" "csi_maxt it1 = csi_maxt it" by auto
    from Cons.IH [OF it1(2)] Cons.prems(2) Nil show ?thesis unfolding it1(1,3) by simp
  next
    case (Cons y ys')
    then have ys: "ys = x # ys'" "xs = ys' @ concat (zs # yss)" using Cons.prems(2) by auto
    with Cons.prems(1) obtain c where c: "chunkIterator_Next (csi_cur it) = Ok (True, c)" "chunkIterator_At c = Ok x" "chunkIterator_Err c = None" "ci_reads c ys'"
      by (auto simp: at_chunk_def)
    moreover have "csi_mint it \<le> fst x" using Cons.prems(1) ys by (simp add: at_chunk_def)
    ultimately have "csi_Next f it = Ok (fst x \<le> csi_maxt it, it\<lparr>csi_cur := c\<rparr>)"
      by (subst csi_Next.simps) (simp add: Let_def case_prod_unfold not_less not_le)
    then show ?thesis using c Cons.prems(1) ys
      by (intro exI [of _ "it\<lparr>csi_cur := c\<rparr>"] exI [of _ ys'] exI [of _ "zs # yss"]) (simp add: csi_At_def csi_Err_def at_chunk_def)
  qed
qed

lemma csi_drain_rest:
  assumes "at_chunk f it ys yss" "sorted_wrt (<) (map fst (concat (ys # yss)))"
  shows "\<exists>it'. csi_drain f it res = Some (Ok (res @ filter (\<lambda>x. fst x \<le> csi_maxt it) (concat (ys # yss)), it')) \<and> csi_Err it' = None"
  using assms
proof (induction "concat (ys # yss)" arbitrary: it ys yss res)
  case Nil
  obtain it' where "csi_Next f it = Ok (False, it')" "csi_Err it' = None" using csi_Next_end [OF Nil.prems(1) Nil.hyps [symmetric]] by blast
  then show ?case unfolding Nil.hyps [symmetric] by (subst csi_drain.simps) simp
next
  case (Cons x xs)
  from csi_Next_step [OF Cons.prems(1) Cons.hyps(2) [symmetric]] obtain it' ys' yss' where
    it': "csi_Next f it = Ok (fst x \<le> csi_maxt it, it')" "csi_At it' = Ok x" "csi_Err it' = None" "at_chunk f it' ys' yss'"
      "concat (ys' # yss') = xs" "csi_maxt it' = csi_maxt it" by blast
  have sorted: "sorted_wrt (<) (map fst (x # xs))" using Cons.prems(2) Cons.hyps(2) by simp
  show ?case
  proof (cases "fst x \<le> csi_maxt it")
    case True
    have "sorted_wrt (<) (map fst (concat (ys' # yss')))" using sorted it'(5) by simp
    from Cons.hyps(1) [OF it'(5) [symmetric] it'(4) this, of "res @ [x]"] it'(5,6) obtain it2 where
      "csi_drain f it' (res @ [x]) = Some (Ok ((res @ [x]) @ filter (\<lambda>x. fst x \<le> csi_maxt it) xs, it2))" "csi_Err it2 = None" by auto
    then show ?thesis using it'(1,2) True unfolding Cons.hyps(2) [symmetric] by (subst csi_drain.simps) simp
  next
    case False
    then have "\<forall>y \<in> set xs. \<not> fst y \<le> csi_maxt it" using sorted by fastforce
    then have "filter (\<lambda>x. fst x \<le> csi_maxt it) (x # xs) = []" using False by (simp add: filter_empty_conv)
    then show ?thesis using it'(1,3) False unfolding Cons.hyps(2) [symmetric] by (subst csi_drain.simps) simp
  qed
qed

text \<open>
  Entering a series whose first chunk reaches the start of the range. \<^verbatim>\<open>Next\<close> meets a sample
  before it and seeks inside the chunk, which only works out if a sample of the chunk in
  the range is left.
\<close>

definition enters :: "int \<Rightarrow> Intervals \<Rightarrow> sample list \<Rightarrow> bool" where
  "enters mint dranges zs \<longleftrightarrow>
     (\<exists>x \<in> set (kept dranges zs). mint \<le> fst x) \<or> (\<forall>x \<in> set (kept dranges zs). mint \<le> fst x)"

lemma dropWhile_less_filter:
  "sorted_wrt (<) (map fst xs) \<Longrightarrow> dropWhile (\<lambda>x. fst x < t) xs = filter (\<lambda>x. t \<le> fst x) xs" for t :: int
proof (induction xs)
  case (Cons x xs)
  then have "filter (\<lambda>x. t \<le> fst x) xs = xs" if "t \<le> fst x" using that by (auto simp: filter_id_conv)
  with Cons show ?case by auto
qed simp

text \<open>What \<^verbatim>\<open>Next\<close> does on its way into the range.\<close>

lemma csi_Next_enters:
  assumes f: "open_chunk f dranges c = Ok cit" "ci_reads cit ys" and sorted: "sorted_wrt (<) (map fst ys)"
    and before: "ys = y # ys0" "fst y < mint" and inside: "filter (\<lambda>x. mint \<le> fst x) ys = x # xs"
    and c: "mint \<le> MaxTime c" "mint \<le> maxt"
  shows "\<exists>cit'. csi_Next f \<lparr>csi_chunks = c # cs, csi_i = 0, csi_cur = cit, csi_mint = mint, csi_maxt = maxt, csi_intervals = dranges\<rparr>
      = Ok (fst x \<le> maxt, \<lparr>csi_chunks = c # cs, csi_i = 0, csi_cur = cit', csi_mint = mint, csi_maxt = maxt, csi_intervals = dranges\<rparr>)
    \<and> chunkIterator_At cit' = Ok x \<and> chunkIterator_Err cit' = None \<and> ci_reads cit' xs"
proof -
  let ?it = "\<lambda>cur. \<lparr>csi_chunks = c # cs, csi_i = 0, csi_cur = cur, csi_mint = mint, csi_maxt = maxt, csi_intervals = dranges\<rparr>"
  obtain cit1 where n: "chunkIterator_Next cit = Ok (True, cit1)" "chunkIterator_At cit1 = Ok y" using f(2) before(1) by auto
  have "dropWhile (\<lambda>x. fst x < mint) ys = x # xs" using dropWhile_less_filter [OF sorted] inside by simp
  from seek_chunk_reads [OF f(2) this] obtain cit' where
    cit': "seek_chunk mint cit = Ok (True, cit')" "chunkIterator_At cit' = Ok x" "chunkIterator_Err cit' = None" "ci_reads cit' xs" by blast
  have skip: "skip_chunks (c # cs) mint 0 = Ok (Inr 0)" using c(1) by (subst skip_chunks.simps) simp
  have "csi_Seek f mint (?it cit1) = Ok (True, ?it cit')"
    using skip cit'(1) f(1) c(2) by (simp add: csi_Seek_def Let_def)
  then have "csi_Next f (?it cit) = Ok (fst x \<le> maxt, ?it cit')"
    using n before(2) cit'(2) by (subst csi_Next.simps) (simp add: Let_def case_prod_unfold)
  then show ?thesis using cit' by blast
qed

lemma csi_drain_enters:
  assumes f: "open_chunk f dranges c = Ok cit" "ci_reads cit ys" and cs: "list_all2 (reads_chunk f dranges) cs yss"
    and sorted: "sorted_wrt (<) (map fst (ys @ concat yss))" and c: "mint \<le> MaxTime c" and later: "\<forall>x \<in> set (concat yss). mint \<le> fst x"
    and before: "ys = y # ys0" "fst y < mint" and inside: "filter (\<lambda>x. mint \<le> fst x) ys = x # xs"
  shows "\<exists>it'. csi_drain f \<lparr>csi_chunks = c # cs, csi_i = 0, csi_cur = cit, csi_mint = mint, csi_maxt = maxt, csi_intervals = dranges\<rparr> []
      = Some (Ok (filter (\<lambda>x. mint \<le> fst x \<and> fst x \<le> maxt) (ys @ concat yss), it')) \<and> csi_Err it' = None"
proof (cases "mint \<le> maxt")
  case True
  let ?it = "\<lambda>cur. \<lparr>csi_chunks = c # cs, csi_i = 0, csi_cur = cur, csi_mint = mint, csi_maxt = maxt, csi_intervals = dranges\<rparr>"
  let ?rest = "xs @ concat yss"
  have ys: "sorted_wrt (<) (map fst ys)" using sorted by (simp add: sorted_wrt_append)
  from csi_Next_enters [OF f ys before inside c True] obtain cit' where
    n: "csi_Next f (?it cit) = Ok (fst x \<le> maxt, ?it cit')" "chunkIterator_At cit' = Ok x" "chunkIterator_Err cit' = None" "ci_reads cit' xs" by blast
  have all: "filter (\<lambda>x. mint \<le> fst x) (ys @ concat yss) = x # ?rest" using inside later by (simp add: filter_id_conv)
  then have "sorted_wrt (<) (map fst (x # ?rest))" using sorted unfolding sorted_wrt_map by (metis sorted_wrt_filter)
  then have rest: "sorted_wrt (<) (map fst ?rest)" "\<forall>z \<in> set ?rest. fst x < fst z" by auto
  have res: "filter (\<lambda>x. mint \<le> fst x \<and> fst x \<le> maxt) (ys @ concat yss) = filter (\<lambda>x. fst x \<le> maxt) (x # ?rest)"
    unfolding all [symmetric] by (simp add: conj_commute)
  show ?thesis
  proof (cases "fst x \<le> maxt")
    case True
    have "set xs \<subseteq> set (filter (\<lambda>x. mint \<le> fst x) ys)" unfolding inside by auto
    then have "at_chunk f (?it cit') xs yss" using n(4) cs later by (auto simp: at_chunk_def)
    from csi_drain_rest [OF this, of "[x]"] rest(1) obtain it' where
      "csi_drain f (?it cit') [x] = Some (Ok ([x] @ filter (\<lambda>x. fst x \<le> maxt) ?rest, it'))" "csi_Err it' = None" by auto
    then show ?thesis using n(1,2) True unfolding res by (subst csi_drain.simps) (simp add: csi_At_def)
  next
    case False
    have "\<not> fst z \<le> maxt" if "z \<in> set ?rest" for z using rest(2) that False by (meson less_le_trans not_le order.strict_implies_order order_trans)
    then have "filter (\<lambda>x. fst x \<le> maxt) (x # ?rest) = []" using False by (simp only: filter_empty_conv) simp
    then show ?thesis using n(1,3) False unfolding res by (subst csi_drain.simps) (simp add: csi_Err_def)
  qed
next
  case False
  obtain cit1 where "chunkIterator_Next cit = Ok (True, cit1)" "chunkIterator_At cit1 = Ok y" "chunkIterator_Err cit1 = None" using f(2) before(1) by auto
  moreover have "filter (\<lambda>x. mint \<le> fst x \<and> fst x \<le> maxt) (ys @ concat yss) = []" using False by (auto simp: filter_empty_conv)
  ultimately show ?thesis using before(2) False
    by (subst csi_drain.simps, subst csi_Next.simps) (simp add: Let_def case_prod_unfold csi_Seek_def csi_Err_def)
qed

text \<open>A seek in a chunk without a sample left from \<open>t\<close> on.\<close>

lemma seek_chunk_none:
  assumes "ci_reads it xs" "\<forall>x \<in> set xs. fst x < t"
  shows "\<exists>it'. seek_chunk t it = Ok (False, it') \<and> chunkIterator_Err it' = None"
  using assms
proof (induction xs arbitrary: it)
  case Nil
  then show ?case by (subst seek_chunk.simps) auto
next
  case (Cons x xs)
  then obtain it1 where n: "chunkIterator_Next it = Ok (True, it1)" "chunkIterator_At it1 = Ok x" "ci_reads it1 xs" by auto
  then have "seek_chunk t it = seek_chunk t it1" using Cons.prems(2) by (subst seek_chunk.simps) (cases x, simp)
  then show ?case using Cons.IH [OF n(3)] Cons.prems(2) by simp
qed

text \<open>Short chunks for examples, read from a buffer.\<close>

definition buffered :: "sample list \<Rightarrow> memIterator" where
  "buffered xs = SafeIterator \<lparr>si_Iterator = \<lparr>br = newBReader [], numTotal = 0, numRead = 0, it_t = 0, it_val = 0,
     it_leading = 0, it_trailing = 0, it_tDelta = 0, it_err = None\<rparr>, si_i = -1, si_total = int (length xs), si_buf = replicate (4 - length xs) (0, 0) @ xs\<rparr>"

definition buffered_meta :: "sample list \<Rightarrow> memIterator ChunkMeta" where
  "buffered_meta xs = \<lparr>Meta_Ref = 0, MinTime = fst (hd xs), MaxTime = fst (last xs), cm_Chunk = buffered xs\<rparr>"

lemma buffered_opens:
  assumes "xs \<noteq> []" "length xs \<le> 4" "list_all (in_i64 \<circ> fst) xs"
  shows "opens Ok (buffered_meta xs) xs"
proof -
  have "buf_rep (replicate (4 - length xs) (0, 0) @ xs) ([] @ xs)" using assms(2) by (simp add: buf_rep_def)
  from drain_safe [OF _ _ this assms(3)] assms(1,2) show ?thesis
    by (fastforce simp: opens_def buffered_meta_def buffered_def)
qed

lemma chunk_series_drains:
  assumes "list_all2 (opens chunk_it) cs zss" "cs \<noteq> []" "sorted_wrt (<) (map fst (concat zss))" "wf_intervals dranges"
    and "mint \<le> MaxTime (hd cs)" "enters mint dranges (hd zss)"
  shows "\<exists>it it'. newChunkSeriesIterator chunk_it cs dranges mint maxt = Ok it
    \<and> csi_drain chunk_it it [] = Some (Ok (filter (\<lambda>x. mint \<le> fst x \<and> fst x \<le> maxt \<and> fst x \<notin> covered dranges) (concat zss), it'))
    \<and> csi_Err it' = None"
proof -
  obtain c cs' zs zss' where cs: "cs = c # cs'" "zss = zs # zss'" using assms(1,2) by (cases cs; cases zss) auto
  let ?ys = "kept dranges zs" and ?yss = "map (kept dranges) zss'"
  have sorted: "sorted_wrt (<) (map fst zs)" "sorted_wrt (<) (map fst (concat zss'))"
    and apart: "\<forall>x \<in> set zs. \<forall>y \<in> set (concat zss'). fst x < fst y" using assms(3) by (auto simp: cs sorted_wrt_append)
  have zsorted: "sorted_wrt (<) (map fst z)" if "z \<in> set zss'" for z
    using sorted(2) that by (induction zss') (auto simp: sorted_wrt_append)
  have op: "opens chunk_it c zs" "list_all2 (opens chunk_it) cs' zss'" using assms(1) by (simp_all add: cs)
  have reads: "list_all2 (reads_chunk chunk_it dranges) cs' ?yss"
    unfolding list_all2_map2 by (rule list.rel_mono_strong [OF op(2)]) (use zsorted open_chunk_reads assms(4) in blast)
  obtain cit where cit: "open_chunk chunk_it dranges c = Ok cit" "ci_reads cit ?ys"
    using open_chunk_reads [OF op(1) sorted(1) assms(4)] by (auto simp: reads_chunk_def)
  let ?it = "\<lparr>csi_chunks = c # cs', csi_i = 0, csi_cur = cit, csi_mint = mint, csi_maxt = maxt, csi_intervals = dranges\<rparr>"
  have all: "kept dranges (concat zss) = ?ys @ concat ?yss" by (simp add: cs kept_def [abs_def] filter_concat)
  have all_sorted: "sorted_wrt (<) (map fst (?ys @ concat ?yss))"
    using sorted_wrt_filter [OF assms(3) [unfolded sorted_wrt_map], of "\<lambda>x. fst x \<notin> covered dranges"]
    unfolding all [symmetric] sorted_wrt_map by (simp only: kept_def)
  have "mint \<le> fst (last zs)" "last zs \<in> set zs" using op(1) assms(5) by (auto simp: opens_def cs)
  then have later: "\<forall>x \<in> set (concat ?yss). mint \<le> fst x" using apart by (fastforce simp: kept_def)
  have res: "filter (\<lambda>x. mint \<le> fst x \<and> fst x \<le> maxt \<and> fst x \<notin> covered dranges) (concat zss)
      = filter (\<lambda>x. mint \<le> fst x \<and> fst x \<le> maxt) (?ys @ concat ?yss)"
    unfolding all [symmetric] by (simp add: kept_def [of dranges "concat zss"] conj_ac)
  have "\<exists>it'. csi_drain chunk_it ?it [] = Some (Ok (filter (\<lambda>x. mint \<le> fst x \<and> fst x \<le> maxt) (?ys @ concat ?yss), it')) \<and> csi_Err it' = None"
  proof (cases "\<forall>x \<in> set ?ys. mint \<le> fst x")
    case True
    then have "at_chunk chunk_it ?it ?ys ?yss" using cit(2) reads later by (auto simp: at_chunk_def)
    from csi_drain_rest [OF this, of "[]"] all_sorted have
      "\<exists>it'. csi_drain chunk_it ?it [] = Some (Ok (filter (\<lambda>x. fst x \<le> maxt) (?ys @ concat ?yss), it')) \<and> csi_Err it' = None" by simp
    moreover have "filter (\<lambda>x. mint \<le> fst x \<and> fst x \<le> maxt) (?ys @ concat ?yss) = filter (\<lambda>x. fst x \<le> maxt) (?ys @ concat ?yss)"
      by (rule filter_cong [OF refl]) (use True later in auto)
    ultimately show ?thesis by simp
  next
    case False
    then obtain x y where xy: "x \<in> set ?ys" "mint \<le> fst x" "y \<in> set ?ys" "fst y < mint" using assms(6) by (auto simp: enters_def cs not_le)
    obtain y0 ys0 where y0: "?ys = y0 # ys0" using xy(1) by (cases ?ys) auto
    have "fst y0 \<le> fst y" using all_sorted xy(3) unfolding y0 by (auto simp: less_imp_le)
    then have "fst y0 < mint" using xy(4) by simp
    moreover obtain x0 xs where "filter (\<lambda>x. mint \<le> fst x) ?ys = x0 # xs" using xy(1,2) by (cases "filter (\<lambda>x. mint \<le> fst x) ?ys") (auto simp: filter_empty_conv)
    ultimately show ?thesis using csi_drain_enters [OF cit reads all_sorted _ later y0] assms(5) by (simp add: cs)
  qed
  moreover have "newChunkSeriesIterator chunk_it cs dranges mint maxt = Ok ?it" using cit(1) by (simp add: newChunkSeriesIterator_def cs)
  ultimately show ?thesis unfolding res by blast
qed

section \<open>Properties\<close>

text \<open>
  Iterating a series in a time range. Over chunks that are sorted and disjoint in time, the first of
  which reaches the range, the iterator ends without an error and delivers exactly the samples in
  the range that are not deleted, in order. The last premise is that the first chunk keeps a sample in the
  range or has none before it.
\<close>

theorem series_range_iterates:
  assumes "list_all2 (opens chunk_it) cs zss" "cs \<noteq> []" "sorted_wrt (<) (map fst (concat zss))" "wf_intervals dranges"
    and "mint \<le> MaxTime (hd cs)" "enters mint dranges (hd zss)"
  shows "\<exists>it it'. newChunkSeriesIterator chunk_it cs dranges mint maxt = Ok it
    \<and> csi_drain chunk_it it [] = Some (Ok (filter (\<lambda>x. mint \<le> fst x \<and> fst x \<le> maxt \<and> fst x \<notin> covered dranges) (concat zss), it'))
    \<and> csi_Err it' = None"
  by (rule chunk_series_drains [OF assms])

theorem series_range_iterates_witness:
  "\<exists>it it'. newChunkSeriesIterator Ok [buffered_meta [(5, 1), (12, 2), (15, 3)], buffered_meta [(25, 4), (40, 5)]] [\<lparr>Mint = 13, Maxt = 20\<rparr>] 10 30 = Ok it
    \<and> csi_drain Ok it [] = Some (Ok ([(12, 2), (25, 4)], it')) \<and> csi_Err it' = None"
proof -
  have "list_all2 (opens Ok) [buffered_meta [(5, 1), (12, 2), (15, 3)], buffered_meta [(25, 4), (40, 5)]] [[(5, 1), (12, 2), (15, 3)], [(25, 4), (40, 5)]]"
    by (auto intro!: buffered_opens simp: in_i64_def)
  moreover have "wf_intervals [\<lparr>Mint = 13, Maxt = 20\<rparr>]" by (simp add: wf_interval_def in_i64_def)
  moreover have "enters 10 [\<lparr>Mint = 13, Maxt = 20\<rparr>] [(5, 1), (12, 2), (15, 3)]" by (simp add: enters_def kept_def)
  ultimately show ?thesis using series_range_iterates [of Ok "[buffered_meta [(5, 1), (12, 2), (15, 3)], buffered_meta [(25, 4), (40, 5)]]"
        "[[(5, 1), (12, 2), (15, 3)], [(25, 4), (40, 5)]]" "[\<lparr>Mint = 13, Maxt = 20\<rparr>]" 10 30] by (simp add: buffered_meta_def)
qed

text \<open>
  C32. Samples lost by a seek. If the first chunk of a series has samples before the range that are
  kept, and all its samples in the range are deleted, the iterator ends at once without an error: the
  seek into the range gives up at the end of the chunk, and the samples of all chunks behind are
  not delivered.
\<close>

theorem seek_loses_later_chunks:
  assumes "opens chunk_it c zs" "sorted_wrt (<) (map fst zs)" "wf_intervals dranges" "mint \<le> MaxTime c" "mint \<le> maxt"
    and "kept dranges zs \<noteq> []" "\<forall>x \<in> set (kept dranges zs). fst x < mint"
  shows "\<exists>it it'. newChunkSeriesIterator chunk_it (c # cs) dranges mint maxt = Ok it
    \<and> csi_drain chunk_it it [] = Some (Ok ([], it')) \<and> csi_Err it' = None"
proof -
  obtain cit where cit: "open_chunk chunk_it dranges c = Ok cit" "ci_reads cit (kept dranges zs)"
    using open_chunk_reads [OF assms(1-3)] by (auto simp: reads_chunk_def)
  obtain y ys where y: "kept dranges zs = y # ys" using assms(6) by (cases "kept dranges zs") auto
  then obtain cit1 where n: "chunkIterator_Next cit = Ok (True, cit1)" "chunkIterator_At cit1 = Ok y" using cit(2) by auto
  obtain cit' where s: "seek_chunk mint cit = Ok (False, cit')" "chunkIterator_Err cit' = None"
    using seek_chunk_none [OF cit(2) assms(7)] by blast
  let ?it = "\<lambda>cur. \<lparr>csi_chunks = c # cs, csi_i = 0, csi_cur = cur, csi_mint = mint, csi_maxt = maxt, csi_intervals = dranges\<rparr>"
  have "skip_chunks (c # cs) mint 0 = Ok (Inr 0)" using assms(4) by (subst skip_chunks.simps) simp
  then have "csi_Seek chunk_it mint (?it cit1) = Ok (False, ?it cit')" using cit(1) s(1) assms(5) by (simp add: csi_Seek_def Let_def)
  then have "csi_Next chunk_it (?it cit) = Ok (False, ?it cit')"
    using n assms(7) y by (subst csi_Next.simps) (simp add: Let_def case_prod_unfold)
  then have "csi_drain chunk_it (?it cit) [] = Some (Ok ([], ?it cit'))" by (subst csi_drain.simps) simp
  moreover have "newChunkSeriesIterator chunk_it (c # cs) dranges mint maxt = Ok (?it cit)" using cit(1) by (simp add: newChunkSeriesIterator_def)
  ultimately show ?thesis using s(2) by (auto simp: csi_Err_def)
qed

theorem seek_loses_later_chunks_witness:
  "\<exists>it it'. newChunkSeriesIterator Ok [buffered_meta [(5, 1), (15, 2)], buffered_meta [(25, 3)]] [\<lparr>Mint = 15, Maxt = 15\<rparr>] 10 30 = Ok it
    \<and> csi_drain Ok it [] = Some (Ok ([], it')) \<and> csi_Err it' = None
    \<and> opens Ok (buffered_meta [(25, 3)]) [(25, 3)]"
proof -
  have "opens Ok (buffered_meta [(5, 1), (15, 2)]) [(5, 1), (15, 2)]" "opens Ok (buffered_meta [(25, 3)]) [(25, 3)]"
    by (auto intro!: buffered_opens simp: in_i64_def)
  moreover have "wf_intervals [\<lparr>Mint = 15, Maxt = 15\<rparr>]" by (simp add: wf_interval_def in_i64_def)
  moreover have "kept [\<lparr>Mint = 15, Maxt = 15\<rparr>] [(5, 1), (15, 2)] = [(5, 1)]" by (simp add: kept_def)
  ultimately show ?thesis using seek_loses_later_chunks [of Ok "buffered_meta [(5, 1), (15, 2)]" "[(5, 1), (15, 2)]" "[\<lparr>Mint = 15, Maxt = 15\<rparr>]" 10 30 "[buffered_meta [(25, 3)]]"]
    by (simp add: buffered_meta_def)
qed

end
