(* ===== verification/Block_Query.thy ===== *)
theory Block_Query
  imports Head_Query Head_Reader Series_Iter
begin

text \<open>
  Queries of one block in \<^verbatim>\<open>querier.go\<close>: from the postings of the selected series to their
  chunks, to the samples. The block is given by the readers of its index, chunks and
  tombstones. At the end the head is read this way.
\<close>

section \<open>Calls that may not return\<close>

definition bind_call :: "'a outcome option \<Rightarrow> ('a \<Rightarrow> 'b outcome option) \<Rightarrow> 'b outcome option" where
  "bind_call c f = Option.bind c (\<lambda>r. case r of Ok x \<Rightarrow> f x | Fail e \<Rightarrow> Some (Fail e) | Panic \<Rightarrow> Some Panic)"

lemma bind_call_mono [partial_function_mono]:
  assumes "mono_option B" "\<And>y. mono_option (\<lambda>f. C y f)"
  shows "mono_option (\<lambda>f. bind_call (B f) (\<lambda>y. C y f))"
  unfolding bind_call_def
proof (rule bind_mono [OF assms(1)])
  fix r show "mono_option (\<lambda>f. case r of Ok x \<Rightarrow> C x f | Fail e \<Rightarrow> Some (Fail e) | Panic \<Rightarrow> Some Panic)"
    using assms(2) by (cases r) (simp_all add: option.const_mono)
qed

lemma bind_call_simps [simp]:
  "bind_call (Some (Ok x)) f = f x" "bind_call (Some (Fail e)) f = Some (Fail e)" "bind_call (Some Panic) f = Some Panic"
  by (simp_all add: bind_call_def)

section \<open>The series of a selection and their chunks\<close>

text \<open>
  The interface \<^verbatim>\<open>BlockReader\<close>: the readers of the index, with its method \<^verbatim>\<open>Series\<close> apart, of
  the chunks and of the tombstones.
\<close>

record 'c BlockReader =
  br_Index :: IndexReader
  br_Series :: "u64 \<Rightarrow> (Labels \<times> Meta list) outcome"
  br_Chunk :: "u64 \<Rightarrow> 'c outcome"
  br_Tombstones :: "u64 \<Rightarrow> Intervals outcome"

record baseChunkSeries =
  bcs_p :: Postings
  bcs_lset :: Labels
  bcs_chks :: "Meta list"
  bcs_intervals :: Intervals
  bcs_err :: "go_error option"

definition LookupChunkSeries :: "'c BlockReader \<Rightarrow> Matcher list \<Rightarrow> baseChunkSeries outcome option" where
  "LookupChunkSeries rd ms =
     bind_call (PostingsForMatchers (br_Index rd) ms) (\<lambda>p.
       Some (Ok \<lparr>bcs_p = p, bcs_lset = [], bcs_chks = [], bcs_intervals = [], bcs_err = None\<rparr>))"

definition drop_deleted :: "Intervals \<Rightarrow> Meta list \<Rightarrow> Meta list" where
  "drop_deleted itvs chks =
     (if length itvs > 0 then filter (\<lambda>chk. \<not> isSubrange \<lparr>Mint = MinTime chk, Maxt = MaxTime chk\<rparr> itvs) chks else chks)"

partial_function (option) baseChunkSeries_Next :: "'c BlockReader \<Rightarrow> baseChunkSeries \<Rightarrow> (bool \<times> baseChunkSeries) outcome option" where
  "baseChunkSeries_Next rd s =
     Option.bind (run CNext (bcs_p s)) (\<lambda>(ok, p).
       let s = s\<lparr>bcs_p := p\<rparr> in
       if ok then
         (case br_Series rd (Postings_At p) of
            Panic \<Rightarrow> Some Panic
          | Fail e \<Rightarrow> if e = ErrNotFound then baseChunkSeries_Next rd s else Some (Ok (False, s\<lparr>bcs_err := Some e\<rparr>))
          | Ok (lset, chkMetas) \<Rightarrow>
              let s = s\<lparr>bcs_lset := lset, bcs_chks := chkMetas\<rparr> in
              (case br_Tombstones rd (Postings_At p) of
                 Panic \<Rightarrow> Some Panic
               | Fail e \<Rightarrow> Some (Ok (False, s\<lparr>bcs_intervals := [], bcs_err := Some e\<rparr>))
               | Ok itvs \<Rightarrow> Some (Ok (True, s\<lparr>bcs_intervals := itvs, bcs_chks := drop_deleted itvs chkMetas\<rparr>))))
       else Some (Ok (False, case Postings_Err p of Some e \<Rightarrow> s\<lparr>bcs_err := Some e\<rparr> | None \<Rightarrow> s)))"

record 'c populatedChunkSeries =
  pcs_set :: baseChunkSeries
  pcs_mint :: int
  pcs_maxt :: int
  pcs_err :: "go_error option"
  pcs_chks :: "'c ChunkMeta list"
  pcs_lset :: Labels
  pcs_intervals :: Intervals

text \<open>
  Loading the chunks up to the end of the range. \<open>Inl e\<close> is the early return with false: with
  the error, or without one for a chunk that was garbage collected.
\<close>

fun populate :: "'c BlockReader \<Rightarrow> int \<Rightarrow> Meta list \<Rightarrow> (go_error option + 'c ChunkMeta list) outcome" where
  "populate rd maxt [] = Ok (Inr [])"
| "populate rd maxt (c # chks) =
     (if MinTime c > maxt then Ok (Inr [])
      else case br_Chunk rd (Meta_Ref c) of
        Panic \<Rightarrow> Panic
      | Fail e \<Rightarrow> Ok (Inl (if e = ErrNotFound then None else Some e))
      | Ok ch \<Rightarrow>
          bind_outcome (populate rd maxt chks) (\<lambda>r.
            Ok (map_sum id (\<lambda>cs. \<lparr>Meta_Ref = Meta_Ref c, MinTime = MinTime c, MaxTime = MaxTime c, cm_Chunk = ch\<rparr> # cs) r)))"

partial_function (option) populatedChunkSeries_Next ::
  "'c BlockReader \<Rightarrow> 'c populatedChunkSeries \<Rightarrow> (bool \<times> 'c populatedChunkSeries) outcome option" where
  "populatedChunkSeries_Next rd s =
     bind_call (baseChunkSeries_Next rd (pcs_set s)) (\<lambda>(ok, base).
       let s = s\<lparr>pcs_set := base\<rparr> in
       if ok then
         (case populate rd (pcs_maxt s) (dropWhile (\<lambda>c. \<not> MaxTime c \<ge> pcs_mint s) (bcs_chks base)) of
            Panic \<Rightarrow> Some Panic
          | Fail e \<Rightarrow> Some (Fail e)
          | Ok (Inl e) \<Rightarrow> Some (Ok (False, s\<lparr>pcs_err := e\<rparr>))
          | Ok (Inr chks) \<Rightarrow>
              if length chks = 0 then populatedChunkSeries_Next rd s
              else Some (Ok (True, s\<lparr>pcs_err := None, pcs_lset := bcs_lset base, pcs_chks := chks, pcs_intervals := bcs_intervals base\<rparr>)))
       else Some (Ok (False, case bcs_err base of Some e \<Rightarrow> s\<lparr>pcs_err := Some e\<rparr> | None \<Rightarrow> s)))"

record 'c chunkSeries =
  cs_labels :: Labels
  cs_chunks :: "'c ChunkMeta list"
  cs_mint :: int
  cs_maxt :: int
  cs_intervals :: Intervals

definition chunkSeries_Iterator :: "('c \<Rightarrow> memIterator outcome) \<Rightarrow> 'c chunkSeries \<Rightarrow> 'c chunkSeriesIterator outcome" where
  "chunkSeries_Iterator chunk_it s = newChunkSeriesIterator chunk_it (cs_chunks s) (cs_intervals s) (cs_mint s) (cs_maxt s)"

record 'c blockSeriesSet =
  bss_set :: "'c populatedChunkSeries"
  bss_err :: "go_error option"
  bss_cur :: "'c chunkSeries option"
  bss_mint :: int
  bss_maxt :: int

definition blockSeriesSet_Next :: "'c BlockReader \<Rightarrow> 'c blockSeriesSet \<Rightarrow> (bool \<times> 'c blockSeriesSet) outcome option" where
  "blockSeriesSet_Next rd s =
     bind_call (populatedChunkSeries_Next rd (bss_set s)) (\<lambda>(ok, pop).
       let s = s\<lparr>bss_set := pop\<rparr> in
       Some (Ok (if ok then
         (True, s\<lparr>bss_cur := Some \<lparr>cs_labels = pcs_lset pop, cs_chunks = pcs_chks pop, cs_mint = bss_mint s, cs_maxt = bss_maxt s,
                                 cs_intervals = pcs_intervals pop\<rparr>\<rparr>)
       else (False, case pcs_err pop of Some e \<Rightarrow> s\<lparr>bss_err := Some e\<rparr> | None \<Rightarrow> s))))"

definition blockQuerier_Select :: "'c BlockReader \<Rightarrow> int \<Rightarrow> int \<Rightarrow> Matcher list \<Rightarrow> 'c blockSeriesSet outcome option" where
  "blockQuerier_Select rd mint maxt ms =
     bind_call (LookupChunkSeries rd ms) (\<lambda>base.
       Some (Ok \<lparr>bss_set = \<lparr>pcs_set = base, pcs_mint = mint, pcs_maxt = maxt, pcs_err = None, pcs_chks = [], pcs_lset = [], pcs_intervals = []\<rparr>,
                 bss_err = None, bss_cur = None, bss_mint = mint, bss_maxt = maxt\<rparr>))"

text \<open>
  A client's loops: every series of the set with all its samples. An error of an iterator ends
  the outer loop.
\<close>

partial_function (option) query_all ::
  "('c \<Rightarrow> memIterator outcome) \<Rightarrow> 'c BlockReader \<Rightarrow> 'c blockSeriesSet \<Rightarrow> (Labels \<times> sample list) list
    \<Rightarrow> ((Labels \<times> sample list) list \<times> 'c blockSeriesSet) outcome option" where
  "query_all chunk_it rd s res =
     bind_call (blockSeriesSet_Next rd s) (\<lambda>(ok, s).
       if \<not> ok then Some (Ok (res, s))
       else case bss_cur s of
         None \<Rightarrow> Some Panic
       | Some sr \<Rightarrow>
           (case chunkSeries_Iterator chunk_it sr of
              Ok it \<Rightarrow>
                bind_call (csi_drain chunk_it it []) (\<lambda>(xs, it).
                  case csi_Err it of
                    Some e \<Rightarrow> Some (Fail e)
                  | None \<Rightarrow> query_all chunk_it rd s (res @ [(cs_labels sr, xs)]))
            | Fail e \<Rightarrow> Some (Fail e)
            | Panic \<Rightarrow> Some Panic))"

section \<open>Reading the series of a list of ids\<close>

text \<open>What the index, the tombstones and the chunk reader hold for an id: labels, intervals and loaded chunks.\<close>

definition loads :: "'c BlockReader \<Rightarrow> int \<Rightarrow> int \<Rightarrow> u64 \<Rightarrow> Labels \<times> Intervals \<times> 'c ChunkMeta list \<Rightarrow> bool" where
  "loads rd mint maxt k = (\<lambda>(lset, itvs, chks). \<exists>metas. br_Series rd k = Ok (lset, metas) \<and> br_Tombstones rd k = Ok itvs
     \<and> populate rd maxt (dropWhile (\<lambda>c. \<not> MaxTime c \<ge> mint) (drop_deleted itvs metas)) = Ok (Inr chks))"

lemma populated_Next_end:
  assumes "bcs_p (pcs_set s) = listPostings [] c" "bcs_err (pcs_set s) = None"
  shows "\<exists>s'. populatedChunkSeries_Next rd s = Some (Ok (False, s')) \<and> pcs_err s' = pcs_err s"
  using assms by (subst populatedChunkSeries_Next.simps, subst baseChunkSeries_Next.simps) (simp add: list_Next_def Let_def)

lemma populated_Next_step:
  assumes "bcs_p (pcs_set s) = listPostings (k # ks) c" "bcs_err (pcs_set s) = None" "loads rd (pcs_mint s) (pcs_maxt s) k (lset, itvs, chks)"
  shows "\<exists>s'. populatedChunkSeries_Next rd s = (if chks = [] then populatedChunkSeries_Next rd s' else Some (Ok (True, s')))
    \<and> bcs_p (pcs_set s') = listPostings ks k \<and> bcs_err (pcs_set s') = None \<and> pcs_mint s' = pcs_mint s \<and> pcs_maxt s' = pcs_maxt s
    \<and> (pcs_err s = None \<longrightarrow> pcs_err s' = None) \<and> (chks \<noteq> [] \<longrightarrow> pcs_lset s' = lset \<and> pcs_chks s' = chks \<and> pcs_intervals s' = itvs)"
proof -
  obtain metas where l: "br_Series rd k = Ok (lset, metas)" "br_Tombstones rd k = Ok itvs"
    "populate rd (pcs_maxt s) (dropWhile (\<lambda>c. \<not> MaxTime c \<ge> pcs_mint s) (drop_deleted itvs metas)) = Ok (Inr chks)"
    using assms(3) by (auto simp: loads_def)
  define base where "base = (pcs_set s)\<lparr>bcs_p := listPostings ks k, bcs_lset := lset, bcs_chks := drop_deleted itvs metas, bcs_intervals := itvs\<rparr>"
  have b: "baseChunkSeries_Next rd (pcs_set s) = Some (Ok (True, base))"
    using assms(1) l(1,2) by (subst baseChunkSeries_Next.simps) (simp add: list_Next_def Let_def base_def)
  have f: "bcs_p base = listPostings ks k" "bcs_err base = None" "bcs_lset base = lset" "bcs_chks base = drop_deleted itvs metas" "bcs_intervals base = itvs"
    using assms(2) by (simp_all add: base_def)
  show ?thesis
  proof (cases "chks = []")
    case True
    then have "populatedChunkSeries_Next rd s = populatedChunkSeries_Next rd (s\<lparr>pcs_set := base\<rparr>)"
      using b l(3) f(4) by (subst populatedChunkSeries_Next.simps) (simp add: Let_def)
    then show ?thesis using True f by (intro exI [of _ "s\<lparr>pcs_set := base\<rparr>"]) simp
  next
    case False
    let ?s = "s\<lparr>pcs_set := base, pcs_err := None, pcs_lset := lset, pcs_chks := chks, pcs_intervals := itvs\<rparr>"
    have "populatedChunkSeries_Next rd s = Some (Ok (True, ?s))"
      using False b l(3) f(3-5) by (subst populatedChunkSeries_Next.simps) (simp add: Let_def)
    then show ?thesis using False f by (intro exI [of _ ?s]) simp
  qed
qed

text \<open>The samples a client gets from the loaded chunks of a series.\<close>

definition yields :: "('c \<Rightarrow> memIterator outcome) \<Rightarrow> int \<Rightarrow> int \<Rightarrow> Labels \<times> Intervals \<times> 'c ChunkMeta list \<Rightarrow> sample list \<Rightarrow> bool" where
  "yields chunk_it mint maxt = (\<lambda>(lset, itvs, chks) xs. if chks = [] then xs = []
     else \<exists>it it'. newChunkSeriesIterator chunk_it chks itvs mint maxt = Ok it \<and> csi_drain chunk_it it [] = Some (Ok (xs, it')) \<and> csi_Err it' = None)"

definition answers :: "(Labels \<times> Intervals \<times> 'c ChunkMeta list) list \<Rightarrow> sample list list \<Rightarrow> (Labels \<times> sample list) list" where
  "answers es xss = map (\<lambda>((lset, _, _), xs). (lset, xs)) (filter (\<lambda>((_, _, chks), _). chks \<noteq> []) (zip es xss))"

lemma query_all_list:
  assumes "list_all2 (loads rd mint maxt) ks es" "list_all2 (yields chunk_it mint maxt) es xss"
    and "bcs_p (pcs_set (bss_set s)) = listPostings ks c" "bcs_err (pcs_set (bss_set s)) = None" "pcs_err (bss_set s) = None" "bss_err s = None"
    and "pcs_mint (bss_set s) = mint" "pcs_maxt (bss_set s) = maxt" "bss_mint s = mint" "bss_maxt s = maxt"
  shows "\<exists>s'. query_all chunk_it rd s res = Some (Ok (res @ answers es xss, s')) \<and> bss_err s' = None"
  using assms
proof (induction ks arbitrary: es xss s c res)
  case Nil
  then obtain pop where "populatedChunkSeries_Next rd (bss_set s) = Some (Ok (False, pop))" "pcs_err pop = None"
    using populated_Next_end [of "bss_set s" c rd] by auto
  then have "query_all chunk_it rd s res = Some (Ok (res, s\<lparr>bss_set := pop\<rparr>))"
    by (subst query_all.simps) (simp add: blockSeriesSet_Next_def Let_def)
  then show ?case using Nil by (simp add: answers_def)
next
  case (Cons k ks)
  obtain lset itvs chks es' xs xss' where es: "es = (lset, itvs, chks) # es'" "xss = xs # xss'"
    "loads rd mint maxt k (lset, itvs, chks)" "list_all2 (loads rd mint maxt) ks es'"
    "yields chunk_it mint maxt (lset, itvs, chks) xs" "list_all2 (yields chunk_it mint maxt) es' xss'"
    using Cons.prems(1,2) by (auto simp: list_all2_Cons1)
  from populated_Next_step [of "bss_set s" k ks c rd lset itvs chks] Cons.prems es(3) obtain pop where
    pop: "populatedChunkSeries_Next rd (bss_set s) = (if chks = [] then populatedChunkSeries_Next rd pop else Some (Ok (True, pop)))"
    "bcs_p (pcs_set pop) = listPostings ks k" "bcs_err (pcs_set pop) = None" "pcs_mint pop = mint" "pcs_maxt pop = maxt" "pcs_err pop = None"
    "chks \<noteq> [] \<longrightarrow> pcs_lset pop = lset \<and> pcs_chks pop = chks \<and> pcs_intervals pop = itvs" by auto
  show ?case
  proof (cases "chks = []")
    case True
    have "query_all chunk_it rd s res = query_all chunk_it rd (s\<lparr>bss_set := pop\<rparr>) res"
      using pop(1) True by (subst (1 2) query_all.simps) (simp add: blockSeriesSet_Next_def Let_def)
    moreover have "\<exists>s'. query_all chunk_it rd (s\<lparr>bss_set := pop\<rparr>) res = Some (Ok (res @ answers es' xss', s')) \<and> bss_err s' = None"
      by (rule Cons.IH [OF es(4,6)]) (use pop Cons.prems in simp_all)
    ultimately show ?thesis using True by (simp add: es(1,2) answers_def)
  next
    case False
    define sr where "sr = \<lparr>cs_labels = lset, cs_chunks = chks, cs_mint = mint, cs_maxt = maxt, cs_intervals = itvs\<rparr>"
    define s1 where "s1 = s\<lparr>bss_set := pop, bss_cur := Some sr\<rparr>"
    have n: "blockSeriesSet_Next rd s = Some (Ok (True, s1))"
      using pop(1,7) False Cons.prems by (simp add: blockSeriesSet_Next_def Let_def s1_def sr_def)
    obtain it it' where it: "newChunkSeriesIterator chunk_it chks itvs mint maxt = Ok it" "csi_drain chunk_it it [] = Some (Ok (xs, it'))" "csi_Err it' = None"
      using es(5) False by (auto simp: yields_def)
    have "query_all chunk_it rd s res = query_all chunk_it rd s1 (res @ [(lset, xs)])"
      using n it by (subst query_all.simps) (simp add: s1_def sr_def chunkSeries_Iterator_def)
    moreover have "\<exists>s'. query_all chunk_it rd s1 (res @ [(lset, xs)]) = Some (Ok ((res @ [(lset, xs)]) @ answers es' xss', s')) \<and> bss_err s' = None"
      by (rule Cons.IH [OF es(4,6)]) (use pop Cons.prems in \<open>simp_all add: s1_def\<close>)
    ultimately show ?thesis using False by (simp add: es(1,2) answers_def)
  qed
qed

section \<open>The chunks of a series of the head\<close>

definition head_all :: "Head \<Rightarrow> rangeReader" where
  "head_all h = head_range h MinInt64 MaxInt64"

text \<open>\<^verbatim>\<open>Index\<close>, \<^verbatim>\<open>Chunks\<close> and \<^verbatim>\<open>Tombstones\<close> of the head.\<close>

definition head_block :: "Head \<Rightarrow> safeChunk BlockReader" where
  "head_block h = \<lparr>br_Index = head_index h, br_Series = headIndexReader_Series h (head_all h), br_Chunk = headChunkReader_Chunk h (head_all h),
                   br_Tombstones = \<lambda>ref. Ok (Tombstones_Get (h_tombstones h) ref)\<rparr>"

lemma sorted_last: "sorted_wrt (<) (map fst ys) \<Longrightarrow> y \<in> set ys \<Longrightarrow> fst y \<le> fst (last ys)" for ys :: "sample list"
  by (cases ys rule: rev_cases) (auto simp: sorted_wrt_append less_imp_le)

lemma sorted_hd: "sorted_wrt (<) (map fst ys) \<Longrightarrow> y \<in> set ys \<Longrightarrow> fst (hd ys) \<le> fst y" for ys :: "sample list"
  by (cases ys) (auto simp: less_imp_le)

text \<open>The chunks dropped as a whole hold no sample that is kept.\<close>

lemma drop_deleted_delivers:
  assumes "list_all2 (delivers_chunk h r) metas yss" "sorted_wrt (<) (map fst (concat yss))"
  shows "\<exists>zss. list_all2 (delivers_chunk h r) (drop_deleted itvs metas) zss \<and> subseq zss yss \<and> kept itvs (concat zss) = kept itvs (concat yss)"
proof (cases "itvs = []")
  case True
  then show ?thesis using assms(1) by (auto simp: drop_deleted_def intro!: exI [of _ yss])
next
  case False
  show ?thesis using assms
  proof (induction metas yss rule: list_all2_induct)
    case Nil
    then show ?case by (simp add: drop_deleted_def)
  next
    case (Cons c metas ys yss)
    then have srt: "sorted_wrt (<) (map fst ys)" "sorted_wrt (<) (map fst (concat yss))" by (auto simp: sorted_wrt_append)
    with Cons.IH obtain zss where zss: "list_all2 (delivers_chunk h r) (drop_deleted itvs metas) zss" "subseq zss yss" "kept itvs (concat zss) = kept itvs (concat yss)" by blast
    show ?case
    proof (cases "isSubrange \<lparr>Mint = MinTime c, Maxt = MaxTime c\<rparr> itvs")
      case True
      then have "{MinTime c..MaxTime c} \<subseteq> covered itvs" using isSubrange_covered by fastforce
      moreover have "MinTime c = fst (hd ys)" "MaxTime c = fst (last ys)" using Cons.hyps(1) by (simp_all add: delivers_chunk_def)
      ultimately have "kept itvs ys = []" using sorted_hd [OF srt(1)] sorted_last [OF srt(1)] by (fastforce simp: kept_def filter_empty_conv)
      then show ?thesis using zss True False by (intro exI [of _ zss]) (auto simp: drop_deleted_def kept_def list_emb_Cons)
    next
      case keep: False
      then show ?thesis using zss Cons.hyps(1) False by (intro exI [of _ "ys # zss"]) (auto simp: drop_deleted_def kept_def)
    qed
  qed
qed

lemma dropWhile_delivers:
  assumes "list_all2 (delivers_chunk h r) metas yss" "sorted_wrt (<) (map fst (concat yss))"
  shows "\<exists>zss. list_all2 (delivers_chunk h r) (dropWhile (\<lambda>c. \<not> MaxTime c \<ge> mint) metas) zss \<and> suffix zss yss
    \<and> filter (\<lambda>x. mint \<le> fst x) (concat zss) = filter (\<lambda>x. mint \<le> fst x) (concat yss) \<and> (zss \<noteq> [] \<longrightarrow> mint \<le> fst (last (hd zss)))"
  using assms
proof (induction metas yss rule: list_all2_induct)
  case (Cons c metas ys yss)
  then have srt: "sorted_wrt (<) (map fst ys)" "sorted_wrt (<) (map fst (concat yss))" by (auto simp: sorted_wrt_append)
  have c: "MaxTime c = fst (last ys)" using Cons.hyps(1) by (simp add: delivers_chunk_def)
  show ?case
  proof (cases "mint \<le> MaxTime c")
    case True
    then show ?thesis using Cons.hyps c by (intro exI [of _ "ys # yss"]) simp
  next
    case False
    then have "filter (\<lambda>x. mint \<le> fst x) ys = []" using sorted_last [OF srt(1)] c by (fastforce simp: filter_empty_conv)
    moreover obtain zss where "list_all2 (delivers_chunk h r) (dropWhile (\<lambda>c. \<not> MaxTime c \<ge> mint) metas) zss" "suffix zss yss"
      "filter (\<lambda>x. mint \<le> fst x) (concat zss) = filter (\<lambda>x. mint \<le> fst x) (concat yss)" "zss \<noteq> [] \<longrightarrow> mint \<le> fst (last (hd zss))"
      using Cons.IH srt(2) by blast
    ultimately show ?thesis using False by (intro exI [of _ zss]) (auto intro: suffix_ConsI)
  qed
qed simp

lemma populate_delivers:
  assumes "list_all2 (delivers_chunk h (head_all h)) metas yss" "sorted_wrt (<) (map fst (concat yss))"
  shows "\<exists>chks zss. populate (head_block h) maxt metas = Ok (Inr chks) \<and> list_all2 (opens (safeChunk_Iterator h)) chks zss \<and> prefix zss yss
    \<and> filter (\<lambda>x. fst x \<le> maxt) (concat zss) = filter (\<lambda>x. fst x \<le> maxt) (concat yss)"
  using assms
proof (induction metas yss rule: list_all2_induct)
  case (Cons c metas ys yss)
  then have srt: "sorted_wrt (<) (map fst (ys @ concat yss))" "sorted_wrt (<) (map fst (concat yss))" by (auto simp: sorted_wrt_append)
  have c: "MinTime c = fst (hd ys)" "MaxTime c = fst (last ys)" "ys \<noteq> []" using Cons.hyps(1) by (simp_all add: delivers_chunk_def)
  obtain ch where ch: "br_Chunk (head_block h) (Meta_Ref c) = Ok ch"
    "opens (safeChunk_Iterator h) \<lparr>Meta_Ref = Meta_Ref c, MinTime = MinTime c, MaxTime = MaxTime c, cm_Chunk = ch\<rparr> ys"
    using Cons.hyps(1) by (auto simp: delivers_chunk_def head_block_def opens_def)
  obtain chks zss where zss: "populate (head_block h) maxt metas = Ok (Inr chks)" "list_all2 (opens (safeChunk_Iterator h)) chks zss" "prefix zss yss"
    "filter (\<lambda>x. fst x \<le> maxt) (concat zss) = filter (\<lambda>x. fst x \<le> maxt) (concat yss)" using Cons.IH srt(2) by blast
  show ?case
  proof (cases "MinTime c > maxt")
    case True
    have "fst (hd ys) \<le> fst x" if "x \<in> set (ys @ concat yss)" for x using sorted_hd [OF srt(1) that] c(3) by simp
    then have "filter (\<lambda>x. fst x \<le> maxt) (ys @ concat yss) = []" using True c(1) by (fastforce simp: filter_empty_conv)
    then show ?thesis using True by (intro exI [of _ "[]"]) simp
  next
    case False
    then show ?thesis using ch zss by (intro exI [of _ "\<lparr>Meta_Ref = Meta_Ref c, MinTime = MinTime c, MaxTime = MaxTime c, cm_Chunk = ch\<rparr> # chks"] exI [of _ "ys # zss"]) simp
  qed
qed simp

lemma subseq_concat: "subseq zss yss \<Longrightarrow> subseq (concat zss) (concat yss)"
  by (induction zss yss rule: list_emb.induct) (auto intro: list_emb_append_mono list_emb_append2)

lemma subseq_subset: "subseq xs ys \<Longrightarrow> set xs \<subseteq> set ys"
  by (induction xs ys rule: list_emb.induct) auto

lemma subseq_sorted: "subseq zs ys \<Longrightarrow> sorted_wrt (<) (map fst ys) \<Longrightarrow> sorted_wrt (<) (map fst zs)" for ys :: "sample list"
proof (induction zs ys rule: list_emb.induct)
  case (list_emb_Cons2 x y xs ys)
  have "set xs \<subseteq> set ys" by (rule subseq_subset [OF list_emb_Cons2(2)])
  with list_emb_Cons2 show ?case by auto
qed auto

text \<open>The tombstones of a series do not make a seek give up early in any of its chunks.\<close>

definition tombs_ok :: "int \<Rightarrow> Intervals \<Rightarrow> memSeries \<Rightarrow> bool" where
  "tombs_ok mint itvs s \<longleftrightarrow> wf_intervals itvs \<and> (\<forall>css ys. series_rep s css \<and> ys \<in> set css \<and> mint \<le> fst (last ys) \<longrightarrow> enters mint itvs ys)"

lemma head_series_yields:
  assumes "list_all2 (delivers_chunk h (head_all h)) metas yss" "sorted_wrt (<) (map fst (concat yss))" "wf_intervals itvs"
    and "\<forall>ys \<in> set yss. mint \<le> fst (last ys) \<longrightarrow> enters mint itvs ys"
  shows "\<exists>chks. populate (head_block h) maxt (dropWhile (\<lambda>c. \<not> MaxTime c \<ge> mint) (drop_deleted itvs metas)) = Ok (Inr chks)
    \<and> yields (safeChunk_Iterator h) mint maxt (lset, itvs, chks) (filter (\<lambda>x. mint \<le> fst x \<and> fst x \<le> maxt \<and> fst x \<notin> covered itvs) (concat yss))"
proof -
  obtain as where as: "list_all2 (delivers_chunk h (head_all h)) (drop_deleted itvs metas) as" "subseq as yss" "kept itvs (concat as) = kept itvs (concat yss)"
    using drop_deleted_delivers [OF assms(1,2)] by blast
  have as_sorted: "sorted_wrt (<) (map fst (concat as))" by (rule subseq_sorted [OF subseq_concat [OF as(2)] assms(2)])
  obtain bs where bs: "list_all2 (delivers_chunk h (head_all h)) (dropWhile (\<lambda>c. \<not> MaxTime c \<ge> mint) (drop_deleted itvs metas)) bs" "suffix bs as"
    "filter (\<lambda>x. mint \<le> fst x) (concat bs) = filter (\<lambda>x. mint \<le> fst x) (concat as)" "bs \<noteq> [] \<longrightarrow> mint \<le> fst (last (hd bs))"
    using dropWhile_delivers [OF as(1) as_sorted] by blast
  have bs_sorted: "sorted_wrt (<) (map fst (concat bs))" using subseq_sorted [OF subseq_concat as_sorted] bs(2) by (auto simp: suffix_def)
  obtain chks zss where zss: "populate (head_block h) maxt (dropWhile (\<lambda>c. \<not> MaxTime c \<ge> mint) (drop_deleted itvs metas)) = Ok (Inr chks)"
    "list_all2 (opens (safeChunk_Iterator h)) chks zss" "prefix zss bs" "filter (\<lambda>x. fst x \<le> maxt) (concat zss) = filter (\<lambda>x. fst x \<le> maxt) (concat bs)"
    using populate_delivers [OF bs(1) bs_sorted] by blast
  have zss_sorted: "sorted_wrt (<) (map fst (concat zss))" using subseq_sorted [OF subseq_concat bs_sorted] zss(3) by (auto simp: prefix_def)
  let ?in = "\<lambda>x. mint \<le> fst x \<and> fst x \<le> maxt \<and> fst x \<notin> covered itvs"
  have "filter ?in (concat zss) = filter (\<lambda>x. mint \<le> fst x \<and> fst x \<notin> covered itvs) (filter (\<lambda>x. fst x \<le> maxt) (concat zss))" by (simp add: conj_ac)
  also have "\<dots> = filter (\<lambda>x. fst x \<le> maxt \<and> fst x \<notin> covered itvs) (filter (\<lambda>x. mint \<le> fst x) (concat bs))" unfolding zss(4) by (simp add: conj_ac)
  also have "\<dots> = filter (\<lambda>x. mint \<le> fst x \<and> fst x \<le> maxt) (kept itvs (concat as))" unfolding bs(3) kept_def by (simp add: conj_ac)
  also have "\<dots> = filter ?in (concat yss)" unfolding as(3) by (simp add: kept_def conj_ac)
  finally have eq: "filter ?in (concat zss) = filter ?in (concat yss)" .
  show ?thesis
  proof (cases chks)
    case Nil
    then have "zss = []" using zss(2) by simp
    then show ?thesis using zss(1) Nil eq [symmetric] by (simp add: yields_def)
  next
    case (Cons c chks')
    then obtain z zss' where z: "zss = z # zss'" "opens (safeChunk_Iterator h) c z" using zss(2) by (auto simp: list_all2_Cons1)
    then have hd: "hd bs = z" "bs \<noteq> []" using zss(3) by (auto simp: prefix_def)
    then have mint: "mint \<le> fst (last z)" "z \<in> set bs" using bs(4) by (auto intro: list.set_sel(1))
    have "set bs \<subseteq> set as" using bs(2) by (auto simp: suffix_def)
    moreover have "set as \<subseteq> set yss" using as(2) by (rule subseq_subset)
    ultimately have "enters mint itvs z" using assms(4) mint by blast
    then have "\<exists>it it'. newChunkSeriesIterator (safeChunk_Iterator h) chks itvs mint maxt = Ok it
      \<and> csi_drain (safeChunk_Iterator h) it [] = Some (Ok (filter ?in (concat zss), it')) \<and> csi_Err it' = None"
      using chunk_series_drains [OF zss(2) _ zss_sorted assms(3), of mint maxt] Cons z mint by (simp add: opens_def)
    then show ?thesis using zss(1) Cons eq by (simp add: yields_def)
  qed
qed

text \<open>The references of all chunks of the head fit their fields.\<close>

definition refs_ok :: "Head \<Rightarrow> bool" where
  "refs_ok h \<longleftrightarrow> (\<forall>k p. getByID (h_series h) k = Some p \<longrightarrow> unat k < 2 ^ 40 \<and> 0 \<le> firstChunkID (h_heap h ! p)
     \<and> firstChunkID (h_heap h ! p) + int (length (ms_chunks (h_heap h ! p))) \<le> 2 ^ 24)"

text \<open>What a query in a time range promises to deliver of a series.\<close>

definition visible :: "Head \<Rightarrow> int \<Rightarrow> int \<Rightarrow> u64 \<Rightarrow> sample list \<Rightarrow> sample list" where
  "visible h mint maxt k xs =
     filter (\<lambda>x. mint \<le> fst x \<and> fst x \<le> maxt \<and> fst x \<notin> covered (Tombstones_Get (h_tombstones h) k)) xs"

lemma head_all_in_range:
  assumes "h_minTime h \<le> mint" "time_ok (fst x)" "mint \<le> fst x"
  shows "in_range (head_all h) x"
  using assms by (auto simp: in_range_def head_all_def head_range_def time_ok_def)

lemma answers_map:
  "answers (map e ks) (map f ks) = map (\<lambda>k. (fst (e k), f k)) (filter (\<lambda>k. snd (snd (e k)) \<noteq> []) ks)"
  by (induction ks) (auto simp: answers_def case_prod_unfold)

lemma head_series_answer:
  assumes inv: "head_inv sum64 h" and k: "getByID (h_series h) k = Some p" and refs: "refs_ok h" and mint: "h_minTime h \<le> mint"
    and tombs: "tombs_ok mint (Tombstones_Get (h_tombstones h) k) (h_heap h ! p)"
  shows "\<exists>e xs. loads (head_block h) mint maxt k e \<and> fst e = ms_lset (h_heap h ! p) \<and> samples_of sum64 h (ms_lset (h_heap h ! p)) = Some (Ok xs)
    \<and> yields (safeChunk_Iterator h) mint maxt e (visible h mint maxt k xs)"
proof -
  let ?s = "h_heap h ! p" and ?itvs = "Tombstones_Get (h_tombstones h) k" and ?r = "head_all h"
  obtain css where css: "series_rep ?s css" "samples_of sum64 h (ms_lset ?s) = Some (Ok (concat css))"
    using samples_of_Ok [OF inv k] by (auto simp: holds_samples_def)
  have len: "length (ms_chunks ?s) = length css" using css(1) by (auto simp: series_rep_def dest: list_all2_lengthD)
  have ref: "ms_ref ?s = k" by (rule head_inv_id(2) [OF inv k])
  have b: "unat k < 2 ^ 40" "0 \<le> firstChunkID ?s" "firstChunkID ?s + int (length css) \<le> 2 ^ 24" using refs k unfolding len [symmetric] refs_ok_def by blast+
  have "unat k \<le> unat (2 ^ 40 - 1 :: u64)" using b(1) by simp
  then have "ms_ref ?s \<le> 2 ^ 40 - 1" unfolding ref by (simp only: word_le_nat_alt)
  from series_metas_ok [of h ?s p css 0 ?r, OF _ refl css(1) this] k ref b(2,3) obtain metas yss where
    m: "series_metas ?r ?s 0 (ms_chunks ?s) = Ok metas" "list_all2 (delivers_chunk h ?r) metas yss"
      "filter (in_range ?r) (concat yss) = filter (in_range ?r) (concat css)" "subseq yss css" by auto
  have inc: "sorted_wrt (<) (map fst (concat css))" "\<forall>x \<in> set (concat css). time_ok (fst x)"
    using css(1) by (auto simp: series_rep_def increasing_def list_all_iff)
  have "\<forall>ys \<in> set yss. mint \<le> fst (last ys) \<longrightarrow> enters mint ?itvs ys" using tombs css(1) subseq_subset [OF m(4)] by (auto simp: tombs_ok_def)
  with head_series_yields [OF m(2) subseq_sorted [OF subseq_concat [OF m(4)] inc(1)], of ?itvs mint maxt "ms_lset ?s"] tombs obtain chks where
    chks: "populate (head_block h) maxt (dropWhile (\<lambda>c. \<not> MaxTime c \<ge> mint) (drop_deleted ?itvs metas)) = Ok (Inr chks)"
      "yields (safeChunk_Iterator h) mint maxt (ms_lset ?s, ?itvs, chks) (visible h mint maxt k (concat yss))" by (auto simp: tombs_ok_def visible_def)
  have vis: "visible h mint maxt k zs = visible h mint maxt k (filter (in_range ?r) zs)" if "set zs \<subseteq> set (concat css)" for zs
  proof -
    have "in_range ?r x" if "x \<in> set zs" "mint \<le> fst x" for x using that inc(2) \<open>set zs \<subseteq> set (concat css)\<close> by (intro head_all_in_range [OF mint]) blast+
    then show ?thesis unfolding visible_def filter_filter by (intro filter_cong) auto
  qed
  have "visible h mint maxt k (concat yss) = visible h mint maxt k (concat css)"
    using vis [of "concat yss"] vis [of "concat css"] m(3) subseq_subset [OF subseq_concat [OF m(4)]] by simp
  moreover have "loads (head_block h) mint maxt k (ms_lset ?s, ?itvs, chks)"
    using m(1) chks(1) k by (auto simp: loads_def head_block_def headIndexReader_Series_def Let_def)
  ultimately show ?thesis using chks(2) css(2) by (intro exI [of _ "(ms_lset ?s, ?itvs, chks)"] exI [of _ "concat css"]) simp
qed

section \<open>Properties\<close>


lemma tombs_ok_none: "tombs_ok mint [] s"
proof -
  have "enters mint [] ys" if ys: "series_rep s css" "ys \<in> set css" "mint \<le> fst (last ys)" for css ys
  proof -
    obtain j where "j < length css" "ys = css ! j" using ys(2) by (metis in_set_conv_nth)
    then have "ys \<noteq> []" using ys(1) by (auto simp: series_rep_def chunk_rep_def dest: list_all2_nthD2)
    then show ?thesis using ys(3) by (auto simp: enters_def kept_def)
  qed
  then show ?thesis by (auto simp: tombs_ok_def)
qed


end
