(* ===== verification/Merged_Query.thy ===== *)
theory Merged_Query
  imports Block_Query
begin

text \<open>
  Queries of several blocks in \<^verbatim>\<open>querier.go\<close>: the sets of series of the blocks are merged pairwise,
  and a series found in several blocks is chained from its parts. The interfaces \<^verbatim>\<open>Series\<close>,
  \<^verbatim>\<open>SeriesIterator\<close> and \<^verbatim>\<open>SeriesSet\<close> are datatypes of the types that implement them.
\<close>

section \<open>Chained series\<close>

datatype 'c Series = ChunkSeries "'c chunkSeries" | ChainedSeries "'c Series list"

datatype 'c SeriesIterator =
    ChunkSeriesIt "'c chunkSeriesIterator"
  | ChainedIt "'c Series list" nat "'c SeriesIterator"

fun Series_Labels :: "'c Series \<Rightarrow> Labels outcome" where
  "Series_Labels (ChunkSeries s) = Ok (cs_labels s)"
| "Series_Labels (ChainedSeries []) = Panic"
| "Series_Labels (ChainedSeries (s # ss)) = Series_Labels s"

fun Series_Iterator :: "('c \<Rightarrow> memIterator outcome) \<Rightarrow> 'c Series \<Rightarrow> 'c SeriesIterator outcome" where
  "Series_Iterator chunk_it (ChunkSeries s) = bind_outcome (chunkSeries_Iterator chunk_it s) (\<lambda>it. Ok (ChunkSeriesIt it))"
| "Series_Iterator chunk_it (ChainedSeries []) = Panic"
| "Series_Iterator chunk_it (ChainedSeries (s # ss)) = bind_outcome (Series_Iterator chunk_it s) (\<lambda>crt. Ok (ChainedIt (s # ss) 0 crt))"

fun SeriesIterator_At :: "'c SeriesIterator \<Rightarrow> sample outcome" where
  "SeriesIterator_At (ChunkSeriesIt it) = csi_At it"
| "SeriesIterator_At (ChainedIt ss i crt) = SeriesIterator_At crt"

fun SeriesIterator_Err :: "'c SeriesIterator \<Rightarrow> go_error option" where
  "SeriesIterator_Err (ChunkSeriesIt it) = csi_Err it"
| "SeriesIterator_Err (ChainedIt ss i crt) = SeriesIterator_Err crt"

partial_function (option) SeriesIterator_Next ::
  "('c \<Rightarrow> memIterator outcome) \<Rightarrow> 'c SeriesIterator \<Rightarrow> (bool \<times> 'c SeriesIterator) outcome option" where
  "SeriesIterator_Next chunk_it it =
     (case it of
        ChunkSeriesIt c \<Rightarrow> Some (bind_outcome (csi_Next chunk_it c) (\<lambda>(ok, c). Ok (ok, ChunkSeriesIt c)))
      | ChainedIt ss i crt \<Rightarrow>
          bind_call (SeriesIterator_Next chunk_it crt) (\<lambda>(ok, crt).
            if ok then Some (Ok (True, ChainedIt ss i crt))
            else if SeriesIterator_Err crt \<noteq> None then Some (Ok (False, ChainedIt ss i crt))
            else if i + 1 = length ss then Some (Ok (False, ChainedIt ss i crt))
            else if i + 1 > length ss then Some Panic
            else bind_call (Some (Series_Iterator chunk_it (ss ! (i + 1)))) (\<lambda>crt.
                   SeriesIterator_Next chunk_it (ChainedIt ss (i + 1) crt))))"

text \<open>
  \<^verbatim>\<open>Seek\<close> on an iterator freshly opened on a series, and the loop of a chained iterator over the
  series it has left: the position and the iterator of the first series in which the seek succeeds.
\<close>

fun seek_series :: "('c \<Rightarrow> memIterator outcome) \<Rightarrow> int \<Rightarrow> 'c Series \<Rightarrow> (bool \<times> 'c SeriesIterator) outcome"
  and seek_chain :: "('c \<Rightarrow> memIterator outcome) \<Rightarrow> int \<Rightarrow> nat \<Rightarrow> 'c Series list \<Rightarrow> (nat \<times> 'c SeriesIterator) option outcome" where
  "seek_series chunk_it t (ChunkSeries s) =
     bind_outcome (chunkSeries_Iterator chunk_it s) (\<lambda>it.
     bind_outcome (csi_Seek chunk_it t it) (\<lambda>(ok, it). Ok (ok, ChunkSeriesIt it)))"
| "seek_series chunk_it t (ChainedSeries ss) =
     (case ss of
        [] \<Rightarrow> Panic
      | s # _ \<Rightarrow>
          bind_outcome (Series_Iterator chunk_it s) (\<lambda>crt.
          bind_outcome (seek_chain chunk_it t 0 ss) (\<lambda>r. case r of
              None \<Rightarrow> Ok (False, ChainedIt ss 0 crt)
            | Some (i, crt) \<Rightarrow> Ok (True, ChainedIt ss i crt))))"
| "seek_chain chunk_it t i [] = Ok None"
| "seek_chain chunk_it t i (s # ss) =
     bind_outcome (seek_series chunk_it t s) (\<lambda>(ok, crt). if \<not> ok then seek_chain chunk_it t (i + 1) ss else Ok (Some (i, crt)))"

fun SeriesIterator_Seek :: "('c \<Rightarrow> memIterator outcome) \<Rightarrow> int \<Rightarrow> 'c SeriesIterator \<Rightarrow> (bool \<times> 'c SeriesIterator) outcome" where
  "SeriesIterator_Seek chunk_it t (ChunkSeriesIt it) = bind_outcome (csi_Seek chunk_it t it) (\<lambda>(ok, it). Ok (ok, ChunkSeriesIt it))"
| "SeriesIterator_Seek chunk_it t (ChainedIt ss i crt) =
     (if i > length ss then Panic
      else bind_outcome (seek_chain chunk_it t i (drop i ss)) (\<lambda>r. case r of
              None \<Rightarrow> Ok (False, ChainedIt ss i crt)
            | Some (i, crt) \<Rightarrow> Ok (True, ChainedIt ss i crt)))"

section \<open>Merged sets of series\<close>

text \<open>
  An \<^verbatim>\<open>errSeriesSet\<close>, the set of a block with its readers, or a \<^verbatim>\<open>mergedSeriesSet\<close> with its
  fields \<^verbatim>\<open>a\<close>, \<^verbatim>\<open>b\<close>, \<^verbatim>\<open>cur\<close>, \<^verbatim>\<open>adone\<close> and \<^verbatim>\<open>bdone\<close>. The element of a set is nil before the first \<^verbatim>\<open>Next\<close>.
\<close>

datatype 'c SeriesSet =
    ErrSet "go_error option"
  | BlockSet "'c BlockReader" "'c blockSeriesSet"
  | MergedSet "'c SeriesSet" "'c SeriesSet" "'c Series option" bool bool

definition EmptySeriesSet :: "'c SeriesSet" where
  "EmptySeriesSet = ErrSet None"

fun SeriesSet_At :: "'c SeriesSet \<Rightarrow> 'c Series option" where
  "SeriesSet_At (ErrSet e) = None"
| "SeriesSet_At (BlockSet rd s) = map_option ChunkSeries (bss_cur s)"
| "SeriesSet_At (MergedSet a b crt adone bdone) = crt"

fun SeriesSet_Err :: "'c SeriesSet \<Rightarrow> go_error option" where
  "SeriesSet_Err (ErrSet e) = e"
| "SeriesSet_Err (BlockSet rd s) = bss_err s"
| "SeriesSet_Err (MergedSet a b crt adone bdone) = (if SeriesSet_Err a \<noteq> None then SeriesSet_Err a else SeriesSet_Err b)"

definition At_Labels :: "'c SeriesSet \<Rightarrow> Labels outcome" where
  "At_Labels s = (case SeriesSet_At s of None \<Rightarrow> Panic | Some sr \<Rightarrow> Series_Labels sr)"

definition merged_compare :: "'c SeriesSet \<Rightarrow> 'c SeriesSet \<Rightarrow> bool \<Rightarrow> bool \<Rightarrow> int outcome" where
  "merged_compare a b adone bdone =
     (if adone then Ok 1
      else if bdone then Ok (-1)
      else bind_outcome (At_Labels a) (\<lambda>la. bind_outcome (At_Labels b) (\<lambda>lb. Ok (Compare la lb))))"

text \<open>A nil element put into a chained series panics as soon as its labels are asked for; \<^verbatim>\<open>compare\<close> has asked already.\<close>

fun SeriesSet_Next :: "'c SeriesSet \<Rightarrow> (bool \<times> 'c SeriesSet) outcome option" where
  "SeriesSet_Next (ErrSet e) = Some (Ok (False, ErrSet e))"
| "SeriesSet_Next (BlockSet rd s) = bind_call (blockSeriesSet_Next rd s) (\<lambda>(ok, s). Some (Ok (ok, BlockSet rd s)))"
| "SeriesSet_Next (MergedSet a b crt adone bdone) =
     (if adone \<and> bdone \<or> SeriesSet_Err (MergedSet a b crt adone bdone) \<noteq> None then Some (Ok (False, MergedSet a b crt adone bdone))
      else bind_call (Some (merged_compare a b adone bdone)) (\<lambda>d.
        if d > 0 then
          bind_call (SeriesSet_Next b) (\<lambda>(ok, b'). Some (Ok (True, MergedSet a b' (SeriesSet_At b) adone (\<not> ok))))
        else if d < 0 then
          bind_call (SeriesSet_Next a) (\<lambda>(ok, a'). Some (Ok (True, MergedSet a' b (SeriesSet_At a) (\<not> ok) bdone)))
        else
          bind_call (SeriesSet_Next a) (\<lambda>(oka, a').
          bind_call (SeriesSet_Next b) (\<lambda>(okb, b').
            Some (Ok (True, MergedSet a' b' (Some (ChainedSeries [the (SeriesSet_At a), the (SeriesSet_At b)])) (\<not> oka) (\<not> okb)))))))"

definition newMergedSeriesSet :: "'c SeriesSet \<Rightarrow> 'c SeriesSet \<Rightarrow> 'c SeriesSet outcome option" where
  "newMergedSeriesSet a b =
     bind_call (SeriesSet_Next a) (\<lambda>(oka, a).
     bind_call (SeriesSet_Next b) (\<lambda>(okb, b).
       Some (Ok (MergedSet a b None (\<not> oka) (\<not> okb)))))"

section \<open>The querier over blocks\<close>

lemma half_less: "qs \<noteq> [] \<Longrightarrow> length qs \<noteq> Suc 0 \<Longrightarrow> length qs - length qs div 2 < length qs"
  by (cases qs) auto

text \<open>A \<^verbatim>\<open>blockQuerier\<close>: the readers of a block and a time range.\<close>

record 'c blockQuerier =
  bq_block :: "'c BlockReader"
  bq_mint :: int
  bq_maxt :: int

definition Querier_Select :: "'c blockQuerier \<Rightarrow> Matcher list \<Rightarrow> 'c SeriesSet outcome option" where
  "Querier_Select q ms =
     bind_call (blockQuerier_Select (bq_block q) (bq_mint q) (bq_maxt q) ms) (\<lambda>s. Some (Ok (BlockSet (bq_block q) s)))"

function querier_sel :: "'c blockQuerier list \<Rightarrow> Matcher list \<Rightarrow> 'c SeriesSet outcome option" where
  "querier_sel qs ms =
     (if length qs = 0 then Some (Ok EmptySeriesSet)
      else if length qs = 1 then Querier_Select (qs ! 0) ms
      else
        let l = length qs div 2 in
        bind_call (querier_sel (take l qs) ms) (\<lambda>a.
        bind_call (querier_sel (drop l qs) ms) (\<lambda>b.
          newMergedSeriesSet a b)))"
  by pat_completeness auto
termination by (relation "measure (length \<circ> fst)") (auto simp: half_less)

declare querier_sel.simps [simp del]

text \<open>The label values of a block come as tuples of length one, of which the loop takes the strings.\<close>

definition blockQuerier_LabelValues :: "'c blockQuerier \<Rightarrow> gostring \<Rightarrow> gostring list outcome" where
  "blockQuerier_LabelValues q name = bind_outcome (ix_LabelValues (br_Index (bq_block q)) name) (\<lambda>tpls. Ok (map (\<lambda>i. tpls ! i) [0..<length tpls]))"

function querier_lvals :: "'c blockQuerier list \<Rightarrow> gostring \<Rightarrow> gostring list outcome" where
  "querier_lvals qs n =
     (if length qs = 0 then Ok []
      else if length qs = 1 then blockQuerier_LabelValues (qs ! 0) n
      else
        let l = length qs div 2 in
        bind_outcome (querier_lvals (take l qs) n) (\<lambda>s1.
        bind_outcome (querier_lvals (drop l qs) n) (\<lambda>s2.
          Ok (mergeStrings s1 s2))))"
  by pat_completeness auto
termination by (relation "measure (length \<circ> fst)") (auto simp: half_less)

declare querier_lvals.simps [simp del]

section \<open>A client's loop\<close>

text \<open>
  \<^verbatim>\<open>for s.Next() { x := s.At() }\<close> over a set of series or an iterator; \<open>get\<close> is what the client does with
  an element.
\<close>

partial_function (option) collect ::
  "('s \<Rightarrow> (bool \<times> 's) outcome option) \<Rightarrow> ('s \<Rightarrow> 'x outcome option) \<Rightarrow> 's \<Rightarrow> 'x list \<Rightarrow> ('x list \<times> 's) outcome option" where
  "collect nxt get s res =
     bind_call (nxt s) (\<lambda>(ok, s).
       if ok then bind_call (get s) (\<lambda>x. collect nxt get s (res @ [x])) else Some (Ok (res, s)))"

text \<open>What the client does with a series: it opens an iterator and takes all samples.\<close>

definition read_series :: "('c \<Rightarrow> memIterator outcome) \<Rightarrow> 'c Series \<Rightarrow> (Labels \<times> sample list) outcome option" where
  "read_series chunk_it sr =
     bind_call (Some (Series_Labels sr)) (\<lambda>ls.
     bind_call (Some (Series_Iterator chunk_it sr)) (\<lambda>it.
     bind_call (collect (SeriesIterator_Next chunk_it) (\<lambda>it. Some (SeriesIterator_At it)) it []) (\<lambda>(xs, it).
       case SeriesIterator_Err it of Some e \<Rightarrow> Some (Fail e) | None \<Rightarrow> Some (Ok (ls, xs)))))"

definition read_At :: "('c \<Rightarrow> memIterator outcome) \<Rightarrow> 'c SeriesSet \<Rightarrow> (Labels \<times> sample list) outcome option" where
  "read_At chunk_it s = (case SeriesSet_At s of None \<Rightarrow> Some Panic | Some sr \<Rightarrow> read_series chunk_it sr)"

fun steps :: "('s \<Rightarrow> (bool \<times> 's) outcome option) \<Rightarrow> ('s \<Rightarrow> 'x outcome option) \<Rightarrow> 's \<Rightarrow> 'x list \<Rightarrow> 's \<Rightarrow> bool" where
  "steps nxt get s [] s' = (nxt s = Some (Ok (False, s')))"
| "steps nxt get s (x # xs) s' = (\<exists>s1. nxt s = Some (Ok (True, s1)) \<and> get s1 = Some (Ok x) \<and> steps nxt get s1 xs s')"

abbreviation iter_steps :: "('c \<Rightarrow> memIterator outcome) \<Rightarrow> 'c SeriesIterator \<Rightarrow> sample list \<Rightarrow> 'c SeriesIterator \<Rightarrow> bool" where
  "iter_steps chunk_it \<equiv> steps (SeriesIterator_Next chunk_it) (\<lambda>it. Some (SeriesIterator_At it))"

lemma bind_call_SomeE:
  assumes "bind_call c f = Some (Ok y)"
  obtains x where "c = Some (Ok x)" "f x = Some (Ok y)"
  using assms by (auto simp: bind_call_def split: bind_splits outcome.splits)

lemma collect_of_steps: "steps nxt get s xs s' \<Longrightarrow> collect nxt get s res = Some (Ok (res @ xs, s'))"
  by (induction xs arbitrary: s res) (auto simp: collect.simps)

lemma steps_of_collect:
  fixes nxt :: "'s \<Rightarrow> (bool \<times> 's) outcome option" and get :: "'s \<Rightarrow> 'x outcome option"
  assumes "collect nxt get s res = Some r"
  shows "r = Ok (ys, s') \<longrightarrow> (\<exists>xs. ys = res @ xs \<and> steps nxt get s xs s')"
  using assms
proof (rule collect.raw_induct [where P = "\<lambda>nxt get s res r. r = Ok (ys, s') \<longrightarrow> (\<exists>xs. ys = res @ xs \<and> steps nxt get s xs s')", rotated], intro impI)
  fix rec and nxt :: "'s \<Rightarrow> (bool \<times> 's) outcome option" and get :: "'s \<Rightarrow> 'x outcome option" and s res r
  assume IH: "\<And>nxt get s res r. rec nxt get s res = Some r \<Longrightarrow> r = Ok (ys, s') \<longrightarrow> (\<exists>xs. ys = res @ xs \<and> steps nxt get s xs s')"
    and eq: "bind_call (nxt s) (\<lambda>(ok, s). if ok then bind_call (get s) (\<lambda>x. rec nxt get s (res @ [x])) else Some (Ok (res, s))) = Some r"
    and r: "r = Ok (ys, s')"
  obtain ok s1 where n: "nxt s = Some (Ok (ok, s1))"
    "(if ok then bind_call (get s1) (\<lambda>x. rec nxt get s1 (res @ [x])) else Some (Ok (res, s1))) = Some (Ok (ys, s'))"
    using eq r by (auto elim: bind_call_SomeE)
  show "\<exists>xs. ys = res @ xs \<and> steps nxt get s xs s'"
  proof (cases ok)
    case True
    with n(2) obtain x where x: "get s1 = Some (Ok x)" "rec nxt get s1 (res @ [x]) = Some (Ok (ys, s'))" by (auto elim: bind_call_SomeE)
    then obtain xs where "ys = (res @ [x]) @ xs" "steps nxt get s1 xs s'" using IH [OF x(2)] by blast
    then show ?thesis using n(1) x(1) True by (intro exI [of _ "x # xs"]) simp
  next
    case False
    then show ?thesis using n by (intro exI [of _ "[]"]) simp
  qed
qed

lemma collect_steps: "collect nxt get s res = Some (Ok (ys, s')) \<longleftrightarrow> (\<exists>xs. ys = res @ xs \<and> steps nxt get s xs s')"
  using steps_of_collect collect_of_steps by fastforce

text \<open>The loops of a client of one block are instances of it.\<close>

lemma collect_of_csi_drain:
  fixes chunk_it :: "'c \<Rightarrow> memIterator outcome"
  assumes "csi_drain chunk_it it res = Some r"
  shows "r = Ok (ys, it') \<longrightarrow> collect (SeriesIterator_Next chunk_it) (\<lambda>it. Some (SeriesIterator_At it)) (ChunkSeriesIt it) res = Some (Ok (ys, ChunkSeriesIt it'))"
  using assms
proof (rule csi_drain.raw_induct [where P = "\<lambda>chunk_it it res r. r = Ok (ys, it') \<longrightarrow>
    collect (SeriesIterator_Next chunk_it) (\<lambda>it. Some (SeriesIterator_At it)) (ChunkSeriesIt it) res = Some (Ok (ys, ChunkSeriesIt it'))", rotated], intro impI)
  fix rec and chunk_it :: "'c \<Rightarrow> memIterator outcome" and it res r
  assume IH: "\<And>chunk_it it res r. rec chunk_it it res = Some r \<Longrightarrow> r = Ok (ys, it') \<longrightarrow>
      collect (SeriesIterator_Next chunk_it) (\<lambda>it. Some (SeriesIterator_At it)) (ChunkSeriesIt it) res = Some (Ok (ys, ChunkSeriesIt it'))"
    and eq: "(case csi_Next chunk_it it of
        Ok (ok, it) \<Rightarrow> if ok then (case csi_At it of Ok x \<Rightarrow> rec chunk_it it (res @ [x]) | Fail e \<Rightarrow> Some (Fail e) | Panic \<Rightarrow> Some Panic) else Some (Ok (res, it))
      | Fail e \<Rightarrow> Some (Fail e) | Panic \<Rightarrow> Some Panic) = Some r"
    and r: "r = Ok (ys, it')"
  from eq r obtain ok it1 where n: "csi_Next chunk_it it = Ok (ok, it1)" by (auto split: outcome.splits)
  show "collect (SeriesIterator_Next chunk_it) (\<lambda>it. Some (SeriesIterator_At it)) (ChunkSeriesIt it) res = Some (Ok (ys, ChunkSeriesIt it'))"
    using eq r n IH [of chunk_it it1 _ r] by (subst collect.simps, subst SeriesIterator_Next.simps) (auto split: outcome.splits if_splits)
qed

lemma collect_of_query_all:
  fixes chunk_it :: "'c \<Rightarrow> memIterator outcome"
  assumes "query_all chunk_it rd s res = Some r"
  shows "r = Ok (ys, s') \<longrightarrow> collect SeriesSet_Next (read_At chunk_it) (BlockSet rd s) res = Some (Ok (ys, BlockSet rd s'))"
  using assms
proof (rule query_all.raw_induct [where P = "\<lambda>chunk_it rd s res r. r = Ok (ys, s') \<longrightarrow>
    collect SeriesSet_Next (read_At chunk_it) (BlockSet rd s) res = Some (Ok (ys, BlockSet rd s'))", rotated], intro impI)
  fix rec and chunk_it :: "'c \<Rightarrow> memIterator outcome" and rd s res r
  assume IH: "\<And>chunk_it rd s res r. rec chunk_it rd s res = Some r \<Longrightarrow> r = Ok (ys, s') \<longrightarrow>
      collect SeriesSet_Next (read_At chunk_it) (BlockSet rd s) res = Some (Ok (ys, BlockSet rd s'))"
    and eq: "bind_call (blockSeriesSet_Next rd s) (\<lambda>(ok, s).
       if \<not> ok then Some (Ok (res, s))
       else case bss_cur s of
         None \<Rightarrow> Some Panic
       | Some sr \<Rightarrow>
           (case chunkSeries_Iterator chunk_it sr of
              Ok it \<Rightarrow>
                bind_call (csi_drain chunk_it it []) (\<lambda>(xs, it).
                  case csi_Err it of
                    Some e \<Rightarrow> Some (Fail e)
                  | None \<Rightarrow> rec chunk_it rd s (res @ [(cs_labels sr, xs)]))
            | Fail e \<Rightarrow> Some (Fail e)
            | Panic \<Rightarrow> Some Panic)) = Some r"
    and r: "r = Ok (ys, s')"
  let ?goal = "collect SeriesSet_Next (read_At chunk_it) (BlockSet rd s) res = Some (Ok (ys, BlockSet rd s'))"
  from eq r obtain ok s1 where n: "blockSeriesSet_Next rd s = Some (Ok (ok, s1))" by (auto elim: bind_call_SomeE)
  show ?goal
  proof (cases ok)
    case True
    with eq r n obtain sr it xs it' where sr: "bss_cur s1 = Some sr" "chunkSeries_Iterator chunk_it sr = Ok it" "csi_drain chunk_it it [] = Some (Ok (xs, it'))"
      "csi_Err it' = None" "rec chunk_it rd s1 (res @ [(cs_labels sr, xs)]) = Some r"
      by (auto split: option.splits outcome.splits elim!: bind_call_SomeE)
    have "read_At chunk_it (BlockSet rd s1) = Some (Ok (cs_labels sr, xs))"
      using sr collect_of_csi_drain [OF sr(3)] by (simp add: read_At_def read_series_def)
    then show ?thesis using IH [OF sr(5)] r n True by (subst collect.simps) simp
  next
    case False
    then show ?thesis using eq r n by (subst collect.simps) simp
  qed
qed

section \<open>A chained series delivers the parts one after the other\<close>

lemma chained_steps:
  assumes "list_all2 (\<lambda>sr xs. \<exists>it it'. Series_Iterator chunk_it sr = Ok it \<and> iter_steps chunk_it it xs it' \<and> SeriesIterator_Err it' = None)
      (drop (Suc i) ss) xss"
    and "iter_steps chunk_it crt xs crt'" "SeriesIterator_Err crt' = None" "i < length ss"
  shows "\<exists>it'. iter_steps chunk_it (ChainedIt ss i crt) (xs @ concat xss) it' \<and> SeriesIterator_Err it' = None"
  using assms
proof (induction xss arbitrary: i crt crt' xs rule: list.induct)
  case Nil
  then have i: "i + 1 = length ss" using list_all2_lengthD [OF Nil.prems(1)] by simp
  show ?case using Nil.prems(2)
  proof (induction xs arbitrary: crt)
    case Nil
    then show ?case using i \<open>SeriesIterator_Err crt' = None\<close> by (auto simp: SeriesIterator_Next.simps [of _ "ChainedIt ss i _"])
  next
    case (Cons x xs)
    then show ?case using i by (fastforce simp: SeriesIterator_Next.simps [of _ "ChainedIt ss i _"])
  qed
next
  case (Cons ys xss)
  then have i: "Suc i < length ss" using list_all2_lengthD by fastforce
  then have d: "drop (Suc i) ss = ss ! Suc i # drop (Suc (Suc i)) ss" by (simp add: Cons_nth_drop_Suc)
  obtain it it1 where it: "Series_Iterator chunk_it (ss ! Suc i) = Ok it" "iter_steps chunk_it it ys it1" "SeriesIterator_Err it1 = None"
    using Cons.prems(1) unfolding d by auto
  obtain it' where rest: "iter_steps chunk_it (ChainedIt ss (Suc i) it) (ys @ concat xss) it'" "SeriesIterator_Err it' = None"
    using Cons.IH [of "Suc i" it ys it1] Cons.prems(1) it i unfolding d by auto
  show ?case using Cons.prems(2)
  proof (induction xs arbitrary: crt)
    case Nil
    have "SeriesIterator_Next chunk_it (ChainedIt ss i crt) = SeriesIterator_Next chunk_it (ChainedIt ss (Suc i) it)"
      using Nil i it(1) Cons.prems(3) by (simp add: SeriesIterator_Next.simps [of _ "ChainedIt ss i _"])
    then have "iter_steps chunk_it (ChainedIt ss i crt) zs it'"
      if "iter_steps chunk_it (ChainedIt ss (Suc i) it) zs it'" for zs
      using that by (cases zs) simp_all
    then show ?case using rest by auto
  next
    case (Cons x xs)
    then show ?case by (fastforce simp: SeriesIterator_Next.simps [of _ "ChainedIt ss i _"])
  qed
qed

lemma read_chained:
  assumes "read_series chunk_it a = Some (Ok (ls, xs))" "read_series chunk_it b = Some (Ok (ls', ys))"
  shows "read_series chunk_it (ChainedSeries [a, b]) = Some (Ok (ls, xs @ ys))"
proof -
  obtain it it' where a: "Series_Labels a = Ok ls" "Series_Iterator chunk_it a = Ok it"
    "iter_steps chunk_it it xs it'" "SeriesIterator_Err it' = None"
    using assms(1) by (auto simp: read_series_def collect_steps split: option.splits elim!: bind_call_SomeE)
  obtain it1 it1' where b: "Series_Iterator chunk_it b = Ok it1"
    "iter_steps chunk_it it1 ys it1'" "SeriesIterator_Err it1' = None"
    using assms(2) by (auto simp: read_series_def collect_steps split: option.splits elim!: bind_call_SomeE)
  from chained_steps [of chunk_it 0 "[a, b]" "[ys]", OF _ a(3,4)] b obtain it2 where
    "iter_steps chunk_it (ChainedIt [a, b] 0 it) (xs @ ys) it2" "SeriesIterator_Err it2 = None" by auto
  then show ?thesis using a(1,2) by (auto simp: read_series_def collect_of_steps)
qed

text \<open>
  A seek does not ask a part that it leaves for its error: whatever made the seek fail there, the next part
  is tried.
\<close>

lemma seek_hides_error:
  assumes "Series_Iterator chunk_it a = Ok it" "seek_series chunk_it t a = Ok (False, ita)" "SeriesIterator_Err ita = Some e"
    and "seek_series chunk_it t b = Ok (True, itb)"
  shows "seek_series chunk_it t (ChainedSeries [a, b]) = Ok (True, ChainedIt [a, b] 1 itb)
    \<and> SeriesIterator_Err (ChainedIt [a, b] 1 itb) = SeriesIterator_Err itb"
  using assms by simp

section \<open>A merged set delivers the merged answers\<close>

text \<open>
  The part of the contract of \<^verbatim>\<open>SeriesSet\<close> that a merge relies on: an error, once reported, stays. A client
  that sees no error at the end has not missed one on the way.
\<close>

locale series_set =
  fixes nxt :: "'s \<Rightarrow> (bool \<times> 's) outcome option" and err :: "'s \<Rightarrow> go_error option"
  assumes err_stays: "nxt s = Some (Ok (ok, s')) \<Longrightarrow> err s' = None \<Longrightarrow> err s = None"
begin

lemma steps_err: "steps nxt get s xs s' \<Longrightarrow> err s' = None \<Longrightarrow> err s = None"
  by (induction xs arbitrary: s) (auto dest: err_stays)

lemma collect_err: "collect nxt get s res = Some (Ok (ys, s')) \<Longrightarrow> err s' = None \<Longrightarrow> err s = None"
  by (auto simp: collect_steps dest: steps_err)

end

interpretation block_set: series_set "blockSeriesSet_Next rd" bss_err
  by unfold_locales (auto simp: blockSeriesSet_Next_def Let_def split: if_splits option.splits elim!: bind_call_SomeE)

lemma SeriesSet_err_stays: "SeriesSet_Next s = Some (Ok (ok, s')) \<Longrightarrow> SeriesSet_Err s' = None \<Longrightarrow> SeriesSet_Err s = None"
proof (induction s arbitrary: ok s')
  case (BlockSet rd s)
  then show ?case using block_set.err_stays by (auto elim!: bind_call_SomeE)
next
  case (MergedSet a b c ad bd)
  then show ?case by (auto split: if_splits elim!: bind_call_SomeE)
qed auto

interpretation any_set: series_set SeriesSet_Next SeriesSet_Err
  by unfold_locales (rule SeriesSet_err_stays)

definition set_reads :: "('c \<Rightarrow> memIterator outcome) \<Rightarrow> 'c SeriesSet \<Rightarrow> (Labels \<times> sample list) list \<Rightarrow> bool" where
  "set_reads chunk_it s res \<longleftrightarrow> (\<exists>s'. steps SeriesSet_Next (read_At chunk_it) s res s' \<and> SeriesSet_Err s' = None)"

fun merge_answers :: "(Labels \<times> sample list) list \<Rightarrow> (Labels \<times> sample list) list \<Rightarrow> (Labels \<times> sample list) list" where
  "merge_answers (a # as) (b # bs) =
     (let d = Compare (fst a) (fst b) in
      if d > 0 then b # merge_answers (a # as) bs
      else if d < 0 then a # merge_answers as (b # bs)
      else (fst a, snd a @ snd b) # merge_answers as bs)"
| "merge_answers as [] = as"
| "merge_answers [] bs = bs"

text \<open>A set with one element of look-ahead, as a merged set holds it.\<close>

definition at_answer :: "('c \<Rightarrow> memIterator outcome) \<Rightarrow> 'c SeriesSet \<Rightarrow> bool \<Rightarrow> (Labels \<times> sample list) list \<Rightarrow> bool" where
  "at_answer chunk_it s fin res \<longleftrightarrow> SeriesSet_Err s = None
     \<and> (case res of [] \<Rightarrow> fin | x # res \<Rightarrow> \<not> fin \<and> read_At chunk_it s = Some (Ok x) \<and> set_reads chunk_it s res)"

lemma set_reads_Next:
  assumes "set_reads chunk_it s res"
  obtains ok s' where "SeriesSet_Next s = Some (Ok (ok, s'))" "at_answer chunk_it s' (\<not> ok) res"
proof -
  obtain s2 where s2: "steps SeriesSet_Next (read_At chunk_it) s res s2" "SeriesSet_Err s2 = None" using assms by (auto simp: set_reads_def)
  show ?thesis
  proof (cases res)
    case Nil
    then show ?thesis using s2 by (intro that [of False s2]) (auto simp: at_answer_def)
  next
    case (Cons x res')
    then obtain s1 where s1: "SeriesSet_Next s = Some (Ok (True, s1))" "read_At chunk_it s1 = Some (Ok x)" "steps SeriesSet_Next (read_At chunk_it) s1 res' s2"
      using s2(1) by auto
    then show ?thesis using s2(2) Cons any_set.steps_err [OF s1(3) s2(2)] by (intro that [of True s1]) (auto simp: at_answer_def set_reads_def)
  qed
qed

lemma read_AtE:
  assumes "read_At chunk_it s = Some (Ok (ls, xs))"
  obtains sr where "SeriesSet_At s = Some sr" "Series_Labels sr = Ok ls" "read_series chunk_it sr = Some (Ok (ls, xs))"
  using assms by (auto simp: read_At_def read_series_def split: option.splits elim!: bind_call_SomeE)

lemma read_At_Labels: "read_At chunk_it s = Some (Ok x) \<Longrightarrow> At_Labels s = Ok (fst x)"
  by (cases x) (auto simp: At_Labels_def elim!: read_AtE)

lemma set_reads_step:
  assumes "SeriesSet_Next s = Some (Ok (True, s'))" "read_At chunk_it s' = Some (Ok x)" "set_reads chunk_it s' res"
  shows "set_reads chunk_it s (x # res)"
  using assms by (auto simp: set_reads_def)

lemma read_At_merged [simp]: "read_At chunk_it (MergedSet a b (SeriesSet_At s) ad bd) = read_At chunk_it s"
  by (simp add: read_At_def)

lemma merged_reads_a:
  assumes "at_answer chunk_it a ad ra" "at_answer chunk_it b bd []"
  shows "set_reads chunk_it (MergedSet a b crt ad bd) ra"
  using assms
proof (induction ra arbitrary: a ad crt)
  case Nil
  then show ?case by (auto simp: at_answer_def set_reads_def)
next
  case (Cons x ra)
  then have a: "SeriesSet_Err a = None" "\<not> ad" "read_At chunk_it a = Some (Ok x)" "set_reads chunk_it a ra" "SeriesSet_Err b = None" bd by (auto simp: at_answer_def)
  obtain ok a' where n: "SeriesSet_Next a = Some (Ok (ok, a'))" "at_answer chunk_it a' (\<not> ok) ra" by (rule set_reads_Next [OF a(4)])
  show ?case using set_reads_step [OF _ _ Cons.IH [OF n(2) Cons.prems(2)]] a n(1) by (simp add: merged_compare_def)
qed

lemma merged_reads_b:
  assumes "at_answer chunk_it a ad []" "at_answer chunk_it b bd rb"
  shows "set_reads chunk_it (MergedSet a b crt ad bd) rb"
  using assms
proof (induction rb arbitrary: b bd crt)
  case Nil
  then show ?case by (auto simp: at_answer_def set_reads_def)
next
  case (Cons x rb)
  then have b: "SeriesSet_Err b = None" "\<not> bd" "read_At chunk_it b = Some (Ok x)" "set_reads chunk_it b rb" "SeriesSet_Err a = None" ad by (auto simp: at_answer_def)
  obtain ok b' where n: "SeriesSet_Next b = Some (Ok (ok, b'))" "at_answer chunk_it b' (\<not> ok) rb" by (rule set_reads_Next [OF b(4)])
  show ?case using set_reads_step [OF _ _ Cons.IH [OF Cons.prems(1) n(2)]] b n(1) by (simp add: merged_compare_def)
qed

lemma merged_reads:
  assumes "at_answer chunk_it a ad ra" "at_answer chunk_it b bd rb"
  shows "set_reads chunk_it (MergedSet a b crt ad bd) (merge_answers ra rb)"
  using assms
proof (induction ra rb arbitrary: a ad b bd crt rule: merge_answers.induct)
  case (1 x as y bs)
  let ?d = "Compare (fst x) (fst y)"
  have a: "SeriesSet_Err a = None" "\<not> ad" "read_At chunk_it a = Some (Ok x)" "set_reads chunk_it a as" using "1.prems"(1) by (auto simp: at_answer_def)
  have b: "SeriesSet_Err b = None" "\<not> bd" "read_At chunk_it b = Some (Ok y)" "set_reads chunk_it b bs" using "1.prems"(2) by (auto simp: at_answer_def)
  have c: "merged_compare a b ad bd = Ok ?d" using a b by (simp add: merged_compare_def read_At_Labels)
  obtain oka a' where na: "SeriesSet_Next a = Some (Ok (oka, a'))" "at_answer chunk_it a' (\<not> oka) as" by (rule set_reads_Next [OF a(4)])
  obtain okb b' where nb: "SeriesSet_Next b = Some (Ok (okb, b'))" "at_answer chunk_it b' (\<not> okb) bs" by (rule set_reads_Next [OF b(4)])
  consider "?d > 0" | "?d < 0" | "?d = 0" by linarith
  then show ?case
  proof cases
    case gt: 1
    show ?thesis using set_reads_step [OF _ _ "1.IH"(1) [OF refl gt "1.prems"(1) nb(2)]] gt a b c nb(1) by simp
  next
    case lt: 2
    then show ?thesis using set_reads_step [OF _ _ "1.IH"(2) [OF refl _ lt na(2) "1.prems"(2)]] a b c na(1) by simp
  next
    case eq: 3
    obtain sa where sa: "SeriesSet_At a = Some sa" "read_series chunk_it sa = Some (Ok x)" using a(3) by (cases x) (auto elim: read_AtE)
    obtain sb where sb: "SeriesSet_At b = Some sb" "read_series chunk_it sb = Some (Ok y)" using b(3) by (cases y) (auto elim: read_AtE)
    have "read_series chunk_it (ChainedSeries [sa, sb]) = Some (Ok (fst x, snd x @ snd y))"
      using read_chained [of chunk_it sa "fst x" "snd x" sb "fst y" "snd y"] sa(2) sb(2) by simp
    then show ?thesis using set_reads_step [OF _ _ "1.IH"(3) [OF refl _ _ na(2) nb(2)]] eq a b c na(1) nb(1) sa(1) sb(1)
      by (simp add: read_At_def)
  qed
next
  case (2 as)
  then show ?case by (simp add: merged_reads_a)
next
  case (3 y bs)
  then show ?case by (simp add: merged_reads_b)
qed

lemma newMerged_reads:
  assumes "set_reads chunk_it a ra" "set_reads chunk_it b rb"
  shows "\<exists>s. newMergedSeriesSet a b = Some (Ok s) \<and> set_reads chunk_it s (merge_answers ra rb)"
proof -
  obtain oka a' where a: "SeriesSet_Next a = Some (Ok (oka, a'))" "at_answer chunk_it a' (\<not> oka) ra" by (rule set_reads_Next [OF assms(1)])
  obtain okb b' where b: "SeriesSet_Next b = Some (Ok (okb, b'))" "at_answer chunk_it b' (\<not> okb) rb" by (rule set_reads_Next [OF assms(2)])
  show ?thesis using a(1) b(1) merged_reads [OF a(2) b(2)] by (simp add: newMergedSeriesSet_def)
qed

section \<open>The answers of several blocks\<close>

lemma Compare_less: "Compare a b < 0 \<longleftrightarrow> label_words a < label_words b"
  and Compare_greater: "Compare a b > 0 \<longleftrightarrow> label_words b < label_words a"
  and Compare_equal: "Compare a b = 0 \<longleftrightarrow> a = b"
  using Compare_refines_order by blast+

lemma Compare_cases: obtains "Compare a b > 0" | "Compare a b < 0" | "a = b"
  using Compare_equal [of a b] by linarith

lemma less_trans: "Compare a b < 0 \<Longrightarrow> Compare b c < 0 \<Longrightarrow> Compare a c < 0"
  unfolding Compare_less by (rule order.strict_trans)

lemma less_sym: "Compare a b > 0 \<longleftrightarrow> Compare b a < 0"
  unfolding Compare_less Compare_greater ..

definition by_labels :: "(Labels \<times> sample list) list \<Rightarrow> bool" where
  "by_labels res \<longleftrightarrow> sorted_wrt (\<lambda>a b. Compare (fst a) (fst b) < 0) res"

lemma fst_merge_answers [simp]: "fst ` set (merge_answers as bs) = fst ` set as \<union> fst ` set bs"
proof (induction as bs rule: merge_answers.induct)
  case (1 a as b bs)
  show ?case by (cases rule: Compare_cases [of "fst a" "fst b"]) (use 1 in \<open>simp_all add: Let_def Compare_equal insert_commute\<close>)
qed simp_all

text \<open>The samples of the same label set in several answers, those of earlier blocks first.\<close>

fun joined :: "sample list option list \<Rightarrow> sample list option" where
  "joined [] = None"
| "joined (None # os) = joined os"
| "joined (Some xs # os) = (case joined os of None \<Rightarrow> Some xs | Some ys \<Rightarrow> Some (xs @ ys))"

lemma joined_one [simp]: "joined [v] = v" "joined [v, None] = v"
  by (cases v; simp)+

lemma joined_append: "joined (as @ bs) = joined [joined as, joined bs]"
  by (induction as rule: joined.induct) (auto split: option.splits)

lemma by_labels_Cons: "by_labels (x # res) \<longleftrightarrow> (\<forall>ls \<in> fst ` set res. Compare (fst x) ls < 0) \<and> by_labels res"
  by (auto simp: by_labels_def)

lemma map_of_greater: "\<forall>ls' \<in> fst ` set res. Compare ls ls' < 0 \<Longrightarrow> map_of res ls = None"
  by (auto simp: Compare_less map_of_eq_None_iff)

lemma merge_answers_by_labels: "by_labels as \<Longrightarrow> by_labels bs \<Longrightarrow> by_labels (merge_answers as bs)"
proof (induction as bs rule: merge_answers.induct)
  case (1 a as b bs)
  show ?case
  proof (cases rule: Compare_cases [of "fst a" "fst b"])
    case gt: 1
    then have "Compare (fst b) (fst a) < 0" by (simp add: less_sym)
    then show ?thesis using 1 gt by (auto simp: by_labels_Cons Let_def intro: less_trans)
  next
    case 2
    then show ?thesis using 1 by (auto simp: by_labels_Cons Let_def intro: less_trans)
  next
    case 3
    then have "Compare (fst a) (fst b) = 0" by (simp add: Compare_equal)
    then show ?thesis using 1 3 by (auto simp: by_labels_Cons Let_def)
  qed
qed simp_all

lemma map_of_merge_answers:
  assumes "by_labels as" "by_labels bs"
  shows "map_of (merge_answers as bs) ls = joined [map_of as ls, map_of bs ls]"
  using assms
proof (induction as bs rule: merge_answers.induct)
  case (1 a as b bs)
  have na: "map_of as (fst a) = None" and nb: "map_of bs (fst b) = None"
    using "1.prems" by (auto simp: by_labels_Cons intro!: map_of_greater)
  show ?case
  proof (cases rule: Compare_cases [of "fst a" "fst b"])
    case gt: 1
    then have "Compare (fst b) (fst a) < 0" by (simp add: less_sym)
    then have "map_of (a # as) (fst b) = None" using "1.prems"(1) by (intro map_of_greater) (auto simp: by_labels_Cons intro: less_trans)
    then show ?thesis using 1 gt by (cases a; cases b) (auto simp: by_labels_Cons Let_def)
  next
    case lt: 2
    then have "map_of (b # bs) (fst a) = None" using "1.prems"(2) by (intro map_of_greater) (auto simp: by_labels_Cons intro: less_trans)
    then show ?thesis using 1 lt by (cases a; cases b) (auto simp: by_labels_Cons Let_def split: option.splits)
  next
    case 3
    then have "Compare (fst a) (fst b) = 0" by (simp add: Compare_equal)
    then show ?thesis using 1 3 na nb by (cases a; cases b) (auto simp: by_labels_Cons Let_def)
  qed
qed (auto split: option.splits)


text \<open>One block: its answer to a client that queries it alone.\<close>

definition block_answers :: "('c \<Rightarrow> memIterator outcome) \<Rightarrow> Matcher list \<Rightarrow> 'c blockQuerier \<Rightarrow> (Labels \<times> sample list) list \<Rightarrow> bool" where
  "block_answers chunk_it ms q res \<longleftrightarrow> (\<exists>s s'. blockQuerier_Select (bq_block q) (bq_mint q) (bq_maxt q) ms = Some (Ok s)
     \<and> query_all chunk_it (bq_block q) s [] = Some (Ok (res, s')) \<and> bss_err s' = None)"

lemma block_answers_reads:
  assumes "block_answers chunk_it ms q res"
  shows "\<exists>s. Querier_Select q ms = Some (Ok s) \<and> set_reads chunk_it s res"
proof -
  obtain s s' where s: "blockQuerier_Select (bq_block q) (bq_mint q) (bq_maxt q) ms = Some (Ok s)"
    "query_all chunk_it (bq_block q) s [] = Some (Ok (res, s'))" "bss_err s' = None" using assms by (auto simp: block_answers_def)
  have "collect SeriesSet_Next (read_At chunk_it) (BlockSet (bq_block q) s) [] = Some (Ok (res, BlockSet (bq_block q) s'))"
    using collect_of_query_all [OF s(2)] by simp
  then show ?thesis using s(1,3) by (auto simp: Querier_Select_def set_reads_def collect_steps)
qed

lemma take_drop_answers:
  assumes "list_all2 P qs rs"
  shows "list_all2 P (take l qs) (take l rs)" "list_all2 P (drop l qs) (drop l rs)"
  using assms by simp_all

lemma querier_sel_reads:
  assumes "list_all2 (block_answers chunk_it ms) qs rs" "\<forall>r \<in> set rs. by_labels r"
  shows "\<exists>s res. querier_sel qs ms = Some (Ok s) \<and> set_reads chunk_it s res \<and> by_labels res
    \<and> (\<forall>ls. map_of res ls = joined (map (\<lambda>r. map_of r ls) rs))"
  using assms
proof (induction qs ms arbitrary: rs rule: querier_sel.induct)
  case (1 qs ms)
  have len: "length rs = length qs" using "1.prems"(1) by (simp add: list_all2_lengthD)
  let ?l = "length qs div 2"
  show ?case
  proof (cases "length qs \<ge> 2")
    case True
    have parts: "\<forall>r \<in> set (take ?l rs). by_labels r" "\<forall>r \<in> set (drop ?l rs). by_labels r" using "1.prems"(2) by (auto dest: in_set_takeD in_set_dropD)
    have big: "length qs \<noteq> 0" "length qs \<noteq> 1" using True by auto
    obtain a ra where a: "querier_sel (take ?l qs) ms = Some (Ok a)" "set_reads chunk_it a ra" "by_labels ra" "\<forall>ls. map_of ra ls = joined (map (\<lambda>r. map_of r ls) (take ?l rs))"
      using "1.IH"(1) [OF big refl take_drop_answers(1) [OF "1.prems"(1)] parts(1)] by blast
    obtain b rb where b: "querier_sel (drop ?l qs) ms = Some (Ok b)" "set_reads chunk_it b rb" "by_labels rb" "\<forall>ls. map_of rb ls = joined (map (\<lambda>r. map_of r ls) (drop ?l rs))"
      using "1.IH"(2) [OF big refl take_drop_answers(2) [OF "1.prems"(1)] parts(2)] by blast
    obtain s where s: "newMergedSeriesSet a b = Some (Ok s)" "set_reads chunk_it s (merge_answers ra rb)" using newMerged_reads [OF a(2) b(2)] by blast
    have "map_of (merge_answers ra rb) ls = joined (map (\<lambda>r. map_of r ls) rs)" for ls
      using map_of_merge_answers [OF a(3) b(3)] a(4) b(4) joined_append [of "map (\<lambda>r. map_of r ls) (take ?l rs)" "map (\<lambda>r. map_of r ls) (drop ?l rs)"]
      by (simp flip: map_append)
    moreover have "querier_sel qs ms = Some (Ok s)" using a(1) b(1) s(1) big by (subst querier_sel.simps) (simp add: Let_def)
    ultimately show ?thesis using s(2) merge_answers_by_labels [OF a(3) b(3)] by blast
  next
    case False
    then consider "qs = []" | q r where "qs = [q]" "rs = [r]" using len by (cases qs; cases rs) (auto simp: Suc_le_eq)
    then show ?thesis
    proof cases
      case 1
      then show ?thesis using len by (subst querier_sel.simps) (auto simp: EmptySeriesSet_def set_reads_def by_labels_def intro!: exI [of _ "[]"])
    next
      case 2
      then obtain s where "Querier_Select q ms = Some (Ok s)" "set_reads chunk_it s r" using block_answers_reads "1.prems"(1) by fastforce
      then show ?thesis using 2 "1.prems"(2) by (subst querier_sel.simps) auto
    qed
  qed
qed


lemma querier_sel_collects:
  assumes "list_all2 (block_answers chunk_it ms) qs rs" "\<forall>r \<in> set rs. by_labels r"
  shows "\<exists>s res s'. querier_sel qs ms = Some (Ok s) \<and> collect SeriesSet_Next (read_At chunk_it) s [] = Some (Ok (res, s')) \<and> SeriesSet_Err s' = None
    \<and> by_labels res \<and> (\<forall>ls. map_of res ls = joined (map (\<lambda>r. map_of r ls) rs))"
proof -
  obtain s res where s: "querier_sel qs ms = Some (Ok s)" "set_reads chunk_it s res" "by_labels res" "\<forall>ls. map_of res ls = joined (map (\<lambda>r. map_of r ls) rs)"
    using querier_sel_reads [OF assms] by blast
  then obtain s' where "collect SeriesSet_Next (read_At chunk_it) s [] = Some (Ok (res, s'))" "SeriesSet_Err s' = None"
    using collect_of_steps [of SeriesSet_Next "read_At chunk_it" s res _ "[]"] by (auto simp: set_reads_def)
  then show ?thesis using s by blast
qed

lemma by_labels_map_of: "by_labels res \<Longrightarrow> (ls, xs) \<in> set res \<Longrightarrow> map_of res ls = Some xs"
  by (induction res) (force simp: by_labels_Cons Compare_less)+

text \<open>Without the distinction between no series and a series without samples.\<close>

definition part_samples :: "sample list option \<Rightarrow> sample list" where
  "part_samples v = (case v of None \<Rightarrow> [] | Some xs \<Rightarrow> xs)"

lemma part_samples_joined: "part_samples (joined os) = concat (map part_samples os)"
  by (induction os rule: joined.induct) (auto simp: part_samples_def split: option.splits)

section \<open>Label values\<close>

lemma set_mergeStrings [simp]: "set (mergeStrings as bs) = set as \<union> set bs"
  by (induction as bs rule: mergeStrings.induct) (auto simp: Let_def)

lemma sorted_mergeStrings: "sorted_wrt (<) as \<Longrightarrow> sorted_wrt (<) bs \<Longrightarrow> sorted_wrt (<) (mergeStrings as bs)"
proof (induction as bs rule: mergeStrings.induct)
  case (1 a as b bs)
  consider "a = b" | "a < b" | "b < a" by fastforce
  then show ?case by cases (use 1 in \<open>auto simp: Let_def strings_Compare_def intro: less_trans\<close>)
qed simp_all

lemma querier_lvals_union:
  assumes "\<forall>q \<in> set qs. \<exists>vs. ix_LabelValues (br_Index (bq_block q)) n = Ok vs \<and> sorted_wrt (<) vs"
  shows "\<exists>res. querier_lvals qs n = Ok res \<and> sorted_wrt (<) res
    \<and> set res = {v. \<exists>q \<in> set qs. \<exists>vs. ix_LabelValues (br_Index (bq_block q)) n = Ok vs \<and> v \<in> set vs}"
  using assms
proof (induction qs n rule: querier_lvals.induct)
  case (1 qs n)
  let ?l = "length qs div 2"
  let ?U = "\<lambda>qs. {v. \<exists>q \<in> set qs. \<exists>vs. ix_LabelValues (br_Index (bq_block q)) n = Ok vs \<and> v \<in> set vs}"
  show ?case
  proof (cases "length qs \<ge> 2")
    case True
    then have big: "length qs \<noteq> 0" "length qs \<noteq> 1" by auto
    obtain s1 where s1: "querier_lvals (take ?l qs) n = Ok s1" "sorted_wrt (<) s1" "set s1 = ?U (take ?l qs)"
      using "1.IH"(1) [OF big refl] "1.prems" by (meson in_set_takeD)
    obtain s2 where s2: "querier_lvals (drop ?l qs) n = Ok s2" "sorted_wrt (<) s2" "set s2 = ?U (drop ?l qs)"
      using "1.IH"(2) [OF big refl s1(1)] "1.prems" by (meson in_set_dropD)
    have "?U qs = ?U (take ?l qs) \<union> ?U (drop ?l qs)" by (subst append_take_drop_id [of ?l qs, symmetric], subst set_append) blast
    then have "set (mergeStrings s1 s2) = ?U qs" using s1(3) s2(3) by simp
    moreover have "querier_lvals qs n = Ok (mergeStrings s1 s2)" using big s1(1) s2(1) by (subst querier_lvals.simps) (simp add: Let_def)
    ultimately show ?thesis using sorted_mergeStrings [OF s1(2) s2(2)] by blast
  next
    case False
    then consider "qs = []" | q where "qs = [q]" by (cases qs) (auto simp: Suc_le_eq)
    then show ?thesis by cases (use "1.prems" in \<open>auto simp: querier_lvals.simps blockQuerier_LabelValues_def map_nth\<close>)
  qed
qed

section \<open>Properties\<close>

text \<open>
  C14. A query over several blocks. If every block, queried alone, answers without an error and in the order of
  the labels, then the merged set of series does so too, and it is the join of the answers: every label set that occurs in one of
  them occurs once, with the samples of all blocks, those of earlier blocks first.
\<close>

theorem merged_query:
  assumes "list_all2 (block_answers chunk_it ms) qs rs" "\<forall>r \<in> set rs. by_labels r"
  shows "\<exists>s res s'. querier_sel qs ms = Some (Ok s) \<and> collect SeriesSet_Next (read_At chunk_it) s [] = Some (Ok (res, s')) \<and> SeriesSet_Err s' = None
    \<and> by_labels res \<and> (\<forall>ls. map_of res ls = joined (map (\<lambda>r. map_of r ls) rs))"
  by (rule querier_sel_collects [OF assms])

definition ab :: Labels where
  "ab = [\<lparr>Name = [97], Value = [98]\<rparr>]"

definition one_chunk_block :: "sample list \<Rightarrow> memIterator BlockReader" where
  "one_chunk_block xs = \<lparr>br_Index = \<lparr>ix_LabelValues = \<lambda>_. Ok [], ix_Postings = \<lambda>_ _. Ok (listPostings [1] 0), ix_SortedPostings = Some\<rparr>,
     br_Series = \<lambda>_. Ok (ab, [\<lparr>Meta_Ref = 0, MinTime = fst (hd xs), MaxTime = fst (last xs)\<rparr>]), br_Chunk = \<lambda>_. Ok (buffered xs), br_Tombstones = \<lambda>_. Ok []\<rparr>"

lemma one_chunk_block_answers:
  assumes "xs \<noteq> []" "length xs \<le> 4" "list_all (in_i64 \<circ> fst) xs" "sorted_wrt (<) (map fst xs)" "\<forall>x \<in> set xs. mint \<le> fst x \<and> fst x \<le> maxt"
  shows "block_answers Ok [EqualMatcher [97] [98]] \<lparr>bq_block = one_chunk_block xs, bq_mint = mint, bq_maxt = maxt\<rparr> [(ab, xs)]"
proof -
  let ?rd = "one_chunk_block xs" and ?e = "(ab, [], [buffered_meta xs])"
  have ends: "fst (hd xs) \<le> maxt" "mint \<le> fst (last xs)" using assms(1,5) by auto
  have l: "loads ?rd mint maxt 1 ?e" using ends by (simp add: loads_def one_chunk_block_def drop_deleted_def buffered_meta_def)
  have "enters mint [] xs" using assms(5) by (auto simp: enters_def kept_def)
  then have "\<exists>it it'. newChunkSeriesIterator Ok [buffered_meta xs] [] mint maxt = Ok it
      \<and> csi_drain Ok it [] = Some (Ok (filter (\<lambda>x. mint \<le> fst x \<and> fst x \<le> maxt \<and> fst x \<notin> covered []) (concat [xs]), it')) \<and> csi_Err it' = None"
    by (intro chunk_series_drains) (use buffered_opens [OF assms(1-3)] assms(4) ends in \<open>auto simp: buffered_meta_def\<close>)
  moreover have "filter (\<lambda>x. mint \<le> fst x \<and> fst x \<le> maxt \<and> fst x \<notin> covered []) (concat [xs]) = xs" using assms(5) by (simp add: filter_id_conv covered_def)
  ultimately have y: "yields Ok mint maxt ?e xs" by (auto simp: yields_def)
  obtain s where s: "blockQuerier_Select ?rd mint maxt [EqualMatcher [97] [98]] = Some (Ok s)" "bcs_p (pcs_set (bss_set s)) = listPostings [1] 0"
    "bcs_err (pcs_set (bss_set s)) = None" "pcs_err (bss_set s) = None" "bss_err s = None" "pcs_mint (bss_set s) = mint" "pcs_maxt (bss_set s) = maxt"
    "bss_mint s = mint" "bss_maxt s = maxt"
    by (simp add: blockQuerier_Select_def LookupChunkSeries_def one_chunk_block_def PostingsForMatchers_def postingsForMatcher_def)
  from query_all_list [of ?rd mint maxt "[1]" "[?e]" Ok "[xs]" s 0 "[]", OF _ _ s(2-9)] l y s(1)
  show ?thesis by (auto simp: block_answers_def answers_def)
qed

theorem merged_query_witness:
  "\<exists>s res s'. querier_sel [\<lparr>bq_block = one_chunk_block [(1, 10), (2, 20)], bq_mint = 0, bq_maxt = 100\<rparr>,
      \<lparr>bq_block = one_chunk_block [(5, 50)], bq_mint = 0, bq_maxt = 100\<rparr>] [EqualMatcher [97] [98]] = Some (Ok s)
    \<and> collect SeriesSet_Next (read_At Ok) s [] = Some (Ok (res, s')) \<and> SeriesSet_Err s' = None \<and> map_of res ab = Some [(1, 10), (2, 20), (5, 50)]"
proof -
  let ?qs = "[\<lparr>bq_block = one_chunk_block [(1, 10), (2, 20)], bq_mint = 0, bq_maxt = 100\<rparr>, \<lparr>bq_block = one_chunk_block [(5, 50)], bq_mint = 0, bq_maxt = 100\<rparr>]"
  have "list_all2 (block_answers Ok [EqualMatcher [97] [98]]) ?qs [[(ab, [(1, 10), (2, 20)])], [(ab, [(5, 50)])]]"
    by (auto intro!: one_chunk_block_answers simp: in_i64_def)
  from merged_query [OF this] show ?thesis by (auto simp: by_labels_def)
qed

text \<open>
  C15. Label values over several blocks: if the index of every block returns them sorted and without duplicates, the
  querier returns the union of all, sorted and without duplicates.
\<close>

theorem querier_LabelValues:
  assumes "\<forall>q \<in> set qs. \<exists>vs. ix_LabelValues (br_Index (bq_block q)) n = Ok vs \<and> sorted_wrt (<) vs"
  shows "\<exists>res. querier_lvals qs n = Ok res \<and> sorted_wrt (<) res
    \<and> set res = {v. \<exists>q \<in> set qs. \<exists>vs. ix_LabelValues (br_Index (bq_block q)) n = Ok vs \<and> v \<in> set vs}"
  by (rule querier_lvals_union [OF assms])


theorem querier_LabelValues_witness:
  "\<exists>res. querier_lvals [\<lparr>bq_block = \<lparr>br_Index = \<lparr>ix_LabelValues = \<lambda>_. Ok [[1], [3]], ix_Postings = \<lambda>_ _. Panic, ix_SortedPostings = Some\<rparr>,
        br_Series = \<lambda>_. Panic, br_Chunk = \<lambda>_. Ok (), br_Tombstones = \<lambda>_. Panic\<rparr>, bq_mint = 0, bq_maxt = 0\<rparr>,
      \<lparr>bq_block = \<lparr>br_Index = \<lparr>ix_LabelValues = \<lambda>_. Ok [[2], [3]], ix_Postings = \<lambda>_ _. Panic, ix_SortedPostings = Some\<rparr>,
        br_Series = \<lambda>_. Panic, br_Chunk = \<lambda>_. Ok (), br_Tombstones = \<lambda>_. Panic\<rparr>, bq_mint = 0, bq_maxt = 0\<rparr>] [97] = Ok res
    \<and> sorted_wrt (<) res \<and> set res = {[1], [2], [3]}"
  using querier_LabelValues [of "[\<lparr>bq_block = \<lparr>br_Index = \<lparr>ix_LabelValues = \<lambda>_. Ok [[1], [3]], ix_Postings = \<lambda>_ _. Panic, ix_SortedPostings = Some\<rparr>,
        br_Series = \<lambda>_. Panic, br_Chunk = \<lambda>_. Ok (), br_Tombstones = \<lambda>_. Panic\<rparr>, bq_mint = 0, bq_maxt = 0\<rparr>,
      \<lparr>bq_block = \<lparr>br_Index = \<lparr>ix_LabelValues = \<lambda>_. Ok [[2], [3]], ix_Postings = \<lambda>_ _. Panic, ix_SortedPostings = Some\<rparr>,
        br_Series = \<lambda>_. Panic, br_Chunk = \<lambda>_. Ok (), br_Tombstones = \<lambda>_. Panic\<rparr>, bq_mint = 0, bq_maxt = 0\<rparr>]" "[97]"]
  by (auto simp: set_eq_iff)

end
