(* ===== verification/Compact.thy ===== *)
theory Compact
  imports MemSeries Labels
begin

text \<open>
  Planning compactions: \<^verbatim>\<open>compact.go\<close> with the meta data of blocks from \<^verbatim>\<open>block.go\<close>. A block directory is its
  name with the contents of its meta file. ULIDs are their bytes, which is how the package compares them.
\<close>

section \<open>Meta data of blocks\<close>

type_synonym ULID = gostring

record BlockStats =
  st_NumSamples :: u64
  st_NumSeries :: u64
  st_NumChunks :: u64
  st_NumTombstones :: u64

record BlockDesc =
  bd_ULID :: ULID
  bd_MinTime :: int
  bd_MaxTime :: int

record BlockMetaCompaction =
  Level :: int
  Sources :: "ULID list"
  Parents :: "BlockDesc list"
  Failed :: bool

record BlockMeta =
  bm_ULID :: ULID
  bm_MinTime :: int
  bm_MaxTime :: int
  Stats :: BlockStats
  Compaction :: BlockMetaCompaction

text \<open>\<^verbatim>\<open>ExponentialBlockRanges\<close>: the widths of the levels.\<close>

fun ExponentialBlockRanges :: "int \<Rightarrow> nat \<Rightarrow> int \<Rightarrow> int list" where
  "ExponentialBlockRanges curRange 0 stepSize = []"
| "ExponentialBlockRanges curRange (Suc steps) stepSize =
     curRange # ExponentialBlockRanges (i64 (curRange * stepSize)) steps stepSize"

section \<open>Planning\<close>

record dirMeta =
  dm_dir :: gostring
  dm_meta :: BlockMeta

abbreviation dm_MinTime :: "dirMeta \<Rightarrow> int" where "dm_MinTime d \<equiv> bm_MinTime (dm_meta d)"
abbreviation dm_MaxTime :: "dirMeta \<Rightarrow> int" where "dm_MaxTime d \<equiv> bm_MaxTime (dm_meta d)"

text \<open>The start of the aligned range of size \<open>tr\<close> a timestamp is in.\<close>

definition range_start :: "int \<Rightarrow> int \<Rightarrow> int" where
  "range_start tr t =
     (if t \<ge> 0 then i64 (tr * go_div t tr) else i64 (tr * go_div (i64 (i64 (t - tr) + 1)) tr))"

definition fits :: "int \<Rightarrow> int \<Rightarrow> dirMeta \<Rightarrow> bool" where
  "fits t0 tr d \<longleftrightarrow> \<not> (dm_MinTime d < t0 \<or> dm_MaxTime d > i64 (t0 + tr))"

text \<open>The inner loop takes the blocks that fit while there are any; the outer loop skips blocks that do not fit.\<close>

function split_dirs :: "dirMeta list \<Rightarrow> int \<Rightarrow> dirMeta list list" where
  "split_dirs [] tr = []"
| "split_dirs (d # ds) tr =
     (let t0 = range_start tr (dm_MinTime d) in
      if \<not> fits t0 tr d then split_dirs ds tr
      else takeWhile (fits t0 tr) (d # ds) # split_dirs (dropWhile (fits t0 tr) (d # ds)) tr)"
  by pat_completeness auto
termination
  by (relation "measure (\<lambda>(ds, tr). length ds)") (auto simp: le_imp_less_Suc length_dropWhile_le)

definition splitByRange :: "dirMeta list \<Rightarrow> int \<Rightarrow> dirMeta list list outcome" where
  "splitByRange ds tr = (if tr = 0 \<and> ds \<noteq> [] then Panic else Ok (split_dirs ds tr))"

definition eligible :: "int \<Rightarrow> int \<Rightarrow> dirMeta list \<Rightarrow> bool" where
  "eligible iv highTime p \<longleftrightarrow>
     \<not> list_ex (\<lambda>dm. Failed (Compaction (dm_meta dm))) p
     \<and> (let mint = dm_MinTime (hd p); maxt = dm_MaxTime (last p) in
        (i64 (maxt - mint) = iv \<or> maxt \<le> highTime) \<and> length p > 1)"

fun select_range :: "int \<Rightarrow> int list \<Rightarrow> dirMeta list \<Rightarrow> dirMeta list outcome" where
  "select_range highTime [] ds = Ok []"
| "select_range highTime (iv # ivs) ds =
     bind_outcome (splitByRange ds iv) (\<lambda>parts.
       case find (eligible iv highTime) parts of
         Some p \<Rightarrow> Ok p
       | None \<Rightarrow> select_range highTime ivs ds)"

definition selectDirs :: "int list \<Rightarrow> dirMeta list \<Rightarrow> dirMeta list outcome" where
  "selectDirs ranges ds =
     (if length ranges < 2 \<or> length ds < 1 then Ok []
      else select_range (dm_MinTime (last ds)) (tl ranges) ds)"

text \<open>
  The test on tombstones divides in floating point; on counts below \<open>2\<^sup>4\<^sup>0\<close> the quotient
  exceeds 0.05 exactly if twenty times the tombstones exceed the number of series plus one.
\<close>

definition many_tombstones :: "BlockMeta \<Rightarrow> bool" where
  "many_tombstones meta \<longleftrightarrow> 20 * unat (st_NumTombstones (Stats meta)) > unat (st_NumSeries (Stats meta) + 1)"

fun plan_tombstones :: "int list \<Rightarrow> dirMeta list \<Rightarrow> gostring list outcome" where
  "plan_tombstones ranges [] = Ok []"
| "plan_tombstones ranges (d # ds) =
     (if ranges = [] then Panic
      else if i64 (dm_MaxTime d - dm_MinTime d) < ranges ! (length ranges div 2) then Ok []
      else if many_tombstones (dm_meta d) then Ok [dm_dir d]
      else plan_tombstones ranges ds)"

definition sort_blocks :: "dirMeta list \<Rightarrow> dirMeta list" where
  "sort_blocks dms = sort_Slice (\<lambda>a b. dm_MinTime a < dm_MinTime b) dms"

definition plan :: "int list \<Rightarrow> dirMeta list \<Rightarrow> gostring list outcome" where
  "plan ranges dms =
     (if dms = [] then Panic
      else
        let dms = butlast (sort_blocks dms) in
        bind_outcome (selectDirs ranges dms) (\<lambda>sel.
          if length sel > 0 then Ok (map dm_dir sel) else plan_tombstones ranges (rev dms)))"

definition compactBlockMetas :: "ULID \<Rightarrow> BlockMeta list \<Rightarrow> BlockMeta outcome" where
  "compactBlockMetas uid blocks =
     (if blocks = [] then Panic
      else Ok \<lparr>bm_ULID = uid, bm_MinTime = bm_MinTime (hd blocks), bm_MaxTime = bm_MaxTime (last blocks),
               Stats = \<lparr>st_NumSamples = 0, st_NumSeries = 0, st_NumChunks = 0, st_NumTombstones = 0\<rparr>,
               Compaction = \<lparr>Level = i64 (fold (\<lambda>b l. if Level (Compaction b) > l then Level (Compaction b) else l) blocks 0 + 1),
                 Sources = sorted_list_of_set (\<Union>b \<in> set blocks. set (Sources (Compaction b))),
                 Parents = map (\<lambda>b. \<lparr>bd_ULID = bm_ULID b, bd_MinTime = bm_MinTime b, bd_MaxTime = bm_MaxTime b\<rparr>) blocks,
                 Failed = False\<rparr>\<rparr>)"

section \<open>Aligned ranges\<close>

lemma range_start_floor:
  assumes "time_ok t" "width_ok tr"
  shows "range_start tr t = tr * (t div tr)" "in_i64 (tr * (t div tr) + tr)"
proof -
  have tr: "0 < tr" "tr \<le> 2 ^ 58" using assms(2) by (simp_all add: width_ok_def)
  have e: "tr * (t div tr) + t mod tr = t" "0 \<le> t mod tr" "t mod tr < tr" using tr by simp_all
  then have b: "t - tr < tr * (t div tr)" "tr * (t div tr) \<le> t" by linarith+
  then show i: "in_i64 (tr * (t div tr) + tr)" using assms(1) tr by (simp add: in_i64_def time_ok_def)
  have w: "in_i64 (tr * (t div tr))" using b assms(1) tr by (simp add: in_i64_def time_ok_def)
  show "range_start tr t = tr * (t div tr)"
  proof (cases "t \<ge> 0")
    case True
    then show ?thesis using tr w by (simp add: range_start_def)
  next
    case False
    have in1: "in_i64 (t - tr)" "in_i64 (t - tr + 1)" using assms(1) tr by (simp_all add: in_i64_def time_ok_def)
    have "(- (t - tr + 1)) div tr = - (t div tr)"
    proof -
      have "- (t - tr + 1) = (tr - 1 - t mod tr) + (- (t div tr)) * tr" using e(1) by (simp add: algebra_simps)
      moreover have "(tr - 1 - t mod tr) div tr = 0" using e(2,3) by (intro div_pos_pos_trivial) simp_all
      ultimately show ?thesis using tr(1) by (simp only: div_mult_self1)
    qed
    moreover have "go_div (t - tr + 1) tr = - ((- (t - tr + 1)) div tr)"
    proof (cases "t - tr + 1 = 0")
      case False
      then show ?thesis using \<open>\<not> t \<ge> 0\<close> tr(1) by (intro go_div_neg) linarith+
    qed (simp add: go_div_def)
    ultimately show ?thesis using False w in1 by (simp add: range_start_def)
  qed
qed

text \<open>The blocks of a part lie in one aligned range.\<close>

definition aligned :: "int \<Rightarrow> dirMeta list \<Rightarrow> bool" where
  "aligned iv p \<longleftrightarrow> (\<exists>t0. iv dvd t0 \<and> (\<forall>d \<in> set p. t0 \<le> dm_MinTime d \<and> dm_MaxTime d \<le> t0 + iv))"

lemma fits_aligned:
  assumes "time_ok t" "width_ok tr" "\<forall>d \<in> set p. fits (range_start tr t) tr d"
  shows "aligned tr p"
  using assms(3) range_start_floor [OF assms(1,2)] unfolding aligned_def
  by (intro exI [of _ "tr * (t div tr)"]) (auto simp: fits_def)

lemma split_dirs_part:
  assumes "p \<in> set (split_dirs ds tr)"
  shows "\<exists>pre post d. ds = pre @ p @ post \<and> p \<noteq> [] \<and> d \<in> set ds \<and> (\<forall>x \<in> set p. fits (range_start tr (dm_MinTime d)) tr x)"
  using assms
proof (induction ds tr rule: split_dirs.induct)
  case (2 d ds tr)
  let ?t0 = "range_start tr (dm_MinTime d)"
  have extend: ?case if "p \<in> set (split_dirs rest tr)" "d # ds = front @ rest"
    "\<exists>pre post x. rest = pre @ p @ post \<and> p \<noteq> [] \<and> x \<in> set rest \<and> (\<forall>y \<in> set p. fits (range_start tr (dm_MinTime x)) tr y)" for rest front
  proof -
    from that(3) obtain pre post x where "rest = pre @ p @ post" "p \<noteq> []" "x \<in> set rest" "\<forall>y \<in> set p. fits (range_start tr (dm_MinTime x)) tr y" by blast
    then have "d # ds = (front @ pre) @ p @ post" "x \<in> set (d # ds)" unfolding that(2) by simp_all
    then show ?thesis using \<open>p \<noteq> []\<close> \<open>\<forall>y \<in> set p. fits (range_start tr (dm_MinTime x)) tr y\<close> by blast
  qed
  show ?case
  proof (cases "fits ?t0 tr d")
    case False
    then show ?thesis using "2.IH"(1) [OF refl] "2.prems" extend [of ds "[d]"] by (simp add: Let_def)
  next
    case True
    then consider "p = takeWhile (fits ?t0 tr) (d # ds)" | "p \<in> set (split_dirs (dropWhile (fits ?t0 tr) (d # ds)) tr)"
      using "2.prems" by (auto simp: Let_def)
    then show ?thesis
    proof cases
      case 1
      then have "d # ds = [] @ p @ dropWhile (fits ?t0 tr) (d # ds)" "p \<noteq> []" "\<forall>x \<in> set p. fits ?t0 tr x"
        using True by (auto dest: set_takeWhileD)
      then show ?thesis by (metis list.set_intros(1))
    next
      case 2
      show ?thesis using "2.IH"(2) [OF refl] 2 True
        by (intro extend [OF 2, of "takeWhile (fits ?t0 tr) (d # ds)"]) (simp_all add: Let_def)
    qed
  qed
qed simp

section \<open>Blocks that do not overlap\<close>

definition before :: "BlockMeta \<Rightarrow> BlockMeta \<Rightarrow> bool" where
  "before a b \<longleftrightarrow> bm_MaxTime a \<le> bm_MinTime b"

definition apart :: "BlockMeta \<Rightarrow> BlockMeta \<Rightarrow> bool" where
  "apart a b \<longleftrightarrow> before a b \<or> before b a"

definition block_ok :: "BlockMeta \<Rightarrow> bool" where
  "block_ok b \<longleftrightarrow> time_ok (bm_MinTime b) \<and> time_ok (bm_MaxTime b) \<and> bm_MinTime b < bm_MaxTime b"

definition blocks_ok :: "dirMeta list \<Rightarrow> bool" where
  "blocks_ok dms \<longleftrightarrow> (\<forall>d \<in> set dms. block_ok (dm_meta d)) \<and> sorted_wrt apart (map dm_meta dms)"

lemma sorted_wrt_mset:
  assumes "mset xs = mset ys" "sorted_wrt R xs" "\<And>x y. R x y \<Longrightarrow> R y x"
  shows "sorted_wrt R ys"
  using assms
proof (induction ys arbitrary: xs)
  case (Cons y ys)
  then have "y \<in> set xs" by (metis list.set_intros(1) set_mset_mset)
  then obtain as bs where xs: "xs = as @ y # bs" by (meson split_list)
  then have "mset (as @ bs) = mset ys" using Cons.prems(1) by simp
  moreover have "sorted_wrt R (as @ bs)" using Cons.prems(2) xs by (simp add: sorted_wrt_append)
  ultimately have "sorted_wrt R ys" "set ys = set as \<union> set bs" using Cons.IH Cons.prems(3) by (metis, metis set_append set_mset_mset)
  then show ?case using Cons.prems(2,3) xs by (auto simp: sorted_wrt_append)
qed simp

lemma sort_blocks_before:
  assumes "blocks_ok dms"
  shows "sorted_wrt before (map dm_meta (sort_blocks dms))" "mset (sort_blocks dms) = mset dms"
proof -
  show m: "mset (sort_blocks dms) = mset dms" by (simp add: sort_blocks_def)
  have "sorted (map dm_MinTime (sort_blocks dms))" unfolding sort_blocks_def by (rule sorted_sort_Slice) simp
  moreover have "sorted_wrt apart (map dm_meta (sort_blocks dms))"
  proof (rule sorted_wrt_mset [where xs = "map dm_meta dms"])
    show "mset (map dm_meta dms) = mset (map dm_meta (sort_blocks dms))" by (simp add: m)
    show "sorted_wrt apart (map dm_meta dms)" using assms by (simp add: blocks_ok_def)
  qed (auto simp: apart_def)
  ultimately have "sorted_wrt (\<lambda>a b. dm_MinTime a \<le> dm_MinTime b \<and> apart (dm_meta a) (dm_meta b)) (sort_blocks dms)"
    by (simp add: sorted_wrt_iff_nth_less)
  moreover have "block_ok (dm_meta d)" if "d \<in> set (sort_blocks dms)" for d
    using assms that m by (metis blocks_ok_def set_mset_mset)
  ultimately show "sorted_wrt before (map dm_meta (sort_blocks dms))"
    unfolding sorted_wrt_map by (elim sorted_wrt_mono_rel [rotated]) (force simp: apart_def before_def block_ok_def)
qed

section \<open>What is planned\<close>

lemma select_range_ok:
  "\<forall>iv \<in> set ivs. iv \<noteq> 0 \<Longrightarrow> \<exists>p. select_range highTime ivs ds = Ok p \<and> (p = [] \<or> (\<exists>iv \<in> set ivs. p \<in> set (split_dirs ds iv) \<and> eligible iv highTime p))"
proof (induction ivs)
  case (Cons iv ivs)
  show ?case
  proof (cases "find (eligible iv highTime) (split_dirs ds iv)")
    case None
    then show ?thesis using Cons by (auto simp: splitByRange_def)
  next
    case (Some p)
    then have "p \<in> set (split_dirs ds iv)" "eligible iv highTime p" by (auto simp: find_Some_iff)
    then show ?thesis using Some Cons.prems by (auto simp: splitByRange_def)
  qed
qed simp

lemma plan_tombstones_ok:
  "ranges \<noteq> [] \<Longrightarrow> \<exists>res. plan_tombstones ranges ds = Ok res \<and> (res = [] \<or> (\<exists>d \<in> set ds. res = [dm_dir d] \<and> many_tombstones (dm_meta d)))"
  by (induction ds) auto

text \<open>
  A planned compaction: some neighbours in time, never the most recent block; one block with many
  tombstones, or several that share an aligned range of a level and did not fail before.
\<close>

definition planned :: "int list \<Rightarrow> dirMeta list \<Rightarrow> dirMeta list \<Rightarrow> bool" where
  "planned ranges dms p \<longleftrightarrow> p \<noteq> [] \<and> (\<exists>pre post. sort_blocks dms = pre @ p @ post \<and> post \<noteq> [])
     \<and> (length p = 1 \<and> many_tombstones (dm_meta (hd p))
        \<or> length p > 1 \<and> (\<forall>d \<in> set p. \<not> Failed (Compaction (dm_meta d))) \<and> (\<exists>iv \<in> set (tl ranges). aligned iv p))"

definition ranges_ok :: "int list \<Rightarrow> bool" where
  "ranges_ok ranges \<longleftrightarrow> ranges \<noteq> [] \<and> (\<forall>r \<in> set ranges. width_ok r)"

lemma selectDirs_ok:
  assumes "ranges_ok ranges" "\<forall>d \<in> set ds. block_ok (dm_meta d)"
  shows "\<exists>p. selectDirs ranges ds = Ok p \<and> (p = [] \<or> length p > 1 \<and> (\<exists>pre post. ds = pre @ p @ post)
    \<and> (\<forall>d \<in> set p. \<not> Failed (Compaction (dm_meta d))) \<and> (\<exists>iv \<in> set (tl ranges). aligned iv p))"
proof (cases "length ranges < 2 \<or> length ds < 1")
  case True
  then show ?thesis by (simp add: selectDirs_def)
next
  case False
  have w: "\<forall>iv \<in> set (tl ranges). width_ok iv" using assms(1) by (cases ranges) (auto simp: ranges_ok_def)
  then have "\<forall>iv \<in> set (tl ranges). iv \<noteq> 0" by (auto simp: width_ok_def)
  from select_range_ok [OF this, of "dm_MinTime (last ds)" ds] obtain p where p: "selectDirs ranges ds = Ok p"
    "p = [] \<or> (\<exists>iv \<in> set (tl ranges). p \<in> set (split_dirs ds iv) \<and> eligible iv (dm_MinTime (last ds)) p)" using False by (auto simp: selectDirs_def)
  show ?thesis
  proof (cases "p = []")
    case False
    then obtain iv where iv: "iv \<in> set (tl ranges)" "p \<in> set (split_dirs ds iv)" "eligible iv (dm_MinTime (last ds)) p" using p(2) by blast
    obtain pre post d where d: "ds = pre @ p @ post" "d \<in> set ds" "\<forall>x \<in> set p. fits (range_start iv (dm_MinTime d)) iv x"
      using split_dirs_part [OF iv(2)] by blast
    have "time_ok (dm_MinTime d)" using assms(2) d(2) by (simp add: block_ok_def)
    then have "aligned iv p" by (rule fits_aligned [OF _ _ d(3)]) (use w iv(1) in blast)
    moreover have "length p > 1" "\<forall>d \<in> set p. \<not> Failed (Compaction (dm_meta d))" using iv(3) by (auto simp: eligible_def Let_def list_ex_iff)
    ultimately show ?thesis using p(1) d(1) iv(1) by blast
  qed (use p(1) in simp)
qed

lemma plan_planned:
  assumes "ranges_ok ranges" "blocks_ok dms" "dms \<noteq> []"
  shows "\<exists>res. plan ranges dms = Ok res \<and> (res = [] \<or> (\<exists>p. planned ranges dms p \<and> res = map dm_dir p))"
proof -
  let ?ds = "butlast (sort_blocks dms)"
  have set: "set (sort_blocks dms) = set dms" by (metis mset_sort_Slice set_mset_mset sort_blocks_def)
  then have ne: "sort_blocks dms \<noteq> []" using assms(3) by auto
  then have split: "sort_blocks dms = ?ds @ [last (sort_blocks dms)]" by simp
  have "\<forall>d \<in> set ?ds. block_ok (dm_meta d)" using assms(2) set by (auto simp: blocks_ok_def dest: in_set_butlastD)
  from selectDirs_ok [OF assms(1) this] obtain p where p: "selectDirs ranges ?ds = Ok p" "p = [] \<or> length p > 1 \<and> (\<exists>pre post. ?ds = pre @ p @ post)
    \<and> (\<forall>d \<in> set p. \<not> Failed (Compaction (dm_meta d))) \<and> (\<exists>iv \<in> set (tl ranges). aligned iv p)" by blast
  show ?thesis
  proof (cases "p = []")
    case True
    obtain res where res: "plan_tombstones ranges (rev ?ds) = Ok res" "res = [] \<or> (\<exists>d \<in> set ?ds. res = [dm_dir d] \<and> many_tombstones (dm_meta d))"
      using plan_tombstones_ok [of ranges "rev ?ds"] assms(1) by (auto simp: ranges_ok_def)
    then have pl: "plan ranges dms = Ok res" using p(1) True assms(3) by (simp add: plan_def Let_def)
    have "planned ranges dms [d]" if d: "d \<in> set ?ds" "many_tombstones (dm_meta d)" for d
    proof -
      obtain as bs where "?ds = as @ d # bs" using split_list [OF d(1)] by blast
      then have "sort_blocks dms = as @ [d] @ (bs @ [last (sort_blocks dms)])" using split by simp
      then show ?thesis using d(2) unfolding planned_def by (metis length_Cons list.sel(1) list.size(3) not_Cons_self2 One_nat_def snoc_eq_iff_butlast)
    qed
    then show ?thesis using pl res(2) by (metis list.simps(8,9))
  next
    case False
    then obtain pre post where "?ds = pre @ p @ post" using p(2) by blast
    then have "sort_blocks dms = pre @ p @ (post @ [last (sort_blocks dms)])" using split by simp
    then have "planned ranges dms p" using False p(2) unfolding planned_def by (metis snoc_eq_iff_butlast)
    moreover have "plan ranges dms = Ok (map dm_dir p)" using p(1) False assms(3) by (simp add: plan_def Let_def)
    ultimately show ?thesis by blast
  qed
qed

definition max_level :: "BlockMeta list \<Rightarrow> int \<Rightarrow> int" where
  "max_level bs = fold (\<lambda>b l. if Level (Compaction b) > l then Level (Compaction b) else l) bs"

lemma max_level_Cons: "max_level (b # bs) l = max_level bs (max l (Level (Compaction b)))"
  by (simp add: max_level_def max_def not_less)

lemma max_level: "l \<le> max_level bs l" "b \<in> set bs \<Longrightarrow> Level (Compaction b) \<le> max_level bs l"
  "l < c \<Longrightarrow> \<forall>b \<in> set bs. Level (Compaction b) < c \<Longrightarrow> max_level bs l < c"
proof (induction bs arbitrary: l)
  case (Cons a bs)
  { case 1 show ?case using Cons(1) [of "max l (Level (Compaction a))"] by (simp add: max_level_Cons) }
  { case 2 then show ?case using Cons(1,2) [of "max l (Level (Compaction a))"] by (auto simp: max_level_Cons) }
  { case 3 then show ?case using Cons(3) [of "max l (Level (Compaction a))"] by (simp add: max_level_Cons) }
qed (simp_all add: max_level_def)

text \<open>The meta data of the compacted block.\<close>

lemma compactBlockMetas_ok:
  assumes "bs \<noteq> []"
  obtains c where "compactBlockMetas uid bs = Ok c" "bm_ULID c = uid" "bm_MinTime c = bm_MinTime (hd bs)" "bm_MaxTime c = bm_MaxTime (last bs)"
    "st_NumTombstones (Stats c) = 0" "map bd_ULID (Parents (Compaction c)) = map bm_ULID bs"
    "set (Sources (Compaction c)) = (\<Union>b \<in> set bs. set (Sources (Compaction b)))" "\<not> Failed (Compaction c)"
    "Level (Compaction c) = i64 (max_level bs 0 + 1)"
  using assms that by (force simp: compactBlockMetas_def comp_def max_level_def)

lemma level_increases:
  assumes "\<forall>b \<in> set bs. Level (Compaction b) < MaxInt64" "b \<in> set bs"
  shows "Level (Compaction b) < i64 (max_level bs 0 + 1)"
proof -
  have "0 \<le> max_level bs 0" "max_level bs 0 < MaxInt64" using max_level(1) max_level(3) [of 0 MaxInt64 bs] assms(1) by simp_all
  then have "i64 (max_level bs 0 + 1) = max_level bs 0 + 1" by (simp add: in_i64_def)
  then show ?thesis using max_level(2) [OF assms(2), of 0] by simp
qed

text \<open>Neighbours replaced by their compacted block.\<close>

lemma replaced_before:
  assumes "sorted_wrt before (pre @ bs @ post)" "bs \<noteq> []" "bm_MinTime c = bm_MinTime (hd bs)" "bm_MaxTime c = bm_MaxTime (last bs)"
  shows "sorted_wrt before (pre @ c # post)"
proof -
  have "hd bs \<in> set bs" "last bs \<in> set bs" using assms(2) by simp_all
  then show ?thesis using assms(1,3,4) by (auto simp: sorted_wrt_append before_def)
qed

lemma replaced_span:
  assumes "sorted_wrt before bs" "\<forall>b \<in> set bs. block_ok b" "b \<in> set bs"
  shows "bm_MinTime (hd bs) \<le> bm_MinTime b" "bm_MaxTime b \<le> bm_MaxTime (last bs)"
proof -
  show "bm_MinTime (hd bs) \<le> bm_MinTime b" using assms by (cases bs) (auto simp: before_def block_ok_def intro: order_trans less_imp_le)
  show "bm_MaxTime b \<le> bm_MaxTime (last bs)"
    using assms by (cases bs rule: rev_cases) (auto simp: before_def block_ok_def sorted_wrt_append intro: order_trans less_imp_le)
qed

section \<open>Properties\<close>

text \<open>
  C17. Planning a compaction. On blocks that do not overlap, \<^verbatim>\<open>plan\<close> returns; what it selects are
  neighbours in time without the most recent block: one block with many tombstones, or several blocks in one aligned
  range of a level, none of them marked as failed. The compacted block covers them, has a higher
  level, and in their place leaves a sequence of blocks that do not overlap.
\<close>

theorem plan_replaces_neighbours:
  assumes "ranges_ok ranges" "blocks_ok dms" "dms \<noteq> []" "\<forall>d \<in> set dms. Level (Compaction (dm_meta d)) < MaxInt64"
  shows "case plan ranges dms of Fail e \<Rightarrow> False | Panic \<Rightarrow> False | Ok res \<Rightarrow> res = [] \<or> (\<exists>pre p post c. sort_blocks dms = pre @ p @ post \<and> post \<noteq> [] \<and> p \<noteq> [] \<and> res = map dm_dir p
    \<and> (length p = 1 \<and> many_tombstones (dm_meta (hd p))
       \<or> length p > 1 \<and> (\<forall>d \<in> set p. \<not> Failed (Compaction (dm_meta d))) \<and> (\<exists>iv \<in> set (tl ranges). aligned iv p))
    \<and> compactBlockMetas uid (map dm_meta p) = Ok c \<and> sorted_wrt before (map dm_meta pre @ c # map dm_meta post)
    \<and> (\<forall>d \<in> set p. bm_MinTime c \<le> dm_MinTime d \<and> dm_MaxTime d \<le> bm_MaxTime c \<and> Level (Compaction (dm_meta d)) < Level (Compaction c)))"
proof -
  obtain res where res: "plan ranges dms = Ok res" "res = [] \<or> (\<exists>p. planned ranges dms p \<and> res = map dm_dir p)"
    using plan_planned [OF assms(1-3)] by blast
  show ?thesis
  proof (cases "res = []")
    case False
    then obtain p where p: "planned ranges dms p" "res = map dm_dir p" using res(2) by blast
    then obtain pre post where s: "p \<noteq> []" "sort_blocks dms = pre @ p @ post" "post \<noteq> []"
      and sel: "length p = 1 \<and> many_tombstones (dm_meta (hd p))
        \<or> length p > 1 \<and> (\<forall>d \<in> set p. \<not> Failed (Compaction (dm_meta d))) \<and> (\<exists>iv \<in> set (tl ranges). aligned iv p)"
      unfolding planned_def by blast
    have sub: "set p \<subseteq> set dms" using s(2) sort_blocks_before(2) [OF assms(2)] by (metis set_append set_mset_mset Un_upper1 Un_upper2 order_trans)
    have srt: "sorted_wrt before (map dm_meta pre @ map dm_meta p @ map dm_meta post)" using sort_blocks_before(1) [OF assms(2)] s(2) by simp
    then have in_p: "sorted_wrt before (map dm_meta p)" by (simp add: sorted_wrt_append)
    have ok: "\<forall>b \<in> set (map dm_meta p). block_ok b" using assms(2) sub by (auto simp: blocks_ok_def)
    have "map dm_meta p \<noteq> []" using s(1) by simp
    then obtain c where c: "compactBlockMetas uid (map dm_meta p) = Ok c" "bm_MinTime c = bm_MinTime (hd (map dm_meta p))"
      "bm_MaxTime c = bm_MaxTime (last (map dm_meta p))" "Level (Compaction c) = i64 (max_level (map dm_meta p) 0 + 1)"
      by (rule compactBlockMetas_ok)
    have "\<forall>b \<in> set (map dm_meta p). Level (Compaction b) < MaxInt64" using assms(4) sub by auto
    note level = level_increases [OF this]
    have "sorted_wrt before (map dm_meta pre @ c # map dm_meta post)" by (rule replaced_before [OF srt _ c(2,3)]) (simp add: s(1))
    moreover have "\<forall>d \<in> set p. bm_MinTime c \<le> dm_MinTime d \<and> dm_MaxTime d \<le> bm_MaxTime c \<and> Level (Compaction (dm_meta d)) < Level (Compaction c)"
      using replaced_span [OF in_p ok] level c(2-4) by auto
    ultimately show ?thesis unfolding res(1) outcome.case using p(2) s sel c(1) by blast
  qed (simp add: res(1))
qed

definition example_block :: "u8 \<Rightarrow> int \<Rightarrow> int \<Rightarrow> dirMeta" where
  "example_block k mint maxt = \<lparr>dm_dir = [k], dm_meta = \<lparr>bm_ULID = [k], bm_MinTime = mint, bm_MaxTime = maxt,
     Stats = \<lparr>st_NumSamples = 5, st_NumSeries = 1, st_NumChunks = 1, st_NumTombstones = 0\<rparr>,
     Compaction = \<lparr>Level = 1, Sources = [[k]], Parents = [], Failed = False\<rparr>\<rparr>\<rparr>"

theorem plan_replaces_neighbours_witness:
  "plan [10, 30] [example_block 1 0 10, example_block 4 30 40, example_block 2 10 20, example_block 3 20 30] = Ok [[1], [2], [3]]
   \<and> (\<exists>pre p post c. sort_blocks [example_block 1 0 10, example_block 4 30 40, example_block 2 10 20, example_block 3 20 30] = pre @ p @ post
      \<and> [[1], [2], [3]] = map dm_dir p \<and> compactBlockMetas [9] (map dm_meta p) = Ok c \<and> sorted_wrt before (map dm_meta pre @ c # map dm_meta post))"
proof -
  define dms where "dms = [example_block 1 0 10, example_block 4 30 40, example_block 2 10 20, example_block 3 20 30]"
  have r: "ranges_ok [10, 30]" by (simp add: ranges_ok_def width_ok_def)
  have b: "blocks_ok dms" by (simp add: dms_def blocks_ok_def block_ok_def example_block_def time_ok_def apart_def before_def)
  have l: "dms \<noteq> []" "\<forall>d \<in> set dms. Level (Compaction (dm_meta d)) < MaxInt64" by (simp_all add: dms_def example_block_def)
  have p: "plan [10, 30] dms = Ok [[1], [2], [3]]" unfolding dms_def by code_simp
  have "plan [10, 30] dms = Ok [[1], [2], [3]] \<and> (\<exists>pre p post c. sort_blocks dms = pre @ p @ post
      \<and> [[1], [2], [3]] = map dm_dir p \<and> compactBlockMetas [9] (map dm_meta p) = Ok c \<and> sorted_wrt before (map dm_meta pre @ c # map dm_meta post))"
    using plan_replaces_neighbours [OF r b l, of "[9]"] unfolding p outcome.case list.distinct simp_thms
    by - (erule disjE, simp, elim exE conjE, intro exI conjI, assumption+)
  then show ?thesis unfolding dms_def .
qed

end
