(* ===== verification/Db.thy ===== *)
theory Db
  imports Compact "HOL-Library.AList"
begin

text \<open>
  The blocks of a database, from \<^verbatim>\<open>db.go\<close>: retention, the search for overlapping blocks, reloading the
  blocks of the directory and the loop that compacts them. A block directory is its name with what
  reading its meta file returns; the meta data a block keeps in memory is that of its file. The head
  is not part of this theory.
\<close>

section \<open>Overlapping blocks\<close>

record TimeRange =
  tr_Min :: int
  tr_Max :: int

type_synonym Overlaps = "(TimeRange \<times> BlockMeta list) list"

text \<open>
  The loop over the blocks behind the first: the blocks still pending, whether they have been since the last group,
  and the groups so far.
\<close>

fun overlap_loop :: "BlockMeta list \<Rightarrow> BlockMeta list \<Rightarrow> bool \<Rightarrow> BlockMeta list list \<Rightarrow> BlockMeta list list" where
  "overlap_loop [] pending continuous overlaps = overlaps"
| "overlap_loop (b # bs) pending continuous overlaps =
     (let newPending = filter (\<lambda>p. \<not> bm_MinTime b \<ge> bm_MaxTime p) pending;
          continuous = (continuous \<and> \<not> list_ex (\<lambda>p. bm_MinTime b \<ge> bm_MaxTime p) pending);
          pending = newPending @ [b]
      in if length newPending = 0 then overlap_loop bs pending continuous overlaps
         else if continuous \<and> length overlaps > 0 then
           overlap_loop bs pending continuous (butlast overlaps @ [last overlaps @ [b]])
         else overlap_loop bs pending True (overlaps @ [newPending @ [b]]))"

definition overlap_range :: "BlockMeta list \<Rightarrow> TimeRange" where
  "overlap_range overlap =
     fold (\<lambda>b r. \<lparr>tr_Min = (if tr_Min r < bm_MinTime b then bm_MinTime b else tr_Min r),
                  tr_Max = (if tr_Max r > bm_MaxTime b then bm_MaxTime b else tr_Max r)\<rparr>)
       overlap \<lparr>tr_Min = 0, tr_Max = MaxInt64\<rparr>"

definition OverlappingBlocks :: "BlockMeta list \<Rightarrow> Overlaps" where
  "OverlappingBlocks bm =
     (case bm of
        b # b2 # bs \<Rightarrow> fold (\<lambda>overlap. AList.update (overlap_range overlap) overlap) (overlap_loop (b2 # bs) [b] True []) []
      | _ \<Rightarrow> [])"

definition validateBlockSequence :: "BlockMeta list \<Rightarrow> unit outcome" where
  "validateBlockSequence bs =
     (if length bs \<le> 1 then Ok ()
      else if length (OverlappingBlocks bs) > 0 then Fail (ErrMsg ''block time ranges overlap'') else Ok ())"

section \<open>Reloading\<close>

record block_dir =
  bdir_name :: ULID
  bdir_meta :: "BlockMeta outcome"

record DB =
  db_blocks :: "BlockMeta list"
  RetentionDuration :: u64

definition beyondRetention :: "DB \<Rightarrow> BlockMeta \<Rightarrow> bool" where
  "beyondRetention db meta =
     (if RetentionDuration db = 0 then False
      else if length (db_blocks db) = 0 then False
      else bm_MaxTime meta < i64 (bm_MaxTime (last (db_blocks db)) - sint (RetentionDuration db)))"

text \<open>The first loop over the directories: the blocks that cannot be read and those that may be deleted.\<close>

fun scan_dirs :: "DB \<Rightarrow> block_dir list \<Rightarrow> (ULID \<times> go_error) list \<times> ULID set" where
  "scan_dirs db [] = ([], {})"
| "scan_dirs db (dir # dirs) =
     (let (corrupted, deleteable) = scan_dirs db dirs in
      case bdir_meta dir of
        Ok meta \<Rightarrow>
          if beyondRetention db meta then (corrupted, insert (bm_ULID meta) deleteable)
          else (corrupted, bd_ULID ` set (Parents (Compaction meta)) \<union> deleteable)
      | Fail e \<Rightarrow> ((bdir_name dir, e) # corrupted, deleteable)
      | Panic \<Rightarrow> (corrupted, deleteable))"

text \<open>The second loop; opening a block does not fail.\<close>

fun load_blocks :: "ULID set \<Rightarrow> block_dir list \<Rightarrow> BlockMeta list outcome" where
  "load_blocks deleteable [] = Ok []"
| "load_blocks deleteable (dir # dirs) =
     bind_outcome (bdir_meta dir) (\<lambda>meta.
       if bm_ULID meta \<in> deleteable then load_blocks deleteable dirs
       else bind_outcome (load_blocks deleteable dirs) (\<lambda>blocks. Ok (meta # blocks)))"

text \<open>
  The result: the database, the directories left on disk, and the time the head is truncated at, if
  there is a block.
\<close>

definition reload :: "DB \<Rightarrow> block_dir list \<Rightarrow> (DB \<times> block_dir list \<times> int option) outcome" where
  "reload db dirs =
     (let (corrupted, deleteable) = scan_dirs db dirs in
      case filter (\<lambda>(c, e). c \<notin> deleteable) corrupted of
        (c, e) # _ \<Rightarrow> Fail e
      | [] \<Rightarrow>
          bind_outcome (load_blocks deleteable dirs) (\<lambda>blocks.
            let blocks = sort_Slice (\<lambda>a b. bm_MinTime a < bm_MinTime b) blocks in
            bind_outcome (validateBlockSequence blocks) (\<lambda>_.
              Ok (db\<lparr>db_blocks := blocks\<rparr>, filter (\<lambda>d. bdir_name d \<notin> deleteable) dirs,
                  if length blocks = 0 then None else Some (bm_MaxTime (last blocks))))))"

section \<open>Compacting the blocks on disk\<close>

fun read_metas :: "block_dir list \<Rightarrow> dirMeta list outcome" where
  "read_metas [] = Ok []"
| "read_metas (dir # dirs) =
     bind_outcome (bdir_meta dir) (\<lambda>meta. bind_outcome (read_metas dirs) (\<lambda>dms. Ok (\<lparr>dm_dir = bdir_name dir, dm_meta = meta\<rparr> # dms)))"

definition Plan :: "int list \<Rightarrow> block_dir list \<Rightarrow> gostring list outcome" where
  "Plan ranges dirs = (if length dirs < 1 then Ok [] else bind_outcome (read_metas dirs) (plan ranges))"

text \<open>
  \<^verbatim>\<open>Compact\<close>: a new directory with the meta data of the compacted block. The counts of samples, series and
  chunks are those of the data written, and the new block has no tombstones.
\<close>

fun named_metas :: "block_dir list \<Rightarrow> gostring list \<Rightarrow> BlockMeta list outcome" where
  "named_metas dirs [] = Ok []"
| "named_metas dirs (name # names) =
     (case find (\<lambda>d. bdir_name d = name) dirs of
        None \<Rightarrow> Fail ErrNotFound
      | Some d \<Rightarrow> bind_outcome (bdir_meta d) (\<lambda>meta. bind_outcome (named_metas dirs names) (\<lambda>metas. Ok (meta # metas))))"

definition Compact :: "ULID \<Rightarrow> u64 \<times> u64 \<times> u64 \<Rightarrow> block_dir list \<Rightarrow> gostring list \<Rightarrow> block_dir list outcome" where
  "Compact uid counts dirs names =
     bind_outcome (named_metas dirs names) (\<lambda>metas.
     bind_outcome (compactBlockMetas uid metas) (\<lambda>meta.
       case counts of (samples, series, chks) \<Rightarrow>
         Ok (dirs @ [\<lparr>bdir_name = uid, bdir_meta = Ok (meta\<lparr>Stats := (Stats meta)\<lparr>st_NumSamples := samples, st_NumSeries := series, st_NumChunks := chks\<rparr>\<rparr>)\<rparr>])))"

text \<open>
  The second loop of \<^verbatim>\<open>compact\<close>: plan, compact, reload, until nothing is planned. \<open>uids\<close> and \<open>counts\<close> are the
  identifiers the rounds draw and the counts of what they write.
\<close>

partial_function (option) compact_loop ::
  "int list \<Rightarrow> (nat \<Rightarrow> ULID) \<Rightarrow> (nat \<Rightarrow> u64 \<times> u64 \<times> u64) \<Rightarrow> nat \<Rightarrow> DB \<Rightarrow> block_dir list \<Rightarrow> (DB \<times> block_dir list) outcome option" where
  "compact_loop ranges uids counts n db dirs =
     (case Plan ranges dirs of
        Fail e \<Rightarrow> Some (Fail e)
      | Panic \<Rightarrow> Some Panic
      | Ok names \<Rightarrow>
          if length names = 0 then Some (Ok (db, dirs))
          else
            (case bind_outcome (Compact (uids n) (counts n) dirs names) (reload db) of
               Fail e \<Rightarrow> Some (Fail e)
             | Panic \<Rightarrow> Some Panic
             | Ok r \<Rightarrow> (case r of (db, dirs, _) \<Rightarrow> compact_loop ranges uids counts (Suc n) db dirs)))"

section \<open>Which sequences are valid\<close>

lemma overlap_loop_keeps: "overlaps \<noteq> [] \<Longrightarrow> overlap_loop bs pending continuous overlaps \<noteq> []"
  by (induction bs pending continuous overlaps rule: overlap_loop.induct) (auto simp: Let_def)

lemma before_trans: "before a b \<Longrightarrow> bm_MinTime b \<le> bm_MaxTime b \<Longrightarrow> before b c \<Longrightarrow> before a c"
  by (simp add: before_def)

lemma overlap_loop_none:
  "\<forall>b \<in> set (p # bs). bm_MinTime b \<le> bm_MaxTime b \<Longrightarrow> overlap_loop bs [p] continuous [] = [] \<longleftrightarrow> sorted_wrt before (p # bs)"
proof (induction bs arbitrary: p continuous)
  case (Cons b bs)
  show ?case
  proof (cases "before p b")
    case True
    then have "sorted_wrt before (p # b # bs) \<longleftrightarrow> sorted_wrt before (b # bs)" using before_trans Cons.prems by fastforce
    moreover have "overlap_loop (b # bs) [p] continuous [] = overlap_loop bs [b] False []" using True by (simp add: Let_def before_def)
    ultimately show ?thesis using Cons by simp
  next
    case False
    then show ?thesis using overlap_loop_keeps by (auto simp: Let_def before_def)
  qed
qed simp

lemma fold_update_Nil: "fold (\<lambda>x. AList.update (f x) x) xs al = [] \<longleftrightarrow> xs = [] \<and> al = []"
proof (induction xs arbitrary: al)
  case (Cons x xs)
  have "AList.update (f x) x al \<noteq> []" by (cases al) auto
  with Cons show ?case by simp
qed simp

lemma validateBlockSequence_iff:
  assumes "\<forall>b \<in> set bs. bm_MinTime b \<le> bm_MaxTime b"
  shows "validateBlockSequence bs = (if sorted_wrt before bs then Ok () else Fail (ErrMsg ''block time ranges overlap''))"
proof (cases bs)
  case (Cons b cs)
  show ?thesis
  proof (cases cs)
    case Nil
    then show ?thesis using Cons by (simp add: validateBlockSequence_def)
  next
    case C: (Cons b2 ds)
    have "OverlappingBlocks bs = [] \<longleftrightarrow> overlap_loop cs [b] True [] = []" by (simp add: OverlappingBlocks_def Cons C fold_update_Nil)
    also have "\<dots> \<longleftrightarrow> sorted_wrt before bs" using overlap_loop_none [of b cs] assms Cons by simp
    finally show ?thesis using Cons C by (simp add: validateBlockSequence_def)
  qed
qed (simp add: validateBlockSequence_def)

section \<open>A round of compaction\<close>

text \<open>Directories whose meta files can be read.\<close>

definition on_disk :: "dirMeta list \<Rightarrow> block_dir list" where
  "on_disk = map (\<lambda>d. \<lparr>bdir_name = dm_dir d, bdir_meta = Ok (dm_meta d)\<rparr>)"

abbreviation parents :: "BlockMeta \<Rightarrow> ULID set" where
  "parents meta \<equiv> bd_ULID ` set (Parents (Compaction meta))"

lemma read_metas_on_disk: "read_metas (on_disk dms) = Ok dms"
  by (induction dms) (simp_all add: on_disk_def)

lemma Plan_on_disk: "Plan ranges (on_disk dms) = (if dms = [] then Ok [] else plan ranges dms)"
proof -
  have "length (on_disk dms) = length dms" by (simp add: on_disk_def)
  then show ?thesis by (simp add: Plan_def read_metas_on_disk)
qed

definition deleteable :: "DB \<Rightarrow> dirMeta list \<Rightarrow> ULID set" where
  "deleteable db dms = (\<Union>d \<in> set dms. if beyondRetention db (dm_meta d) then {bm_ULID (dm_meta d)} else parents (dm_meta d))"

lemma scan_on_disk: "scan_dirs db (on_disk dms) = ([], deleteable db dms)"
  by (induction dms) (auto simp: on_disk_def deleteable_def)

lemma load_on_disk: "load_blocks D (on_disk dms) = Ok (map dm_meta (filter (\<lambda>d. bm_ULID (dm_meta d) \<notin> D) dms))"
  by (induction dms) (auto simp: on_disk_def)

lemma insert_by_map: "insert_by lt (f x) (map f ys) = map f (insert_by (\<lambda>a b. lt (f a) (f b)) x ys)"
  by (induction ys) auto

lemma sort_Slice_map: "sort_Slice lt (map f xs) = map f (sort_Slice (\<lambda>a b. lt (f a) (f b)) xs)"
  by (induction xs) (auto simp: insert_by_map)

lemma reload_on_disk:
  assumes "\<forall>d \<in> set dms. bm_ULID (dm_meta d) = dm_dir d" "dms' = filter (\<lambda>d. dm_dir d \<notin> deleteable db dms) dms" "blocks_ok dms'"
  shows "\<exists>t. reload db (on_disk dms) = Ok (db\<lparr>db_blocks := map dm_meta (sort_blocks dms')\<rparr>, on_disk dms', t)"
proof -
  let ?D = "deleteable db dms"
  have "load_blocks ?D (on_disk dms) = Ok (map dm_meta dms')" using assms(1,2) by (simp add: load_on_disk cong: filter_cong)
  moreover have "sort_Slice (\<lambda>a b. bm_MinTime a < bm_MinTime b) (map dm_meta dms') = map dm_meta (sort_blocks dms')"
    by (simp add: sort_Slice_map sort_blocks_def)
  moreover have "set (sort_blocks dms') = set dms'" by (simp add: sort_blocks_def)
  then have "\<forall>b \<in> set (map dm_meta (sort_blocks dms')). bm_MinTime b \<le> bm_MaxTime b"
    using assms(3) by (auto simp: blocks_ok_def block_ok_def less_imp_le)
  from validateBlockSequence_iff [OF this] have "validateBlockSequence (map dm_meta (sort_blocks dms')) = Ok ()"
    using sort_blocks_before(1) [OF assms(3)] by simp
  moreover have "filter (\<lambda>d. bdir_name d \<notin> ?D) (on_disk dms) = on_disk dms'" by (simp add: on_disk_def assms(2) filter_map comp_def)
  ultimately show ?thesis by (simp add: reload_def scan_on_disk Let_def)
qed

text \<open>
  The directory between two rounds: blocks that do not overlap, named after their identifiers, none of them
  the parent of another; the identifiers still to be drawn are new.
\<close>

definition disk_ok :: "(nat \<Rightarrow> ULID) \<Rightarrow> nat \<Rightarrow> dirMeta list \<Rightarrow> bool" where
  "disk_ok uids n dms \<longleftrightarrow> blocks_ok dms \<and> distinct (map dm_dir dms) \<and> (\<forall>d \<in> set dms. bm_ULID (dm_meta d) = dm_dir d)
     \<and> (\<forall>d \<in> set dms. parents (dm_meta d) \<inter> dm_dir ` set dms = {})
     \<and> (\<forall>i \<ge> n. uids i \<notin> dm_dir ` set dms \<and> (\<forall>d \<in> set dms. uids i \<notin> parents (dm_meta d)))"

definition work :: "dirMeta list \<Rightarrow> nat" where
  "work dms = length dms + length (filter (\<lambda>d. st_NumTombstones (Stats (dm_meta d)) \<noteq> 0) dms)"

lemma work_filter: "work (filter P xs) \<le> work xs"
  by (induction xs) (auto simp: work_def)

definition covered_by :: "dirMeta list \<Rightarrow> dirMeta list \<Rightarrow> bool" where
  "covered_by dms dms' \<longleftrightarrow> (\<forall>d \<in> set dms. \<exists>d' \<in> set dms'. dm_MinTime d' \<le> dm_MinTime d \<and> dm_MaxTime d \<le> dm_MaxTime d')"

lemma named_metas_on_disk:
  assumes "distinct (map dm_dir dms)" "set p \<subseteq> set dms"
  shows "named_metas (on_disk dms) (map dm_dir p) = Ok (map dm_meta p)"
  using assms(2)
proof (induction p)
  case (Cons d p)
  have "d \<in> set dms" using Cons.prems by simp
  with assms(1) have "find (\<lambda>e. bdir_name e = dm_dir d) (on_disk dms) = Some \<lparr>bdir_name = dm_dir d, bdir_meta = Ok (dm_meta d)\<rparr>"
    by (induction dms) (auto simp: on_disk_def image_iff)
  with Cons show ?case by simp
qed simp

text \<open>What one round makes of the directory: the planned blocks and those beyond retention go, the compacted one comes.\<close>

lemma round_blocks:
  assumes ok: "disk_ok uids n dms" and srt: "sort_blocks dms = pre @ p @ post" "p \<noteq> []"
    and c: "bm_ULID c = uids n" "bm_MinTime c = dm_MinTime (hd p)" "bm_MaxTime c = dm_MaxTime (last p)" "st_NumTombstones (Stats c) = 0"
      "parents c = dm_dir ` set p"
    and new: "new = \<lparr>dm_dir = uids n, dm_meta = c\<rparr>" and D: "D = deleteable db (dms @ [new])" and inj: "inj uids"
    and dms': "dms' = filter (\<lambda>d. dm_dir d \<notin> D) (dms @ [new])"
  shows "disk_ok uids (Suc n) dms'" "length p > 1 \<or> length p = 1 \<and> st_NumTombstones (Stats (dm_meta (hd p))) \<noteq> 0 \<Longrightarrow> work dms' < work dms"
    "RetentionDuration db = 0 \<Longrightarrow> covered_by dms dms'"
proof -
  have bo: "blocks_ok dms" and dist: "distinct (map dm_dir dms)" and name: "\<forall>d \<in> set dms. bm_ULID (dm_meta d) = dm_dir d"
    and par: "\<forall>d \<in> set dms. parents (dm_meta d) \<inter> dm_dir ` set dms = {}"
    and fresh: "\<forall>i \<ge> n. uids i \<notin> dm_dir ` set dms \<and> (\<forall>d \<in> set dms. uids i \<notin> parents (dm_meta d))"
    using ok by (simp_all add: disk_ok_def)
  have ms: "mset dms = mset (pre @ p @ post)" using sort_blocks_before(2) [OF bo] srt(1) by simp
  then have sets: "set dms = set pre \<union> set p \<union> set post" by (metis set_append set_mset_mset sup_assoc)
  have order: "sorted_wrt before (map dm_meta pre @ map dm_meta p @ map dm_meta post)" using sort_blocks_before(1) [OF bo] srt(1) by simp
  have okp: "\<forall>b \<in> set (map dm_meta p). block_ok b" using bo sets by (auto simp: blocks_ok_def)
  have "sorted_wrt before (map dm_meta p)" using order by (simp add: sorted_wrt_append)
  note span = replaced_span [OF this okp]
  have hd_last: "hd (map dm_meta p) = dm_meta (hd p)" "last (map dm_meta p) = dm_meta (last p)" using srt(2) by (simp_all add: hd_map last_map)
  have cover: "bm_MinTime c \<le> dm_MinTime d \<and> dm_MaxTime d \<le> bm_MaxTime c" if "d \<in> set p" for d
    using span [of "dm_meta d"] that c(2,3) hd_last by simp
  have pD: "dm_dir ` set p \<subseteq> D"
  proof
    fix x assume "x \<in> dm_dir ` set p"
    then obtain d where d: "d \<in> set p" "x = dm_dir d" by auto
    show "x \<in> D"
    proof (cases "beyondRetention db c")
      case True
      then have "beyondRetention db (dm_meta d)" using cover [OF d(1)] by (auto simp: beyondRetention_def split: if_splits)
      moreover have "d \<in> set dms" "bm_ULID (dm_meta d) = x" using d sets name by auto
      ultimately show ?thesis unfolding D deleteable_def by (auto intro!: bexI [of _ d])
    next
      case False
      then show ?thesis using d c(5) by (auto simp: D deleteable_def new)
    qed
  qed
  let ?keep = "\<lambda>d. dm_dir d \<notin> D"
  have "\<forall>x. x \<in> set p \<longrightarrow> dm_dir x \<in> D" using pD by auto
  then have ms': "mset dms' = mset (filter ?keep (pre @ new # post))" unfolding dms' using ms by simp
  have "\<forall>d \<in> set (pre @ new # post). block_ok (dm_meta d)"
    using bo sets okp c(2,3) span [of "dm_meta (hd p)"] srt(2) hd_last by (auto simp: blocks_ok_def block_ok_def new) (force intro: less_le_trans)+
  moreover have "sorted_wrt before (map dm_meta (pre @ new # post))"
    using replaced_before [OF order _ _ _ , of c] srt(2) c(2,3) hd_last by (simp add: new)
  then have "sorted_wrt apart (map dm_meta (filter ?keep (pre @ new # post)))"
    unfolding sorted_wrt_map by (intro sorted_wrt_filter) (auto intro: sorted_wrt_mono_rel [rotated] simp: apart_def)
  then have "sorted_wrt apart (map dm_meta dms')"
    by (rule sorted_wrt_mset [rotated]) (use ms' in \<open>auto simp: apart_def\<close>)
  ultimately have bo': "blocks_ok dms'" using ms' unfolding blocks_ok_def by (metis filter_is_subset set_mset_mset subsetD)
  have uid: "uids n \<notin> dm_dir ` set dms" using fresh by simp
  have set': "set dms' = {d \<in> insert new (set dms). dm_dir d \<notin> D}" unfolding dms' set_filter by simp
  have not_retired: "parents (dm_meta d) \<subseteq> D" if "d \<in> set dms'" for d
  proof -
    have d: "d \<in> set (dms @ [new])" "dm_dir d \<notin> D" "bm_ULID (dm_meta d) = dm_dir d" using that name c(1) by (auto simp: set' new)
    then have "(if beyondRetention db (dm_meta d) then {bm_ULID (dm_meta d)} else parents (dm_meta d)) \<subseteq> D" unfolding D deleteable_def by blast
    then show ?thesis using d(2,3) by (auto split: if_splits)
  qed
  show "disk_ok uids (Suc n) dms'"
    unfolding disk_ok_def
  proof (intro conjI ballI allI impI)
    show "blocks_ok dms'" by (rule bo')
    show "distinct (map dm_dir dms')" using dist uid unfolding dms' by (intro distinct_map_filter) (auto simp: new)
    show "bm_ULID (dm_meta d) = dm_dir d" if "d \<in> set dms'" for d using that name c(1) by (auto simp: set' new)
    show "parents (dm_meta d) \<inter> dm_dir ` set dms' = {}" if "d \<in> set dms'" for d using not_retired [OF that] by (auto simp: set')
    show "uids i \<notin> dm_dir ` set dms'" if "i \<ge> Suc n" for i
    proof -
      have "uids i \<notin> dm_dir ` set dms" using fresh that by simp
      moreover have "uids i \<noteq> uids n" using inj that by (auto dest: injD)
      ultimately show ?thesis by (auto simp: set' new)
    qed
    show "uids i \<notin> parents (dm_meta d)" if "i \<ge> Suc n" "d \<in> set dms'" for i d
    proof -
      have "uids i \<notin> dm_dir ` set dms" "\<forall>e \<in> set dms. uids i \<notin> parents (dm_meta e)" using fresh that(1) by simp_all
      moreover have "dm_dir ` set p \<subseteq> dm_dir ` set dms" using sets by blast
      moreover have "d = new \<or> d \<in> set dms" using that(2) by (simp add: set')
      ultimately have "uids i \<notin> parents c" "d = new \<or> d \<in> set dms" unfolding c(5) by blast+
      then show ?thesis using \<open>\<forall>e \<in> set dms. uids i \<notin> parents (dm_meta e)\<close> by (auto simp: new)
    qed
  qed
  show "work dms' < work dms" if "length p > 1 \<or> length p = 1 \<and> st_NumTombstones (Stats (dm_meta (hd p))) \<noteq> 0"
  proof -
    let ?t = "\<lambda>d. st_NumTombstones (Stats (dm_meta d)) \<noteq> 0"
    have w: "work xs = size (mset xs) + size (filter_mset ?t (mset xs))" for xs by (simp add: work_def flip: size_mset)
    have "work dms' = work (filter ?keep (pre @ new # post))" by (simp add: w ms')
    also have "\<dots> \<le> work (pre @ new # post)" by (rule work_filter)
    also have "\<dots> < work (pre @ p @ post)"
      using that c(4) srt(2) by (cases p) (auto simp: work_def new)
    also have "\<dots> = work dms" by (simp only: w ms)
    finally show ?thesis .
  qed
  show "covered_by dms dms'" if "RetentionDuration db = 0"
    unfolding covered_by_def
  proof
    fix d assume d: "d \<in> set dms"
    have De: "D = (\<Union>e \<in> set dms. parents (dm_meta e)) \<union> dm_dir ` set p"
      using that c(5) by (auto simp: D deleteable_def beyondRetention_def new)
    have "new \<in> set dms'" using fresh uid sets by (auto simp: set' De new)
    moreover have "d \<in> set dms'" if "d \<notin> set p"
    proof -
      have "dm_dir d \<notin> dm_dir ` set p" using that d sets dist by (auto simp: distinct_map inj_on_def)
      then show ?thesis using d par by (auto simp: set' De)
    qed
    ultimately show "\<exists>d' \<in> set dms'. dm_MinTime d' \<le> dm_MinTime d \<and> dm_MaxTime d \<le> dm_MaxTime d'"
    proof (cases "d \<in> set p")
      case True
      then show ?thesis using \<open>new \<in> set dms'\<close> cover [of d] by (intro bexI [of _ new]) (simp_all add: new)
    qed auto
  qed
qed

lemma compact_round:
  assumes ok: "disk_ok uids n dms" and r: "ranges_ok ranges" and inj: "inj uids" and names: "Plan ranges (on_disk dms) = Ok names" "names \<noteq> []"
  shows "\<exists>db' dms' t. bind_outcome (Compact (uids n) cs (on_disk dms) names) (reload db) = Ok (db', on_disk dms', t) \<and> disk_ok uids (Suc n) dms'
    \<and> work dms' < work dms \<and> RetentionDuration db' = RetentionDuration db \<and> (RetentionDuration db = 0 \<longrightarrow> covered_by dms dms')"
proof -
  have ne: "dms \<noteq> []" "plan ranges dms = Ok names" using names by (auto simp: Plan_on_disk split: if_splits)
  then obtain p where p: "planned ranges dms p" "names = map dm_dir p"
    using plan_planned [OF r _ ne(1)] ok names(2) by (auto simp: disk_ok_def)
  then obtain pre post where srt: "sort_blocks dms = pre @ p @ post" "p \<noteq> []" by (auto simp: planned_def)
  have "set (sort_blocks dms) = set dms" by (simp add: sort_blocks_def)
  then have sub: "set p \<subseteq> set dms" using srt(1) by auto
  have dist: "distinct (map dm_dir dms)" and name: "\<forall>d \<in> set dms. bm_ULID (dm_meta d) = dm_dir d" using ok by (simp_all add: disk_ok_def)
  have "map dm_meta p \<noteq> []" using srt(2) by simp
  then obtain c where c: "compactBlockMetas (uids n) (map dm_meta p) = Ok c" "bm_ULID c = uids n" "bm_MinTime c = bm_MinTime (hd (map dm_meta p))"
    "bm_MaxTime c = bm_MaxTime (last (map dm_meta p))" "st_NumTombstones (Stats c) = 0" "map bd_ULID (Parents (Compaction c)) = map bm_ULID (map dm_meta p)"
    by (rule compactBlockMetas_ok)
  obtain s1 s2 s3 where cs: "cs = (s1, s2, s3)" by (cases cs)
  define c' where "c' = c\<lparr>Stats := (Stats c)\<lparr>st_NumSamples := s1, st_NumSeries := s2, st_NumChunks := s3\<rparr>\<rparr>"
  define new where "new = \<lparr>dm_dir = uids n, dm_meta = c'\<rparr>"
  have "parents c = (\<lambda>d. bm_ULID (dm_meta d)) ` set p" using arg_cong [OF c(6), of set] by (simp add: image_image)
  also have "\<dots> = dm_dir ` set p" using name sub by (intro image_cong) auto
  finally have "parents c = dm_dir ` set p" .
  then have c': "bm_ULID c' = uids n" "bm_MinTime c' = dm_MinTime (hd p)" "bm_MaxTime c' = dm_MaxTime (last p)" "st_NumTombstones (Stats c') = 0"
    "parents c' = dm_dir ` set p" using c(2-5) srt(2) by (simp_all add: c'_def hd_map last_map)
  define dms' where "dms' = filter (\<lambda>d. dm_dir d \<notin> deleteable db (dms @ [new])) (dms @ [new])"
  note round = round_blocks [OF ok srt c' new_def refl inj dms'_def]
  have "length p > 1 \<or> length p = 1 \<and> st_NumTombstones (Stats (dm_meta (hd p))) \<noteq> 0"
    using p(1) by (auto simp: planned_def many_tombstones_def)
  then have "work dms' < work dms" by (rule round(2))
  moreover have "\<forall>d \<in> set (dms @ [new]). bm_ULID (dm_meta d) = dm_dir d" using name c'(1) by (simp add: new_def)
  from reload_on_disk [OF this dms'_def] round(1) obtain t where
    "reload db (on_disk (dms @ [new])) = Ok (db\<lparr>db_blocks := map dm_meta (sort_blocks dms')\<rparr>, on_disk dms', t)" by (auto simp: disk_ok_def)
  moreover have "Compact (uids n) cs (on_disk dms) names = Ok (on_disk (dms @ [new]))"
  proof -
    have "on_disk (dms @ [new]) = on_disk dms @ [\<lparr>bdir_name = uids n, bdir_meta = Ok c'\<rparr>]" by (simp add: on_disk_def new_def)
    then show ?thesis using c(1) by (simp add: Compact_def p(2) named_metas_on_disk [OF dist sub] cs c'_def)
  qed
  ultimately show ?thesis using round(1,3) by auto
qed

lemma covered_by_trans: "covered_by a b \<Longrightarrow> covered_by b c \<Longrightarrow> covered_by a c"
  unfolding covered_by_def by (meson order_trans)

lemma compact_loop_ends:
  assumes "ranges_ok ranges" "inj uids" "disk_ok uids n dms"
  shows "\<exists>db' dms' n'. compact_loop ranges uids counts n db (on_disk dms) = Some (Ok (db', on_disk dms')) \<and> Plan ranges (on_disk dms') = Ok []
    \<and> disk_ok uids n' dms' \<and> (RetentionDuration db = 0 \<longrightarrow> covered_by dms dms')"
  using assms(3)
proof (induction "work dms" arbitrary: dms n db rule: less_induct)
  case less
  have "\<exists>names. Plan ranges (on_disk dms) = Ok names"
    using plan_planned [OF assms(1), of dms] less.prems by (auto simp: Plan_on_disk disk_ok_def)
  then obtain names where names: "Plan ranges (on_disk dms) = Ok names" by blast
  show ?case
  proof (cases "names = []")
    case True
    then show ?thesis using names less.prems by (subst compact_loop.simps) (auto simp: covered_by_def)
  next
    case False
    from compact_round [OF less.prems assms(1,2) names False, of "counts n" db] obtain db' dms' t where
      r: "bind_outcome (Compact (uids n) (counts n) (on_disk dms) names) (reload db) = Ok (db', on_disk dms', t)" "disk_ok uids (Suc n) dms'"
        "work dms' < work dms" "RetentionDuration db' = RetentionDuration db" "RetentionDuration db = 0 \<longrightarrow> covered_by dms dms'" by blast
    from less.hyps [OF r(3,2), of db'] obtain db'' dms'' n' where
      "compact_loop ranges uids counts (Suc n) db' (on_disk dms') = Some (Ok (db'', on_disk dms''))" "Plan ranges (on_disk dms'') = Ok []"
      "disk_ok uids n' dms''" "RetentionDuration db' = 0 \<longrightarrow> covered_by dms' dms''" by blast
    then show ?thesis using names False r(1,4,5) covered_by_trans
      by (subst compact_loop.simps) (auto simp del: bind_outcome_Ok_iff intro!: exI [of _ n'])
  qed
qed

section \<open>Properties\<close>

text \<open>Validating a sequence of blocks: it is accepted exactly if no two blocks overlap in time, in the order given.\<close>

theorem sequence_valid_iff_apart:
  assumes "\<forall>b \<in> set bs. bm_MinTime b \<le> bm_MaxTime b"
  shows "validateBlockSequence bs =
    (if sorted_wrt (\<lambda>a b. bm_MaxTime a \<le> bm_MinTime b) bs then Ok () else Fail (ErrMsg ''block time ranges overlap''))"
  unfolding validateBlockSequence_iff [OF assms] before_def ..

text \<open>
  C16. Compacting the blocks on disk ends. From a directory of blocks that do not overlap, the loop
  of planning, compacting and reloading returns without an error after finitely many rounds; then nothing is left to
  plan, the blocks still do not overlap, and, if no retention is configured, every block is
  covered by one that is left. New blocks get new identifiers.
\<close>

theorem compaction_ends:
  assumes "ranges_ok ranges" "inj uids" "disk_ok uids 0 dms"
  shows "\<exists>db' dms'. compact_loop ranges uids counts 0 db (on_disk dms) = Some (Ok (db', on_disk dms')) \<and> Plan ranges (on_disk dms') = Ok []
    \<and> blocks_ok dms' \<and> (RetentionDuration db = 0 \<longrightarrow> covered_by dms dms')"
proof -
  obtain db' dms' n' where "compact_loop ranges uids counts 0 db (on_disk dms) = Some (Ok (db', on_disk dms'))" "Plan ranges (on_disk dms') = Ok []"
    "disk_ok uids n' dms'" "RetentionDuration db = 0 \<longrightarrow> covered_by dms dms'"
    using compact_loop_ends [OF assms, of counts db] by blast
  then show ?thesis by (auto simp: disk_ok_def)
qed

theorem sequence_valid_iff_apart_witness:
  "validateBlockSequence (map dm_meta [example_block 1 0 10, example_block 2 10 20]) = Ok ()
   \<and> validateBlockSequence (map dm_meta [example_block 1 0 10, example_block 2 9 20]) = Fail (ErrMsg ''block time ranges overlap'')"
proof -
  have "\<forall>b \<in> set (map dm_meta [example_block 1 0 10, example_block 2 10 20]). bm_MinTime b \<le> bm_MaxTime b"
    "\<forall>b \<in> set (map dm_meta [example_block 1 0 10, example_block 2 9 20]). bm_MinTime b \<le> bm_MaxTime b" by (simp_all add: example_block_def)
  note this [THEN sequence_valid_iff_apart]
  then show ?thesis by (simp add: example_block_def)
qed

theorem compaction_ends_witness:
  "\<exists>db' dms'. compact_loop [10, 30] (\<lambda>i. replicate (i + 5) 9) (\<lambda>_. (15, 1, 3)) 0 \<lparr>db_blocks = [], RetentionDuration = 0\<rparr>
      (on_disk [example_block 1 0 10, example_block 2 10 20, example_block 3 20 30, example_block 4 30 40]) = Some (Ok (db', on_disk dms'))
    \<and> Plan [10, 30] (on_disk dms') = Ok [] \<and> blocks_ok dms'
    \<and> covered_by [example_block 1 0 10, example_block 2 10 20, example_block 3 20 30, example_block 4 30 40] dms'"
proof -
  have "ranges_ok [10, 30]" by (simp add: ranges_ok_def width_ok_def)
  moreover have "inj (\<lambda>i. replicate (i + 5) (9 :: u8))" by (auto intro!: injI)
  moreover have "disk_ok (\<lambda>i. replicate (i + 5) 9) 0 [example_block 1 0 10, example_block 2 10 20, example_block 3 20 30, example_block 4 30 40]"
    by (auto simp: disk_ok_def blocks_ok_def block_ok_def example_block_def time_ok_def apart_def before_def dest: arg_cong [of _ _ length])
  ultimately show ?thesis
    using compaction_ends [of "[10, 30]" "\<lambda>i. replicate (i + 5) 9" "[example_block 1 0 10, example_block 2 10 20, example_block 3 20 30, example_block 4 30 40]"
        "\<lambda>_. (15, 1, 3)" "\<lparr>db_blocks = [], RetentionDuration = 0\<rparr>"] by simp
qed

text \<open>
  C35. A block that cannot be read stops a reload, also when it may be deleted: the first loop sets such
  blocks aside, the second reads every meta file again and fails. So a block
  that a crash left half deleted is never removed.
\<close>

theorem unreadable_block_stops_reload:
  assumes "dir \<in> set dirs" "bdir_meta dir = Fail e"
  shows "\<exists>e'. reload db dirs = Fail e' \<or> reload db dirs = Panic"
proof -
  have "\<exists>e'. load_blocks D dirs = Fail e' \<or> load_blocks D dirs = Panic" for D
    using assms
  proof (induction dirs)
    case (Cons d dirs)
    show ?case
    proof (cases "bdir_meta d")
      case (Ok meta)
      then have "dir \<in> set dirs" using Cons.prems by auto
      then show ?thesis using Cons.IH Cons.prems(2) Ok by fastforce
    qed auto
  qed simp
  then have "\<exists>e'. bind_outcome (load_blocks D dirs) f = Fail e' \<or> bind_outcome (load_blocks D dirs) f = (Panic :: (DB \<times> block_dir list \<times> int option) outcome)" for D f
    by (metis bind_outcome.simps(2,3))
  then show ?thesis by (simp add: reload_def Let_def split: prod.splits list.splits)
qed

theorem unreadable_block_stops_reload_witness:
  "\<exists>e'. reload \<lparr>db_blocks = [], RetentionDuration = 0\<rparr>
      [\<lparr>bdir_name = [1], bdir_meta = Fail EOF\<rparr>,
       \<lparr>bdir_name = [2], bdir_meta = Ok \<lparr>bm_ULID = [2], bm_MinTime = 0, bm_MaxTime = 10, Stats = \<lparr>st_NumSamples = 5, st_NumSeries = 1, st_NumChunks = 1, st_NumTombstones = 0\<rparr>,
         Compaction = \<lparr>Level = 2, Sources = [[1]], Parents = [\<lparr>bd_ULID = [1], bd_MinTime = 0, bd_MaxTime = 10\<rparr>], Failed = False\<rparr>\<rparr>\<rparr>] = Fail e'"
proof -
  let ?dirs = "[\<lparr>bdir_name = [1], bdir_meta = Fail EOF\<rparr>,
       \<lparr>bdir_name = [2], bdir_meta = Ok \<lparr>bm_ULID = [2], bm_MinTime = 0, bm_MaxTime = 10, Stats = \<lparr>st_NumSamples = 5, st_NumSeries = 1, st_NumChunks = 1, st_NumTombstones = 0\<rparr>,
         Compaction = \<lparr>Level = 2, Sources = [[1]], Parents = [\<lparr>bd_ULID = [1], bd_MinTime = 0, bd_MaxTime = 10\<rparr>], Failed = False\<rparr>\<rparr>\<rparr>]"
  have "reload \<lparr>db_blocks = [], RetentionDuration = 0\<rparr> ?dirs \<noteq> Panic" by (simp add: reload_def Let_def beyondRetention_def)
  then show ?thesis using unreadable_block_stops_reload [of "\<lparr>bdir_name = [1], bdir_meta = Fail EOF\<rparr>" ?dirs EOF "\<lparr>db_blocks = [], RetentionDuration = 0\<rparr>"] by auto
qed

end
