(* ===== verification/Db_Query.thy ===== *)
theory Db_Query
  imports Merged_Query Db
begin

text \<open>
  Queries of the database: \<^verbatim>\<open>NewBlockQuerier\<close> of \<^verbatim>\<open>querier.go\<close> and \<^verbatim>\<open>DB.Querier\<close> of \<^verbatim>\<open>db.go\<close>, which
  puts a merged querier over the blocks that overlap the time range and the head.
\<close>

section \<open>Opening a querier\<close>

text \<open>A block or the head, whose readers may fail to open.\<close>

record 'c openBlock =
  ob_Index :: "(IndexReader \<times> (u64 \<Rightarrow> (Labels \<times> Meta list) outcome)) outcome"
  ob_Chunks :: "(u64 \<Rightarrow> 'c outcome) outcome"
  ob_Tombstones :: "(u64 \<Rightarrow> Intervals outcome) outcome"

definition NewBlockQuerier :: "'c openBlock \<Rightarrow> int \<Rightarrow> int \<Rightarrow> 'c blockQuerier outcome" where
  "NewBlockQuerier b mint maxt =
     bind_outcome (ob_Index b) (\<lambda>(indexr, series).
     bind_outcome (ob_Chunks b) (\<lambda>chunkr.
     bind_outcome (ob_Tombstones b) (\<lambda>tombsr.
       Ok \<lparr>bq_block = \<lparr>br_Index = indexr, br_Series = series, br_Chunk = chunkr, br_Tombstones = tombsr\<rparr>, bq_mint = mint, bq_maxt = maxt\<rparr>)))"

definition Block_OverlapsClosedInterval :: "BlockMeta \<Rightarrow> int \<Rightarrow> int \<Rightarrow> bool" where
  "Block_OverlapsClosedInterval meta mint maxt \<longleftrightarrow> bm_MinTime meta \<le> maxt \<and> mint < bm_MaxTime meta"

definition DB_Querier :: "(BlockMeta \<times> 'c openBlock) list \<Rightarrow> int \<Rightarrow> 'c openBlock \<Rightarrow> int \<Rightarrow> int \<Rightarrow> 'c blockQuerier list outcome" where
  "DB_Querier dbs head_MinTime head mint maxt =
     (let blocks = map snd (filter (\<lambda>(meta, b). Block_OverlapsClosedInterval meta mint maxt) dbs) @ (if maxt \<ge> head_MinTime then [head] else []) in
      all_outcomes (\<lambda>b. NewBlockQuerier b mint maxt) blocks)"

section \<open>What the querier delivers\<close>

text \<open>A querier of one block, opened in a range, that answers with samples of this range from \<open>lo\<close> up to \<open>hi\<close>.\<close>

definition answers_within :: "('c \<Rightarrow> memIterator outcome) \<Rightarrow> Matcher list \<Rightarrow> int \<Rightarrow> int \<Rightarrow> 'c openBlock \<Rightarrow> (int \<Rightarrow> bool) \<Rightarrow> (Labels \<times> sample list) list \<Rightarrow> bool" where
  "answers_within chunk_it ms mint maxt b own r \<longleftrightarrow>
     (\<exists>q. NewBlockQuerier b mint maxt = Ok q \<and> block_answers chunk_it ms q r) \<and> by_labels r
     \<and> (\<forall>(ls, xs) \<in> set r. sorted_wrt (<) (map fst xs) \<and> (\<forall>x \<in> set xs. mint \<le> fst x \<and> fst x \<le> maxt \<and> own (fst x)))"

abbreviation own_time :: "BlockMeta \<Rightarrow> int \<Rightarrow> bool" where
  "own_time meta t \<equiv> bm_MinTime meta \<le> t \<and> t < bm_MaxTime meta"

lemma all_outcomes_answers:
  assumes "list_all2 (\<lambda>b r. \<exists>q. f b = Ok q \<and> P q r) bs rs"
  shows "\<exists>qs. all_outcomes f bs = Ok qs \<and> list_all2 P qs rs"
  using assms by (induction bs rs rule: list_all2_induct) fastforce+

lemma part_samples_in: "x \<in> set (part_samples (map_of r ls)) \<Longrightarrow> \<exists>xs. (ls, xs) \<in> set r \<and> x \<in> set xs"
  by (cases "map_of r ls") (auto simp: part_samples_def dest: map_of_SomeD)

lemma outside_no_samples:
  assumes "answers_within chunk_it ms mint maxt b (own_time meta) r" "\<not> Block_OverlapsClosedInterval meta mint maxt"
  shows "part_samples (map_of r ls) = []"
proof -
  have False if "x \<in> set (part_samples (map_of r ls))" for x
    using part_samples_in [OF that] assms by (force simp: answers_within_def Block_OverlapsClosedInterval_def)
  then show ?thesis by (cases "part_samples (map_of r ls)") auto
qed

lemma answers_within_sorted: "answers_within chunk_it ms mint maxt b own r \<Longrightarrow> sorted_wrt (<) (map fst (part_samples (map_of r ls)))"
  by (auto simp: answers_within_def part_samples_def split: option.splits dest: map_of_SomeD)

text \<open>The blocks left by the overlap test, with their answers.\<close>

lemma overlapping_answers:
  assumes "list_all2 (\<lambda>(meta, b) r. answers_within chunk_it ms mint maxt b (own_time meta) r) blocks rs"
  shows "\<exists>rs'. list_all2 (\<lambda>b r. \<exists>q. NewBlockQuerier b mint maxt = Ok q \<and> block_answers chunk_it ms q r)
        (map snd (filter (\<lambda>(meta, b). Block_OverlapsClosedInterval meta mint maxt) blocks)) rs' \<and> set rs' \<subseteq> set rs
    \<and> (\<forall>ls. concat (map (\<lambda>r. part_samples (map_of r ls)) rs') = concat (map (\<lambda>r. part_samples (map_of r ls)) rs))"
  using assms
proof (induction blocks rs rule: list_all2_induct)
  case (Cons mb blocks r rs)
  then obtain rs' where rs': "list_all2 (\<lambda>b r. \<exists>q. NewBlockQuerier b mint maxt = Ok q \<and> block_answers chunk_it ms q r)
        (map snd (filter (\<lambda>(meta, b). Block_OverlapsClosedInterval meta mint maxt) blocks)) rs'" "set rs' \<subseteq> set rs"
    "\<forall>ls. concat (map (\<lambda>r. part_samples (map_of r ls)) rs') = concat (map (\<lambda>r. part_samples (map_of r ls)) rs)" by blast
  obtain meta b where mb: "mb = (meta, b)" by (cases mb)
  have w: "answers_within chunk_it ms mint maxt b (own_time meta) r" using Cons.hyps(1) mb by simp
  show ?case
  proof (cases "Block_OverlapsClosedInterval meta mint maxt")
    case True
    then show ?thesis using rs' w mb by (intro exI [of _ "r # rs'"]) (auto simp: answers_within_def)
  next
    case False
    then show ?thesis using rs' mb outside_no_samples [OF w False] by (intro exI [of _ rs']) auto
  qed
qed simp

lemma head_empty:
  assumes "answers_within chunk_it ms mint maxt b (\<lambda>t. lo \<le> t \<and> P t) r" "maxt < lo"
  shows "part_samples (map_of r ls) = []"
proof -
  have False if "x \<in> set (part_samples (map_of r ls))" for x
    using part_samples_in [OF that] assms by (force simp: answers_within_def)
  then show ?thesis by (cases "part_samples (map_of r ls)") auto
qed

text \<open>Blocks that do not overlap give samples in order.\<close>

lemma blocks_in_order:
  assumes "list_all2 (\<lambda>(meta, b) r. answers_within chunk_it ms mint maxt b (own_time meta) r) blocks rs"
    and "sorted_wrt (\<lambda>a b. bm_MaxTime a \<le> bm_MinTime b) (map fst blocks)"
  shows "sorted_wrt (<) (map fst (concat (map (\<lambda>r. part_samples (map_of r ls)) rs)))
    \<and> (\<forall>x \<in> set (concat (map (\<lambda>r. part_samples (map_of r ls)) rs)). \<exists>meta \<in> set (map fst blocks). own_time meta (fst x))"
  using assms
proof (induction blocks rs rule: list_all2_induct)
  case (Cons mb blocks r rs)
  obtain meta b where mb: "mb = (meta, b)" by (cases mb)
  have w: "answers_within chunk_it ms mint maxt b (own_time meta) r" using Cons.hyps(1) mb by simp
  have own: "own_time meta (fst x)" if "x \<in> set (part_samples (map_of r ls))" for x
    using part_samples_in [OF that] w by (force simp: answers_within_def)
  have IH: "sorted_wrt (<) (map fst (concat (map (\<lambda>r. part_samples (map_of r ls)) rs)))"
    "\<And>x. x \<in> set (concat (map (\<lambda>r. part_samples (map_of r ls)) rs)) \<Longrightarrow> \<exists>meta \<in> set (map fst blocks). own_time meta (fst x)"
    using Cons.IH Cons.prems mb by auto
  have "fst x < fst y" if "x \<in> set (part_samples (map_of r ls))" "y \<in> set (concat (map (\<lambda>r. part_samples (map_of r ls)) rs))" for x y
    using own [OF that(1)] IH(2) [OF that(2)] Cons.prems mb by fastforce
  then have "sorted_wrt (<) (map fst (concat (map (\<lambda>r. part_samples (map_of r ls)) (r # rs))))"
    using IH(1) answers_within_sorted [OF w, of ls] unfolding list.map concat.simps map_append sorted_wrt_append set_map by blast
  moreover have "\<exists>meta \<in> set (map fst (mb # blocks)). own_time meta (fst x)" if "x \<in> set (concat (map (\<lambda>r. part_samples (map_of r ls)) (r # rs)))" for x
    using that own [of x] IH(2) [of x] mb by fastforce
  ultimately show ?case by blast
qed simp

section \<open>Properties\<close>

text \<open>
  C12. A query of the whole database. If the sequence of blocks was accepted when they were loaded, and every block and
  the head, queried alone, answer without an error with samples of their own time range, the head's being later than those of the
  blocks, then the querier of the database opens and returns every one of these samples: the series come once each in
  the order of their labels, with all their samples in the order of time. Nothing is lost by leaving out blocks that do not overlap the range.
\<close>

theorem db_query:
  assumes "validateBlockSequence (map fst blocks) = Ok ()" "\<forall>meta \<in> set (map fst blocks). bm_MinTime meta \<le> bm_MaxTime meta"
    and "list_all2 (\<lambda>(meta, b) r. answers_within chunk_it ms mint maxt b (own_time meta) r) blocks rs"
    and "answers_within chunk_it ms mint maxt head (\<lambda>t. head_min \<le> t \<and> (\<forall>meta \<in> set (map fst blocks). bm_MaxTime meta \<le> t)) hr"
  shows "\<exists>qs s res s'. DB_Querier blocks head_min head mint maxt = Ok qs \<and> querier_sel qs ms = Some (Ok s)
    \<and> collect SeriesSet_Next (read_At chunk_it) s [] = Some (Ok (res, s')) \<and> SeriesSet_Err s' = None \<and> by_labels res
    \<and> (\<forall>ls. part_samples (map_of res ls) = concat (map (\<lambda>r. part_samples (map_of r ls)) (rs @ [hr])))
    \<and> (\<forall>(ls, xs) \<in> set res. sorted_wrt (<) (map fst xs))"
proof -
  let ?sel = "map snd (filter (\<lambda>(meta, b). Block_OverlapsClosedInterval meta mint maxt) blocks)"
  let ?P = "\<lambda>b r. \<exists>q. NewBlockQuerier b mint maxt = Ok q \<and> block_answers chunk_it ms q r"
  obtain rs' where rs': "list_all2 ?P ?sel rs'" "set rs' \<subseteq> set rs" "\<forall>ls. concat (map (\<lambda>r. part_samples (map_of r ls)) rs') = concat (map (\<lambda>r. part_samples (map_of r ls)) rs)"
    using overlapping_answers [OF assms(3)] by blast
  define hrs where "hrs = (if maxt \<ge> head_min then [hr] else [])"
  have head: "concat (map (\<lambda>r. part_samples (map_of r ls)) hrs) = part_samples (map_of hr ls)" for ls
    using head_empty [OF assms(4)] by (auto simp: hrs_def)
  have "list_all2 ?P (?sel @ (if maxt \<ge> head_min then [head] else [])) (rs' @ hrs)"
    using rs'(1) assms(4) by (auto simp: hrs_def answers_within_def intro!: list_all2_appendI)
  from all_outcomes_answers [OF this] obtain qs where
    qs: "DB_Querier blocks head_min head mint maxt = Ok qs" "list_all2 (block_answers chunk_it ms) qs (rs' @ hrs)" by (auto simp: DB_Querier_def Let_def)
  have "by_labels r" if "r \<in> set rs" for r
    using assms(3) that by (induction rule: list_all2_induct) (auto simp: answers_within_def)
  then have "\<forall>r \<in> set (rs' @ hrs). by_labels r" using rs'(2) assms(4) by (auto simp: hrs_def answers_within_def)
  from querier_sel_collects [OF qs(2) this] obtain s res s' where s: "querier_sel qs ms = Some (Ok s)"
    "collect SeriesSet_Next (read_At chunk_it) s [] = Some (Ok (res, s'))" "SeriesSet_Err s' = None" "by_labels res"
    "\<forall>ls. map_of res ls = joined (map (\<lambda>r. map_of r ls) (rs' @ hrs))" by blast
  have all: "part_samples (map_of res ls) = concat (map (\<lambda>r. part_samples (map_of r ls)) (rs @ [hr]))" for ls
    using s(5) rs'(3) head [of ls] by (simp add: part_samples_joined o_def)
  have order: "sorted_wrt (\<lambda>a b. bm_MaxTime a \<le> bm_MinTime b) (map fst blocks)"
    using assms(1) validateBlockSequence_iff [OF assms(2)] by (auto simp: before_def [abs_def] split: if_splits)
  have "sorted_wrt (<) (map fst (part_samples (map_of res ls)))" for ls
    using blocks_in_order [OF assms(3) order, of ls] answers_within_sorted [OF assms(4), of ls] assms(4) unfolding all
    by (fastforce simp: sorted_wrt_append answers_within_def dest: part_samples_in)
  then have "sorted_wrt (<) (map fst xs)" if "(ls, xs) \<in> set res" for ls xs
    using by_labels_map_of [OF s(4) that] by (metis option.simps(5) part_samples_def)
  then have "\<forall>(ls, xs) \<in> set res. sorted_wrt (<) (map fst xs)" by blast
  then show ?thesis using qs(1) s(1-4) all by blast
qed

definition one_chunk_open :: "sample list \<Rightarrow> memIterator openBlock" where
  "one_chunk_open xs = (let b = one_chunk_block xs in
     \<lparr>ob_Index = Ok (br_Index b, br_Series b), ob_Chunks = Ok (br_Chunk b), ob_Tombstones = Ok (br_Tombstones b)\<rparr>)"

lemma one_chunk_open_answers:
  assumes "xs \<noteq> []" "length xs \<le> 4" "list_all (in_i64 \<circ> fst) xs" "sorted_wrt (<) (map fst xs)" "\<forall>x \<in> set xs. mint \<le> fst x \<and> fst x \<le> maxt \<and> own (fst x)"
  shows "answers_within Ok [EqualMatcher [97] [98]] mint maxt (one_chunk_open xs) own [(ab, xs)]"
  using one_chunk_block_answers [OF assms(1-4), of mint maxt] assms(4,5)
  by (auto simp: answers_within_def NewBlockQuerier_def one_chunk_open_def one_chunk_block_def by_labels_def Let_def)

theorem db_query_witness:
  "\<exists>qs s res s'. DB_Querier [(dm_meta (example_block 1 0 10), one_chunk_open [(1, 10), (2, 20)])] 10 (one_chunk_open [(15, 50)]) 0 100 = Ok qs
    \<and> querier_sel qs [EqualMatcher [97] [98]] = Some (Ok s) \<and> collect SeriesSet_Next (read_At Ok) s [] = Some (Ok (res, s')) \<and> SeriesSet_Err s' = None
    \<and> part_samples (map_of res ab) = [(1, 10), (2, 20), (15, 50)]"
proof -
  let ?m = "dm_meta (example_block 1 0 10)" and ?ms = "[EqualMatcher [97] [98]]"
  let ?bs = "[(?m, one_chunk_open [(1, 10), (2, 20)])]"
  have "validateBlockSequence (map fst ?bs) = Ok ()" "\<forall>meta \<in> set (map fst ?bs). bm_MinTime meta \<le> bm_MaxTime meta"
    by (simp_all add: validateBlockSequence_def example_block_def)
  moreover have "list_all2 (\<lambda>(meta, b) r. answers_within Ok ?ms 0 100 b (own_time meta) r) ?bs [[(ab, [(1, 10), (2, 20)])]]"
    by (auto intro!: one_chunk_open_answers simp: in_i64_def example_block_def)
  moreover have "answers_within Ok ?ms 0 100 (one_chunk_open [(15, 50)]) (\<lambda>t. 10 \<le> t \<and> (\<forall>meta \<in> set (map fst ?bs). bm_MaxTime meta \<le> t)) [(ab, [(15, 50)])]"
    by (rule one_chunk_open_answers) (auto simp: in_i64_def example_block_def)
  ultimately obtain qs s res s' where "DB_Querier ?bs 10 (one_chunk_open [(15, 50)]) 0 100 = Ok qs" "querier_sel qs ?ms = Some (Ok s)"
    "collect SeriesSet_Next (read_At Ok) s [] = Some (Ok (res, s'))" "SeriesSet_Err s' = None"
    "\<forall>ls. part_samples (map_of res ls) = concat (map (\<lambda>r. part_samples (map_of r ls)) ([[(ab, [(1, 10), (2, 20)])]] @ [[(ab, [(15, 50)])]]))"
    using db_query [of ?bs Ok ?ms 0 100 "[[(ab, [(1, 10), (2, 20)])]]" "one_chunk_open [(15, 50)]" 10 "[(ab, [(15, 50)])]"] by meson
  then show ?thesis by (intro exI [of _ qs] exI [of _ s] exI [of _ res] exI [of _ s']) (simp add: part_samples_def)
qed

end
