(* ===== verification/File_Names.thy ===== *)
theory File_Names
  imports Labels
begin

text \<open>
  Decimal numbers in file names: parsing and printing of \<^verbatim>\<open>strconv\<close> and \<^verbatim>\<open>fmt\<close>, and that the padded
  names of a sequence of files sort in the order of their numbers.
\<close>

section \<open>Parsing and printing\<close>

text \<open>\<^verbatim>\<open>strconv.Atoi\<close>: an optional sign and at least one decimal digit, with a value in the range of \<^verbatim>\<open>int\<close>.\<close>

fun digits_value :: "gostring \<Rightarrow> int \<Rightarrow> int option" where
  "digits_value [] acc = Some acc"
| "digits_value (c # cs) acc = (if 48 \<le> c \<and> c \<le> 57 then digits_value cs (10 * acc + (uint c - 48)) else None)"

definition Atoi :: "gostring \<Rightarrow> int option" where
  "Atoi s =
     (let neg = (s \<noteq> [] \<and> hd s = 45); ds = (if s \<noteq> [] \<and> (hd s = 43 \<or> hd s = 45) then tl s else s) in
      if ds = [] then None
      else case digits_value ds 0 of
        None \<Rightarrow> None
      | Some v \<Rightarrow> let v = (if neg then - v else v) in if in_i64 v then Some v else None)"

text \<open>The decimal digits of a number, and \<^verbatim>\<open>%06d\<close>.\<close>

fun decimal :: "nat \<Rightarrow> gostring" where
  "decimal k = (if k < 10 then [48 + of_nat k] else decimal (k div 10) @ [48 + of_nat (k mod 10)])"

text \<open>\<^verbatim>\<open>strconv.ParseUint\<close> for base 10 and 64 bits.\<close>

definition ParseUint :: "gostring \<Rightarrow> u64 option" where
  "ParseUint s =
     (if s = [] then None
      else case digits_value s 0 of
        None \<Rightarrow> None
      | Some v \<Rightarrow> if v < 2 ^ 64 then Some (of_int v) else None)"

declare decimal.simps [simp del]

definition pad6 :: "nat \<Rightarrow> gostring" where
  "pad6 k = replicate (6 - length (decimal k)) 48 @ decimal k"

section \<open>Printed numbers parse, and padded ones sort\<close>

lemma digits_value_append: "digits_value (xs @ ys) acc = Option.bind (digits_value xs acc) (digits_value ys)"
  by (induction xs arbitrary: acc) auto

lemma digit_byte: "k < 10 \<Longrightarrow> uint (48 + of_nat k :: u8) = 48 + int k"
proof -
  assume "k < 10"
  then have "unat (of_nat k :: u8) = k" by (simp add: unat_of_nat)
  with \<open>k < 10\<close> have "unat (48 + of_nat k :: u8) = 48 + k" by (subst unat_add_lem [THEN iffD1]) auto
  then show ?thesis by (metis of_nat_add of_nat_numeral uint_nat)
qed

lemma digits_value_digit [simp]: "k < 10 \<Longrightarrow> digits_value [48 + of_nat k] acc = Some (10 * acc + int k)"
proof -
  assume k: "k < 10"
  have "(48 :: u8) \<le> 48 + of_nat k" "48 + of_nat k \<le> (57 :: u8)"
    using k by (simp_all only: word_le_def digit_byte) simp_all
  moreover have "uint (48 + of_nat k :: u8) - 48 = int k" using digit_byte [OF k] by linarith
  ultimately show ?thesis by (simp only: digits_value.simps simp_thms if_True option.inject)
qed

lemma digits_value_decimal: "digits_value (decimal k) acc = Some (acc * 10 ^ length (decimal k) + int k)"
proof (induction k arbitrary: acc rule: decimal.induct)
  case (1 k)
  show ?case
  proof (cases "k < 10")
    case True
    then show ?thesis by (simp add: decimal.simps [of k] del: digits_value.simps)
  next
    case False
    then show ?thesis using 1 [of acc]
      by (simp add: decimal.simps [of k] digits_value_append algebra_simps del: digits_value.simps) presburger
  qed
qed

lemma digits_value_zeros: "digits_value (replicate n 48) 0 = Some 0"
  by (induction n) simp_all

lemma digits_value_pad6: "digits_value (pad6 k) 0 = Some (int k)"
  by (simp add: pad6_def digits_value_append digits_value_zeros digits_value_decimal)

lemma ParseUint_pad6: "k < 2 ^ 64 \<Longrightarrow> ParseUint (pad6 k) = Some (of_nat k)"
proof -
  assume k: "k < 2 ^ 64"
  have "decimal k \<noteq> []" by (simp add: decimal.simps [of k])
  then have "pad6 k \<noteq> []" by (simp add: pad6_def)
  moreover have "int k < 2 ^ 64" using k by (metis of_nat_less_iff of_nat_numeral of_nat_power)
  ultimately show ?thesis by (simp add: ParseUint_def digits_value_pad6)
qed

lemma length_decimal: "n > 0 \<Longrightarrow> k < 10 ^ n \<Longrightarrow> length (decimal k) \<le> n"
proof (induction n arbitrary: k)
  case (Suc n)
  then show ?case by (cases "k < 10"; cases n) (auto simp: decimal.simps [of k])
qed simp

lemma length_pad6: "k < 10 ^ 6 \<Longrightarrow> length (pad6 k) = 6"
  using length_decimal [of 6 k] by (simp add: pad6_def)

lemma digits_value_bounds:
  "digits_value xs acc = Some v \<Longrightarrow> acc * 10 ^ length xs \<le> v \<and> v < (acc + 1) * 10 ^ length xs"
proof (induction xs arbitrary: acc)
  case (Cons x xs)
  then have d: "48 \<le> x" "x \<le> 57" and v: "digits_value xs (10 * acc + (uint x - 48)) = Some v" by (auto split: if_splits)
  have x: "0 \<le> uint x - 48" "uint x - 48 \<le> 9" using d by (simp_all add: word_le_def)
  let ?p = "10 ^ length xs :: int"
  have "acc * 10 * ?p \<le> (10 * acc + (uint x - 48)) * ?p" using x by (intro mult_right_mono) auto
  moreover have "(10 * acc + (uint x - 48) + 1) * ?p \<le> (acc + 1) * 10 * ?p" using x by (intro mult_right_mono) auto
  moreover have "(10 * acc + (uint x - 48)) * ?p \<le> v" "v < (10 * acc + (uint x - 48) + 1) * ?p" using Cons.IH [OF v] by blast+
  ultimately have "acc * 10 * ?p \<le> v" "v < (acc + 1) * 10 * ?p" by (blast intro: order_trans order.strict_trans2)+
  then show ?case by (simp add: algebra_simps)
qed simp

lemma digits_less:
  assumes "length xs = length ys" "xs < ys" "digits_value xs a = Some v" "digits_value ys a = Some w"
  shows "v < w"
  using assms
proof (induction xs ys arbitrary: a rule: list_induct2)
  case (Cons x xs y ys)
  then have v: "digits_value xs (10 * a + (uint x - 48)) = Some v" and w: "digits_value ys (10 * a + (uint y - 48)) = Some w" by (auto split: if_splits)
  show ?case
  proof (cases "x = y")
    case True
    then show ?thesis using Cons.IH v w Cons.prems(1) by simp
  next
    case False
    then have "x < y" using Cons.prems(1) by simp
    then have "uint x + 1 \<le> uint y" by (simp add: word_less_def)
    then have "(10 * a + (uint x - 48) + 1) * 10 ^ length xs \<le> (10 * a + (uint y - 48)) * 10 ^ length xs" by (intro mult_right_mono) auto
    moreover have "v < (10 * a + (uint x - 48) + 1) * 10 ^ length xs" "(10 * a + (uint y - 48)) * 10 ^ length xs \<le> w"
      using digits_value_bounds [OF v] digits_value_bounds [OF w] unfolding Cons.hyps by blast+
    ultimately show ?thesis by (blast intro: order.strict_trans1 order.strict_trans2)
  qed
qed simp

lemma pad6_less: "i < j \<Longrightarrow> j < 10 ^ 6 \<Longrightarrow> pad6 i < pad6 j"
proof (rule ccontr)
  assume "i < j" "j < 10 ^ 6" "\<not> pad6 i < pad6 j"
  then have "pad6 j < pad6 i \<or> pad6 i = pad6 j" "length (pad6 i) = length (pad6 j)" by (auto simp: length_pad6)
  then show False using \<open>i < j\<close> digits_less [of "pad6 j" "pad6 i" 0] digits_value_pad6 [of i] digits_value_pad6 [of j] by auto
qed

end
