(* ===== verification/Checkpoint.thy ===== *)
theory Checkpoint
  imports Wal_Writer File_Names
begin

text \<open>
  Checkpoints of the write ahead log, \<^verbatim>\<open>checkpoint.go\<close>: directories beside the segments of the log that
  hold a log of their own. The entries of the directory that are no segments are a list of files, each with
  its name and, if it is a directory, the segments in it.
\<close>

section \<open>File names\<close>

record fileInfo =
  fi_Name :: gostring
  fi_IsDir :: bool
  fi_dir :: dir

text \<open>\<^verbatim>\<open>checkpoint.\<close> in bytes.\<close>

definition checkpointPrefix :: gostring where
  "checkpointPrefix = [99, 104, 101, 99, 107, 112, 111, 105, 110, 116, 46]"

section \<open>Finding and deleting checkpoints\<close>

definition has_prefix :: "gostring \<Rightarrow> gostring \<Rightarrow> bool" where
  "has_prefix s p \<longleftrightarrow> length p \<le> length s \<and> take (length p) s = p"

definition checkpoint_index :: "fileInfo \<Rightarrow> int option" where
  "checkpoint_index fi = Atoi (drop (length checkpointPrefix) (fi_Name fi))"

fun last_checkpoint :: "fileInfo list \<Rightarrow> (fileInfo \<times> int) outcome" where
  "last_checkpoint [] = Fail ErrNotFound"
| "last_checkpoint (fi # fis) =
     (if \<not> has_prefix (fi_Name fi) checkpointPrefix then last_checkpoint fis
      else if \<not> fi_IsDir fi then Fail (ErrMsg ''checkpoint is not a directory'')
      else case checkpoint_index fi of
        None \<Rightarrow> last_checkpoint fis
      | Some idx \<Rightarrow> Ok (fi, idx))"

text \<open>\<^verbatim>\<open>ioutil.ReadDir\<close> sorts by name; the list is searched from its end.\<close>

definition LastCheckpoint :: "fileInfo list \<Rightarrow> (fileInfo \<times> int) outcome" where
  "LastCheckpoint files = last_checkpoint (rev (sort_key fi_Name files))"

definition DeleteCheckpoints :: "int \<Rightarrow> fileInfo list \<Rightarrow> fileInfo list" where
  "DeleteCheckpoints maxIndex files =
     filter (\<lambda>fi. \<not> (has_prefix (fi_Name fi) checkpointPrefix
        \<and> (case checkpoint_index fi of None \<Rightarrow> False | Some index \<Rightarrow> index < maxIndex))) files"

end
