(* ===== verification/Head_Load.thy ===== *)
theory Head_Load
  imports Head_Laws
begin

text \<open>
  Start-up of the head from the write ahead log: \<^verbatim>\<open>loadWAL\<close> and \<^verbatim>\<open>processWALSamples\<close> of \<^verbatim>\<open>head.go\<close>.
  The main goroutine decodes the records, registers series and hands batches of samples to a ring of
  workers; each appends the samples of its share of the series. All of them run at once, so a run is a
  sequence of steps, each of the main goroutine or of one worker, in any order the channels allow.
\<close>

section \<open>Records of the log\<close>

datatype entry = SeriesEntry "RefSeries list" | SamplesEntry "RefSample list" | StonesEntry "Stone list"

definition decode_record :: "u8 list \<Rightarrow> entry outcome" where
  "decode_record rec =
     (case Decoder_Type rec of
        RecordSeries \<Rightarrow> bind_outcome (Decoder_Series rec []) (\<lambda>series. Ok (SeriesEntry series))
      | RecordSamples \<Rightarrow> bind_outcome (Decoder_Samples rec []) (\<lambda>samples. Ok (SamplesEntry samples))
      | RecordTombstones \<Rightarrow> bind_outcome (Decoder_Tombstones rec []) (\<lambda>stones. Ok (StonesEntry stones))
      | RecordInvalid \<Rightarrow> Fail (ErrMsg ''invalid record type''))"

definition load_stones :: "int \<Rightarrow> Stone list \<Rightarrow> memTombstones \<Rightarrow> memTombstones" where
  "load_stones minValidTime stones t =
     fold (\<lambda>s. fold (\<lambda>itv t. if Maxt itv < minValidTime then t else addInterval (stone_ref s) [itv] t) (intervals s)) stones t"

definition load_series :: "(u8 list \<Rightarrow> u64) \<Rightarrow> RefSeries \<Rightarrow> Head \<Rightarrow> Head" where
  "load_series sum64 s h =
     (let h = snd (getOrCreateWithID (series_Ref s) (Hash sum64 (series_Labels s)) (series_Labels s) h)
      in if lastSeriesID h < series_Ref s then h\<lparr>lastSeriesID := series_Ref s\<rparr> else h)"

section \<open>Goroutines and channels\<close>

text \<open>
  A worker waits for a batch, has samples of a batch left, all of which it passes on when it is
  through, or has returned. Batches are handed on by value here; the code reuses the array of a
  batch only after the last worker has passed it on.
\<close>

datatype worker_pc = WRecv | WBatch "RefSample list" "RefSample list" | WDone

record worker =
  w_pc :: worker_pc
  w_mint :: int
  w_maxt :: int
  w_unknown :: u64

record channel =
  ch_buf :: "RefSample list list"
  ch_closed :: bool

definition chan_cap :: nat where "chan_cap = 300"

text \<open>How \<^verbatim>\<open>loadWAL\<close> ends: loaded, with an error of a decoder or of the reader, or in a panic.\<close>

datatype load_result = Loaded | DecodeErr go_error | ReadErr CorruptionErr | LoadPanic

datatype main_pc =
    MRead
  | MSeries "RefSeries list"
  | MSamples "RefSample list"
  | MSend "RefSample list" "RefSample list"
  | MDrain
  | MDone load_result

text \<open>
  \<open>rp_recs\<close> are the records that the reader has not delivered yet. Channel 0 is \<^verbatim>\<open>firstInput\<close>, channel
  \<open>i\<close> the input and channel \<open>i + 1\<close> the output of worker \<open>i\<close>.
\<close>

record replay =
  rp_pc :: main_pc
  rp_recs :: "u8 list list"
  rp_head :: Head
  rp_chans :: "channel list"
  rp_workers :: "worker list"
  rp_unknown :: u64

definition load_minValidTime :: "Head \<Rightarrow> int" where
  "load_minValidTime h = (if h_minTime h = MaxInt64 then MinInt64 else h_minTime h)"

definition new_worker :: worker where
  "new_worker = \<lparr>w_pc = WRecv, w_mint = MaxInt64, w_maxt = MinInt64, w_unknown = 0\<rparr>"

definition new_channel :: channel where
  "new_channel = \<lparr>ch_buf = [], ch_closed = False\<rparr>"

definition load_start :: "nat \<Rightarrow> u8 list list \<Rightarrow> Head \<Rightarrow> replay" where
  "load_start n recs h =
     \<lparr>rp_pc = MRead, rp_recs = recs, rp_head = h, rp_chans = replicate (n + 1) new_channel,
      rp_workers = replicate n new_worker, rp_unknown = 0\<rparr>"

definition push :: "nat \<Rightarrow> RefSample list \<Rightarrow> channel list \<Rightarrow> channel list" where
  "push i b cs = cs[i := (cs ! i)\<lparr>ch_buf := ch_buf (cs ! i) @ [b]\<rparr>]"

definition pop :: "nat \<Rightarrow> channel list \<Rightarrow> channel list" where
  "pop i cs = cs[i := (cs ! i)\<lparr>ch_buf := tl (ch_buf (cs ! i))\<rparr>]"

definition close_chan :: "nat \<Rightarrow> channel list \<Rightarrow> channel list" where
  "close_chan i cs = cs[i := (cs ! i)\<lparr>ch_closed := True\<rparr>]"

section \<open>A worker\<close>

definition worker_sample :: "int \<Rightarrow> nat \<Rightarrow> nat \<Rightarrow> RefSample \<Rightarrow> worker \<Rightarrow> Head \<Rightarrow> (worker \<times> Head) outcome" where
  "worker_sample minValidTime n i s w h =
     (if T s < minValidTime \<or> Ref s mod of_nat n \<noteq> of_nat i then Ok (w, h)
      else case getByID (h_series h) (Ref s) of
        None \<Rightarrow> Ok (w\<lparr>w_unknown := w_unknown w + 1\<rparr>, h)
      | Some p \<Rightarrow>
          bind_outcome (memSeries_append (T s) (V s) (h_heap h ! p)) (\<lambda>(_, ms).
            let w = (if T s > w_maxt w then w\<lparr>w_maxt := T s\<rparr> else w);
                w = (if T s < w_mint w then w\<lparr>w_mint := T s\<rparr> else w)
            in Ok (w, h\<lparr>h_heap := (h_heap h)[p := ms]\<rparr>)))"

text \<open>The next step of worker \<open>i\<close>, or \<open>None\<close> if it has to wait or has returned.\<close>

definition worker_step :: "int \<Rightarrow> nat \<Rightarrow> nat \<Rightarrow> replay \<Rightarrow> replay option" where
  "worker_step minValidTime n i s =
     (let w = rp_workers s ! i; cs = rp_chans s; ws = rp_workers s in
      case w_pc w of
        WRecv \<Rightarrow>
          (case ch_buf (cs ! i) of
             b # _ \<Rightarrow> Some (s\<lparr>rp_chans := pop i cs, rp_workers := ws[i := w\<lparr>w_pc := WBatch b b\<rparr>]\<rparr>)
           | [] \<Rightarrow>
               if ch_closed (cs ! i)
               then Some (s\<lparr>rp_head := updateMinMaxTime (w_mint w) (w_maxt w) (rp_head s),
                            rp_chans := close_chan (i + 1) cs, rp_workers := ws[i := w\<lparr>w_pc := WDone\<rparr>],
                            rp_unknown := rp_unknown s + w_unknown w\<rparr>)
               else None)
      | WBatch (x # xs) b \<Rightarrow>
          (case worker_sample minValidTime n i x w (rp_head s) of
             Ok (w', h) \<Rightarrow> Some (s\<lparr>rp_head := h, rp_workers := ws[i := w'\<lparr>w_pc := WBatch xs b\<rparr>]\<rparr>)
           | _ \<Rightarrow> Some (s\<lparr>rp_pc := MDone LoadPanic\<rparr>))
      | WBatch [] b \<Rightarrow>
          if length (ch_buf (cs ! (i + 1))) < chan_cap
          then Some (s\<lparr>rp_chans := push (i + 1) b cs, rp_workers := ws[i := w\<lparr>w_pc := WRecv\<rparr>]\<rparr>)
          else None
      | WDone \<Rightarrow> None)"

section \<open>The main goroutine\<close>

definition main_read :: "int \<Rightarrow> CorruptionErr option \<Rightarrow> replay \<Rightarrow> replay" where
  "main_read minValidTime readErr s =
     (case rp_recs s of
        [] \<Rightarrow>
          (case readErr of
             Some e \<Rightarrow> s\<lparr>rp_pc := MDone (ReadErr e)\<rparr>
           | None \<Rightarrow> s\<lparr>rp_pc := MDrain, rp_chans := close_chan 0 (rp_chans s)\<rparr>)
      | rec # recs \<Rightarrow>
          let s = s\<lparr>rp_recs := recs\<rparr> in
          (case decode_record rec of
             Ok (SeriesEntry series) \<Rightarrow> s\<lparr>rp_pc := MSeries series\<rparr>
           | Ok (SamplesEntry samples) \<Rightarrow> s\<lparr>rp_pc := MSamples samples\<rparr>
           | Ok (StonesEntry stones) \<Rightarrow>
               s\<lparr>rp_head := (rp_head s)\<lparr>h_tombstones := load_stones minValidTime stones (h_tombstones (rp_head s))\<rparr>\<rparr>
           | Fail e \<Rightarrow> s\<lparr>rp_pc := MDone (DecodeErr e)\<rparr>
           | Panic \<Rightarrow> s\<lparr>rp_pc := MDone LoadPanic\<rparr>))"

text \<open>
  Before a batch is sent, a batch that has gone round the ring is taken off the last channel, if there
  is one, for its memory. After the last batch the first channel is closed, and what is left is taken off the last
  one until that is closed too and all workers have returned.
\<close>

definition main_step :: "(u8 list \<Rightarrow> u64) \<Rightarrow> int \<Rightarrow> nat \<Rightarrow> CorruptionErr option \<Rightarrow> replay \<Rightarrow> replay option" where
  "main_step sum64 minValidTime n readErr s =
     (let cs = rp_chans s in
      case rp_pc s of
        MRead \<Rightarrow> Some (main_read minValidTime readErr s)
      | MSeries [] \<Rightarrow> Some (s\<lparr>rp_pc := MRead\<rparr>)
      | MSeries (x # xs) \<Rightarrow> Some (s\<lparr>rp_pc := MSeries xs, rp_head := load_series sum64 x (rp_head s)\<rparr>)
      | MSamples samples \<Rightarrow>
          if length samples = 0 then Some (s\<lparr>rp_pc := MRead\<rparr>)
          else
            let k = (if length samples < 5000 then length samples else 5000)
            in Some (s\<lparr>rp_pc := MSend (take k samples) (drop k samples),
                       rp_chans := (if ch_buf (cs ! n) = [] then cs else pop n cs)\<rparr>)
      | MSend b samples \<Rightarrow>
          if length (ch_buf (cs ! 0)) < chan_cap
          then Some (s\<lparr>rp_pc := MSamples samples, rp_chans := push 0 b cs\<rparr>)
          else None
      | MDrain \<Rightarrow>
          if ch_buf (cs ! n) \<noteq> [] then Some (s\<lparr>rp_chans := pop n cs\<rparr>)
          else if ch_closed (cs ! n) \<and> list_all (\<lambda>w. w_pc w = WDone) (rp_workers s) then Some (s\<lparr>rp_pc := MDone Loaded\<rparr>)
          else None
      | MDone r \<Rightarrow> None)"

section \<open>Runs\<close>

text \<open>
  One step of any goroutine. A panic ends the process; after an error the main goroutine has
  returned, but the workers go on.
\<close>

inductive load_step :: "(u8 list \<Rightarrow> u64) \<Rightarrow> int \<Rightarrow> nat \<Rightarrow> CorruptionErr option \<Rightarrow> replay \<Rightarrow> replay \<Rightarrow> bool"
  for sum64 minValidTime n readErr where
  main: "main_step sum64 minValidTime n readErr s = Some s' \<Longrightarrow> load_step sum64 minValidTime n readErr s s'"
| worker: "i < n \<Longrightarrow> rp_pc s \<noteq> MDone LoadPanic \<Longrightarrow> worker_step minValidTime n i s = Some s' \<Longrightarrow>
    load_step sum64 minValidTime n readErr s s'"

text \<open>
  The result of a call of \<^verbatim>\<open>loadWAL\<close> on a head, with \<open>n\<close> processors, for the records and the
  error that the reader delivers.
\<close>

definition loadWAL :: "(u8 list \<Rightarrow> u64) \<Rightarrow> nat \<Rightarrow> u8 list list \<Rightarrow> CorruptionErr option \<Rightarrow> Head \<Rightarrow> load_result \<Rightarrow> Head \<Rightarrow> bool" where
  "loadWAL sum64 n recs readErr h r h' \<longleftrightarrow>
     (\<exists>s. (load_step sum64 (load_minValidTime h) n readErr)\<^sup>*\<^sup>* (load_start n recs h) s \<and> rp_pc s = MDone r \<and> rp_head s = h')"

end
