(* ===== verification/Head_Replay.thy ===== *)
theory Head_Replay
  imports Head_Load
begin

text \<open>
  What replaying the log does: whatever the goroutines of \<^verbatim>\<open>loadWAL\<close> do in which order, the call
  returns, and the head holds what applying the records one after another gives.
\<close>

section \<open>Decoding what was encoded\<close>

lemma record_types:
  "Decoder_Type (Encoder_Series series []) = RecordSeries" "Decoder_Type (Encoder_Samples samples []) = RecordSamples"
proof -
  show "Decoder_Type (Encoder_Series series []) = RecordSeries"
    using fold_append [of putSeries series_bytes series]
    by (simp add: Encoder_Series_def enc_defs putSeries_bytes Decoder_Type_def)
  show "Decoder_Type (Encoder_Samples samples []) = RecordSamples"
  proof (cases samples)
    case (Cons first rest)
    have "fold (putSample first) samples b = b @ concat (map (sample_bytes first) samples)" for b
      by (rule fold_append) (rule putSample_bytes)
    then show ?thesis by (simp add: Encoder_Samples_def enc_defs Decoder_Type_def Let_def Cons)
  qed (simp add: Encoder_Samples_def enc_defs Decoder_Type_def)
qed

lemma records_decode:
  "\<forall>s \<in> set series. series_ok s \<Longrightarrow> decode_record (Encoder_Series series []) = Ok (SeriesEntry series)"
  "\<forall>s \<in> set samples. in_i64 (T s) \<Longrightarrow> decode_record (Encoder_Samples samples []) = Ok (SamplesEntry samples)"
  using series_record_decodes [of series "[]"] samples_record_decodes [of samples "[]"] by (simp_all add: decode_record_def record_types)

section \<open>The head as a map of ids\<close>

definition head_view :: "Head \<Rightarrow> u64 \<Rightarrow> (Labels \<times> sample list) option" where
  "head_view h k = map_option (\<lambda>p. (ms_lset (h_heap h ! p), case read_series (h_heap h ! p) of Ok xs \<Rightarrow> xs | _ \<Rightarrow> []))
     (getByID (h_series h) k)"

definition head_labels :: "Head \<Rightarrow> u64 \<Rightarrow> Labels option" where
  "head_labels h k = map_option fst (head_view h k)"

lemma head_view_Some:
  assumes "head_inv sum64 h" "getByID (h_series h) k = Some p"
  obtains xs where "holds_samples (h_chunkRange h) (h_heap h ! p) xs" "head_view h k = Some (ms_lset (h_heap h ! p), xs)"
    "read_series (h_heap h ! p) = Ok xs"
proof -
  have "p < length (h_heap h)" "store_ok (h_chunkRange h) (h_heap h)"
    using head_inv_id(1) [OF assms] assms(1) by (simp_all add: head_inv_def)
  then obtain xs where "holds_samples (h_chunkRange h) (h_heap h ! p) xs" using store_ok_nth by blast
  with that [of xs] show ?thesis using assms(2) by (simp add: head_view_def holds_samples_read)
qed

lemma samples_of_view:
  assumes "head_inv sum64 h"
  shows "samples_of sum64 h ls = Some r \<longleftrightarrow> (\<exists>k xs. head_view h k = Some (ls, xs) \<and> r = Ok xs)"
proof
  assume "samples_of sum64 h ls = Some r"
  then obtain p where p: "getByID (h_series h) (ms_ref (h_heap h ! p)) = Some p" "ms_lset (h_heap h ! p) = ls" "r = read_series (h_heap h ! p)"
    using samples_of_Some [OF assms] by blast
  from head_view_Some [OF assms p(1)] p(2,3) show "\<exists>k xs. head_view h k = Some (ls, xs) \<and> r = Ok xs" by metis
next
  assume "\<exists>k xs. head_view h k = Some (ls, xs) \<and> r = Ok xs"
  then obtain k xs where k: "head_view h k = Some (ls, xs)" "r = Ok xs" by blast
  then obtain p where p: "getByID (h_series h) k = Some p" "ms_lset (h_heap h ! p) = ls" by (auto simp: head_view_def)
  from head_view_Some [OF assms p(1)] k p(2) have "r = read_series (h_heap h ! p)" by (metis option.inject prod.inject)
  with samples_of_live [OF assms p(1)] p(2) show "samples_of sum64 h ls = Some r" by simp
qed

lemma samples_of_eq_view:
  assumes "head_inv sum64 h" "head_inv sum64 h'" "head_view h' = head_view h"
  shows "samples_of sum64 h' ls = samples_of sum64 h ls"
proof -
  have "samples_of sum64 h' ls = Some r \<longleftrightarrow> samples_of sum64 h ls = Some r" for r
    unfolding samples_of_view [OF assms(1)] samples_of_view [OF assms(2)] assms(3) ..
  then show ?thesis by (metis option.exhaust)
qed

lemma head_view_fields [simp]:
  "head_view (h\<lparr>h_minTime := x\<rparr>) = head_view h" "head_view (h\<lparr>h_maxTime := x\<rparr>) = head_view h"
  "head_view (h\<lparr>h_tombstones := t\<rparr>) = head_view h" "head_view (h\<lparr>h_wal := w\<rparr>) = head_view h"
  "head_view (h\<lparr>lastSeriesID := k\<rparr>) = head_view h" "head_view (updateMinMaxTime a b h) = head_view h"
  by (simp_all add: head_view_def fun_eq_iff updateMinMaxTime_def Let_def)

section \<open>Replaying entries in order\<close>

definition ref_series :: "u64 \<Rightarrow> RefSeries \<Rightarrow> (Labels \<times> sample list) option \<Rightarrow> (Labels \<times> sample list) option" where
  "ref_series k r x = (if series_Ref r = k \<and> x = None then Some (series_Labels r, []) else x)"

definition ref_sample :: "int \<Rightarrow> u64 \<Rightarrow> RefSample \<Rightarrow> (Labels \<times> sample list) option \<Rightarrow> (Labels \<times> sample list) option" where
  "ref_sample minValidTime k s x =
     (if Ref s = k \<and> minValidTime \<le> T s then map_option (\<lambda>(ls, xs). (ls, accept xs (T s, V s))) x else x)"

fun ref_entry :: "int \<Rightarrow> u64 \<Rightarrow> entry \<Rightarrow> (Labels \<times> sample list) option \<Rightarrow> (Labels \<times> sample list) option" where
  "ref_entry minValidTime k (SeriesEntry rs) x = fold (ref_series k) rs x"
| "ref_entry minValidTime k (SamplesEntry ss) x = fold (ref_sample minValidTime k) ss x"
| "ref_entry minValidTime k (StonesEntry ts) x = x"

text \<open>What a log leaves under an id, and the tombstones it leaves.\<close>

definition replayed :: "int \<Rightarrow> u64 \<Rightarrow> entry list \<Rightarrow> (Labels \<times> sample list) option \<Rightarrow> (Labels \<times> sample list) option" where
  "replayed minValidTime k es = fold (ref_entry minValidTime k) es"

fun stones_entry :: "int \<Rightarrow> entry \<Rightarrow> memTombstones \<Rightarrow> memTombstones" where
  "stones_entry minValidTime (StonesEntry ts) t = load_stones minValidTime ts t"
| "stones_entry minValidTime e t = t"

fun entry_series :: "entry \<Rightarrow> RefSeries list" where
  "entry_series (SeriesEntry rs) = rs"
| "entry_series e = []"

fun entry_samples :: "entry \<Rightarrow> RefSample list" where
  "entry_samples (SamplesEntry ss) = ss"
| "entry_samples e = []"

definition log_series :: "entry list \<Rightarrow> RefSeries list" where
  "log_series es = concat (map entry_series es)"

definition log_samples :: "entry list \<Rightarrow> RefSample list" where
  "log_samples es = concat (map entry_samples es)"

lemma log_simps [simp]:
  "log_series [] = []" "log_series (e # es) = entry_series e @ log_series es"
  "log_samples [] = []" "log_samples (e # es) = entry_samples e @ log_samples es"
  "log_series (es @ es') = log_series es @ log_series es'" "log_samples (es @ es') = log_samples es @ log_samples es'"
  by (simp_all add: log_series_def log_samples_def)

text \<open>
  A log fits the labels \<open>K\<close> known by id: a series comes under its own id and labels or under new ones,
  and a sample after the series of its id, if there is one.
\<close>

fun series_fit :: "(u64 \<rightharpoonup> Labels) \<Rightarrow> RefSeries list \<Rightarrow> bool" where
  "series_fit K [] = True"
| "series_fit K (r # rs) \<longleftrightarrow> valid_lset (series_Labels r) \<and> 0 < series_Ref r
     \<and> (K (series_Ref r) = Some (series_Labels r) \<or> K (series_Ref r) = None \<and> series_Labels r \<notin> ran K)
     \<and> series_fit (K(series_Ref r \<mapsto> series_Labels r)) rs"

definition learn :: "RefSeries list \<Rightarrow> (u64 \<rightharpoonup> Labels) \<Rightarrow> u64 \<rightharpoonup> Labels" where
  "learn rs K = fold (\<lambda>r K. K(series_Ref r \<mapsto> series_Labels r)) rs K"

lemma learn_simps [simp]: "learn [] K = K" "learn (r # rs) K = learn rs (K(series_Ref r \<mapsto> series_Labels r))"
  by (simp_all add: learn_def)

text \<open>
  A series whose labels are known under another id is not registered: its id stays unknown. What is
  left of a log are the entries that have an effect.
\<close>

fun fresh_series :: "(u64 \<rightharpoonup> Labels) \<Rightarrow> RefSeries list \<Rightarrow> RefSeries list" where
  "fresh_series K [] = []"
| "fresh_series K (r # rs) =
     (if K (series_Ref r) \<noteq> Some (series_Labels r) \<and> series_Labels r \<in> ran K then fresh_series K rs
      else r # fresh_series (K(series_Ref r \<mapsto> series_Labels r)) rs)"

fun effective :: "(u64 \<rightharpoonup> Labels) \<Rightarrow> entry list \<Rightarrow> entry list" where
  "effective K [] = []"
| "effective K (SeriesEntry rs # es) = SeriesEntry (fresh_series K rs) # effective (learn (fresh_series K rs) K) es"
| "effective K (e # es) = e # effective K es"

lemma fresh_series_fit: "series_fit K rs \<Longrightarrow> fresh_series K rs = rs"
  by (induction K rs rule: series_fit.induct) auto

lemma log_samples_effective [simp]: "log_samples (effective K es) = log_samples es"
  by (induction K es rule: effective.induct) simp_all

lemma stones_effective: "fold (stones_entry v) (effective K es) = fold (stones_entry v) es"
  by (induction K es rule: effective.induct) (auto simp: fun_eq_iff)

fun log_fits :: "(u64 \<rightharpoonup> Labels) \<Rightarrow> entry list \<Rightarrow> bool" where
  "log_fits K [] = True"
| "log_fits K (SeriesEntry rs # es) \<longleftrightarrow> series_fit K rs \<and> log_fits (learn rs K) es"
| "log_fits K (SamplesEntry ss # es) \<longleftrightarrow>
     (\<forall>s \<in> set ss. time_ok (T s) \<and> (Ref s \<in> dom K \<or> Ref s \<notin> series_Ref ` set (log_series es))) \<and> log_fits K es"
| "log_fits K (StonesEntry ts # es) \<longleftrightarrow> log_fits K es"

lemma ref_series_Some [simp]: "fold (ref_series k) rs (Some x) = Some x"
  by (induction rs) (simp_all add: ref_series_def)

lemma ref_series_other: "k \<notin> series_Ref ` set rs \<Longrightarrow> fold (ref_series k) rs x = x"
  by (induction rs arbitrary: x) (auto simp: ref_series_def)

lemma ref_sample_other: "Ref s \<noteq> k \<Longrightarrow> ref_sample v k s x = x"
  by (simp add: ref_sample_def)

lemma ref_sample_None [simp]: "fold (ref_sample v k) ss None = None"
  by (induction ss) (simp_all add: ref_sample_def)

lemma ref_sample_eq_None: "ref_sample v k s x = None \<longleftrightarrow> x = None"
  by (simp add: ref_sample_def)

lemma fold_sample_None: "fold (ref_sample v k) ss x = None \<longleftrightarrow> x = None"
  by (induction ss arbitrary: x) (simp_all add: ref_sample_eq_None)

lemma sample_before_series:
  assumes "Ref s = k \<longrightarrow> x \<noteq> None \<or> k \<notin> series_Ref ` set rs"
  shows "fold (ref_series k) rs (ref_sample v k s x) = ref_sample v k s (fold (ref_series k) rs x)"
proof (cases "Ref s = k")
  case True
  with assms show ?thesis by (cases x) (auto simp: ref_sample_def ref_series_other)
qed (simp add: ref_sample_other)

lemma samples_before_series:
  assumes "\<forall>s \<in> set ss. Ref s = k \<longrightarrow> x \<noteq> None \<or> k \<notin> series_Ref ` set rs"
  shows "fold (ref_series k) rs (fold (ref_sample v k) ss x) = fold (ref_sample v k) ss (fold (ref_series k) rs x)"
  using assms
proof (induction ss arbitrary: x)
  case (Cons s ss)
  have "\<forall>s' \<in> set ss. Ref s' = k \<longrightarrow> ref_sample v k s x \<noteq> None \<or> k \<notin> series_Ref ` set rs"
    using Cons.prems by (simp add: ref_sample_eq_None)
  from Cons.IH [OF this] sample_before_series [of s k x rs v] Cons.prems show ?case by simp
qed simp

lemma known_after_series: "dom (learn rs K) = dom K \<union> series_Ref ` set rs"
  by (induction rs arbitrary: K) auto

text \<open>In a log that fits, all series can be registered before all samples are appended.\<close>

lemma replayed_fits:
  assumes "log_fits K es" "k \<in> dom K \<longleftrightarrow> x \<noteq> None"
  shows "replayed v k es x = fold (ref_sample v k) (log_samples es) (fold (ref_series k) (log_series es) x)"
  using assms unfolding replayed_def
proof (induction es arbitrary: K x)
  case (Cons e es)
  show ?case
  proof (cases e)
    case (SeriesEntry rs)
    have "k \<in> dom (learn rs K) \<longleftrightarrow> fold (ref_series k) rs x \<noteq> None"
      using Cons.prems(2) unfolding known_after_series
      by (induction rs arbitrary: x) (auto simp: ref_series_def)
    with Cons.IH [OF _ this] Cons.prems(1) show ?thesis by (simp add: SeriesEntry)
  next
    case (SamplesEntry ss)
    have "\<forall>s \<in> set ss. Ref s = k \<longrightarrow> x \<noteq> None \<or> k \<notin> series_Ref ` set (log_series es)"
      using Cons.prems by (auto simp: SamplesEntry)
    moreover have "k \<in> dom K \<longleftrightarrow> fold (ref_sample v k) ss x \<noteq> None"
      using Cons.prems(2) by (simp add: fold_sample_None)
    ultimately show ?thesis using Cons.IH [of K "fold (ref_sample v k) ss x"] Cons.prems(1)
      by (simp add: SamplesEntry samples_before_series)
  qed (use Cons in simp)
qed simp

section \<open>Registering a series\<close>

lemma head_labels_id: "head_labels h k = Some ls \<longleftrightarrow> (\<exists>p. getByID (h_series h) k = Some p \<and> ms_lset (h_heap h ! p) = ls)"
  by (auto simp: head_labels_def head_view_def)

lemma getOrCreateWithID_old:
  assumes inv: "head_inv sum64 h" and known: "lset \<in> ran (head_labels h)"
  shows "\<exists>h'. snd (getOrCreateWithID k (Hash sum64 lset) lset h) = h' \<and> head_inv sum64 h' \<and> head_view h' = head_view h
    \<and> (\<exists>s. h' = h\<lparr>h_heap := h_heap h @ [s]\<rparr>)"
proof -
  let ?s = "newMemSeries lset k (h_chunkRange h)"
  let ?st = "h_heap h @ [?s]"
  obtain k' p where p: "getByID (h_series h) k' = Some p" "ms_lset (h_heap h ! p) = lset" using known by (auto simp: ran_def head_labels_id)
  have si: "stripes_inv (Hash sum64) (h_heap h) (h_series h)" using inv by (simp add: head_inv_def)
  have "getByHash ?st (h_series h) (Hash sum64 lset) lset = Some p"
    unfolding getByHash_store [OF si same_ids_append] getByHash_iff [OF si] using p head_inv_id(2) [OF inv p(1)] by simp
  then have "getOrSet ?st (h_series h) (Hash sum64 lset) (length (h_heap h)) = ((p, False), h_series h)"
    by (simp add: getOrSet_def getByHash_def newMemSeries_def)
  then have eq: "snd (getOrCreateWithID k (Hash sum64 lset) lset h) = h\<lparr>h_heap := ?st\<rparr>"
    by (simp add: getOrCreateWithID_def Let_def)
  have "store_ok (h_chunkRange h) ?st"
    using inv holds_samples_new [of "h_chunkRange h" lset k] by (auto simp: head_inv_def store_ok_def)
  from head_inv_store [OF inv same_ids_append this] have inv': "head_inv sum64 (h\<lparr>h_heap := ?st\<rparr>)" .
  moreover have "head_view (h\<lparr>h_heap := ?st\<rparr>) x = head_view h x" for x
    using head_inv_id(1) [OF inv, of x] by (cases "getByID (h_series h) x") (simp_all add: head_view_def nth_append)
  ultimately show ?thesis using eq by (auto simp: fun_eq_iff)
qed

lemma getByHash_fresh:
  assumes "head_inv sum64 h" "ls \<notin> ran (head_labels h)"
  shows "getByHash (h_heap h) (h_series h) (Hash sum64 ls) ls = None"
proof (rule ccontr)
  assume "getByHash (h_heap h) (h_series h) (Hash sum64 ls) ls \<noteq> None"
  then obtain p where "getByHash (h_heap h) (h_series h) (Hash sum64 ls) ls = Some p" by blast
  then have "head_labels h (ms_ref (h_heap h ! p)) = Some ls"
    using getByHash_iff [of "Hash sum64" "h_heap h" "h_series h" ls p] assms(1) by (simp add: head_inv_def head_labels_id)
  with assms(2) show False by (auto simp: ran_def)
qed

text \<open>The parts of the head that replaying series and samples leaves alone.\<close>

definition same_rest :: "Head \<Rightarrow> Head \<Rightarrow> bool" where
  "same_rest h h' \<longleftrightarrow> h_chunkRange h' = h_chunkRange h \<and> h_wal h' = h_wal h \<and> h_minTime h' = h_minTime h
     \<and> h_maxTime h' = h_maxTime h \<and> h_tombstones h' = h_tombstones h"

lemma load_series_ok:
  assumes inv: "head_inv sum64 h" and fit: "series_fit (head_labels h) (r # rs)"
  shows "head_inv sum64 (load_series sum64 r h)" "head_view (load_series sum64 r h) k = ref_series k r (head_view h k)"
    "same_rest h (load_series sum64 r h)"
proof -
  define lset where "lset = series_Labels r"
  define x where "x = series_Ref r"
  let ?h1 = "snd (getOrCreateWithID x (Hash sum64 lset) lset h)"
  have l: "load_series sum64 r h = (if lastSeriesID ?h1 < x then ?h1\<lparr>lastSeriesID := x\<rparr> else ?h1)"
    by (simp add: load_series_def Let_def lset_def x_def)
  have f: "valid_lset lset" "0 < x" "head_labels h x = Some lset \<or> head_labels h x = None \<and> lset \<notin> ran (head_labels h)"
    using fit by (simp_all add: lset_def x_def)
  have "head_inv sum64 (load_series sum64 r h) \<and> head_view (load_series sum64 r h) k = ref_series k r (head_view h k)
    \<and> same_rest h (load_series sum64 r h)"
  proof (cases "head_labels h x = Some lset")
    case True
    then have "lset \<in> ran (head_labels h)" by (auto simp: ran_def)
    from getOrCreateWithID_old [OF inv this] have h1: "head_inv sum64 ?h1" "head_view ?h1 = head_view h" "\<exists>s. ?h1 = h\<lparr>h_heap := h_heap h @ [s]\<rparr>"
      by auto
    then have "same_rest h ?h1" by (auto simp: same_rest_def)
    moreover have "x \<le> lastSeriesID ?h1" using True inv h1(3) by (auto simp: head_labels_id head_inv_def)
    ultimately show ?thesis using h1 True by (auto simp: l ref_series_def head_labels_def x_def)
  next
    case False
    with f(3) have none: "head_labels h x = None" "lset \<notin> ran (head_labels h)" by auto
    then have "getByID (h_series h) x = None" by (simp add: head_labels_def head_view_def)
    from getOrCreateWithID_new [OF inv f(1,2) this, of "max x (lastSeriesID h)"] getByHash_fresh [OF inv none(2)]
    obtain h1 where h1: "getOrCreateWithID x (Hash sum64 lset) lset h = ((length (h_heap h), True), h1)"
      "head_inv sum64 (h1\<lparr>lastSeriesID := max x (lastSeriesID h)\<rparr>)" "extends_head h h1"
      "h_heap h1 = h_heap h @ [newMemSeries lset x (h_chunkRange h)]"
      "getByID (h_series h1) = (getByID (h_series h))(x \<mapsto> length (h_heap h))" "lastSeriesID h1 = lastSeriesID h"
      by auto
    have "load_series sum64 r h = h1\<lparr>lastSeriesID := max x (lastSeriesID h)\<rparr>"
      using h1(1,6) by (auto simp: l max_def not_less)
    moreover have "same_rest h h1" using h1(3) by (simp add: same_rest_def extends_head_def)
    moreover have "read_series (newMemSeries lset x (h_chunkRange h)) = Ok []"
      using inv holds_samples_new [of "h_chunkRange h" lset x] by (simp add: head_inv_def holds_samples_read)
    then have "head_view h1 k = ref_series k r (head_view h k)"
      using none(1) head_inv_id(1) [OF inv, of k]
      by (cases "getByID (h_series h) k")
        (auto simp: head_view_def h1(4,5) ref_series_def x_def lset_def nth_append newMemSeries_def head_labels_def)
    ultimately show ?thesis using h1(2) by (simp add: same_rest_def)
  qed
  then show "head_inv sum64 (load_series sum64 r h)" "head_view (load_series sum64 r h) k = ref_series k r (head_view h k)"
    "same_rest h (load_series sum64 r h)" by blast+
qed

lemma load_series_known:
  assumes inv: "head_inv sum64 h" and known: "series_Labels r \<in> ran (head_labels h)"
  shows "head_inv sum64 (load_series sum64 r h)" "head_view (load_series sum64 r h) = head_view h" "same_rest h (load_series sum64 r h)"
proof -
  let ?h = "snd (getOrCreateWithID (series_Ref r) (Hash sum64 (series_Labels r)) (series_Labels r) h)"
  have l: "load_series sum64 r h = (if lastSeriesID ?h < series_Ref r then ?h\<lparr>lastSeriesID := series_Ref r\<rparr> else ?h)"
    by (simp add: load_series_def Let_def)
  from getOrCreateWithID_old [OF inv known, of "series_Ref r"] have h: "head_inv sum64 ?h" "head_view ?h = head_view h" "same_rest h ?h"
    by (auto simp: same_rest_def)
  then show "head_inv sum64 (load_series sum64 r h)" "head_view (load_series sum64 r h) = head_view h" "same_rest h (load_series sum64 r h)"
    using head_inv_lastSeriesID [OF h(1), of "series_Ref r"] by (auto simp: l same_rest_def)
qed

section \<open>Appending a sample\<close>

lemma share_iff:
  assumes "i < n" "n < 2 ^ 63"
  shows "(k :: u64) mod of_nat n = of_nat i \<longleftrightarrow> unat k mod n = i"
proof -
  have n: "unat (of_nat n :: u64) = n" "unat (of_nat i :: u64) = i" using assms by (simp_all add: unsigned_of_nat take_bit_nat_eq_self)
  have "k mod of_nat n = of_nat i \<longleftrightarrow> unat (k mod of_nat n) = unat (of_nat i :: u64)" by (simp add: word_unat_eq_iff)
  then show ?thesis by (simp add: unat_mod n)
qed

text \<open>A sample a worker has put into the head is within its time bounds.\<close>

definition w_bounds :: "worker \<Rightarrow> int \<Rightarrow> bool" where
  "w_bounds w t \<longleftrightarrow> w_mint w \<le> t \<and> t \<le> w_maxt w"

lemma worker_sample_ok:
  assumes inv: "head_inv sum64 h" and n: "i < n" "n < 2 ^ 63" and t: "time_ok (T s)"
    and room: "\<And>ls xs. unat (Ref s) mod n = i \<Longrightarrow> head_view h (Ref s) = Some (ls, xs) \<Longrightarrow> length xs < 65535"
  obtains w' h' where "worker_sample v n i s w h = Ok (w', h')" "head_inv sum64 h'" "same_rest h h'"
    "\<forall>k. head_view h' k = (if unat k mod n = i then ref_sample v k s (head_view h k) else head_view h k)"
    "\<forall>u. w_bounds w u \<longrightarrow> w_bounds w' u" "unat (Ref s) mod n = i \<and> v \<le> T s \<and> head_view h (Ref s) \<noteq> None \<longrightarrow> w_bounds w' (T s)"
proof (cases "T s < v \<or> unat (Ref s) mod n \<noteq> i \<or> getByID (h_series h) (Ref s) = None")
  case True
  let ?w = "if T s < v \<or> unat (Ref s) mod n \<noteq> i then w else w\<lparr>w_unknown := w_unknown w + 1\<rparr>"
  have eq: "worker_sample v n i s w h = Ok (?w, h)" using True by (auto simp: worker_sample_def share_iff [OF n])
  have view: "head_view h k = (if unat k mod n = i then ref_sample v k s (head_view h k) else head_view h k)" for k
    using True by (auto simp: ref_sample_def head_view_def)
  show ?thesis by (rule that [OF eq inv _ allI [OF view]]) (use True in \<open>auto simp: same_rest_def w_bounds_def head_view_def\<close>)
next
  case False
  then obtain p where p: "getByID (h_series h) (Ref s) = Some p" "v \<le> T s" "unat (Ref s) mod n = i" by auto
  note lt = head_inv_id [OF inv p(1)]
  obtain xs where xs: "holds_samples (h_chunkRange h) (h_heap h ! p) xs" "head_view h (Ref s) = Some (ms_lset (h_heap h ! p), xs)"
    using head_view_Some [OF inv p(1)] by blast
  from holds_samples_append [OF xs(1) t room [OF p(3) xs(2)], of "V s"] obtain b c ms where
    ms: "memSeries_append (T s) (V s) (h_heap h ! p) = Ok ((b, c), ms)" "holds_samples (h_chunkRange h) ms (accept xs (T s, V s))"
      "same_series (h_heap h ! p) ms" by blast
  let ?w = "if T s > w_maxt w then w\<lparr>w_maxt := T s\<rparr> else w"
  let ?w' = "if T s < w_mint ?w then ?w\<lparr>w_mint := T s\<rparr> else ?w" and ?st = "(h_heap h)[p := ms]"
  let ?h = "h\<lparr>h_heap := ?st\<rparr>"
  have ids: "same_ids (h_heap h) ?st" using ms(3) by (intro same_ids_update) (simp_all add: same_series_def)
  have "store_ok (h_chunkRange h) ?st" using inv ms(2) by (intro store_ok_update) (auto simp: head_inv_def)
  from head_inv_store [OF inv ids this] have inv': "head_inv sum64 ?h" .
  have view: "head_view ?h k = (if unat k mod n = i then ref_sample v k s (head_view h k) else head_view h k)" for k
  proof (cases "k = Ref s")
    case True
    then show ?thesis using p lt(1) ms(3) xs(2) holds_samples_read [OF ms(2)]
      by (simp add: head_view_def ref_sample_def same_series_def)
  next
    case False
    have "q \<noteq> p" if "getByID (h_series h) k = Some q" for q using that False lt(2) head_inv_id(2) [OF inv that] by auto
    then show ?thesis using False by (cases "getByID (h_series h) k") (auto simp: head_view_def ref_sample_def)
  qed
  have "worker_sample v n i s w h = Ok (?w', ?h)" using p ms(1) by (simp add: worker_sample_def share_iff [OF n] Let_def)
  from that [OF this inv' _ allI [OF view]] show ?thesis by (auto simp: same_rest_def w_bounds_def)
qed

section \<open>The stream of samples through the ring\<close>

fun held :: "worker_pc \<Rightarrow> RefSample list" where
  "held (WBatch xs b) = b"
| "held _ = []"

fun unread :: "worker_pc \<Rightarrow> RefSample list" where
  "unread (WBatch xs b) = xs"
| "unread _ = []"

fun pending :: "main_pc \<Rightarrow> RefSample list" where
  "pending (MSamples ss) = ss"
| "pending (MSend b ss) = b @ ss"
| "pending _ = []"

text \<open>The samples that have not reached channel \<open>i\<close> yet, in the order they will, and those worker \<open>i\<close> has not looked at.\<close>

fun upstream :: "channel list \<Rightarrow> worker list \<Rightarrow> RefSample list \<Rightarrow> nat \<Rightarrow> RefSample list" where
  "upstream cs ws ss 0 = ss"
| "upstream cs ws ss (Suc i) = held (w_pc (ws ! i)) @ concat (ch_buf (cs ! i)) @ upstream cs ws ss i"

definition todo :: "channel list \<Rightarrow> worker list \<Rightarrow> RefSample list \<Rightarrow> nat \<Rightarrow> RefSample list" where
  "todo cs ws ss i = unread (w_pc (ws ! i)) @ concat (ch_buf (cs ! i)) @ upstream cs ws ss i"

lemma upstream_below:
  "(\<And>k. k < j \<Longrightarrow> ch_buf (cs' ! k) = ch_buf (cs ! k)) \<Longrightarrow> (\<And>k. k < j \<Longrightarrow> held (w_pc (ws' ! k)) = held (w_pc (ws ! k))) \<Longrightarrow>
   upstream cs' ws' ss j = upstream cs ws ss j"
  by (induction j) simp_all

lemma upstream_above:
  "i \<le> j \<Longrightarrow> upstream cs' ws' ss' i = upstream cs ws ss i \<Longrightarrow> (\<And>k. i \<le> k \<Longrightarrow> k < j \<Longrightarrow> ch_buf (cs' ! k) = ch_buf (cs ! k)) \<Longrightarrow>
   (\<And>k. i \<le> k \<Longrightarrow> k < j \<Longrightarrow> held (w_pc (ws' ! k)) = held (w_pc (ws ! k))) \<Longrightarrow> upstream cs' ws' ss' j = upstream cs ws ss j"
  by (induction j rule: dec_induct) simp_all

lemma chan_simps [simp]:
  "length (push i b cs) = length cs" "length (pop i cs) = length cs" "length (close_chan i cs) = length cs"
  "i < length cs \<Longrightarrow> ch_buf (push i b cs ! j) = (if j = i then ch_buf (cs ! i) @ [b] else ch_buf (cs ! j))"
  "i < length cs \<Longrightarrow> ch_buf (pop i cs ! j) = (if j = i then tl (ch_buf (cs ! i)) else ch_buf (cs ! j))"
  "i < length cs \<Longrightarrow> ch_buf (close_chan i cs ! j) = ch_buf (cs ! j)"
  "i < length cs \<Longrightarrow> ch_closed (push i b cs ! j) = ch_closed (cs ! j)" "i < length cs \<Longrightarrow> ch_closed (pop i cs ! j) = ch_closed (cs ! j)"
  "i < length cs \<Longrightarrow> ch_closed (close_chan i cs ! j) \<longleftrightarrow> j = i \<or> ch_closed (cs ! j)"
  by (simp_all add: push_def pop_def close_chan_def nth_list_update)

text \<open>Taking a batch in, passing it on, sending the next: the stream to each worker stays the same.\<close>

lemma todo_recv:
  assumes "i < length ws" "i < length cs" "w_pc (ws ! i) = WRecv" "ch_buf (cs ! i) = b # bs"
  shows "todo (pop i cs) (ws[i := (ws ! i)\<lparr>w_pc := WBatch b b\<rparr>]) ss j = todo cs ws ss j"
proof -
  let ?cs = "pop i cs" and ?ws = "ws[i := (ws ! i)\<lparr>w_pc := WBatch b b\<rparr>]"
  have below: "upstream ?cs ?ws ss k = upstream cs ws ss k" if "k \<le> i" for k
    using that assms by (intro upstream_below) (simp_all add: nth_list_update)
  have "upstream ?cs ?ws ss (Suc i) = upstream cs ws ss (Suc i)" using assms below [of i] by simp
  then have "upstream ?cs ?ws ss k = upstream cs ws ss k" if "Suc i \<le> k" for k
    using that assms by (intro upstream_above [of "Suc i" k]) (simp_all add: nth_list_update)
  with below have "upstream ?cs ?ws ss j = upstream cs ws ss j" by (cases "j \<le> i") simp_all
  then show ?thesis using assms by (cases "j = i") (simp_all add: todo_def nth_list_update)
qed

lemma todo_pass:
  assumes "i < length ws" "Suc i < length cs" "w_pc (ws ! i) = WBatch [] b"
  shows "todo (push (Suc i) b cs) (ws[i := (ws ! i)\<lparr>w_pc := WRecv\<rparr>]) ss j = todo cs ws ss j"
proof -
  let ?cs = "push (Suc i) b cs" and ?ws = "ws[i := (ws ! i)\<lparr>w_pc := WRecv\<rparr>]"
  have below: "upstream ?cs ?ws ss k = upstream cs ws ss k" if "k \<le> i" for k
    using that assms by (intro upstream_below) (simp_all add: nth_list_update)
  have next_up: "upstream cs ws ss (Suc i) = b @ upstream ?cs ?ws ss (Suc i)" using assms below [of i] by simp
  then have "upstream ?cs ?ws ss (Suc (Suc i)) = upstream cs ws ss (Suc (Suc i))"
    unfolding upstream.simps(2) [of _ _ _ "Suc i"] using assms by (simp add: nth_list_update del: upstream.simps(2))
  then have "upstream ?cs ?ws ss k = upstream cs ws ss k" if "Suc (Suc i) \<le> k" for k
    using that assms by (intro upstream_above [of "Suc (Suc i)" k]) (simp_all add: nth_list_update)
  with below have "j \<noteq> Suc i \<Longrightarrow> upstream ?cs ?ws ss j = upstream cs ws ss j" by (cases "j \<le> i") simp_all
  then show ?thesis using assms next_up
    by (cases "j = Suc i"; cases "j = i") (simp_all add: todo_def nth_list_update)
qed

lemma todo_send:
  assumes "0 < length cs"
  shows "todo (push 0 b cs) ws ss j = todo cs ws (b @ ss) j"
proof -
  have "upstream (push 0 b cs) ws ss (Suc 0) = upstream cs ws (b @ ss) (Suc 0)" using assms by simp
  then have "upstream (push 0 b cs) ws ss k = upstream cs ws (b @ ss) k" if "Suc 0 \<le> k" for k
    using that assms by (intro upstream_above [of "Suc 0" k]) simp_all
  then show ?thesis using assms by (cases j) (simp_all add: todo_def del: upstream.simps(2))
qed

lemma todo_cong:
  assumes "\<And>k. k \<le> j \<Longrightarrow> ch_buf (cs' ! k) = ch_buf (cs ! k)" "\<And>k. k < j \<Longrightarrow> held (w_pc (ws' ! k)) = held (w_pc (ws ! k))"
    "unread (w_pc (ws' ! j)) = unread (w_pc (ws ! j))"
  shows "todo cs' ws' ss j = todo cs ws ss j"
  using assms upstream_below [of j cs' cs ws' ws ss] by (simp add: todo_def)

lemma todo_sample:
  assumes "i < length ws" "w_pc (ws ! i) = WBatch (x # xs) b" "w_pc w = WBatch xs b"
  shows "todo cs ws ss i = x # todo cs (ws[i := w]) ss i" "j \<noteq> i \<Longrightarrow> todo cs (ws[i := w]) ss j = todo cs ws ss j"
proof -
  have "upstream cs (ws[i := w]) ss k = upstream cs ws ss k" for k
    using assms by (intro upstream_below) (auto simp: nth_list_update)
  then show "todo cs ws ss i = x # todo cs (ws[i := w]) ss i" "j \<noteq> i \<Longrightarrow> todo cs (ws[i := w]) ss j = todo cs ws ss j"
    using assms by (simp_all add: todo_def)
qed

lemma upstream_later: "j \<le> i \<Longrightarrow> set (upstream cs ws ss j) \<subseteq> set (upstream cs ws ss i)"
  by (induction i rule: dec_induct) auto

end
