(* ===== verification/Checkpoint_Write.thy ===== *)
theory Checkpoint_Write
  imports Checkpoint Head_Replay
begin

text \<open>
  Writing a checkpoint, \<^verbatim>\<open>Checkpoint\<close> of \<^verbatim>\<open>checkpoint.go\<close>: the records of the last checkpoint and of a range of
  segments are copied to a new log without what is no longer needed. Loading the checkpoint in place of
  what it was made from restores the same series.
\<close>

section \<open>Reading several logs as one\<close>

text \<open>\<^verbatim>\<open>io.ReadFull\<close> of an \<^verbatim>\<open>io.MultiReader\<close>: a source that has ended is left for the next one.\<close>

fun multi_ReadFull :: "segmentBufReader list read_full" where
  "multi_ReadFull k [] = (([], if k = 0 then None else Some EOF), [])"
| "multi_ReadFull k (r # rs) =
     (case segments_ReadFull k r of
        ((bs, None), r) \<Rightarrow> ((bs, None), r # rs)
      | ((bs, Some e), r) \<Rightarrow>
          if e \<noteq> EOF \<and> e \<noteq> ErrUnexpectedEOF then ((bs, Some e), r # rs)
          else case multi_ReadFull (k - length bs) rs of
            ((bs', err), rs) \<Rightarrow> ((bs @ bs', if err = Some EOF \<and> bs \<noteq> [] then Some ErrUnexpectedEOF else err), rs))"

section \<open>Filtering records\<close>

record CheckpointStats =
  DroppedSeries :: nat
  DroppedSamples :: nat
  DroppedTombstones :: nat
  TotalSeries :: nat
  TotalSamples :: nat
  TotalTombstones :: nat

definition zero_stats :: CheckpointStats where
  "zero_stats = \<lparr>DroppedSeries = 0, DroppedSamples = 0, DroppedTombstones = 0, TotalSeries = 0, TotalSamples = 0, TotalTombstones = 0\<rparr>"

text \<open>The cases of the switch: what is kept of a record is appended to the buffer.\<close>

fun checkpoint_entry :: "(u64 \<Rightarrow> bool) \<Rightarrow> int \<Rightarrow> entry \<Rightarrow> u8 list \<Rightarrow> CheckpointStats \<Rightarrow> u8 list \<times> CheckpointStats" where
  "checkpoint_entry keep mint (SeriesEntry series) buf stats =
     (let repl = filter (\<lambda>s. keep (series_Ref s)) series in
      (if length repl > 0 then Encoder_Series repl buf else buf,
       stats\<lparr>TotalSeries := TotalSeries stats + length series, DroppedSeries := DroppedSeries stats + (length series - length repl)\<rparr>))"
| "checkpoint_entry keep mint (SamplesEntry samples) buf stats =
     (let repl = filter (\<lambda>s. T s \<ge> mint) samples in
      (if length repl > 0 then Encoder_Samples repl buf else buf,
       stats\<lparr>TotalSamples := TotalSamples stats + length samples, DroppedSamples := DroppedSamples stats + (length samples - length repl)\<rparr>))"
| "checkpoint_entry keep mint (StonesEntry tstones) buf stats =
     (let repl = filter (\<lambda>s. list_ex (\<lambda>iv. Maxt iv \<ge> mint) (intervals s)) tstones in
      (if length repl > 0 then Encoder_Tombstones repl buf else buf,
       stats\<lparr>TotalTombstones := TotalTombstones stats + length tstones, DroppedTombstones := DroppedTombstones stats + (length tstones - length repl)\<rparr>))"

record checkpointState =
  ck_cp :: WAL
  ck_buf :: "u8 list"
  ck_recs :: "u8 list list"
  ck_stats :: CheckpointStats

text \<open>One turn of the loop over the records. Records are flushed in steps of 1 MB.\<close>

definition checkpoint_turn :: "(u64 \<Rightarrow> bool) \<Rightarrow> int \<Rightarrow> u8 list \<Rightarrow> checkpointState \<Rightarrow> checkpointState outcome" where
  "checkpoint_turn keep mint rec s =
     bind_outcome (decode_record rec) (\<lambda>e.
       let start = length (ck_buf s);
           (buf, stats) = checkpoint_entry keep mint e (ck_buf s) (ck_stats s);
           s = s\<lparr>ck_buf := buf, ck_stats := stats\<rparr>
       in if length (drop start buf) = 0 then Ok s
          else
            let s = s\<lparr>ck_recs := ck_recs s @ [drop start buf]\<rparr> in
            if length buf > 1 * 1024 * 1024 then Ok (s\<lparr>ck_cp := Log (ck_recs s) (ck_cp s), ck_buf := [], ck_recs := []\<rparr>)
            else Ok s)"

text \<open>The loop returns with an error as soon as a record does not decode.\<close>

partial_function (option) checkpoint_loop ::
  "(u64 \<Rightarrow> bool) \<Rightarrow> int \<Rightarrow> checkpointState \<Rightarrow> segmentBufReader list Reader \<Rightarrow> (unit outcome \<times> checkpointState \<times> segmentBufReader list Reader) option" where
  "checkpoint_loop keep mint s r =
     Option.bind (Reader_Next multi_ReadFull r) (\<lambda>(ok, r).
       if \<not> ok then Some (Ok (), s, r)
       else case checkpoint_turn keep mint (rrec r) s of
         Ok s \<Rightarrow> checkpoint_loop keep mint s r
       | Fail e \<Rightarrow> Some (Fail e, s, r)
       | Panic \<Rightarrow> Some (Panic, s, r))"

section \<open>Writing a checkpoint\<close>

definition checkpoint_name :: "int \<Rightarrow> gostring" where
  "checkpoint_name i = checkpointPrefix @ pad6 (nat i)"

text \<open>\<^verbatim>\<open>.tmp\<close> in bytes.\<close>

definition tmp_name :: "int \<Rightarrow> gostring" where
  "tmp_name i = checkpoint_name i @ [46, 116, 109, 112]"

text \<open>\<^verbatim>\<open>os.MkdirAll\<close> leaves a directory that exists as it is.\<close>

definition mkdir_all :: "gostring \<Rightarrow> fileInfo list \<Rightarrow> fileInfo list outcome" where
  "mkdir_all n files =
     (case find (\<lambda>fi. fi_Name fi = n) files of
        None \<Rightarrow> Ok (files @ [\<lparr>fi_Name = n, fi_IsDir = True, fi_dir = []\<rparr>])
      | Some fi \<Rightarrow> if fi_IsDir fi then Ok files else Fail (ErrMsg ''not a directory''))"

definition dir_contents :: "gostring \<Rightarrow> fileInfo list \<Rightarrow> dir" where
  "dir_contents n files = (case find (\<lambda>fi. fi_Name fi = n) files of None \<Rightarrow> [] | Some fi \<Rightarrow> fi_dir fi)"

definition set_contents :: "gostring \<Rightarrow> dir \<Rightarrow> fileInfo list \<Rightarrow> fileInfo list" where
  "set_contents n d files = map (\<lambda>fi. if fi_Name fi = n then fi\<lparr>fi_dir := d\<rparr> else fi) files"

definition Replace :: "gostring \<Rightarrow> gostring \<Rightarrow> fileInfo list \<Rightarrow> fileInfo list" where
  "Replace old new files =
     map (\<lambda>fi. if fi_Name fi = old then fi\<lparr>fi_Name := new\<rparr> else fi) (filter (\<lambda>fi. fi_Name fi \<noteq> new) files)"

text \<open>The sources: the last checkpoint, if there is one, and the segments behind it.\<close>

definition checkpoint_sources :: "dir \<Rightarrow> fileInfo list \<Rightarrow> int \<Rightarrow> int \<Rightarrow> segmentBufReader list outcome" where
  "checkpoint_sources d files from to =
     bind_outcome
       (case LastCheckpoint files of
          Panic \<Rightarrow> Panic
        | Fail e \<Rightarrow> if e \<noteq> ErrNotFound then Fail e else Ok ([], from)
        | Ok (fi, idx) \<Rightarrow>
            let next = idx + 1 in
            if from > next then Fail (ErrMsg ''unexpected gap to last checkpoint'')
            else bind_outcome (NewSegmentsReader (fi_dir fi)) (\<lambda>r. Ok ([r], next))) (\<lambda>(sr, from).
     bind_outcome (NewSegmentsRangeReader d from to) (\<lambda>segsr. Ok (sr @ [segsr])))"

text \<open>
  The result with the entries of the log's directory afterwards. A directory left by a checkpoint that failed is
  neither removed nor emptied.
\<close>

definition Checkpoint :: "dir \<Rightarrow> fileInfo list \<Rightarrow> int \<Rightarrow> int \<Rightarrow> (u64 \<Rightarrow> bool) \<Rightarrow> int \<Rightarrow> (CheckpointStats outcome \<times> fileInfo list) option" where
  "Checkpoint d files from to keep mint =
     (case checkpoint_sources d files from to of
        Panic \<Rightarrow> Some (Panic, files)
      | Fail e \<Rightarrow> Some (Fail e, files)
      | Ok sr \<Rightarrow>
          (case mkdir_all (tmp_name to) files of
             Panic \<Rightarrow> Some (Panic, files)
           | Fail e \<Rightarrow> Some (Fail e, files)
           | Ok files \<Rightarrow>
               (case New_wal (dir_contents (tmp_name to) files) of
                  Panic \<Rightarrow> Some (Panic, files)
                | Fail e \<Rightarrow> Some (Fail e, files)
                | Ok cp \<Rightarrow>
                    Option.bind (checkpoint_loop keep mint \<lparr>ck_cp = cp, ck_buf = [], ck_recs = [], ck_stats = zero_stats\<rparr> (NewReader sr)) (\<lambda>(res, s, r).
                      case res of
                        Panic \<Rightarrow> Some (Panic, set_contents (tmp_name to) (wdir (ck_cp s)) files)
                      | Fail e \<Rightarrow> Some (Fail e, set_contents (tmp_name to) (wdir (ck_cp s)) files)
                      | Ok _ \<Rightarrow>
                          (case rerr r of
                             Some e \<Rightarrow> Some (Fail e, set_contents (tmp_name to) (wdir (ck_cp s)) files)
                           | None \<Rightarrow>
                               let cp = WAL_Close (Log (ck_recs s) (ck_cp s)) in
                               Some (Ok (ck_stats s), Replace (tmp_name to) (checkpoint_name to) (set_contents (tmp_name to) (wdir cp) files)))))))"

section \<open>Reading the sources\<close>

abbreviation multi_avail :: "segmentBufReader list \<Rightarrow> u8 list" where
  "multi_avail rs \<equiv> concat (map seg_avail rs)"

lemma multi_ReadFull_spec:
  assumes "\<forall>r \<in> set rs. cur r \<ge> -1"
  shows "\<exists>rs'. (\<forall>r \<in> set rs'. cur r \<ge> -1) \<and> multi_avail rs' = drop k (multi_avail rs)
    \<and> multi_ReadFull k rs = (if k \<le> length (multi_avail rs) then ((take k (multi_avail rs), None), rs')
         else ((multi_avail rs, Some (if multi_avail rs \<noteq> [] then ErrUnexpectedEOF else EOF)), rs'))"
  using assms
proof (induction rs arbitrary: k)
  case (Cons r rs)
  let ?a = "seg_avail r"
  obtain r' where r': "cur r' \<ge> -1" "segments_ReadFull k r = (if k \<le> length ?a then ((take k ?a, None), r') else ((?a, Some (if ?a \<noteq> [] then ErrUnexpectedEOF else EOF)), r'))"
    "seg_avail r' = drop k ?a" using ReadFull_loop_spec [of r k "[]"] Cons.prems by (auto simp: segments_ReadFull_def)
  show ?case
  proof (cases "k \<le> length ?a")
    case True
    then show ?thesis using r' Cons.prems by (intro exI [of _ "r' # rs"]) auto
  next
    case False
    obtain rs' where "\<forall>r \<in> set rs'. cur r \<ge> -1" "multi_avail rs' = drop (k - length ?a) (multi_avail rs)"
      "multi_ReadFull (k - length ?a) rs = (if k - length ?a \<le> length (multi_avail rs) then ((take (k - length ?a) (multi_avail rs), None), rs')
         else ((multi_avail rs, Some (if multi_avail rs \<noteq> [] then ErrUnexpectedEOF else EOF)), rs'))"
      using Cons.IH [of "k - length ?a"] Cons.prems by auto
    then show ?thesis using False r'(2) by (intro exI [of _ rs']) (auto simp: le_diff_conv)
  qed
qed simp

interpretation multi_source: byte_source multi_ReadFull multi_avail "\<lambda>rs. \<forall>r \<in> set rs. cur r \<ge> -1"
proof
  fix s k assume "\<forall>r \<in> set s. cur r \<ge> -1" "k \<le> length (multi_avail s)"
  then show "\<exists>s'. multi_ReadFull k s = ((take k (multi_avail s), None), s') \<and> (\<forall>r \<in> set s'. cur r \<ge> -1) \<and> multi_avail s' = drop k (multi_avail s)"
    using multi_ReadFull_spec [of s k] by auto
next
  fix s and k :: nat assume s: "\<forall>r \<in> set s. cur r \<ge> -1" "multi_avail s = []" "0 < k"
  show "\<exists>s'. multi_ReadFull k s = (([], Some EOF), s') \<and> (\<forall>r \<in> set s'. cur r \<ge> -1) \<and> multi_avail s' = []"
    using multi_ReadFull_spec [OF s(1), of k] s(3) unfolding s(2) by auto
next
  fix s k assume "\<forall>r \<in> set s. cur r \<ge> -1" "multi_avail s \<noteq> []" "length (multi_avail s) < k"
  then show "\<exists>s'. multi_ReadFull k s = ((multi_avail s, Some ErrUnexpectedEOF), s') \<and> (\<forall>r \<in> set s'. cur r \<ge> -1) \<and> multi_avail s' = []"
    using multi_ReadFull_spec [of s k] by auto
qed

text \<open>The loop as turns over the records that are read.\<close>

fun turns :: "(u64 \<Rightarrow> bool) \<Rightarrow> int \<Rightarrow> u8 list list \<Rightarrow> checkpointState \<Rightarrow> checkpointState outcome" where
  "turns keep mint [] s = Ok s"
| "turns keep mint (rec # recs) s = bind_outcome (checkpoint_turn keep mint rec s) (turns keep mint recs)"

lemma checkpoint_loop_turns:
  assumes "read_all multi_ReadFull (\<lambda>rec recs. recs @ [rec]) acc r = Some y"
  shows "\<exists>recs. fst y = acc @ recs \<and> (\<forall>s s'. turns keep mint recs s = Ok s' \<longrightarrow> checkpoint_loop keep mint s r = Some (Ok (), s', snd y))"
proof -
  let ?P = "\<lambda>rf (f :: u8 list \<Rightarrow> u8 list list \<Rightarrow> u8 list list) acc r y. rf = multi_ReadFull \<and> f = (\<lambda>rec recs. recs @ [rec]) \<longrightarrow>
    (\<exists>recs. fst y = acc @ recs \<and> (\<forall>s s'. turns keep mint recs s = Ok s' \<longrightarrow> checkpoint_loop keep mint s r = Some (Ok (), s', snd y)))"
  have "?P multi_ReadFull (\<lambda>rec recs. recs @ [rec]) acc r y"
  proof (rule read_all.raw_induct [of ?P, OF _ assms])
    fix ra rf f acc r y
    assume IH: "\<And>rf f acc r y. ra rf f acc r = Some y \<Longrightarrow> ?P rf f acc r y"
      and eq: "Option.bind (Reader_Next rf r) (\<lambda>(ok, r). if ok then ra rf f (f (rrec r) acc) r else Some (acc, r)) = Some y"
    show "?P rf f acc r y"
    proof (intro impI, elim conjE)
    assume rf: "rf = multi_ReadFull" "f = (\<lambda>rec recs. recs @ [rec])"
    with eq obtain ok r1 where n: "Reader_Next multi_ReadFull r = Some (ok, r1)" by (auto split: bind_splits)
    show "\<exists>recs. fst y = acc @ recs \<and> (\<forall>s s'. turns keep mint recs s = Ok s' \<longrightarrow> checkpoint_loop keep mint s r = Some (Ok (), s', snd y))"
    proof (cases ok)
      case True
      then have "ra rf f (acc @ [rrec r1]) r1 = Some y" using eq n rf by simp
      from IH [OF this] rf obtain recs where recs: "fst y = (acc @ [rrec r1]) @ recs"
        "\<forall>s s'. turns keep mint recs s = Ok s' \<longrightarrow> checkpoint_loop keep mint s r1 = Some (Ok (), s', snd y)" by blast
      have "checkpoint_loop keep mint s r = Some (Ok (), s', snd y)" if "turns keep mint (rrec r1 # recs) s = Ok s'" for s s'
        using that recs(2) n True by (subst checkpoint_loop.simps) (cases "checkpoint_turn keep mint (rrec r1) s", auto)
      then show ?thesis using recs(1) by (intro exI [of _ "rrec r1 # recs"]) simp
    next
      case False
      then show ?thesis using eq n rf by (intro exI [of _ "[]"]) (auto simp: checkpoint_loop.simps)
    qed
    qed
  qed
  then show ?thesis by simp
qed

section \<open>What is kept\<close>

text \<open>An encoder appends the record type and the entries to the buffer it is given.\<close>

lemma Encoder_bytes:
  "\<exists>bs. \<forall>b. Encoder_Series series b = b @ 1 # bs" "\<exists>bs. \<forall>b. Encoder_Samples samples b = b @ 2 # bs" "\<exists>bs. \<forall>b. Encoder_Tombstones stones b = b @ 3 # bs"
proof -
  have "fold putSeries series c = c @ concat (map series_bytes series)" for c by (rule fold_append) (rule putSeries_bytes)
  then show "\<exists>bs. \<forall>b. Encoder_Series series b = b @ 1 # bs" by (simp add: Encoder_Series_def enc_defs)
  have samples: "fold (putSample f) ss c = c @ concat (map (sample_bytes f) ss)" for f ss c by (rule fold_append) (rule putSample_bytes)
  show "\<exists>bs. \<forall>b. Encoder_Samples samples b = b @ 2 # bs"
    by (cases samples) (simp_all add: Encoder_Samples_def enc_defs Let_def samples putSample_bytes)
  have "fold (\<lambda>iv. putTombstone (stone_ref s, iv)) (intervals s) c = c @ concat (map (\<lambda>iv. tombstone_bytes (stone_ref s, iv)) (intervals s))" for s c
    by (rule fold_append) (rule putTombstone_bytes)
  then have "fold (\<lambda>s. fold (\<lambda>iv. putTombstone (stone_ref s, iv)) (intervals s)) stones c
      = c @ concat (map (\<lambda>s. concat (map (\<lambda>iv. tombstone_bytes (stone_ref s, iv)) (intervals s))) stones)" for c by (rule fold_append)
  then show "\<exists>bs. \<forall>b. Encoder_Tombstones stones b = b @ 3 # bs" by (simp add: Encoder_Tombstones_def enc_defs)
qed

lemma Encoder_append:
  "Encoder_Series series b = b @ Encoder_Series series []" "Encoder_Samples samples b = b @ Encoder_Samples samples []"
  "Encoder_Tombstones stones b = b @ Encoder_Tombstones stones []"
  using Encoder_bytes(1) [of series] Encoder_bytes(2) [of samples] Encoder_bytes(3) [of stones] by (metis append_Nil)+

fun kept_entry :: "(u64 \<Rightarrow> bool) \<Rightarrow> int \<Rightarrow> entry \<Rightarrow> entry" where
  "kept_entry keep mint (SeriesEntry series) = SeriesEntry (filter (\<lambda>s. keep (series_Ref s)) series)"
| "kept_entry keep mint (SamplesEntry samples) = SamplesEntry (filter (\<lambda>s. T s \<ge> mint) samples)"
| "kept_entry keep mint (StonesEntry stones) = StonesEntry (filter (\<lambda>s. list_ex (\<lambda>iv. Maxt iv \<ge> mint) (intervals s)) stones)"

fun entry_empty :: "entry \<Rightarrow> bool" where
  "entry_empty (SeriesEntry series) \<longleftrightarrow> series = []"
| "entry_empty (SamplesEntry samples) \<longleftrightarrow> samples = []"
| "entry_empty (StonesEntry stones) \<longleftrightarrow> stones = []"

definition kept_entries :: "(u64 \<Rightarrow> bool) \<Rightarrow> int \<Rightarrow> entry list \<Rightarrow> entry list" where
  "kept_entries keep mint es = filter (\<lambda>e. \<not> entry_empty e) (map (kept_entry keep mint) es)"

fun encode_entry :: "entry \<Rightarrow> u8 list" where
  "encode_entry (SeriesEntry series) = Encoder_Series series []"
| "encode_entry (SamplesEntry samples) = Encoder_Samples samples []"
| "encode_entry (StonesEntry stones) = Encoder_Tombstones stones []"

lemma encode_entry_not_Nil [simp]: "encode_entry e \<noteq> []"
  using Encoder_bytes by (cases e) (simp_all, (metis append_Nil list.distinct(1))+)

text \<open>Entries that a decoder may return and an encoder can write: a decoded tombstone has one interval.\<close>

fun entry_ok :: "entry \<Rightarrow> bool" where
  "entry_ok (SeriesEntry series) \<longleftrightarrow> (\<forall>s \<in> set series. series_ok s)"
| "entry_ok (SamplesEntry samples) \<longleftrightarrow> (\<forall>s \<in> set samples. in_i64 (T s))"
| "entry_ok (StonesEntry stones) \<longleftrightarrow> (\<forall>s \<in> set stones. \<exists>iv. intervals s = [iv] \<and> in_i64 (Mint iv) \<and> in_i64 (Maxt iv))"

lemma entry_ok_kept: "entry_ok e \<Longrightarrow> entry_ok (kept_entry keep mint e)"
  by (cases e) auto

lemma checkpoint_entry_kept:
  "fst (checkpoint_entry keep mint e buf stats) = buf @ (if entry_empty (kept_entry keep mint e) then [] else encode_entry (kept_entry keep mint e))"
  by (cases e) (auto simp: Let_def Encoder_append [of _ buf])


lemma decode_encode_entry: "entry_ok e \<Longrightarrow> decode_record (encode_entry e) = Ok e"
proof (cases e)
  case (StonesEntry stones)
  assume ok: "entry_ok e"
  obtain bs where "Encoder_Tombstones stones [] = 3 # bs" using Encoder_bytes(3) [of stones] by auto
  then have t: "Decoder_Type (Encoder_Tombstones stones []) = RecordTombstones" by (simp add: Decoder_Type_def)
  have "map (\<lambda>iv. \<lparr>stone_ref = stone_ref s, intervals = [iv]\<rparr>) (intervals s) = [s]" if "s \<in> set stones" for s
    using ok that StonesEntry by (cases s) auto
  then have "concat (map (\<lambda>s. map (\<lambda>iv. \<lparr>stone_ref = stone_ref s, intervals = [iv]\<rparr>) (intervals s)) stones) = stones" by (induction stones) auto
  moreover have "\<forall>s \<in> set stones. \<forall>iv \<in> set (intervals s). in_i64 (Mint iv) \<and> in_i64 (Maxt iv)" using ok StonesEntry by fastforce
  ultimately show ?thesis using StonesEntry t stones_record_decodes [of stones "[]"] by (simp add: decode_record_def)
qed (simp_all add: records_decode)

text \<open>One turn, and all of them: the records kept are logged or wait in the batch.\<close>

lemma turns_kept:
  assumes "map decode_record recs = map Ok es" "holds (ck_cp s) rs" "ck_buf s = concat (ck_recs s)"
  shows "\<exists>s' rs'. turns keep mint recs s = Ok s' \<and> holds (ck_cp s') rs'
    \<and> rs' @ ck_recs s' = rs @ ck_recs s @ map encode_entry (kept_entries keep mint es) \<and> segment (ck_cp s') + int (length (ck_recs s')) \<le> segment (ck_cp s) + int (length (ck_recs s)) + int (length es)"
  using assms
proof (induction recs arbitrary: es s rs)
  case Nil
  then show ?case by (simp add: kept_entries_def)
next
  case (Cons rec recs)
  obtain e es' where es: "es = e # es'" "decode_record rec = Ok e" "map decode_record recs = map Ok es'" using Cons.prems(1) by (cases es) auto
  let ?k = "kept_entry keep mint e"
  let ?new = "if entry_empty ?k then [] else encode_entry ?k"
  obtain stats where ce: "checkpoint_entry keep mint e (ck_buf s) (ck_stats s) = (ck_buf s @ ?new, stats)"
    using checkpoint_entry_kept [of keep mint e "ck_buf s" "ck_stats s"] by (metis prod.collapse)
  have "\<exists>s1 rs1. checkpoint_turn keep mint rec s = Ok s1 \<and> holds (ck_cp s1) rs1 \<and> ck_buf s1 = concat (ck_recs s1)
      \<and> rs1 @ ck_recs s1 = rs @ ck_recs s @ (if entry_empty ?k then [] else [encode_entry ?k])
      \<and> segment (ck_cp s1) + int (length (ck_recs s1)) \<le> segment (ck_cp s) + int (length (ck_recs s)) + 1"
  proof (cases "entry_empty ?k")
    case True
    then show ?thesis using es(2) ce Cons.prems(2,3) by (auto simp: checkpoint_turn_def Let_def)
  next
    case False
    let ?recs = "ck_recs s @ [encode_entry ?k]"
    note L = Log_holds [OF Cons.prems(2), of ?recs]
    show ?thesis using False es(2) ce Cons.prems(2,3) L by (auto simp: checkpoint_turn_def Let_def)
  qed
  then obtain s1 rs1 where s1: "checkpoint_turn keep mint rec s = Ok s1" "holds (ck_cp s1) rs1" "ck_buf s1 = concat (ck_recs s1)"
    "rs1 @ ck_recs s1 = rs @ ck_recs s @ (if entry_empty ?k then [] else [encode_entry ?k])"
    "segment (ck_cp s1) + int (length (ck_recs s1)) \<le> segment (ck_cp s) + int (length (ck_recs s)) + 1" by blast
  from Cons.IH [OF es(3) s1(2,3)] obtain s' rs' where s': "turns keep mint recs s1 = Ok s'" "holds (ck_cp s') rs'"
    "rs' @ ck_recs s' = rs1 @ ck_recs s1 @ map encode_entry (kept_entries keep mint es')"
    "segment (ck_cp s') + int (length (ck_recs s')) \<le> segment (ck_cp s1) + int (length (ck_recs s1)) + int (length es')" by blast
  have "rs' @ ck_recs s' = (rs1 @ ck_recs s1) @ map encode_entry (kept_entries keep mint es')" using s'(3) by simp
  also have "\<dots> = rs @ ck_recs s @ map encode_entry (kept_entries keep mint es)" unfolding s1(4) by (simp add: es(1) kept_entries_def)
  finally show ?case using s1(1,5) s' by (intro exI [of _ s'] exI [of _ rs']) (simp add: es(1))
qed

section \<open>Replaying what is kept\<close>

lemma fold_filter_skip: "(\<And>x y. x \<in> set xs \<Longrightarrow> \<not> P x \<Longrightarrow> f x y = y) \<Longrightarrow> fold f (filter P xs) y = fold f xs y"
  by (induction xs arbitrary: y) auto

lemma replayed_kept:
  assumes "mint \<le> v" "keep k"
  shows "replayed v k (kept_entries keep mint es) x = replayed v k es x"
proof (induction es arbitrary: x)
  case (Cons e es)
  have "ref_entry v k (kept_entry keep mint e) y = ref_entry v k e y" for y
    using assms by (cases e) (auto intro!: fold_filter_skip simp: ref_series_def ref_sample_def)
  moreover have "ref_entry v k e' y = y" if "entry_empty e'" for e' y using that by (cases e') auto
  ultimately have "replayed v k (filter (\<lambda>e. \<not> entry_empty e) [kept_entry keep mint e]) x = ref_entry v k e x"
    by (simp add: replayed_def) metis
  then show ?case using Cons by (simp add: kept_entries_def replayed_def split: if_splits)
qed (simp add: kept_entries_def replayed_def)

lemma stones_kept:
  assumes "mint \<le> v"
  shows "fold (stones_entry v) (kept_entries keep mint es) t = fold (stones_entry v) es t"
proof (induction es arbitrary: t)
  case (Cons e es)
  have "load_stones v (filter (\<lambda>s. list_ex (\<lambda>iv. Maxt iv \<ge> mint) (intervals s)) stones) t = load_stones v stones t" for stones t
    unfolding load_stones_def
  proof (rule fold_filter_skip)
    fix s y assume "\<not> list_ex (\<lambda>iv. Maxt iv \<ge> mint) (intervals s)"
    then have "\<forall>iv \<in> set (intervals s). Maxt iv < v" using assms by (auto simp: list_ex_iff)
    then show "fold (\<lambda>itv t. if Maxt itv < v then t else addInterval (stone_ref s) [itv] t) (intervals s) y = y"
      using fold_filter_skip [of "intervals s" "\<lambda>_. False" "\<lambda>itv t. if Maxt itv < v then t else addInterval (stone_ref s) [itv] t" y] by auto
  qed
  then have k: "stones_entry v (kept_entry keep mint e) y = stones_entry v e y" for y by (cases e) auto
  have "stones_entry v e' y = y" if "entry_empty e'" for e' y using that by (cases e') (auto simp: load_stones_def)
  then have "fold (stones_entry v) (filter (\<lambda>e. \<not> entry_empty e) [kept_entry keep mint e]) t = stones_entry v e t" using k by simp metis
  then show ?case using Cons by (simp add: kept_entries_def split: if_splits)
qed (simp add: kept_entries_def)

section \<open>The directory of a checkpoint\<close>

text \<open>A closed log: every segment consists of whole pages.\<close>

definition closed_log :: "dir \<Rightarrow> u8 list list \<Rightarrow> bool" where
  "closed_log d recs \<longleftrightarrow> (\<exists>rss k. closed_segments d rss \<and> recs = concat rss \<and> numbered d k \<and> k < 2 ^ 31)"

lemma Close_closed_log:
  assumes "holds w recs" "segment w < 2 ^ 31"
  shows "closed_log (wdir (WAL_Close w)) recs"
proof -
  let ?v = "WAL_Close w"
  have v: "holds ?v recs" "settled ?v" "segment ?v = segment w" by (rule Close_holds [OF assms(1)])+
  have pw: "page_inv w" "page_inv ?v" using assms(1) v(1) by (auto simp: holds_def)
  have "alloc (wpage ?v) = 0" using flushPage_inv(4) [OF pw(1), of True] by (simp add: WAL_Close_def)
  then have len: "length (snd (last (wdir ?v))) mod pageSize = 0"
    using pw(2) v(2) active_settled [of ?v] by (simp add: page_inv_def)
  obtain rss rs where r: "closed_segments (butlast (wdir ?v)) rss" "Wal_Laws.stream 0 (active ?v) rs" "recs = concat rss @ rs" "numbered (wdir ?v) (segment ?v)"
    using v(1) by (auto simp: holds_def)
  have ne: "wdir ?v = butlast (wdir ?v) @ [last (wdir ?v)]" using pw(2) by (simp add: page_inv_def)
  have "closed_segments (butlast (wdir ?v) @ [last (wdir ?v)]) (rss @ [rs])"
    using r(1,2) len v(2) by (auto simp: closed_segments_def active_settled case_prod_unfold intro!: list_all2_appendI)
  then show ?thesis using r(3,4) v(3) assms(2) ne unfolding closed_log_def by (intro exI [of _ "rss @ [rs]"] exI [of _ "segment w"]) simp
qed

lemma closed_log_stream: "closed_log d recs \<Longrightarrow> Wal_Laws.stream 0 (concat (map snd d)) recs \<and> length (concat (map snd d)) mod pageSize = 0"
  using closed_stream by (auto simp: closed_log_def)

lemma closed_log_reader: "closed_log d recs \<Longrightarrow> NewSegmentsReader d = Ok (newSegmentBufReader d)"
  using NewSegmentsReader_numbered by (auto simp: closed_log_def)

lemma closed_log_read:
  assumes "closed_log d recs"
  shows "wal_read d = Some (recs, None)"
proof -
  have "Wal_Laws.stream 0 (concat (map snd d)) recs" using closed_log_stream [OF assms] by blast
  from segments_source.read_all_stream [OF this at_new_reader, of "\<lambda>rec recs. recs @ [rec]" "[]"] obtain r' where
    "read_all segments_ReadFull (\<lambda>rec recs. recs @ [rec]) [] (NewReader (newSegmentBufReader d)) = Some (recs, r')" "rerr r' = None"
    by (auto simp: fold_snoc NewReader_def)
  then show ?thesis using assms wal_read_end by (auto simp: closed_log_def)
qed

text \<open>The segments of a range of the log, at its start.\<close>

lemma range_reader:
  assumes "numbered (ss @ rest) k" "map fst ss = [from..to]" "0 \<le> from" "from \<le> to"
  shows "NewSegmentsRangeReader (ss @ rest) from to = Ok (newSegmentBufReader ss)"
proof -
  obtain f where f: "0 \<le> f" "f \<le> k" "map fst (ss @ rest) = [f..k]" using assms(1) by (auto simp: numbered_def)
  have dist: "distinct (map fst (ss @ rest))" using f(3) by simp
  have "f = from" using f(2,3) assms(2,4) by (simp add: upto_rec1)
  have "range_loop from to (map fst us) (ss @ rest) acc = acc @ us" if "set us \<subseteq> set ss" for us acc
    using that
  proof (induction us arbitrary: acc)
    case (Cons u us)
    have u: "fst u \<in> {from..to}" using Cons.prems arg_cong [OF assms(2), of set] by fastforce
    have "map_of (ss @ rest) (fst u) = Some (snd u)" using dist Cons.prems by (intro map_of_is_SomeI) auto
    then show ?case using Cons u by simp
  qed simp
  moreover have "range_loop from to (map fst rest) d acc = acc" for d acc
  proof (cases rest)
    case (Cons u us)
    have all: "map fst ss @ fst u # map fst us = [from..k]" using f(3) \<open>f = from\<close> Cons by simp
    have len: "int (length ss) = to - from + 1" using arg_cong [OF assms(2), of length] assms(4) by simp
    have "length ss < length [from..k]" unfolding all [symmetric] by simp
    then have "[from..k] ! length ss = from + int (length ss)" by (intro nth_upto) simp
    moreover have "[from..k] ! length ss = fst u" unfolding all [symmetric] by (simp add: nth_append)
    ultimately have "fst u > to" using len by simp
    then show ?thesis using Cons assms(3,4) by simp
  qed simp
  moreover have "range_loop a b (xs @ ys) d acc = range_loop a b ys d (range_loop a b xs d acc)" if "\<forall>x \<in> set xs. a \<le> x \<and> x \<le> b" for a b xs ys d acc
    using that by (induction xs arbitrary: acc) auto
  then have "range_loop from to (map fst ss @ map fst rest) (ss @ rest) [] = range_loop from to (map fst rest) (ss @ rest) (range_loop from to (map fst ss) (ss @ rest) [])"
    unfolding assms(2) by simp
  ultimately show ?thesis using listSegments_numbered [OF assms(1)] by (simp add: NewSegmentsRangeReader_def)
qed


lemma Checkpoint_writes:
  assumes "checkpoint_sources d files from to = Ok (map newSegmentBufReader ds)" "Wal_Laws.stream 0 (concat (map (\<lambda>d. concat (map snd d)) ds)) recs"
    and "map decode_record recs = map Ok es" "mkdir_all (tmp_name to) files = Ok files1" "New_wal (dir_contents (tmp_name to) files1) = Ok cp" "holds cp old"
    and "segment cp + int (length es) < 2 ^ 31"
  shows "\<exists>stats cd. Checkpoint d files from to keep mint = Some (Ok stats, Replace (tmp_name to) (checkpoint_name to) (set_contents (tmp_name to) cd files1))
    \<and> closed_log cd (old @ map encode_entry (kept_entries keep mint es))"
proof -
  let ?s = "\<lparr>ck_cp = cp, ck_buf = [], ck_recs = [], ck_stats = zero_stats\<rparr>" and ?r = "NewReader (map newSegmentBufReader ds)"
  have "multi_avail (map newSegmentBufReader ds) = concat (map (\<lambda>d. concat (map snd d)) ds)"
    by (simp add: newSegmentBufReader_def seg_avail_def comp_def)
  then have "multi_source.at_stream ?r (concat (map (\<lambda>d. concat (map snd d)) ds)) 0"
    by (auto simp: multi_source.at_stream_def NewReader_def newSegmentBufReader_def)
  from multi_source.read_all_stream [OF assms(2) this, of "\<lambda>rec recs. recs @ [rec]" "[]"] obtain r' where
    r': "read_all multi_ReadFull (\<lambda>rec recs. recs @ [rec]) [] ?r = Some (recs, r')" "rerr r' = None" by (auto simp: fold_snoc NewReader_def)
  obtain s' rs' where s': "turns keep mint recs ?s = Ok s'" "holds (ck_cp s') rs'" "rs' @ ck_recs s' = old @ map encode_entry (kept_entries keep mint es)"
    "segment (ck_cp s') + int (length (ck_recs s')) \<le> segment cp + int (length es)"
    using turns_kept [OF assms(3), of ?s old keep mint] assms(6) by auto
  have loop: "checkpoint_loop keep mint ?s ?r = Some (Ok (), s', r')" using checkpoint_loop_turns [OF r'(1), of keep mint] s'(1) by auto
  let ?cp = "Log (ck_recs s') (ck_cp s')"
  have L: "holds ?cp (rs' @ ck_recs s')" "segment ?cp < 2 ^ 31" using Log_holds [OF s'(2), of "ck_recs s'"] s'(4) assms(7) by auto
  have "closed_log (wdir (WAL_Close ?cp)) (old @ map encode_entry (kept_entries keep mint es))" using Close_closed_log [OF L] s'(3) by simp
  moreover have "Checkpoint d files from to keep mint = Some (Ok (ck_stats s'), Replace (tmp_name to) (checkpoint_name to) (set_contents (tmp_name to) (wdir (WAL_Close ?cp)) files1))"
    using assms(1,4,5) loop r'(2) by (simp add: Checkpoint_def Let_def)
  ultimately show ?thesis by blast
qed

definition prev_checkpoint :: "fileInfo list \<Rightarrow> int \<Rightarrow> u8 list list \<Rightarrow> bool" where
  "prev_checkpoint files from recs \<longleftrightarrow> LastCheckpoint files = Fail ErrNotFound \<and> recs = []
     \<or> (\<exists>fi. LastCheckpoint files = Ok (fi, from - 1) \<and> closed_log (fi_dir fi) recs)"

lemma sources_stream:
  assumes "numbered (ss @ rest) k" "map fst ss = [from..to]" "0 \<le> from" "from \<le> to" "closed_segments ss rss" "prev_checkpoint files from recs0"
  shows "\<exists>ds. checkpoint_sources (ss @ rest) files from to = Ok (map newSegmentBufReader ds) \<and> Wal_Laws.stream 0 (concat (map (\<lambda>d. concat (map snd d)) ds)) (recs0 @ concat rss)"
proof -
  note r = range_reader [OF assms(1-4)] and seg = closed_stream [OF assms(5)]
  consider "LastCheckpoint files = Fail ErrNotFound" "recs0 = []" | fi where "LastCheckpoint files = Ok (fi, from - 1)" "closed_log (fi_dir fi) recs0"
    using assms(6) by (auto simp: prev_checkpoint_def)
  then show ?thesis
  proof cases
    case 1
    then show ?thesis using r seg by (intro exI [of _ "[ss]"]) (simp add: checkpoint_sources_def)
  next
    case 2
    let ?c = "concat (map snd (fi_dir fi))"
    note c = closed_log_stream [OF 2(2)]
    have "Wal_Laws.stream (0 + length ?c) (concat (map snd ss)) (concat rss)" by (rule stream_shift [OF conjunct1 [OF seg]]) (use c in simp)
    then show ?thesis using 2 r closed_log_reader [OF 2(2)] stream_append [of 0 ?c recs0 "concat (map snd ss)" "concat rss"] c
      by (intro exI [of _ "[fi_dir fi, ss]"]) (simp add: checkpoint_sources_def)
  qed
qed

section \<open>The names of checkpoints\<close>

definition checkpoints_ok :: "int \<Rightarrow> fileInfo list \<Rightarrow> bool" where
  "checkpoints_ok to files \<longleftrightarrow> (\<forall>fi \<in> set files. has_prefix (fi_Name fi) checkpointPrefix \<longrightarrow> fi_IsDir fi \<and> (\<exists>i. 0 \<le> i \<and> i < to \<and> fi_Name fi = checkpoint_name i))"

lemma pad6_inject: "pad6 i = pad6 j \<longleftrightarrow> i = j"
  by (metis digits_value_pad6 nat_int option.inject)

lemma has_prefix_name [simp]: "has_prefix (checkpoint_name i) checkpointPrefix" "has_prefix (tmp_name i) checkpointPrefix"
  by (simp_all add: has_prefix_def tmp_name_def checkpoint_name_def)

lemma tmp_name_fresh:
  assumes "checkpoints_ok to files" "0 \<le> to" "to < 10 ^ 6" "fi \<in> set files"
  shows "fi_Name fi \<noteq> tmp_name to" "fi_Name fi \<noteq> checkpoint_name to"
proof -
  have "checkpoint_name i \<noteq> tmp_name to" "checkpoint_name i \<noteq> checkpoint_name to" if "0 \<le> i" "i < to" for i
  proof -
    have "length (pad6 (nat i)) = 6" "length (pad6 (nat to)) = 6" using that assms(2,3) by (simp_all add: length_pad6)
    then have "length (checkpoint_name i) \<noteq> length (tmp_name to)" by (simp add: checkpoint_name_def tmp_name_def)
    then show "checkpoint_name i \<noteq> tmp_name to" by metis
    show "checkpoint_name i \<noteq> checkpoint_name to" using that by (simp add: checkpoint_name_def pad6_inject)
  qed
  then show "fi_Name fi \<noteq> tmp_name to" "fi_Name fi \<noteq> checkpoint_name to"
    using assms(1,4) unfolding checkpoints_ok_def by (metis has_prefix_name)+
qed

lemma Atoi_pad6:
  assumes "k < 2 ^ 63"
  shows "Atoi (pad6 k) = Some (int k)"
proof -
  obtain c cs where p: "pad6 k = c # cs" using length_pad6 by (cases "pad6 k") (auto simp: pad6_def decimal.simps [of k])
  have d: "digits_value (c # cs) 0 = Some (int k)" using digits_value_pad6 [of k] p by simp
  then have "48 \<le> c \<and> c \<le> 57" by (auto split: if_splits)
  then have "c \<noteq> 43" "c \<noteq> 45" by auto
  moreover have "in_i64 (int k)" using assms by (simp add: in_i64_def)
  ultimately show ?thesis using d by (simp add: Atoi_def p Let_def del: digits_value.simps)
qed

lemma checkpoint_name_index: "0 \<le> to \<Longrightarrow> to < 10 ^ 6 \<Longrightarrow> fi_Name fi = checkpoint_name to \<Longrightarrow> checkpoint_index fi = Some to"
  using Atoi_pad6 [of "nat to"] by (simp add: checkpoint_index_def checkpoint_name_def)

lemma LastCheckpoint_new:
  assumes "checkpoints_ok to files" "0 \<le> to" "to < 10 ^ 6" "fi_Name fi = checkpoint_name to" "fi_IsDir fi"
  shows "LastCheckpoint (files @ [fi]) = Ok (fi, to)"
proof -
  let ?xs = "sort_key fi_Name (files @ [fi])"
  have "fi \<in> set ?xs" by simp
  then obtain as bs where xs: "?xs = as @ fi # bs" by (meson split_list)
  have "sorted (map fi_Name ?xs)" by (rule sorted_sort_key)
  then have later: "checkpoint_name to \<le> fi_Name b" if "b \<in> set bs" for b using that xs assms(4) by (auto simp: sorted_append)
  have "mset ?xs = mset (files @ [fi])" by simp
  then have "mset as + mset bs = mset files" by (simp add: xs)
  then have "set bs \<subseteq> set files" by (metis set_mset_mset set_mset_union Un_upper2)
  have "\<not> has_prefix (fi_Name b) checkpointPrefix" if b: "b \<in> set bs" for b
  proof
    assume "has_prefix (fi_Name b) checkpointPrefix"
    then obtain i where i: "0 \<le> i" "i < to" "fi_Name b = checkpoint_name i" using assms(1) b \<open>set bs \<subseteq> set files\<close> by (auto simp: checkpoints_ok_def)
    then have "pad6 (nat i) < pad6 (nat to)" using assms(3) by (intro pad6_less) auto
    then show False using later [OF b] i(3) by (simp add: checkpoint_name_def checkpointPrefix_def)
  qed
  then have skip: "last_checkpoint (rev bs' @ rest) = last_checkpoint rest" if "set bs' \<subseteq> set bs" for bs' rest
    using that by (induction bs' rule: rev_induct) auto
  show ?thesis using skip [of bs "fi # rev as"] assms(4,5) checkpoint_name_index [OF assms(2-4)] by (simp add: LastCheckpoint_def xs)
qed


section \<open>Properties\<close>

lemma Replace_tmp:
  assumes "\<And>fi. fi \<in> set files \<Longrightarrow> fi_Name fi \<noteq> t \<and> fi_Name fi \<noteq> n" "t \<noteq> n"
  shows "Replace t n (set_contents t d (files @ [\<lparr>fi_Name = t, fi_IsDir = True, fi_dir = c\<rparr>])) = files @ [\<lparr>fi_Name = n, fi_IsDir = True, fi_dir = d\<rparr>]"
proof -
  have "set_contents t d (files @ [\<lparr>fi_Name = t, fi_IsDir = True, fi_dir = c\<rparr>]) = files @ [\<lparr>fi_Name = t, fi_IsDir = True, fi_dir = d\<rparr>]"
    using assms(1) by (auto simp: set_contents_def intro!: map_idI)
  moreover have "filter (\<lambda>fi. fi_Name fi \<noteq> n) files = files" using assms(1) by (simp add: filter_id_conv)
  moreover have "map (\<lambda>fi. if fi_Name fi = t then fi\<lparr>fi_Name := n\<rparr> else fi) files = files" using assms(1) by (auto intro!: map_idI)
  ultimately show ?thesis using assms(2) by (simp add: Replace_def)
qed

lemma find_absent: "(\<And>x. x \<in> set xs \<Longrightarrow> \<not> P x) \<Longrightarrow> find P xs = None"
  by (induction xs) auto

lemma Checkpoint_new:
  assumes "numbered (ss @ rest) k" "map fst ss = [from..to]" "0 \<le> from" "from \<le> to" "to < 10 ^ 6" "closed_segments ss rss"
    and "checkpoints_ok to files" "prev_checkpoint files from recs0" "map decode_record (recs0 @ concat rss) = map Ok es" "length es < 2 ^ 31"
  obtains stats fi where "Checkpoint (ss @ rest) files from to keep mint = Some (Ok stats, files @ [fi])" "fi_Name fi = checkpoint_name to" "fi_IsDir fi"
    "closed_log (fi_dir fi) (map encode_entry (kept_entries keep mint es))" "LastCheckpoint (files @ [fi]) = Ok (fi, to)"
proof -
  let ?t = "tmp_name to" and ?n = "checkpoint_name to"
  let ?new = "\<lparr>fi_Name = ?t, fi_IsDir = True, fi_dir = []\<rparr>"
  have to: "0 \<le> to" using assms(3,4) by simp
  note fresh = tmp_name_fresh [OF assms(7) to assms(5)]
  have ne: "?t \<noteq> ?n" by (simp add: tmp_name_def)
  obtain ds where ds: "checkpoint_sources (ss @ rest) files from to = Ok (map newSegmentBufReader ds)"
    "Wal_Laws.stream 0 (concat (map (\<lambda>d. concat (map snd d)) ds)) (recs0 @ concat rss)" using sources_stream [OF assms(1-4,6,8)] by blast
  have find: "find (\<lambda>fi. fi_Name fi = ?t) files = None" using fresh(1) by (intro find_absent) blast
  then have mk: "mkdir_all ?t files = Ok (files @ [?new])" by (simp add: mkdir_all_def)
  have "find (\<lambda>fi. fi_Name fi = ?t) (files @ [?new]) = Some ?new" using find by (induction files) (auto split: if_splits)
  then have dc: "dir_contents ?t (files @ [?new]) = []" by (simp add: dir_contents_def)
  obtain cp where cp: "New_wal [] = Ok cp" "holds cp []" "segment cp = 0"
    using NewSize_fresh [of defaultSegmentSize] by (auto simp: New_wal_def defaultSegmentSize_def pageSize_def)
  obtain stats cd where c: "Checkpoint (ss @ rest) files from to keep mint = Some (Ok stats, Replace ?t ?n (set_contents ?t cd (files @ [?new])))"
    "closed_log cd (map encode_entry (kept_entries keep mint es))"
    using Checkpoint_writes [OF ds assms(9) mk _ cp(2), of keep mint] dc cp(1,3) assms(10) by auto
  let ?fi = "\<lparr>fi_Name = ?n, fi_IsDir = True, fi_dir = cd\<rparr>"
  have files: "Replace ?t ?n (set_contents ?t cd (files @ [?new])) = files @ [?fi]" by (rule Replace_tmp) (use fresh ne in blast)+
  have last: "LastCheckpoint (files @ [?fi]) = Ok (?fi, to)" by (rule LastCheckpoint_new [OF assms(7) to assms(5)]) simp_all
  show ?thesis using that [of stats ?fi] c files last by simp
qed

lemma checkpoints_ok_new:
  assumes "checkpoints_ok to files" "0 \<le> to" "fi_Name fi = checkpoint_name to" "fi_IsDir fi"
  shows "checkpoints_ok (to + 1) (files @ [fi])"
proof -
  have "\<exists>i. 0 \<le> i \<and> i < to + 1 \<and> fi_Name g = checkpoint_name i" if "\<exists>i. 0 \<le> i \<and> i < to \<and> fi_Name g = checkpoint_name i" for g
    using that by (metis less_add_one order_less_trans)
  moreover have "\<exists>i. 0 \<le> i \<and> i < to + 1 \<and> fi_Name fi = checkpoint_name i" using assms(2,3) by (intro exI [of _ to]) simp
  ultimately show ?thesis using assms(1,4) unfolding checkpoints_ok_def set_append Ball_def by (metis Un_iff empty_iff insert_iff list.set(1,2))
qed

lemma kept_entries_decode:
  assumes "list_all entry_ok es"
  shows "list_all entry_ok (kept_entries keep mint es)" "map decode_record (map encode_entry (kept_entries keep mint es)) = map Ok (kept_entries keep mint es)"
proof -
  show ok: "list_all entry_ok (kept_entries keep mint es)" using assms by (auto simp: kept_entries_def list_all_iff entry_ok_kept)
  then show "map decode_record (map encode_entry (kept_entries keep mint es)) = map Ok (kept_entries keep mint es)"
    by (auto simp: list_all_iff decode_encode_entry)
qed

text \<open>
  C11. A checkpoint restores what it was made from. The first segments of a log, all but the active one, are written to a checkpoint, together with
  the one before it, if there is one; their records decode, and no directory is left from an attempt that failed. Then the
  call succeeds, the new checkpoint is the last one found, it reads without an error, and
  replaying it, from any minimum time not below \<open>mint\<close>, gives every series that was to be kept and all
  tombstones just as replaying the records it replaces.
\<close>

theorem checkpoint_restores:
  assumes "numbered (ss @ rest) k" "map fst ss = [from..to]" "0 \<le> from" "from \<le> to" "to < 10 ^ 6" "closed_segments ss rss"
    and "checkpoints_ok to files" "prev_checkpoint files from recs0" "map decode_record (recs0 @ concat rss) = map Ok es" "list_all entry_ok es" "length es < 2 ^ 31"
  shows "\<exists>stats fi recs es'. Checkpoint (ss @ rest) files from to keep mint = Some (Ok stats, files @ [fi]) \<and> LastCheckpoint (files @ [fi]) = Ok (fi, to)
    \<and> checkpoints_ok (to + 1) (files @ [fi]) \<and> prev_checkpoint (files @ [fi]) (to + 1) recs
    \<and> wal_read (fi_dir fi) = Some (recs, None) \<and> map decode_record recs = map Ok es'
    \<and> (\<forall>v k x. mint \<le> v \<and> keep k \<longrightarrow> replayed v k es' x = replayed v k es x) \<and> (\<forall>v t. mint \<le> v \<longrightarrow> fold (stones_entry v) es' t = fold (stones_entry v) es t)"
proof -
  let ?es = "kept_entries keep mint es"
  obtain stats fi where c: "Checkpoint (ss @ rest) files from to keep mint = Some (Ok stats, files @ [fi])" "fi_Name fi = checkpoint_name to" "fi_IsDir fi"
    "closed_log (fi_dir fi) (map encode_entry ?es)" "LastCheckpoint (files @ [fi]) = Ok (fi, to)" by (rule Checkpoint_new [OF assms(1-9) assms(11)])
  note dec = kept_entries_decode(2) [OF assms(10), of keep mint]
  have "checkpoints_ok (to + 1) (files @ [fi])" by (rule checkpoints_ok_new [OF assms(7) _ c(2,3)]) (use assms(3,4) in simp)
  moreover have "prev_checkpoint (files @ [fi]) (to + 1) (map encode_entry ?es)" using c(4,5) by (simp add: prev_checkpoint_def)
  ultimately show ?thesis using c(1,5) closed_log_read [OF c(4)] dec replayed_kept stones_kept
    by (intro exI [of _ stats] exI [of _ fi] exI [of _ "map encode_entry ?es"] exI [of _ ?es]) auto
qed


lemma frags_length: "frags i n rec b \<Longrightarrow> length b > 0"
  by (induction rule: frags.induct) (simp_all del: length_greater_0_conv)

lemma stream_Nil: "Wal_Laws.stream n bs recs \<Longrightarrow> bs = [] \<Longrightarrow> recs = []"
  by (induction rule: Wal_Laws.stream.induct) (auto dest: frags_length)

text \<open>The closed segments of a log that has just started a new one.\<close>

lemma next_segment_closed:
  assumes "holds w recs"
  obtains ss rest rss f where "wdir (nextSegment w) = ss @ rest" "numbered (ss @ rest) (segment w + 1)" "map fst ss = [f..segment w]" "0 \<le> f" "f \<le> segment w + 1"
    "closed_segments ss rss" "concat rss = recs"
proof -
  let ?v = "nextSegment w"
  note v = nextSegment_holds [OF assms]
  obtain rss rs where r: "closed_segments (butlast (wdir ?v)) rss" "Wal_Laws.stream 0 (active ?v) rs" "recs = concat rss @ rs" "numbered (wdir ?v) (segment ?v)" "page_inv ?v"
    using v(1) by (auto simp: holds_def)
  have "rs = []" using stream_Nil [OF r(2) v(2)] .
  obtain f where f: "0 \<le> f" "f \<le> segment ?v" "map fst (wdir ?v) = [f..segment ?v]" using r(4) by (auto simp: numbered_def)
  have d: "wdir ?v = butlast (wdir ?v) @ [last (wdir ?v)]" using r(5) by (simp add: page_inv_def)
  have "map fst (butlast (wdir ?v)) = butlast [f..segment ?v]" unfolding f(3) [symmetric] by (simp add: map_butlast)
  also have "\<dots> = [f..segment w]" using f(2) v(7) by (simp add: upto_rec2)
  finally show ?thesis using that [of "butlast (wdir ?v)" "[last (wdir ?v)]" f rss] d r(1,3,4) f(1,2) v(7) \<open>rs = []\<close> by simp
qed

theorem checkpoint_restores_witness:
  "\<exists>w f to stats fi recs. New_wal [] = Ok w
    \<and> Checkpoint (wdir (nextSegment (Log [Encoder_Series [\<lparr>series_Ref = 1, series_Labels = []\<rparr>, \<lparr>series_Ref = 2, series_Labels = []\<rparr>] [],
          Encoder_Samples [\<lparr>Ref = 1, T = 250, V = 7\<rparr>, \<lparr>Ref = 1, T = 50, V = 1\<rparr>] []] w))) [] f to (\<lambda>k. k = 1) 100 = Some (Ok stats, [fi])
    \<and> LastCheckpoint [fi] = Ok (fi, to) \<and> wal_read (fi_dir fi) = Some (recs, None)"
proof -
  let ?series = "[\<lparr>series_Ref = 1, series_Labels = []\<rparr>, \<lparr>series_Ref = 2, series_Labels = []\<rparr>]" and ?samples = "[\<lparr>Ref = 1, T = 250, V = 7\<rparr>, \<lparr>Ref = 1, T = 50, V = 1\<rparr>]"
  let ?recs = "[Encoder_Series ?series [], Encoder_Samples ?samples []]" and ?es = "[SeriesEntry ?series, SamplesEntry ?samples]"
  obtain w where w: "New_wal [] = Ok w" "holds w []" "segment w = 0"
    using NewSize_fresh [of defaultSegmentSize] by (auto simp: New_wal_def defaultSegmentSize_def pageSize_def)
  let ?w = "Log ?recs w"
  have h: "holds ?w ?recs" "segment ?w \<le> 2" using Log_holds [OF w(2), of ?recs] w(3) by simp_all
  obtain ss rest rss f where d: "wdir (nextSegment ?w) = ss @ rest" "numbered (ss @ rest) (segment ?w + 1)" "map fst ss = [f..segment ?w]" "0 \<le> f"
    "f \<le> segment ?w + 1" "closed_segments ss rss" "concat rss = ?recs" by (rule next_segment_closed [OF h(1)])
  have "ss \<noteq> []" using d(6,7) by (auto simp: closed_segments_def)
  then have le: "f \<le> segment ?w" using arg_cong [OF d(3), of length] by (cases "f \<le> segment ?w") auto
  have dec: "map decode_record ([] @ concat rss) = map Ok ?es"
    unfolding d(7) by (simp add: records_decode in_i64_def series_ok_def wf_labels_def go_len_def)
  have prev: "prev_checkpoint [] f []" by (simp add: prev_checkpoint_def LastCheckpoint_def)
  have ok: "list_all entry_ok ?es" by (simp add: in_i64_def series_ok_def wf_labels_def go_len_def)
  have "\<exists>stats fi recs es'. Checkpoint (ss @ rest) [] f (segment ?w) (\<lambda>k. k = 1) 100 = Some (Ok stats, [] @ [fi]) \<and> LastCheckpoint ([] @ [fi]) = Ok (fi, segment ?w)
      \<and> checkpoints_ok (segment ?w + 1) ([] @ [fi]) \<and> prev_checkpoint ([] @ [fi]) (segment ?w + 1) recs \<and> wal_read (fi_dir fi) = Some (recs, None) \<and> map decode_record recs = map Ok es'
      \<and> (\<forall>v k x. 100 \<le> v \<and> k = 1 \<longrightarrow> replayed v k es' x = replayed v k ?es x) \<and> (\<forall>v t. 100 \<le> v \<longrightarrow> fold (stones_entry v) es' t = fold (stones_entry v) ?es t)"
    by (rule checkpoint_restores [OF d(2,3,4) le _ d(6) _ prev dec ok]) (use h(2) in \<open>simp_all add: checkpoints_ok_def\<close>)
  then show ?thesis unfolding d(1) using w(1) d(1) by (metis append_Nil)
qed

lemma dir_contents_Replace:
  assumes "find (\<lambda>fi. fi_Name fi = t) files = Some fi" "t \<noteq> n"
  shows "dir_contents n (Replace t n (set_contents t d files)) = d"
proof -
  have "find (\<lambda>fi. fi_Name fi = n) (Replace t n (set_contents t d files)) = Some (fi\<lparr>fi_dir := d, fi_Name := n\<rparr>)"
    using assms by (induction files) (auto simp: Replace_def set_contents_def split: if_splits)
  then show ?thesis by (simp add: dir_contents_def)
qed

text \<open>
  C36. What a failed attempt has left gets into the checkpoint. If the directory of an attempt for the same segment is still there, it is neither
  removed nor emptied: the call succeeds, and the new checkpoint reads as the records left in it followed by those that are kept.
\<close>

theorem leftover_records_kept:
  assumes "numbered (ss @ rest) k" "map fst ss = [from..to]" "0 \<le> from" "from \<le> to" "closed_segments ss rss" "prev_checkpoint files from recs0"
    and "map decode_record (recs0 @ concat rss) = map Ok es" "find (\<lambda>fi. fi_Name fi = tmp_name to) files = Some fi" "fi_IsDir fi" "dir_holds (fi_dir fi) old"
    and "fst (last (fi_dir fi)) + int (length es) < 2 ^ 31"
  shows "\<exists>stats files'. Checkpoint (ss @ rest) files from to keep mint = Some (Ok stats, files')
    \<and> wal_read (dir_contents (checkpoint_name to) files') = Some (old @ map encode_entry (kept_entries keep mint es), None)"
proof -
  obtain ds where ds: "checkpoint_sources (ss @ rest) files from to = Ok (map newSegmentBufReader ds)"
    "Wal_Laws.stream 0 (concat (map (\<lambda>d. concat (map snd d)) ds)) (recs0 @ concat rss)" using sources_stream [OF assms(1-6)] by blast
  have mk: "mkdir_all (tmp_name to) files = Ok files" using assms(8,9) by (simp add: mkdir_all_def)
  obtain cp where cp: "New_wal (fi_dir fi) = Ok cp" "holds cp old" "segment cp = fst (last (fi_dir fi))"
    using NewSize_reopen [OF assms(10), of defaultSegmentSize] by (auto simp: New_wal_def defaultSegmentSize_def pageSize_def)
  have dc: "dir_contents (tmp_name to) files = fi_dir fi" using assms(8) by (simp add: dir_contents_def)
  obtain stats cd where c: "Checkpoint (ss @ rest) files from to keep mint = Some (Ok stats, Replace (tmp_name to) (checkpoint_name to) (set_contents (tmp_name to) cd files))"
    "closed_log cd (old @ map encode_entry (kept_entries keep mint es))"
    using Checkpoint_writes [OF ds assms(7) mk _ cp(2), of keep mint] dc cp(1,3) assms(11) by auto
  have "dir_contents (checkpoint_name to) (Replace (tmp_name to) (checkpoint_name to) (set_contents (tmp_name to) cd files)) = cd"
    by (rule dir_contents_Replace [OF assms(8)]) (simp add: tmp_name_def)
  then show ?thesis using c(1) closed_log_read [OF c(2)] by metis
qed


lemma Atoi_tmp: "Atoi (xs @ [46, 116, 109, 112]) = None"
proof -
  have d: "digits_value (ys @ [46, 116, 109, 112]) acc = None" for ys acc by (simp add: digits_value_append Option.bind_eq_None_conv)
  show ?thesis
  proof (cases xs)
    case Nil
    then show ?thesis using d [of "[]"] by (simp add: Atoi_def Let_def)
  next
    case (Cons x ys)
    then show ?thesis using d [of ys] d [of "x # ys"] by (simp add: Atoi_def Let_def del: digits_value.simps)
  qed
qed

theorem leftover_records_kept_witness:
  "\<exists>w f to fi stats files'. New_wal [] = Ok w \<and> fi = \<lparr>fi_Name = tmp_name to, fi_IsDir = True, fi_dir = wdir (Log [[9, 9]] w)\<rparr>
    \<and> Checkpoint (wdir (nextSegment (Log [Encoder_Samples [\<lparr>Ref = 1, T = 250, V = 7\<rparr>] []] w))) [fi] f to (\<lambda>_. True) 100 = Some (Ok stats, files')
    \<and> wal_read (dir_contents (checkpoint_name to) files') = Some ([[9, 9], Encoder_Samples [\<lparr>Ref = 1, T = 250, V = 7\<rparr>] []], None)"
proof -
  let ?samples = "[\<lparr>Ref = 1, T = 250, V = 7\<rparr>]"
  let ?recs = "[Encoder_Samples ?samples []]" and ?es = "[SamplesEntry ?samples]"
  obtain w where w: "New_wal [] = Ok w" "holds w []" "segment w = 0"
    using NewSize_fresh [of defaultSegmentSize] by (auto simp: New_wal_def defaultSegmentSize_def pageSize_def)
  let ?w = "Log ?recs w" and ?l = "Log [[9, 9]] w"
  have h: "holds ?w ?recs" using Log_holds [OF w(2), of ?recs] by simp
  have l: "holds ?l [[9, 9]]" "settled ?l" "segment ?l \<le> 1" using Log_holds [OF w(2), of "[[9, 9]]"] w(3) by simp_all
  obtain ss rest rss f where d: "wdir (nextSegment ?w) = ss @ rest" "numbered (ss @ rest) (segment ?w + 1)" "map fst ss = [f..segment ?w]" "0 \<le> f"
    "f \<le> segment ?w + 1" "closed_segments ss rss" "concat rss = ?recs" by (rule next_segment_closed [OF h])
  have "ss \<noteq> []" using d(6,7) by (auto simp: closed_segments_def)
  then have le: "f \<le> segment ?w" using arg_cong [OF d(3), of length] by (cases "f \<le> segment ?w") auto
  let ?fi = "\<lparr>fi_Name = tmp_name (segment ?w), fi_IsDir = True, fi_dir = wdir ?l\<rparr>"
  have "checkpoint_index ?fi = None" by (simp add: checkpoint_index_def tmp_name_def checkpoint_name_def Atoi_tmp)
  then have prev: "prev_checkpoint [?fi] f []" by (simp add: prev_checkpoint_def LastCheckpoint_def)
  have dec: "map decode_record ([] @ concat rss) = map Ok ?es" unfolding d(7) by (simp add: records_decode in_i64_def)
  have last: "fst (last (wdir ?l)) + int (length ?es) < 2 ^ 31" using last_segment [OF l(1)] l(3) by simp
  obtain stats files' where c: "Checkpoint (ss @ rest) [?fi] f (segment ?w) (\<lambda>_. True) 100 = Some (Ok stats, files')"
    "wal_read (dir_contents (checkpoint_name (segment ?w)) files') = Some ([[9, 9]] @ map encode_entry (kept_entries (\<lambda>_. True) 100 ?es), None)"
    using leftover_records_kept [OF d(2,3,4) le d(6) prev dec, of ?fi "[[9, 9]]" "\<lambda>_. True" 100] last holds_dir [OF l(1,2)] by auto
  then have "wal_read (dir_contents (checkpoint_name (segment ?w)) files') = Some ([[9, 9], Encoder_Samples ?samples []], None)"
    by (simp add: kept_entries_def)
  then show ?thesis unfolding d(1) using w(1) d(1) c(1) by metis
qed

end
