(* ===== verification/Load_Ring.thy ===== *)
theory Load_Ring
  imports Head_Replay
begin

text \<open>
  The invariants of the ring of goroutines that replays the log: the channels never block all of
  them at once, and completing the work in flight gives the same head from every state of a run.
\<close>

section \<open>The kinds of step\<close>

definition the_entry :: "u8 list \<Rightarrow> entry" where
  "the_entry rec = (case decode_record rec of Ok e \<Rightarrow> e | _ \<Rightarrow> StonesEntry [])"

definition queued :: "replay \<Rightarrow> entry list" where
  "queued s = (case rp_pc s of MSeries rs \<Rightarrow> [SeriesEntry rs] | _ \<Rightarrow> []) @ map the_entry (rp_recs s)"

definition rest :: "replay \<Rightarrow> nat \<Rightarrow> RefSample list" where
  "rest s = todo (rp_chans s) (rp_workers s) (pending (rp_pc s))"

definition decodable :: "replay \<Rightarrow> bool" where
  "decodable s \<longleftrightarrow> (\<forall>rec \<in> set (rp_recs s). \<exists>e. decode_record rec = Ok e)"

lemma worker_step_cases:
  assumes "worker_step v n i s = Some s'"
  obtains
    (recv) b bs where "w_pc (rp_workers s ! i) = WRecv" "ch_buf (rp_chans s ! i) = b # bs"
      "s' = s\<lparr>rp_chans := pop i (rp_chans s), rp_workers := (rp_workers s)[i := (rp_workers s ! i)\<lparr>w_pc := WBatch b b\<rparr>]\<rparr>"
  | (finish) "w_pc (rp_workers s ! i) = WRecv" "ch_buf (rp_chans s ! i) = []" "ch_closed (rp_chans s ! i)"
      "s' = s\<lparr>rp_head := updateMinMaxTime (w_mint (rp_workers s ! i)) (w_maxt (rp_workers s ! i)) (rp_head s),
              rp_chans := close_chan (Suc i) (rp_chans s), rp_workers := (rp_workers s)[i := (rp_workers s ! i)\<lparr>w_pc := WDone\<rparr>],
              rp_unknown := rp_unknown s + w_unknown (rp_workers s ! i)\<rparr>"
  | (sample) x xs b w' h where "w_pc (rp_workers s ! i) = WBatch (x # xs) b"
      "worker_sample v n i x (rp_workers s ! i) (rp_head s) = Ok (w', h)"
      "s' = s\<lparr>rp_head := h, rp_workers := (rp_workers s)[i := w'\<lparr>w_pc := WBatch xs b\<rparr>]\<rparr>"
  | (crash) x xs b where "w_pc (rp_workers s ! i) = WBatch (x # xs) b"
      "\<nexists>r. worker_sample v n i x (rp_workers s ! i) (rp_head s) = Ok r" "s' = s\<lparr>rp_pc := MDone LoadPanic\<rparr>"
  | (pass) b where "w_pc (rp_workers s ! i) = WBatch [] b" "length (ch_buf (rp_chans s ! Suc i)) < chan_cap"
      "s' = s\<lparr>rp_chans := push (Suc i) b (rp_chans s), rp_workers := (rp_workers s)[i := (rp_workers s ! i)\<lparr>w_pc := WRecv\<rparr>]\<rparr>"
  using assms unfolding worker_step_def Let_def
  by (auto split: worker_pc.splits list.splits if_splits outcome.splits prod.splits)

lemma main_step_cases:
  assumes "main_step sum64 v n readErr s = Some s'"
  obtains
    (ended) "rp_pc s = MRead" "rp_recs s = []" "readErr = None" "s' = s\<lparr>rp_pc := MDrain, rp_chans := close_chan 0 (rp_chans s)\<rparr>"
  | (failed) e where "rp_pc s = MRead" "rp_recs s = []" "readErr = Some e" "s' = s\<lparr>rp_pc := MDone (ReadErr e)\<rparr>"
  | (series_record) rec recs rs where "rp_pc s = MRead" "rp_recs s = rec # recs" "decode_record rec = Ok (SeriesEntry rs)"
      "s' = s\<lparr>rp_recs := recs, rp_pc := MSeries rs\<rparr>"
  | (samples_record) rec recs ss where "rp_pc s = MRead" "rp_recs s = rec # recs" "decode_record rec = Ok (SamplesEntry ss)"
      "s' = s\<lparr>rp_recs := recs, rp_pc := MSamples ss\<rparr>"
  | (stones_record) rec recs ts where "rp_pc s = MRead" "rp_recs s = rec # recs" "decode_record rec = Ok (StonesEntry ts)"
      "s' = s\<lparr>rp_recs := recs, rp_head := (rp_head s)\<lparr>h_tombstones := load_stones v ts (h_tombstones (rp_head s))\<rparr>\<rparr>"
  | (undecoded) rec recs r where "rp_pc s = MRead" "rp_recs s = rec # recs" "\<nexists>e. decode_record rec = Ok e" "r \<noteq> Loaded"
      "s' = s\<lparr>rp_recs := recs, rp_pc := MDone r\<rparr>"
  | (series_done) "rp_pc s = MSeries []" "s' = s\<lparr>rp_pc := MRead\<rparr>"
  | (series) r rs where "rp_pc s = MSeries (r # rs)" "s' = s\<lparr>rp_pc := MSeries rs, rp_head := load_series sum64 r (rp_head s)\<rparr>"
  | (samples_done) "rp_pc s = MSamples []" "s' = s\<lparr>rp_pc := MRead\<rparr>"
  | (batch) k ss where "rp_pc s = MSamples ss" "ss \<noteq> []" "0 < k"
      "s' = s\<lparr>rp_pc := MSend (take k ss) (drop k ss), rp_chans := (if ch_buf (rp_chans s ! n) = [] then rp_chans s else pop n (rp_chans s))\<rparr>"
  | (send) b ss where "rp_pc s = MSend b ss" "length (ch_buf (rp_chans s ! 0)) < chan_cap" "s' = s\<lparr>rp_pc := MSamples ss, rp_chans := push 0 b (rp_chans s)\<rparr>"
  | (drain) "rp_pc s = MDrain" "ch_buf (rp_chans s ! n) \<noteq> []" "s' = s\<lparr>rp_chans := pop n (rp_chans s)\<rparr>"
  | (loaded) "rp_pc s = MDrain" "ch_buf (rp_chans s ! n) = []" "ch_closed (rp_chans s ! n)" "list_all (\<lambda>w. w_pc w = WDone) (rp_workers s)"
      "s' = s\<lparr>rp_pc := MDone Loaded\<rparr>"
proof (cases "rp_pc s")
  case MRead
  then have s': "s' = main_read v readErr s" using assms by (simp add: main_step_def)
  show ?thesis
  proof (cases "rp_recs s")
    case Nil
    then show ?thesis using MRead s' ended failed by (cases readErr) (simp_all add: main_read_def)
  next
    case (Cons rec recs)
    show ?thesis
    proof (cases "decode_record rec")
      case (Ok e)
      then show ?thesis using MRead Cons s' series_record samples_record stones_record by (cases e) (simp_all add: main_read_def)
    next
      case (Fail e)
      then show ?thesis using MRead Cons s' undecoded [of rec recs "DecodeErr e"] by (simp add: main_read_def)
    next
      case Panic
      then show ?thesis using MRead Cons s' undecoded [of rec recs LoadPanic] by (simp add: main_read_def)
    qed
  qed
next
  case (MSeries rs)
  then show ?thesis using assms series_done series by (cases rs) (auto simp: main_step_def)
next
  case (MSamples ss)
  then show ?thesis using assms samples_done batch [of ss "if length ss < 5000 then length ss else 5000"]
    by (cases "ss = []") (auto simp: main_step_def Let_def split: if_splits)
next
  case (MSend b ss)
  then show ?thesis using assms send by (auto simp: main_step_def Let_def split: if_splits)
next
  case MDrain
  then show ?thesis using assms drain loaded by (auto simp: main_step_def Let_def split: if_splits)
next
  case (MDone r)
  then show ?thesis using assms by (simp add: main_step_def)
qed

end
