(* ===== verification/Load_Live.thy ===== *)
theory Load_Live
  imports Load_Ring
begin

text \<open>
  Replaying the log never hangs: the channels of the ring have room for every batch that is sent, so some
  goroutine can always go on, and each step takes a bounded amount of work away.
\<close>

section \<open>The state of the channels\<close>

definition ring_inv :: "nat \<Rightarrow> replay \<Rightarrow> bool" where
  "ring_inv n s \<longleftrightarrow>
     length (rp_chans s) = n + 1 \<and> length (rp_workers s) = n
   \<and> (\<forall>i \<le> n. length (ch_buf (rp_chans s ! i)) \<le> chan_cap)
   \<and> (ch_closed (rp_chans s ! 0) \<longleftrightarrow> rp_pc s = MDrain \<or> rp_pc s = MDone Loaded)
   \<and> (\<forall>i < n. ch_closed (rp_chans s ! Suc i) \<longleftrightarrow> w_pc (rp_workers s ! i) = WDone)
   \<and> (\<forall>i < n. w_pc (rp_workers s ! i) = WDone \<longrightarrow> ch_closed (rp_chans s ! i) \<and> ch_buf (rp_chans s ! i) = [])
   \<and> (rp_pc s = MDrain \<or> rp_pc s = MDone Loaded \<longrightarrow> rp_recs s = [])
   \<and> (rp_pc s = MDone Loaded \<longrightarrow> (\<forall>i < n. w_pc (rp_workers s ! i) = WDone))"

text \<open>When the main goroutine is about to send, there is room for one more batch in the ring.\<close>

fun load_of :: "worker_pc \<Rightarrow> nat" where
  "load_of (WBatch xs b) = 1"
| "load_of _ = 0"

definition occupied :: "replay \<Rightarrow> nat" where
  "occupied s = sum_list (map (\<lambda>c. length (ch_buf c)) (rp_chans s)) + sum_list (map (\<lambda>w. load_of (w_pc w)) (rp_workers s))"

definition has_room :: "nat \<Rightarrow> replay \<Rightarrow> bool" where
  "has_room n s \<longleftrightarrow> (\<forall>b ss. rp_pc s = MSend b ss \<longrightarrow> occupied s < chan_cap * (n + 1) + n)"

lemma ring_inv_start: "ring_inv n (load_start n recs h)"
  by (auto simp: ring_inv_def load_start_def new_worker_def new_channel_def simp del: replicate_Suc)

lemma chan_index: "ring_inv n s \<Longrightarrow> i \<le> n \<Longrightarrow> i < length (rp_chans s)"
  by (simp add: ring_inv_def)

lemma ring_worker_step:
  assumes inv: "ring_inv n s" and i: "i < n" and st: "worker_step v n i s = Some s'" "rp_pc s' \<noteq> MDone LoadPanic"
  shows "ring_inv n s'"
proof -
  have l: "length (rp_chans s) = n + 1" "length (rp_workers s) = n" using inv by (simp_all add: ring_inv_def)
  from st(1) show ?thesis
  proof (cases rule: worker_step_cases)
    case (recv b bs)
    have "length bs \<le> chan_cap" using inv i recv(2) unfolding ring_inv_def by (metis Suc_leD length_Cons less_imp_le)
    then show ?thesis using inv i l recv by (auto simp: ring_inv_def nth_list_update)
  next
    case finish
    then show ?thesis using inv i l by (auto simp: ring_inv_def nth_list_update)
  next
    case (sample x xs b w' h)
    then show ?thesis using inv i l by (auto simp: ring_inv_def nth_list_update)
  next
    case (pass b)
    then have "\<not> ch_closed (rp_chans s ! Suc i)" using inv i by (simp add: ring_inv_def)
    then show ?thesis using inv i l pass by (auto simp: ring_inv_def nth_list_update Suc_le_eq)
  qed (use st(2) in simp)
qed

lemma ring_main_step:
  assumes inv: "ring_inv n s" and st: "main_step sum64 v n readErr s = Some s'"
  shows "ring_inv n s'"
proof -
  have l: "length (rp_chans s) = n + 1" "length (rp_workers s) = n" using inv by (simp_all add: ring_inv_def)
  have fin: "i < n \<Longrightarrow> w_pc (rp_workers s ! i) = WDone \<Longrightarrow> ch_closed (rp_chans s ! i)" for i using inv by (simp add: ring_inv_def)
  have tl_le: "length (tl (ch_buf (rp_chans s ! n))) \<le> chan_cap"
    using inv by (auto simp: ring_inv_def intro: order_trans [OF diff_le_self])
  from st show ?thesis
  proof (cases rule: main_step_cases)
    case ended
    then show ?thesis using inv l by (auto simp: ring_inv_def)
  next
    case (send b ss)
    then have "0 < n \<Longrightarrow> w_pc (rp_workers s ! 0) \<noteq> WDone" using inv fin [of 0] by (auto simp: ring_inv_def)
    then show ?thesis using inv l send by (auto simp: ring_inv_def Suc_le_eq)
  next
    case (batch k ss)
    then show ?thesis using inv l tl_le by (auto simp: ring_inv_def)
  next
    case drain
    then show ?thesis using inv l tl_le by (auto simp: ring_inv_def)
  next
    case loaded
    then show ?thesis using inv l by (auto simp: ring_inv_def list_all_length)
  qed (use inv l in \<open>auto simp: ring_inv_def\<close>)
qed

section \<open>Room in the ring\<close>

lemma sum_list_exchange:
  fixes f :: "'a \<Rightarrow> nat"
  assumes "i < length xs"
  shows "sum_list (map f (xs[i := y])) + f (xs ! i) = sum_list (map f xs) + f y"
  using assms by (induction xs arbitrary: i) (auto split: nat.split)

lemma sum_list_bound: "(\<And>i. i < length xs \<Longrightarrow> f (xs ! i) \<le> (c :: nat)) \<Longrightarrow> sum_list (map f xs) \<le> c * length xs"
  by (induction xs) (force simp: add_mono)+

lemma load_of_le: "load_of p \<le> 1"
  by (cases p) simp_all

lemma occupied_worker_step:
  assumes inv: "ring_inv n s" and i: "i < n" and st: "worker_step v n i s = Some s'" "rp_pc s' \<noteq> MDone LoadPanic"
  shows "occupied s' = occupied s"
proof -
  have l: "length (rp_chans s) = n + 1" "length (rp_workers s) = n" using inv by (simp_all add: ring_inv_def)
  have w: "sum_list (map (\<lambda>w. load_of (w_pc w)) ((rp_workers s)[i := w])) + load_of (w_pc (rp_workers s ! i)) =
      sum_list (map (\<lambda>w. load_of (w_pc w)) (rp_workers s)) + load_of (w_pc w)" for w
    using i l by (intro sum_list_exchange) simp
  have c: "sum_list (map (\<lambda>c. length (ch_buf c)) ((rp_chans s)[j := c])) + length (ch_buf (rp_chans s ! j)) =
      sum_list (map (\<lambda>c. length (ch_buf c)) (rp_chans s)) + length (ch_buf c)" if "j \<le> n" for j c
    using that l by (intro sum_list_exchange) simp
  from st(1) show ?thesis
  proof (cases rule: worker_step_cases)
    case (recv b bs)
    then show ?thesis using i w [of "(rp_workers s ! i)\<lparr>w_pc := WBatch b b\<rparr>"] c [of i "(rp_chans s ! i)\<lparr>ch_buf := bs\<rparr>"]
      by (simp add: occupied_def pop_def)
  next
    case finish
    then show ?thesis using i w [of "(rp_workers s ! i)\<lparr>w_pc := WDone\<rparr>"] c [of "Suc i" "(rp_chans s ! Suc i)\<lparr>ch_closed := True\<rparr>"]
      by (simp add: occupied_def close_chan_def)
  next
    case (sample x xs b w' h)
    then show ?thesis using i w [of "w'\<lparr>w_pc := WBatch xs b\<rparr>"] by (simp add: occupied_def)
  next
    case (pass b)
    then show ?thesis using i w [of "(rp_workers s ! i)\<lparr>w_pc := WRecv\<rparr>"]
        c [of "Suc i" "(rp_chans s ! Suc i)\<lparr>ch_buf := ch_buf (rp_chans s ! Suc i) @ [b]\<rparr>"]
      by (simp add: occupied_def push_def)
  qed (use st(2) in simp)
qed

lemma occupied_last:
  assumes "ring_inv n s" "length (ch_buf (rp_chans s ! n)) < chan_cap"
  shows "occupied s < chan_cap * (n + 1) + n"
proof -
  have l: "length (rp_chans s) = n + 1" "length (rp_workers s) = n" using assms by (simp_all add: ring_inv_def)
  have "sum_list (map (\<lambda>w. load_of (w_pc w)) (rp_workers s)) \<le> 1 * length (rp_workers s)" by (rule sum_list_bound) (rule load_of_le)
  moreover have "sum_list (map (\<lambda>c. length (ch_buf c)) (butlast (rp_chans s))) \<le> chan_cap * length (butlast (rp_chans s))"
    using assms(1) l by (intro sum_list_bound) (simp add: nth_butlast ring_inv_def)
  moreover have "rp_chans s = butlast (rp_chans s) @ [rp_chans s ! n]" using l by (metis add_diff_cancel_right' append_butlast_last_id last_conv_nth list.size(3) add_is_0 one_neq_zero)
  then have "sum_list (map (\<lambda>c. length (ch_buf c)) (rp_chans s)) = sum_list (map (\<lambda>c. length (ch_buf c)) (butlast (rp_chans s))) + length (ch_buf (rp_chans s ! n))"
    by (metis (no_types, lifting) list.map(1,2) map_append sum_list.append sum_list.Cons sum_list.Nil add_0_right)
  ultimately show ?thesis using assms(2) l by (simp add: occupied_def)
qed

lemma has_room_step:
  assumes inv: "ring_inv n s" "has_room n s" and st: "load_step sum64 v n readErr s s'" "rp_pc s' \<noteq> MDone LoadPanic"
  shows "has_room n s'"
  using st(1)
proof cases
  case main
  from main show ?thesis
  proof (cases rule: main_step_cases)
    case (batch k ss)
    have n: "n < length (rp_chans s)" using inv(1) by (simp add: ring_inv_def)
    then have "length (ch_buf (rp_chans s' ! n)) < chan_cap"
      using inv(1) batch(4) by (cases "ch_buf (rp_chans s ! n)") (auto simp: ring_inv_def Suc_le_eq chan_cap_def)
    from occupied_last [OF ring_main_step [OF inv(1) main] this] show ?thesis by (simp add: has_room_def)
  qed (use inv(2) in \<open>auto simp: has_room_def occupied_def\<close>)
next
  case (worker i)
  have "rp_pc s' = rp_pc s" using worker(3) st(2) by (cases rule: worker_step_cases) simp_all
  with occupied_worker_step [OF inv(1) worker(1,3) st(2)] inv(2) show ?thesis by (simp add: has_room_def)
qed

section \<open>Progress\<close>

lemma worker_waits:
  assumes "worker_step v n i s = None"
  shows "w_pc (rp_workers s ! i) = WRecv \<and> ch_buf (rp_chans s ! i) = [] \<and> \<not> ch_closed (rp_chans s ! i)
    \<or> (\<exists>b. w_pc (rp_workers s ! i) = WBatch [] b) \<and> chan_cap \<le> length (ch_buf (rp_chans s ! Suc i))
    \<or> w_pc (rp_workers s ! i) = WDone"
  using assms by (auto simp: worker_step_def Let_def split: worker_pc.splits list.splits if_splits outcome.splits prod.splits)

text \<open>If the first channel is full and no worker can go on, everything is full.\<close>

lemma all_full:
  assumes inv: "ring_inv n s" and stuck: "\<forall>i < n. worker_step v n i s = None"
    and full: "chan_cap \<le> length (ch_buf (rp_chans s ! 0))" "\<not> ch_closed (rp_chans s ! 0)"
  shows "i \<le> n \<Longrightarrow> chan_cap \<le> length (ch_buf (rp_chans s ! i)) \<and> \<not> ch_closed (rp_chans s ! i) \<and> (\<forall>j < i. load_of (w_pc (rp_workers s ! j)) = 1)"
proof (induction i)
  case (Suc i)
  then have i: "i < n" "chan_cap \<le> length (ch_buf (rp_chans s ! i))" "\<not> ch_closed (rp_chans s ! i)" by simp_all
  have "w_pc (rp_workers s ! i) \<noteq> WDone" using inv i by (auto simp: ring_inv_def)
  with worker_waits [OF stuck [rule_format, OF i(1)]] i(2) have
    "\<exists>b. w_pc (rp_workers s ! i) = WBatch [] b" "chan_cap \<le> length (ch_buf (rp_chans s ! Suc i))"
    by (auto simp: chan_cap_def)
  moreover from this have "\<not> ch_closed (rp_chans s ! Suc i)" using inv i(1) by (auto simp: ring_inv_def)
  ultimately show ?case using Suc i by (auto simp: less_Suc_eq)
qed (use full in simp)

lemma full_occupied:
  assumes "ring_inv n s" "\<And>i. i \<le> n \<Longrightarrow> chan_cap \<le> length (ch_buf (rp_chans s ! i))" "\<And>i. i < n \<Longrightarrow> load_of (w_pc (rp_workers s ! i)) = 1"
  shows "chan_cap * (n + 1) + n \<le> occupied s"
proof -
  have below: "(\<And>i. i < length xs \<Longrightarrow> c \<le> f (xs ! i)) \<Longrightarrow> c * length xs \<le> sum_list (map f xs)" for c :: nat and f and xs :: "'a list"
  proof (induction xs)
    case (Cons x xs)
    from Cons.prems [of 0] Cons.prems [of "Suc i" for i] Cons.IH show ?case by force
  qed simp
  have l: "length (rp_chans s) = n + 1" "length (rp_workers s) = n" using assms by (simp_all add: ring_inv_def)
  show ?thesis using below [of "rp_chans s" chan_cap "\<lambda>c. length (ch_buf c)"] below [of "rp_workers s" 1 "\<lambda>w. load_of (w_pc w)"] assms(2,3) l
    by (force simp: occupied_def)
qed

text \<open>If the last channel is empty and no worker can go on, all channels before it are empty.\<close>

lemma all_empty:
  assumes inv: "ring_inv n s" and stuck: "\<forall>i < n. worker_step v n i s = None" and last: "ch_buf (rp_chans s ! n) = []"
  shows "i \<le> n \<Longrightarrow> ch_buf (rp_chans s ! (n - i)) = []"
proof (induction i)
  case (Suc i)
  define j where "j = n - Suc i"
  have j: "j < n" "Suc j = n - i" using Suc.prems by (simp_all add: j_def)
  have "ch_buf (rp_chans s ! Suc j) = []" using Suc j by simp
  then have "w_pc (rp_workers s ! j) = WRecv \<and> ch_buf (rp_chans s ! j) = [] \<or> w_pc (rp_workers s ! j) = WDone"
    using worker_waits [OF stuck [rule_format, OF j(1)]] by (auto simp: chan_cap_def)
  then show ?case using inv j(1) by (auto simp: ring_inv_def simp flip: j_def)
qed (use last in simp)

lemma all_closed:
  assumes inv: "ring_inv n s" and stuck: "\<forall>i < n. worker_step v n i s = None" and empty: "\<And>i. i \<le> n \<Longrightarrow> ch_buf (rp_chans s ! i) = []"
    and closed: "ch_closed (rp_chans s ! 0)"
  shows "i \<le> n \<Longrightarrow> ch_closed (rp_chans s ! i) \<and> (\<forall>j < i. w_pc (rp_workers s ! j) = WDone)"
proof (induction i)
  case (Suc i)
  then have i: "i < n" "ch_closed (rp_chans s ! i)" by simp_all
  then have "w_pc (rp_workers s ! i) = WDone"
    using worker_waits [OF stuck [rule_format, OF i(1)]] empty [of "Suc i"] by (auto simp: chan_cap_def)
  then show ?case using inv Suc i(1) by (auto simp: ring_inv_def less_Suc_eq)
qed (use closed in simp)

lemma load_progress:
  assumes inv: "ring_inv n s" "has_room n s" and pc: "\<And>r. rp_pc s \<noteq> MDone r"
  shows "\<exists>s'. load_step sum64 v n readErr s s'"
proof (rule ccontr)
  assume "\<nexists>s'. load_step sum64 v n readErr s s'"
  then have main: "main_step sum64 v n readErr s = None" and stuck: "\<forall>i < n. worker_step v n i s = None"
    using pc load_step.intros by (metis option.exhaust)+
  have "(\<exists>b ss. rp_pc s = MSend b ss) \<and> chan_cap \<le> length (ch_buf (rp_chans s ! 0))
    \<or> rp_pc s = MDrain \<and> ch_buf (rp_chans s ! n) = [] \<and> \<not> (ch_closed (rp_chans s ! n) \<and> list_all (\<lambda>w. w_pc w = WDone) (rp_workers s))"
    using main pc by (auto simp: main_step_def Let_def split: main_pc.splits list.splits if_splits)
  then show False
  proof (elim disjE conjE exE)
    fix b ss assume s: "rp_pc s = MSend b ss" "chan_cap \<le> length (ch_buf (rp_chans s ! 0))"
    then have "\<not> ch_closed (rp_chans s ! 0)" using inv(1) by (auto simp: ring_inv_def)
    from all_full [OF inv(1) stuck s(2) this] have "chan_cap * (n + 1) + n \<le> occupied s" by (intro full_occupied [OF inv(1)]) blast+
    with inv(2) s(1) show False by (simp add: has_room_def)
  next
    assume s: "rp_pc s = MDrain" "ch_buf (rp_chans s ! n) = []" "\<not> (ch_closed (rp_chans s ! n) \<and> list_all (\<lambda>w. w_pc w = WDone) (rp_workers s))"
    have "ch_buf (rp_chans s ! i) = []" if "i \<le> n" for i using all_empty [OF inv(1) stuck s(2), of "n - i"] that by simp
    moreover have "ch_closed (rp_chans s ! 0)" using inv(1) s(1) by (simp add: ring_inv_def)
    ultimately show False using all_closed [OF inv(1) stuck, of n] s(3) inv(1) by (auto simp: ring_inv_def list_all_length)
  qed
qed

section \<open>Every run ends\<close>

text \<open>An upper bound for the steps that are left: every sample is looked at by every worker.\<close>

definition batch_cost :: "nat \<Rightarrow> nat \<Rightarrow> RefSample list \<Rightarrow> nat" where
  "batch_cost n i b = (n - i) * (length b + 3) + 1"

fun worker_cost :: "nat \<Rightarrow> nat \<Rightarrow> worker_pc \<Rightarrow> nat" where
  "worker_cost n i WRecv = 1"
| "worker_cost n i (WBatch xs b) = length xs + 2 + batch_cost n (Suc i) b"
| "worker_cost n i WDone = 0"

fun entry_cost :: "nat \<Rightarrow> entry \<Rightarrow> nat" where
  "entry_cost n (SeriesEntry rs) = length rs + 2"
| "entry_cost n (SamplesEntry ss) = length ss * (4 * n + 3) + 2"
| "entry_cost n (StonesEntry ts) = 1"

fun main_cost :: "nat \<Rightarrow> main_pc \<Rightarrow> nat" where
  "main_cost n MRead = 3"
| "main_cost n (MSeries rs) = length rs + 4"
| "main_cost n (MSamples ss) = length ss * (4 * n + 3) + 4"
| "main_cost n (MSend b ss) = batch_cost n 0 b + length ss * (4 * n + 3) + 5"
| "main_cost n MDrain = 2"
| "main_cost n (MDone r) = (if r = LoadPanic then 0 else 1)"

definition chan_cost :: "nat \<Rightarrow> nat \<Rightarrow> channel \<Rightarrow> nat" where
  "chan_cost n i c = sum_list (map (batch_cost n i) (ch_buf c))"

definition steps_left :: "nat \<Rightarrow> replay \<Rightarrow> nat" where
  "steps_left n s = main_cost n (rp_pc s) + sum_list (map (\<lambda>rec. Suc (entry_cost n (the_entry rec))) (rp_recs s))
     + (\<Sum>i \<le> n. chan_cost n i (rp_chans s ! i)) + (\<Sum>i < n. worker_cost n i (w_pc (rp_workers s ! i)))"

lemma sum_exchange:
  fixes f :: "nat \<Rightarrow> 'a \<Rightarrow> nat"
  assumes "finite A" "j \<in> A" "j < length xs"
  shows "(\<Sum>i \<in> A. f i (xs[j := x] ! i)) + f j (xs ! j) = (\<Sum>i \<in> A. f i (xs ! i)) + f j x"
proof -
  have "(\<Sum>i \<in> A - {j}. f i (xs[j := x] ! i)) = (\<Sum>i \<in> A - {j}. f i (xs ! i))" by (rule sum.cong) auto
  then show ?thesis
    using sum.remove [OF assms(1,2), of "\<lambda>i. f i (xs[j := x] ! i)"] sum.remove [OF assms(1,2), of "\<lambda>i. f i (xs ! i)"] assms(3) by simp
qed

lemma chan_sum:
  assumes "j \<le> n" "length cs = n + 1"
  shows "(\<Sum>i \<le> n. chan_cost n i (cs[j := c] ! i)) + chan_cost n j (cs ! j) = (\<Sum>i \<le> n. chan_cost n i (cs ! i)) + chan_cost n j c"
  using assms by (intro sum_exchange) auto

lemma worker_sum:
  assumes "j < n" "length ws = n"
  shows "(\<Sum>i < n. worker_cost n i (w_pc (ws[j := w] ! i))) + worker_cost n j (w_pc (ws ! j)) =
    (\<Sum>i < n. worker_cost n i (w_pc (ws ! i))) + worker_cost n j (w_pc w)"
  using assms sum_exchange [of "{..<n}" j ws "\<lambda>i w. worker_cost n i (w_pc w)" w] by auto

lemma worker_step_cost:
  assumes l: "length (rp_chans s) = n + 1" "length (rp_workers s) = n" and i: "i < n" and pc: "rp_pc s \<noteq> MDone LoadPanic"
    and st: "worker_step v n i s = Some s'"
  shows "steps_left n s' < steps_left n s"
proof -
  have i': "i \<le> n" "Suc i \<le> n" using i by simp_all
  have fut: "rp_recs s' = rp_recs s" using st by (cases rule: worker_step_cases) simp_all
  from st show ?thesis
  proof (cases rule: worker_step_cases)
    case (recv b bs)
    have "batch_cost n i b = length b + 3 + batch_cost n (Suc i) b" using i by (simp add: batch_cost_def Suc_diff_Suc flip: mult_Suc)
    then show ?thesis using recv worker_sum [OF i l(2), of "(rp_workers s ! i)\<lparr>w_pc := WBatch b b\<rparr>"]
        chan_sum [OF i'(1) l(1), of "(rp_chans s ! i)\<lparr>ch_buf := bs\<rparr>"]
      by (simp add: steps_left_def pop_def chan_cost_def)
  next
    case finish
    then show ?thesis using worker_sum [OF i l(2), of "(rp_workers s ! i)\<lparr>w_pc := WDone\<rparr>"]
        chan_sum [OF i'(2) l(1), of "(rp_chans s ! Suc i)\<lparr>ch_closed := True\<rparr>"]
      by (simp add: steps_left_def close_chan_def chan_cost_def)
  next
    case (sample x xs b w' h)
    then show ?thesis using worker_sum [OF i l(2), of "w'\<lparr>w_pc := WBatch xs b\<rparr>"] by (simp add: steps_left_def)
  next
    case (crash x xs b)
    have "0 < main_cost n (rp_pc s)" using pc by (cases "rp_pc s") simp_all
    then show ?thesis using crash by (simp add: steps_left_def)
  next
    case (pass b)
    then show ?thesis using worker_sum [OF i l(2), of "(rp_workers s ! i)\<lparr>w_pc := WRecv\<rparr>"]
        chan_sum [OF i'(2) l(1), of "(rp_chans s ! Suc i)\<lparr>ch_buf := ch_buf (rp_chans s ! Suc i) @ [b]\<rparr>"]
      by (simp add: steps_left_def push_def chan_cost_def)
  qed
qed

lemma split_cost:
  assumes "ss \<noteq> []" "0 < k"
  shows "batch_cost n 0 (take k ss) + length (drop k ss) * (4 * n + 3) + 1 < length ss * (4 * n + 3)"
proof -
  define L where "L = length (take k ss)"
  have L: "length ss = L + length (drop k ss)" "0 < L" using assms by (simp_all add: L_def)
  have "batch_cost n 0 (take k ss) + 1 = n * (L + 3) + 2" by (simp add: batch_cost_def L_def)
  also have "\<dots> < L * (4 * n + 3)"
  proof -
    obtain L' where "L = Suc L'" using L(2) by (cases L) simp_all
    then show ?thesis by (simp add: algebra_simps)
  qed
  finally show ?thesis unfolding L(1) by (simp add: algebra_simps)
qed

lemma main_step_cost:
  assumes l: "length (rp_chans s) = n + 1" and st: "main_step sum64 v n readErr s = Some s'"
  shows "steps_left n s' < steps_left n s"
proof -
  have pop: "(\<Sum>i \<le> n. chan_cost n i (pop n (rp_chans s) ! i)) \<le> (\<Sum>i \<le> n. chan_cost n i (rp_chans s ! i))"
    "ch_buf (rp_chans s ! n) \<noteq> [] \<Longrightarrow> (\<Sum>i \<le> n. chan_cost n i (pop n (rp_chans s) ! i)) < (\<Sum>i \<le> n. chan_cost n i (rp_chans s ! i))"
    using chan_sum [OF order_refl l, of "(rp_chans s ! n)\<lparr>ch_buf := tl (ch_buf (rp_chans s ! n))\<rparr>"]
    by (cases "ch_buf (rp_chans s ! n)"; simp add: pop_def chan_cost_def batch_cost_def)+
  from st show ?thesis
  proof (cases rule: main_step_cases)
    case ended
    then show ?thesis using chan_sum [OF le0 l, of "(rp_chans s ! 0)\<lparr>ch_closed := True\<rparr>"]
      by (simp add: steps_left_def close_chan_def chan_cost_def)
  next
    case (batch k ss)
    then show ?thesis using split_cost [OF batch(2,3), of n] pop(1) by (simp add: steps_left_def)
  next
    case (send b ss)
    then show ?thesis using chan_sum [OF le0 l, of "(rp_chans s ! 0)\<lparr>ch_buf := ch_buf (rp_chans s ! 0) @ [b]\<rparr>"]
      by (simp add: steps_left_def push_def chan_cost_def)
  next
    case drain
    then show ?thesis using pop(2) by (simp add: steps_left_def)
  qed (simp_all add: steps_left_def the_entry_def)
qed

lemma load_step_cost:
  assumes "length (rp_chans s) = n + 1" "length (rp_workers s) = n" "load_step sum64 v n readErr s s'"
  shows "steps_left n s' < steps_left n s" "length (rp_chans s') = n + 1 \<and> length (rp_workers s') = n"
proof -
  show "steps_left n s' < steps_left n s" using assms(3)
    by cases (use assms main_step_cost worker_step_cost in blast)+
  show "length (rp_chans s') = n + 1 \<and> length (rp_workers s') = n" using assms(3)
  proof cases
    case main
    then show ?thesis by (cases rule: main_step_cases) (use assms in simp_all)
  next
    case (worker i)
    from worker(3) show ?thesis by (cases rule: worker_step_cases) (use assms in simp_all)
  qed
qed

text \<open>No run is longer than the bound.\<close>

lemma load_runs_finite:
  assumes "length (rp_chans s) = n + 1" "length (rp_workers s) = n" "(load_step sum64 v n readErr ^^ c) s s'"
  shows "c + steps_left n s' \<le> steps_left n s" "length (rp_chans s') = n + 1 \<and> length (rp_workers s') = n"
proof -
  have "c + steps_left n s' \<le> steps_left n s \<and> length (rp_chans s') = n + 1 \<and> length (rp_workers s') = n"
    using assms(3)
  proof (induction c arbitrary: s')
    case (Suc c)
    then obtain t where t: "(load_step sum64 v n readErr ^^ c) s t" "load_step sum64 v n readErr t s'" by auto
    from Suc.IH [OF t(1)] load_step_cost [OF _ _ t(2)] show ?case by fastforce
  qed (use assms in simp)
  then show "c + steps_left n s' \<le> steps_left n s" "length (rp_chans s') = n + 1 \<and> length (rp_workers s') = n" by blast+
qed

end
