(* ===== verification/Load_Data.thy ===== *)
theory Load_Data
  imports Load_Live
begin

text \<open>
  The data of a run that replays the log. From every state, completing the work that is left
  gives the same head: a step of any goroutine takes a piece of the work and puts it into the head.
\<close>

section \<open>The work that is left\<close>

definition num_samples :: "Head \<Rightarrow> u64 \<Rightarrow> nat" where
  "num_samples h k = (case head_view h k of None \<Rightarrow> 0 | Some (ls, xs) \<Rightarrow> length xs)"

definition samples_for :: "u64 \<Rightarrow> RefSample list \<Rightarrow> nat" where
  "samples_for k ss = length (filter (\<lambda>x. Ref x = k) ss)"

definition future :: "replay \<Rightarrow> entry list" where
  "future s = effective (head_labels (rp_head s)) (queued s)"

definition work :: "nat \<Rightarrow> replay \<Rightarrow> u64 \<Rightarrow> RefSample list" where
  "work n s k = rest s (unat k mod n) @ log_samples (future s)"

text \<open>A sample that is on its way belongs to a series that is registered or never will be.\<close>

definition in_flight_ok :: "nat \<Rightarrow> replay \<Rightarrow> bool" where
  "in_flight_ok n s \<longleftrightarrow> (\<forall>i < n. \<forall>x \<in> set (rest s i). time_ok (T x)
     \<and> (Ref x \<in> dom (head_labels (rp_head s)) \<or> Ref x \<notin> series_Ref ` set (log_series (future s))))"

definition data_inv :: "(u8 list \<Rightarrow> u64) \<Rightarrow> int \<Rightarrow> nat \<Rightarrow> (u64 \<Rightarrow> (Labels \<times> sample list) option) \<Rightarrow> memTombstones \<Rightarrow> replay \<Rightarrow> bool" where
  "data_inv sum64 v n Z t s \<longleftrightarrow> head_inv sum64 (rp_head s) \<and> decodable s
     \<and> log_fits (head_labels (rp_head s)) (future s) \<and> in_flight_ok n s
     \<and> (\<forall>k. fold (ref_sample v k) (work n s k) (fold (ref_series k) (log_series (future s)) (head_view (rp_head s) k)) = Z k)
     \<and> (\<forall>k. num_samples (rp_head s) k + samples_for k (work n s k) \<le> 65535)
     \<and> fold (stones_entry v) (future s) (h_tombstones (rp_head s)) = t"

text \<open>Every sample of the head is within its time bounds or those of the worker that has put it there.\<close>

definition times_inv :: "nat \<Rightarrow> replay \<Rightarrow> bool" where
  "times_inv n s \<longleftrightarrow> (\<forall>k ls xs. head_view (rp_head s) k = Some (ls, xs) \<longrightarrow> (\<forall>x \<in> set xs.
     h_minTime (rp_head s) \<le> fst x \<and> fst x \<le> h_maxTime (rp_head s)
     \<or> w_pc (rp_workers s ! (unat k mod n)) \<noteq> WDone \<and> w_bounds (rp_workers s ! (unat k mod n)) (fst x)))"

text \<open>A step that moves samples and leaves the head as it is.\<close>

lemma data_inv_moved:
  assumes d: "data_inv sum64 v n Z t s" and n: "0 < n" and h: "rp_head s' = rp_head s" "set (rp_recs s') \<subseteq> set (rp_recs s)"
    and moved: "\<And>i. i < n \<Longrightarrow> rest s' i @ log_samples (future s') = rest s i @ log_samples (future s)"
    and fut: "log_series (future s') = log_series (future s)" "fold (stones_entry v) (future s') = fold (stones_entry v) (future s)"
    and ok: "log_fits (head_labels (rp_head s)) (future s')" "in_flight_ok n s'"
  shows "data_inv sum64 v n Z t s'"
proof -
  have "work n s' k = work n s k" for k using moved [of "unat k mod n"] n by (simp add: work_def)
  then show ?thesis using d h fut ok by (auto simp: data_inv_def decodable_def)
qed

lemma data_inv_same:
  assumes d: "data_inv sum64 v n Z t s" and n: "0 < n" and h: "rp_head s' = rp_head s" "rp_recs s' = rp_recs s"
    and moved: "\<And>i. i < n \<Longrightarrow> rest s' i = rest s i" and fut: "queued s' = queued s"
  shows "data_inv sum64 v n Z t s'"
proof -
  have "future s' = future s" using fut h by (simp add: future_def)
  then show ?thesis by (intro data_inv_moved [OF d n]) (use d h moved in \<open>simp_all add: data_inv_def in_flight_ok_def\<close>)
qed

lemma head_labels_view: "head_labels h k = None \<longleftrightarrow> head_view h k = None"
  by (simp add: head_labels_def)

lemma queued_worker:
  "queued (s\<lparr>rp_chans := cs, rp_workers := ws\<rparr>) = queued s" "queued (s\<lparr>rp_head := h, rp_workers := ws\<rparr>) = queued s"
  "queued (s\<lparr>rp_head := h, rp_chans := cs, rp_workers := ws, rp_unknown := u\<rparr>) = queued s" "queued (s\<lparr>rp_chans := cs\<rparr>) = queued s"
  by (simp_all add: queued_def)

section \<open>Workers\<close>

lemma times_sample:
  assumes d: "times_inv n s" and i: "i < n" "length (rp_workers s) = n" and pc: "w_pc (rp_workers s ! i) \<noteq> WDone"
    and view: "\<And>k. head_view h k = (if unat k mod n = i then ref_sample v k x (head_view (rp_head s) k) else head_view (rp_head s) k)"
    and b: "h_minTime h = h_minTime (rp_head s)" "h_maxTime h = h_maxTime (rp_head s)" and pc': "w_pc w \<noteq> WDone"
    and wb: "\<And>u. w_bounds (rp_workers s ! i) u \<Longrightarrow> w_bounds w u"
      "unat (Ref x) mod n = i \<Longrightarrow> v \<le> T x \<Longrightarrow> head_view (rp_head s) (Ref x) \<noteq> None \<Longrightarrow> w_bounds w (T x)"
  shows "times_inv n (s\<lparr>rp_head := h, rp_workers := (rp_workers s)[i := w]\<rparr>)"
  unfolding times_inv_def
proof (intro allI impI ballI)
  let ?s = "s\<lparr>rp_head := h, rp_workers := (rp_workers s)[i := w]\<rparr>"
  fix k ls ys y assume k: "head_view (rp_head ?s) k = Some (ls, ys)" "y \<in> set ys"
  have old: "h_minTime h \<le> fst y \<and> fst y \<le> h_maxTime h
      \<or> w_pc (rp_workers ?s ! (unat k mod n)) \<noteq> WDone \<and> w_bounds (rp_workers ?s ! (unat k mod n)) (fst y)"
    if "head_view (rp_head s) k = Some (ls, zs)" "y \<in> set zs" for zs
    using d that b i pc' wb(1) unfolding times_inv_def by (cases "unat k mod n = i") force+
  show "h_minTime (rp_head ?s) \<le> fst y \<and> fst y \<le> h_maxTime (rp_head ?s)
    \<or> w_pc (rp_workers ?s ! (unat k mod n)) \<noteq> WDone \<and> w_bounds (rp_workers ?s ! (unat k mod n)) (fst y)"
  proof (cases "head_view (rp_head s) k = Some (ls, ys)")
    case True
    with old k(2) show ?thesis by simp
  next
    case False
    then have new: "unat k mod n = i" "Ref x = k" "v \<le> T x"
      using k(1) view [of k] by (auto simp: ref_sample_def split: if_splits)
    then obtain zs where zs: "head_view (rp_head s) k = Some (ls, zs)" "ys = accept zs (T x, V x)"
      using k(1) view [of k] by (auto simp: ref_sample_def)
    then have "y \<in> set zs \<or> y = (T x, V x)" using k(2) by (auto simp: accept_def split: if_splits)
    then show ?thesis using old [OF zs(1)] new zs(1) wb(2) i pc' by auto
  qed
qed

lemma data_worker_sample:
  assumes d: "data_inv sum64 v n Z t s" "times_inv n s" and i: "i < n" "n < 2 ^ 63" and l: "length (rp_workers s) = n"
    and pc: "w_pc (rp_workers s ! i) = WBatch (x # xs) b"
  obtains w' h where "worker_sample v n i x (rp_workers s ! i) (rp_head s) = Ok (w', h)"
    "data_inv sum64 v n Z t (s\<lparr>rp_head := h, rp_workers := (rp_workers s)[i := w'\<lparr>w_pc := WBatch xs b\<rparr>]\<rparr>)"
    "times_inv n (s\<lparr>rp_head := h, rp_workers := (rp_workers s)[i := w'\<lparr>w_pc := WBatch xs b\<rparr>]\<rparr>)"
proof -
  let ?h = "rp_head s" and ?ws = "rp_workers s"
  have inv: "head_inv sum64 ?h" using d(1) by (simp add: data_inv_def)
  have hd: "rest s i = x # todo (rp_chans s) (?ws[i := w]) (pending (rp_pc s)) i" if "w_pc w = WBatch xs b" for w
    using todo_sample(1) [OF _ pc that] i l by (simp add: rest_def)
  then have x: "x \<in> set (rest s i)" using hd [of "new_worker\<lparr>w_pc := WBatch xs b\<rparr>"] by simp
  then have ok: "time_ok (T x)" "Ref x \<in> dom (head_labels ?h) \<or> Ref x \<notin> series_Ref ` set (log_series (future s))"
    using d(1) i by (auto simp: data_inv_def in_flight_ok_def)
  have room: "length ys < 65535" if "unat (Ref x) mod n = i" "head_view ?h (Ref x) = Some (ls, ys)" for ls ys
  proof -
    have "0 < samples_for (Ref x) (work n s (Ref x))" using x that(1) by (auto simp: samples_for_def work_def filter_empty_conv)
    moreover have "num_samples ?h (Ref x) + samples_for (Ref x) (work n s (Ref x)) \<le> 65535" using d(1) by (simp add: data_inv_def)
    ultimately show ?thesis using that(2) by (simp add: num_samples_def)
  qed
  obtain w' h where w': "worker_sample v n i x (?ws ! i) ?h = Ok (w', h)" "head_inv sum64 h" "same_rest ?h h"
    and view': "\<forall>k. head_view h k = (if unat k mod n = i then ref_sample v k x (head_view ?h k) else head_view ?h k)"
    and wb: "\<forall>u. w_bounds (?ws ! i) u \<longrightarrow> w_bounds w' u"
      "unat (Ref x) mod n = i \<and> v \<le> T x \<and> head_view ?h (Ref x) \<noteq> None \<longrightarrow> w_bounds w' (T x)"
    by (rule worker_sample_ok [where v = v and w = "?ws ! i", OF inv i ok(1) room])
  note view = view' [rule_format]
  define w where "w = w'\<lparr>w_pc := WBatch xs b\<rparr>"
  let ?s = "s\<lparr>rp_head := h, rp_workers := ?ws[i := w]\<rparr>"
  have r: "rest s i = x # rest ?s i" "j \<noteq> i \<Longrightarrow> rest ?s j = rest s j" for j
    using hd [of w] todo_sample(2) [OF _ pc, of w j] i l by (simp_all add: rest_def w_def)
  have labels: "head_labels h = head_labels ?h"
    by (auto simp: fun_eq_iff head_labels_def view ref_sample_def option.map_comp comp_def split_def)
  then have fut: "future ?s = future s" by (simp add: future_def queued_worker)
  have work: "work n s k = (if unat k mod n = i then x # work n ?s k else work n ?s k)" for k
    using r by (simp add: work_def fut)
  have "fold (ref_sample v k) (work n ?s k) (fold (ref_series k) (log_series (future s)) (head_view h k)) = Z k" for k
  proof -
    have "Ref x = k \<longrightarrow> head_view ?h k \<noteq> None \<or> k \<notin> series_Ref ` set (log_series (future s))"
      using ok(2) head_labels_view [of ?h k] by auto
    from sample_before_series [OF this, of v] have
      "fold (ref_sample v k) (work n ?s k) (fold (ref_series k) (log_series (future s)) (head_view h k)) =
       fold (ref_sample v k) (work n s k) (fold (ref_series k) (log_series (future s)) (head_view ?h k))"
      unfolding view work by simp
    then show ?thesis using d(1) by (simp add: data_inv_def)
  qed
  moreover have "num_samples h k + samples_for k (work n ?s k) \<le> 65535" for k
  proof -
    have "num_samples h k \<le> num_samples ?h k + (if unat k mod n = i \<and> Ref x = k then 1 else 0)"
      unfolding num_samples_def view by (auto simp: ref_sample_def length_accept split: option.split)
    then have "num_samples h k + samples_for k (work n ?s k) \<le> num_samples ?h k + samples_for k (work n s k)"
      by (auto simp: work samples_for_def split: if_splits)
    then show ?thesis using d(1) unfolding data_inv_def by (meson order_trans)
  qed
  moreover have "in_flight_ok n ?s"
  proof -
    have "set (rest ?s j) \<subseteq> set (rest s j)" for j using r by (cases "j = i") auto
    moreover have "in_flight_ok n s" using d(1) by (simp add: data_inv_def)
    ultimately show ?thesis using labels unfolding in_flight_ok_def fut by simp blast
  qed
  ultimately have "data_inv sum64 v n Z t ?s"
    using d(1) w'(2,3) labels by (simp add: data_inv_def fut same_rest_def decodable_def)
  moreover have "times_inv n ?s"
    using w'(3) wb i l pc by (intro times_sample [OF d(2) _ _ _ view]) (auto simp: same_rest_def w_def w_bounds_def)
  ultimately show ?thesis using that [OF w'(1)] by (simp add: w_def)
qed

lemma times_same:
  assumes "times_inv n s" "0 < n" "rp_head s' = rp_head s"
    and "\<And>i u. i < n \<Longrightarrow> w_pc (rp_workers s ! i) \<noteq> WDone \<Longrightarrow> w_bounds (rp_workers s ! i) u \<Longrightarrow>
      w_pc (rp_workers s' ! i) \<noteq> WDone \<and> w_bounds (rp_workers s' ! i) u"
  shows "times_inv n s'"
  unfolding times_inv_def
proof (intro allI impI ballI)
  fix k ls xs x assume "head_view (rp_head s') k = Some (ls, xs)" "x \<in> set xs"
  moreover have "unat k mod n < n" using assms(2) by simp
  ultimately show "h_minTime (rp_head s') \<le> fst x \<and> fst x \<le> h_maxTime (rp_head s')
    \<or> w_pc (rp_workers s' ! (unat k mod n)) \<noteq> WDone \<and> w_bounds (rp_workers s' ! (unat k mod n)) (fst x)"
    using assms(1,3,4) unfolding times_inv_def by metis
qed

lemma head_labels_fields [simp]:
  "head_labels (h\<lparr>h_tombstones := t\<rparr>) = head_labels h" "head_labels (updateMinMaxTime a b h) = head_labels h"
  by (simp_all add: head_labels_def fun_eq_iff)

lemma updateMinMaxTime_tombstones [simp]: "h_tombstones (updateMinMaxTime a b h) = h_tombstones h"
  by (simp add: updateMinMaxTime_def Let_def)

lemma updateMinMaxTime_bounds:
  "h_minTime (updateMinMaxTime a b h) = min a (h_minTime h)" "h_maxTime (updateMinMaxTime a b h) = max b (h_maxTime h)"
  by (simp_all add: updateMinMaxTime_def Let_def)

lemma data_worker_finish:
  assumes d: "data_inv sum64 v n Z t s" "times_inv n s" and i: "i < n" and l: "length (rp_chans s) = n + 1" "length (rp_workers s) = n"
    and pc: "w_pc (rp_workers s ! i) = WRecv"
    and s': "s' = s\<lparr>rp_head := updateMinMaxTime (w_mint (rp_workers s ! i)) (w_maxt (rp_workers s ! i)) (rp_head s),
              rp_chans := close_chan (Suc i) (rp_chans s), rp_workers := (rp_workers s)[i := (rp_workers s ! i)\<lparr>w_pc := WDone\<rparr>],
              rp_unknown := rp_unknown s + w_unknown (rp_workers s ! i)\<rparr>"
  shows "data_inv sum64 v n Z t s'" "times_inv n s'"
proof -
  have "rest s' j = rest s j" if "j < n" for j
    unfolding rest_def s' using that i l pc by (auto intro!: todo_cong simp: nth_list_update)
  moreover have f: "future s' = future s" by (simp add: s' future_def queued_worker)
  moreover have "work n s' k = work n s k" for k using calculation i by (simp add: work_def)
  ultimately show "data_inv sum64 v n Z t s'" using d(1)
    by (simp add: data_inv_def in_flight_ok_def decodable_def s' num_samples_def)
  show "times_inv n s'" unfolding times_inv_def
  proof (intro allI impI ballI)
    fix k ls xs x assume "head_view (rp_head s') k = Some (ls, xs)" "x \<in> set xs"
    then have "h_minTime (rp_head s) \<le> fst x \<and> fst x \<le> h_maxTime (rp_head s)
      \<or> w_pc (rp_workers s ! (unat k mod n)) \<noteq> WDone \<and> w_bounds (rp_workers s ! (unat k mod n)) (fst x)"
      using d(2) unfolding times_inv_def by (auto simp: s')
    then show "h_minTime (rp_head s') \<le> fst x \<and> fst x \<le> h_maxTime (rp_head s')
      \<or> w_pc (rp_workers s' ! (unat k mod n)) \<noteq> WDone \<and> w_bounds (rp_workers s' ! (unat k mod n)) (fst x)"
      using i l by (cases "unat k mod n = i") (auto simp: s' updateMinMaxTime_bounds w_bounds_def)
  qed
qed

lemma data_worker_step:
  assumes ring: "ring_inv n s" and d: "data_inv sum64 v n Z t s" "times_inv n s" and i: "i < n" "n < 2 ^ 63"
    and st: "worker_step v n i s = Some s'"
  shows "data_inv sum64 v n Z t s' \<and> times_inv n s' \<and> rp_pc s' = rp_pc s"
proof -
  have l: "length (rp_chans s) = n + 1" "length (rp_workers s) = n" using ring by (simp_all add: ring_inv_def)
  have n: "0 < n" using i by simp
  from st show ?thesis
  proof (cases rule: worker_step_cases)
    case (recv b bs)
    have "rest s' j = rest s j" for j using recv i l todo_recv [of i "rp_workers s" "rp_chans s" b bs "pending (rp_pc s)" j] by (simp add: rest_def)
    moreover have "times_inv n s'"
      by (rule times_same [OF d(2) n]) (use recv i l in \<open>auto simp: nth_list_update w_bounds_def\<close>)
    ultimately show ?thesis using recv data_inv_same [OF d(1) n, of s'] by (simp add: queued_worker)
  next
    case finish
    with data_worker_finish [OF d i(1) l finish(1,4)] show ?thesis by simp
  next
    case (sample x xs b w' h)
    obtain w'' h'' where "worker_sample v n i x (rp_workers s ! i) (rp_head s) = Ok (w'', h'')"
      "data_inv sum64 v n Z t (s\<lparr>rp_head := h'', rp_workers := (rp_workers s)[i := w''\<lparr>w_pc := WBatch xs b\<rparr>]\<rparr>)"
      "times_inv n (s\<lparr>rp_head := h'', rp_workers := (rp_workers s)[i := w''\<lparr>w_pc := WBatch xs b\<rparr>]\<rparr>)"
      by (rule data_worker_sample [OF d i l(2) sample(1)])
    with sample show ?thesis by simp
  next
    case (crash x xs b)
    then show ?thesis using data_worker_sample [OF d i l(2) crash(1)] by metis
  next
    case (pass b)
    have "rest s' j = rest s j" for j using pass i l todo_pass [of i "rp_workers s" "rp_chans s" b "pending (rp_pc s)" j] by (simp add: rest_def)
    moreover have "times_inv n s'"
      by (rule times_same [OF d(2) n]) (use pass i l in \<open>auto simp: nth_list_update w_bounds_def\<close>)
    ultimately show ?thesis using pass data_inv_same [OF d(1) n, of s'] by (simp add: queued_worker)
  qed
qed

section \<open>The main goroutine\<close>

lemma rest_pc: "pending (rp_pc s') = pending (rp_pc s) \<Longrightarrow> rp_chans s' = rp_chans s \<Longrightarrow> rp_workers s' = rp_workers s \<Longrightarrow> rest s' = rest s"
  by (simp add: rest_def)

lemma rest_pending: "rest s i = unread (w_pc (rp_workers s ! i)) @ concat (ch_buf (rp_chans s ! i)) @ upstream (rp_chans s) (rp_workers s) (pending (rp_pc s)) i"
  by (simp add: rest_def todo_def)

lemma upstream_app: "upstream cs ws ss i = upstream cs ws [] i @ ss"
  by (induction i) simp_all

lemma data_samples_record:
  assumes d: "data_inv sum64 v n Z t s" and n: "0 < n" and r: "rp_pc s = MRead" "rp_recs s = rec # recs" "decode_record rec = Ok (SamplesEntry ss)"
  shows "data_inv sum64 v n Z t (s\<lparr>rp_recs := recs, rp_pc := MSamples ss\<rparr>)"
proof -
  let ?s = "s\<lparr>rp_recs := recs, rp_pc := MSamples ss\<rparr>"
  have fut: "future s = SamplesEntry ss # future ?s" using r by (simp add: future_def queued_def the_entry_def)
  have rest: "rest ?s i = rest s i @ ss" for i
    unfolding rest_pending using upstream_app [of "rp_chans s" "rp_workers s" ss i] r(1) by simp
  have fits: "log_fits (head_labels (rp_head s)) (SamplesEntry ss # future ?s)" using d fut by (simp add: data_inv_def)
  then have "in_flight_ok n ?s" using d unfolding data_inv_def in_flight_ok_def rest fut by auto
  with fits show ?thesis by (intro data_inv_moved [OF d n]) (auto simp: r fut rest fun_eq_iff)
qed

lemma times_view:
  assumes "times_inv n s" "\<And>k ls xs. head_view (rp_head s') k = Some (ls, xs) \<Longrightarrow> xs \<noteq> [] \<Longrightarrow> head_view (rp_head s) k = Some (ls, xs)"
    "same_rest (rp_head s) (rp_head s')" "rp_workers s' = rp_workers s"
  shows "times_inv n s'"
  unfolding times_inv_def
proof (intro allI impI ballI)
  fix k ls xs x assume k: "head_view (rp_head s') k = Some (ls, xs)" "x \<in> set xs"
  then have "head_view (rp_head s) k = Some (ls, xs)" using assms(2) by fastforce
  with assms(1,3,4) k(2) show "h_minTime (rp_head s') \<le> fst x \<and> fst x \<le> h_maxTime (rp_head s')
    \<or> w_pc (rp_workers s' ! (unat k mod n)) \<noteq> WDone \<and> w_bounds (rp_workers s' ! (unat k mod n)) (fst x)"
    unfolding times_inv_def by (simp add: same_rest_def)
qed

lemma data_series_known:
  assumes d: "data_inv sum64 v n Z t s" "times_inv n s" and r: "rp_pc s = MSeries (r # rs)"
    and s': "s' = s\<lparr>rp_pc := MSeries rs, rp_head := load_series sum64 r (rp_head s)\<rparr>"
    and known: "head_labels (rp_head s) (series_Ref r) \<noteq> Some (series_Labels r)" "series_Labels r \<in> ran (head_labels (rp_head s))"
  shows "data_inv sum64 v n Z t s'" "times_inv n s'"
proof -
  have "head_inv sum64 (rp_head s)" using d(1) by (simp add: data_inv_def)
  note h = load_series_known [OF this known(2)]
  have labels: "head_labels (rp_head s') = head_labels (rp_head s)" using h(2) by (simp add: s' head_labels_def fun_eq_iff)
  then have fut: "future s' = future s" using r known by (simp add: future_def queued_def s')
  have rest: "rest s' = rest s" by (rule rest_pc) (simp_all add: s' r)
  have work: "work n s' = work n s" by (simp add: work_def fun_eq_iff rest fut)
  have "in_flight_ok n s'" using d(1) unfolding data_inv_def in_flight_ok_def rest fut labels by simp
  moreover have "head_inv sum64 (rp_head s')" "h_tombstones (rp_head s') = h_tombstones (rp_head s)" "decodable s' = decodable s"
    "head_view (rp_head s') = head_view (rp_head s)" "num_samples (rp_head s') = num_samples (rp_head s)"
    using h by (simp_all add: s' same_rest_def decodable_def num_samples_def fun_eq_iff)
  ultimately show "data_inv sum64 v n Z t s'" using d(1) unfolding data_inv_def labels by (simp add: work fut)
  show "times_inv n s'" by (rule times_view [OF d(2)]) (use h in \<open>simp_all add: s'\<close>)
qed

lemma data_series:
  assumes d: "data_inv sum64 v n Z t s" "times_inv n s" and r: "rp_pc s = MSeries (r # rs)"
    and s': "s' = s\<lparr>rp_pc := MSeries rs, rp_head := load_series sum64 r (rp_head s)\<rparr>"
    and new: "head_labels (rp_head s) (series_Ref r) = Some (series_Labels r) \<or> series_Labels r \<notin> ran (head_labels (rp_head s))"
  shows "data_inv sum64 v n Z t s'" "times_inv n s'"
proof -
  let ?h = "rp_head s" and ?K = "(head_labels (rp_head s))(series_Ref r \<mapsto> series_Labels r)"
  define rs' where "rs' = fresh_series ?K rs"
  define es where "es = effective (learn rs' ?K) (map the_entry (rp_recs s))"
  have fut: "future s = SeriesEntry (r # rs') # es" using r new by (auto simp: future_def queued_def es_def rs'_def)
  have inv: "head_inv sum64 ?h" and fit: "series_fit (head_labels ?h) (r # rs')" "log_fits (learn (r # rs') (head_labels ?h)) es"
    using d(1) by (simp_all add: data_inv_def fut)
  note h = load_series_ok [OF inv fit(1)]
  have view: "head_view (rp_head s') k = ref_series k r (head_view ?h k)" for k using h(2) by (simp add: s')
  have labels: "head_labels (rp_head s') = ?K"
    using fit(1) by (auto simp: fun_eq_iff head_labels_def view ref_series_def)
  then have fut': "future s' = SeriesEntry rs' # es" by (simp add: future_def queued_def s' es_def rs'_def)
  have rest: "rest s' = rest s" by (rule rest_pc) (simp_all add: s' r)
  have work: "work n s' = work n s" by (simp add: work_def fun_eq_iff rest fut fut')
  have "in_flight_ok n s'" using d(1) unfolding data_inv_def in_flight_ok_def rest fut fut' labels by auto
  moreover have "num_samples (rp_head s') k = num_samples ?h k" for k
    unfolding num_samples_def view by (simp add: ref_series_def)
  moreover have "head_inv sum64 (rp_head s')" "h_tombstones (rp_head s') = h_tombstones ?h" "decodable s' = decodable s"
    using h(1,3) by (simp_all add: s' same_rest_def decodable_def)
  ultimately show "data_inv sum64 v n Z t s'"
    using d(1) fit unfolding data_inv_def labels by (simp add: work fut fut' view)
  show "times_inv n s'" by (rule times_view [OF d(2)]) (use h(3) view in \<open>auto simp: s' ref_series_def split: if_splits\<close>)
qed

lemma data_stones_record:
  assumes d: "data_inv sum64 v n Z t s" "times_inv n s" and r: "rp_pc s = MRead" "rp_recs s = rec # recs" "decode_record rec = Ok (StonesEntry ts)"
    and s': "s' = s\<lparr>rp_recs := recs, rp_head := (rp_head s)\<lparr>h_tombstones := load_stones v ts (h_tombstones (rp_head s))\<rparr>\<rparr>"
  shows "data_inv sum64 v n Z t s'" "times_inv n s'"
proof -
  have fut: "future s = StonesEntry ts # future s'" using r by (simp add: future_def queued_def the_entry_def s')
  have rest: "rest s' = rest s" by (rule rest_pc) (simp_all add: s')
  have "work n s' = work n s" by (simp add: work_def fun_eq_iff rest fut)
  then show "data_inv sum64 v n Z t s'" using d(1) r(2)
    by (simp add: data_inv_def fut s' decodable_def in_flight_ok_def num_samples_def rest [unfolded s'])
  show "times_inv n s'" using d(2) by (simp add: times_inv_def s')
qed

lemma data_main_step:
  assumes ring: "ring_inv n s" and d: "data_inv sum64 v n Z t s" "times_inv n s" and n: "0 < n"
    and st: "main_step sum64 v n None s = Some s'"
  shows "data_inv sum64 v n Z t s' \<and> times_inv n s' \<and> (\<forall>r. rp_pc s' = MDone r \<longrightarrow> r = Loaded)"
proof -
  have l: "length (rp_chans s) = n + 1" "length (rp_workers s) = n" using ring by (simp_all add: ring_inv_def)
  have same: "times_inv n s'" if "rp_head s' = rp_head s" "rp_workers s' = rp_workers s"
    by (rule times_same [OF d(2) n]) (simp_all add: that)
  have pop: "todo (pop n (rp_chans s)) (rp_workers s) ss j = todo (rp_chans s) (rp_workers s) ss j" if "j < n" for ss j
    using that l by (intro todo_cong) simp_all
  from st show ?thesis
  proof (cases rule: main_step_cases)
    case ended
    have "rest s' j = rest s j" if "j < n" for j unfolding rest_def ended using that ended(1) l by (auto intro!: todo_cong)
    then show ?thesis using same data_inv_same [OF d(1) n, of s'] ended by (simp add: queued_def)
  next
    case (series_record rec recs rs)
    have "rest s' = rest s" by (rule rest_pc) (simp_all add: series_record)
    moreover have "future s' = future s" using series_record by (simp add: future_def queued_def the_entry_def)
    ultimately have "data_inv sum64 v n Z t s'"
      by (intro data_inv_moved [OF d(1) n]) (use series_record d(1) in \<open>auto simp: data_inv_def in_flight_ok_def\<close>)
    then show ?thesis using same series_record by simp
  next
    case (samples_record rec recs ss)
    then show ?thesis using same data_samples_record [OF d(1) n samples_record(1-3)] by simp
  next
    case (stones_record rec recs ts)
    then show ?thesis using data_stones_record [OF d stones_record] by simp
  next
    case (undecoded rec recs r)
    then show ?thesis using d(1) by (simp add: data_inv_def decodable_def)
  next
    case series_done
    have "rest s' = rest s" by (rule rest_pc) (simp_all add: series_done)
    moreover have "future s = SeriesEntry [] # future s'" using series_done by (simp add: future_def queued_def)
    ultimately have "data_inv sum64 v n Z t s'"
      by (intro data_inv_moved [OF d(1) n]) (use series_done d(1) in \<open>auto simp: data_inv_def in_flight_ok_def fun_eq_iff\<close>)
    then show ?thesis using same series_done by simp
  next
    case (series r rs)
    then show ?thesis using data_series [OF d series] data_series_known [OF d series] by auto
  next
    case samples_done
    have "rest s' = rest s" by (rule rest_pc) (simp_all add: samples_done)
    then show ?thesis using same data_inv_same [OF d(1) n, of s'] samples_done by (simp add: queued_def)
  next
    case (batch k ss)
    have "rest s' j = rest s j" if "j < n" for j using that batch pop by (simp add: rest_def)
    then show ?thesis using same data_inv_same [OF d(1) n, of s'] batch by (simp add: queued_def)
  next
    case (send b ss)
    have "rest s' j = rest s j" for j using send todo_send [of "rp_chans s" b "rp_workers s" ss j] l by (simp add: rest_def)
    then show ?thesis using same data_inv_same [OF d(1) n, of s'] send by (simp add: queued_def)
  next
    case drain
    have "rest s' j = rest s j" if "j < n" for j using that drain pop by (simp add: rest_def)
    then show ?thesis using same data_inv_same [OF d(1) n, of s'] drain by (simp add: queued_def)
  next
    case loaded
    have "rest s' = rest s" by (rule rest_pc) (simp_all add: loaded)
    then show ?thesis using same data_inv_same [OF d(1) n, of s'] loaded by (simp add: queued_def)
  qed simp
qed

section \<open>Complete runs\<close>

definition times_ok :: "Head \<Rightarrow> bool" where
  "times_ok h \<longleftrightarrow> (\<forall>k ls xs. head_view h k = Some (ls, xs) \<longrightarrow> (\<forall>x \<in> set xs. h_minTime h \<le> fst x \<and> fst x \<le> h_maxTime h))"

text \<open>A log whose records decode, fits the head and leaves no series with more samples than a chunk can count.\<close>

definition loadable :: "Head \<Rightarrow> entry list \<Rightarrow> bool" where
  "loadable h es \<longleftrightarrow> log_fits (head_labels h) (effective (head_labels h) es) \<and> (\<forall>k. num_samples h k + samples_for k (log_samples es) \<le> 65535)"

lemma todo_start: "i < n \<Longrightarrow> todo (replicate (Suc n) new_channel) (replicate n new_worker) [] i = []"
proof -
  assume i: "i < n"
  have "upstream (replicate (Suc n) new_channel) (replicate n new_worker) [] j = []" if "j \<le> n" for j
    using that by (induction j) (simp_all add: new_worker_def new_channel_def del: replicate_Suc)
  then show ?thesis using i by (simp add: todo_def new_worker_def new_channel_def del: replicate_Suc)
qed

lemma data_inv_start:
  assumes inv: "head_inv sum64 h" and n: "0 < n" and dec: "map decode_record recs = map Ok es" and l: "loadable h es"
  shows "data_inv sum64 v n (\<lambda>k. replayed v k (effective (head_labels h) es) (head_view h k)) (fold (stones_entry v) es (h_tombstones h)) (load_start n recs h)"
proof -
  let ?es = "effective (head_labels h) es"
  let ?s = "load_start n recs h"
  have rest: "rest ?s i = []" if "i < n" for i using todo_start [OF that] by (simp add: rest_def load_start_def)
  have "map the_entry recs = es" using dec by (induction recs arbitrary: es) (auto simp: the_entry_def Cons_eq_map_conv)
  then have fut: "future ?s = ?es" by (simp add: future_def queued_def load_start_def)
  have fits: "log_fits (head_labels h) ?es" using l by (simp add: loadable_def)
  have "replayed v k ?es (head_view h k) = fold (ref_sample v k) (log_samples ?es) (fold (ref_series k) (log_series ?es) (head_view h k))" for k
    using fits by (rule replayed_fits) (auto simp: head_labels_def)
  moreover have "work n ?s k = log_samples es" for k using rest n by (simp add: work_def fut)
  moreover have "decodable ?s"
    using arg_cong [OF dec, of set] by (auto simp: decodable_def load_start_def)
  moreover have "in_flight_ok n ?s" by (simp add: in_flight_ok_def rest)
  moreover have "rp_head ?s = h" by (simp add: load_start_def)
  ultimately show ?thesis using inv l fits by (simp add: data_inv_def fut loadable_def stones_effective)
qed

lemma load_invariant:
  assumes run: "(load_step sum64 v n None)\<^sup>*\<^sup>* (load_start n recs h) s" and n: "0 < n" "n < 2 ^ 63"
    and d: "data_inv sum64 v n Z t (load_start n recs h)" "times_ok h"
  shows "ring_inv n s \<and> data_inv sum64 v n Z t s \<and> times_inv n s \<and> (\<forall>r. rp_pc s = MDone r \<longrightarrow> r = Loaded)"
  using run
proof (induction rule: rtranclp_induct)
  case base
  show ?case using d ring_inv_start [of n recs h] by (fastforce simp: times_inv_def times_ok_def load_start_def)
next
  case (step s s')
  then have s: "ring_inv n s" "data_inv sum64 v n Z t s" "times_inv n s" "\<forall>r. rp_pc s = MDone r \<longrightarrow> r = Loaded" by simp_all
  from step.hyps(2) show ?case
  proof cases
    case main
    from ring_main_step [OF s(1) main] data_main_step [OF s(1-3) n(1) main] show ?thesis by blast
  next
    case (worker i)
    note w = data_worker_step [OF s(1-3) worker(1) n(2) worker(3)]
    then have "rp_pc s' \<noteq> MDone LoadPanic" using worker(2) by simp
    from ring_worker_step [OF s(1) worker(1,3) this] w s(4) show ?thesis by simp
  qed
qed

text \<open>When the main goroutine returns, no work is left.\<close>

lemma loaded_result:
  assumes ring: "ring_inv n s" and d: "data_inv sum64 v n Z t s" "times_inv n s" and n: "0 < n" and pc: "rp_pc s = MDone Loaded"
  shows "head_inv sum64 (rp_head s)" "head_view (rp_head s) k = Z k" "h_tombstones (rp_head s) = t" "times_ok (rp_head s)"
proof -
  have w: "w_pc (rp_workers s ! i) = WDone" "ch_buf (rp_chans s ! i) = []" if "i < n" for i
    using ring pc that by (simp_all add: ring_inv_def)
  have "rp_recs s = []" using ring pc by (simp add: ring_inv_def)
  then have fut: "future s = []" using pc by (simp add: future_def queued_def)
  have "upstream (rp_chans s) (rp_workers s) [] j = []" if "j \<le> n" for j using that w by (induction j) simp_all
  then have "rest s i = []" if "i < n" for i using that w pc by (simp add: rest_def todo_def)
  then have "work n s k = []" for k using n by (simp add: work_def fut)
  then show "head_inv sum64 (rp_head s)" "head_view (rp_head s) k = Z k" "h_tombstones (rp_head s) = t"
    using d(1) by (simp_all add: data_inv_def fut)
  show "times_ok (rp_head s)" using d(2) w(1) n unfolding times_inv_def times_ok_def by (metis mod_less_divisor)
qed

lemma loadWAL_result:
  assumes inv: "head_inv sum64 h" "times_ok h" and n: "0 < n" "n < 2 ^ 63" and dec: "map decode_record recs = map Ok es" and l: "loadable h es"
    and load: "loadWAL sum64 n recs None h r h'" and v: "v = load_minValidTime h"
  shows "r = Loaded \<and> head_inv sum64 h' \<and> times_ok h' \<and> (\<forall>k. head_view h' k = replayed v k (effective (head_labels h) es) (head_view h k))
    \<and> h_tombstones h' = fold (stones_entry v) es (h_tombstones h)"
proof -
  from load obtain s where s: "(load_step sum64 v n None)\<^sup>*\<^sup>* (load_start n recs h) s" "rp_pc s = MDone r" "rp_head s = h'"
    by (auto simp: loadWAL_def v)
  from load_invariant [OF s(1) n data_inv_start [OF inv(1) n(1) dec l] inv(2)] s(2)
  have i: "ring_inv n s" "times_inv n s" "r = Loaded"
    "data_inv sum64 v n (\<lambda>k. replayed v k (effective (head_labels h) es) (head_view h k)) (fold (stones_entry v) es (h_tombstones h)) s" by simp_all
  from loaded_result [OF i(1,4,2) n(1)] s(2,3) i(3) show ?thesis by simp
qed

lemma new_head_facts:
  assumes "NewHead w r = Ok h"
  shows "h_wal h = w" "head_view h k = None" "load_minValidTime h = MinInt64" "h_tombstones h = NewMemTombstones" "num_samples h k = 0" "times_ok h"
    "head_labels h = Map.empty"
proof -
  show v: "head_view h k = None" for k using assms by (auto simp: NewHead_def head_view_def getByID_def newStripeSeries_def split: if_splits)
  show "h_wal h = w" "load_minValidTime h = MinInt64" "h_tombstones h = NewMemTombstones"
    using assms by (auto simp: NewHead_def load_minValidTime_def split: if_splits)
  show "num_samples h k = 0" "times_ok h" "head_labels h = Map.empty" using v by (simp_all add: num_samples_def times_ok_def head_labels_def fun_eq_iff)
qed

section \<open>Properties\<close>

text \<open>Runs from the start, and the states the ring can be in as long as the process lives.\<close>

lemma run_room:
  assumes "(load_step sum64 v n readErr)\<^sup>*\<^sup>* (load_start n recs h) s" "rp_pc s \<noteq> MDone LoadPanic"
  shows "ring_inv n s \<and> has_room n s"
  using assms
proof (induction rule: rtranclp_induct)
  case base
  then show ?case using ring_inv_start [of n recs h] by (simp add: has_room_def load_start_def)
next
  case (step s s')
  have pc: "rp_pc s \<noteq> MDone LoadPanic"
  proof
    assume "rp_pc s = MDone LoadPanic"
    with step.hyps(2) show False by cases (simp_all add: main_step_def)
  qed
  then have s: "ring_inv n s" "has_room n s" using step.IH by simp_all
  have "ring_inv n s'" using step.hyps(2)
    by cases (use ring_main_step [OF s(1)] ring_worker_step [OF s(1)] step.prems in blast)+
  then show ?case using has_room_step [OF s step.hyps(2) step.prems] by simp
qed

lemma terminal_reached:
  assumes "length (rp_chans s) = n + 1" "length (rp_workers s) = n"
  shows "\<exists>s'. (load_step sum64 v n readErr)\<^sup>*\<^sup>* s s' \<and> (\<nexists>s''. load_step sum64 v n readErr s' s'')"
  using assms
proof (induction "steps_left n s" arbitrary: s rule: less_induct)
  case less
  show ?case
  proof (cases "\<exists>s1. load_step sum64 v n readErr s s1")
    case True
    then obtain s1 where s1: "load_step sum64 v n readErr s s1" by blast
    note c = load_step_cost [OF less.prems s1]
    obtain s' where "(load_step sum64 v n readErr)\<^sup>*\<^sup>* s1 s'" "\<nexists>s''. load_step sum64 v n readErr s' s''"
      using less.hyps [OF c(1)] c(2) by blast
    then show ?thesis using s1 by (meson converse_rtranclp_into_rtranclp)
  qed blast
qed

lemma start_lengths: "length (rp_chans (load_start n recs h)) = n + 1" "length (rp_workers (load_start n recs h)) = n"
  by (simp_all add: load_start_def)

lemma run_progress:
  assumes "(load_step sum64 v n readErr)\<^sup>*\<^sup>* (load_start n recs h) s"
  shows "(\<exists>r. rp_pc s = MDone r) \<or> (\<exists>s'. load_step sum64 v n readErr s s')"
proof (cases "\<exists>r. rp_pc s = MDone r")
  case False
  with run_room [OF assms] show ?thesis by (intro disjI2 load_progress) auto
qed simp

lemma loadWAL_returns: "\<exists>r h'. loadWAL sum64 n recs readErr h r h'"
  using terminal_reached [OF start_lengths, of sum64 "load_minValidTime h" n readErr recs h] run_progress
  unfolding loadWAL_def by blast

text \<open>
  C9. Replaying the log always returns. Whatever the records are and however main goroutine and
  workers are interleaved, a run has a bounded number of steps, and as long as the main goroutine has not
  returned (or the process died of a panic) some goroutine can go on: the bounded channels of
  the ring never block all of them.
\<close>

theorem load_returns:
  "(\<exists>N. \<forall>c s. (load_step sum64 (load_minValidTime h) n readErr ^^ c) (load_start n recs h) s \<longrightarrow> c \<le> N)
   \<and> (\<forall>s. (load_step sum64 (load_minValidTime h) n readErr)\<^sup>*\<^sup>* (load_start n recs h) s \<longrightarrow>
        (\<exists>r. rp_pc s = MDone r) \<or> (\<exists>s'. load_step sum64 (load_minValidTime h) n readErr s s'))
   \<and> (\<exists>r h'. loadWAL sum64 n recs readErr h r h')"
proof (intro conjI)
  show "\<exists>N. \<forall>c s. (load_step sum64 (load_minValidTime h) n readErr ^^ c) (load_start n recs h) s \<longrightarrow> c \<le> N"
    using load_runs_finite(1) [OF start_lengths] by (meson add_leD1)
  show "\<forall>s. (load_step sum64 (load_minValidTime h) n readErr)\<^sup>*\<^sup>* (load_start n recs h) s \<longrightarrow>
      (\<exists>r. rp_pc s = MDone r) \<or> (\<exists>s'. load_step sum64 (load_minValidTime h) n readErr s s')"
    using run_progress by blast
  show "\<exists>r h'. loadWAL sum64 n recs readErr h r h'"
    by (rule loadWAL_returns)
qed

theorem load_returns_witness:
  "\<exists>h N r h'. NewHead None 100 = Ok h \<and> loadWAL (\<lambda>_. 0) 3 [Encoder_Samples [\<lparr>Ref = 1, T = 250, V = 7\<rparr>] [], [255]] None h r h'
    \<and> \<not> (\<exists>c s. N < c \<and> (load_step (\<lambda>_. 0) (load_minValidTime h) 3 None ^^ c)
          (load_start 3 [Encoder_Samples [\<lparr>Ref = 1, T = 250, V = 7\<rparr>] [], [255]] h) s)"
proof -
  obtain h where h: "NewHead None 100 = Ok h" by (simp add: NewHead_def)
  from load_returns [of "\<lambda>_. 0" h 3 None "[Encoder_Samples [\<lparr>Ref = 1, T = 250, V = 7\<rparr>] [], [255]]"] h show ?thesis
    by (metis not_less)
qed



end
