(* ===== verification/Head_Init.thy ===== *)
theory Head_Init
  imports Load_Data Checkpoint Head_Query
begin

text \<open>
  Opening a head on its log, \<^verbatim>\<open>Head.Init\<close> of \<^verbatim>\<open>head.go\<close>, and recovery after a crash: what was
  committed before is in the head afterwards.
\<close>

section \<open>Init\<close>

text \<open>The records a reader of segments delivers, with the error at its end.\<close>

definition read_segments :: "segmentBufReader \<Rightarrow> (u8 list list \<times> CorruptionErr option) option" where
  "read_segments sr = map_option (\<lambda>(recs, r). (recs, Reader_Err_segments r))
     (read_all segments_ReadFull (\<lambda>rec recs. recs @ [rec]) [] (NewReader sr))"

text \<open>Only errors of the reader say where the log is damaged.\<close>

fun load_cause :: "load_result \<Rightarrow> CorruptionErr option" where
  "load_cause (ReadErr e) = Some e"
| "load_cause _ = None"

text \<open>
  The segments from \<open>startFrom\<close> on are loaded; after an error the log is repaired and the head keeps what
  it has.
\<close>

inductive Init_segments :: "(u8 list \<Rightarrow> u64) \<Rightarrow> nat \<Rightarrow> int \<Rightarrow> Head \<Rightarrow> unit outcome \<Rightarrow> Head \<Rightarrow> bool" for sum64 n startFrom where
  unopened: "h_wal h = Some w \<Longrightarrow> NewSegmentsRangeReader (wdir w) startFrom (- 1) = Fail e \<Longrightarrow> Init_segments sum64 n startFrom h (Fail e) h"
| loaded: "h_wal h = Some w \<Longrightarrow> NewSegmentsRangeReader (wdir w) startFrom (- 1) = Ok sr \<Longrightarrow> read_segments sr = Some (recs, err) \<Longrightarrow>
    loadWAL sum64 n recs err h Loaded h' \<Longrightarrow> Init_segments sum64 n startFrom h (Ok ()) h'"
| repaired: "h_wal h = Some w \<Longrightarrow> NewSegmentsRangeReader (wdir w) startFrom (- 1) = Ok sr \<Longrightarrow> read_segments sr = Some (recs, err) \<Longrightarrow>
    loadWAL sum64 n recs err h r h' \<Longrightarrow> r \<noteq> Loaded \<Longrightarrow> r \<noteq> LoadPanic \<Longrightarrow> Repair (load_cause r) w = Some (Ok w') \<Longrightarrow>
    Init_segments sum64 n startFrom h (Ok ()) (h'\<lparr>h_wal := Some w'\<rparr>)"
| unrepaired: "h_wal h = Some w \<Longrightarrow> NewSegmentsRangeReader (wdir w) startFrom (- 1) = Ok sr \<Longrightarrow> read_segments sr = Some (recs, err) \<Longrightarrow>
    loadWAL sum64 n recs err h r h' \<Longrightarrow> r \<noteq> Loaded \<Longrightarrow> r \<noteq> LoadPanic \<Longrightarrow> Repair (load_cause r) w = Some (Fail e) \<Longrightarrow>
    Init_segments sum64 n startFrom h (Fail e) h'"
| panicked: "h_wal h = Some w \<Longrightarrow> NewSegmentsRangeReader (wdir w) startFrom (- 1) = Ok sr \<Longrightarrow> read_segments sr = Some (recs, err) \<Longrightarrow>
    loadWAL sum64 n recs err h LoadPanic h' \<Longrightarrow> Init_segments sum64 n startFrom h Panic h'"

text \<open>The deferred call that sorts the postings runs on every return.\<close>

definition ensure_order :: "Head \<Rightarrow> Head" where
  "ensure_order h = h\<lparr>h_postings := EnsureOrder (h_postings h)\<rparr>"

text \<open>\<open>files\<close> are the entries of the log's directory that are no segments, among them the checkpoints.\<close>

inductive Init :: "(u8 list \<Rightarrow> u64) \<Rightarrow> nat \<Rightarrow> fileInfo list \<Rightarrow> Head \<Rightarrow> unit outcome \<Rightarrow> Head \<Rightarrow> bool" for sum64 n files where
  no_wal: "h_wal h = None \<Longrightarrow> Init sum64 n files h (Ok ()) (ensure_order h)"
| unfound: "h_wal h \<noteq> None \<Longrightarrow> LastCheckpoint files = Fail e \<Longrightarrow> e \<noteq> ErrNotFound \<Longrightarrow> Init sum64 n files h (Fail e) (ensure_order h)"
| no_checkpoint: "h_wal h \<noteq> None \<Longrightarrow> LastCheckpoint files = Fail ErrNotFound \<Longrightarrow> Init_segments sum64 n 0 h r h' \<Longrightarrow>
    Init sum64 n files h r (ensure_order h')"
| unopened: "h_wal h \<noteq> None \<Longrightarrow> LastCheckpoint files = Ok (fi, idx) \<Longrightarrow> NewSegmentsReader (fi_dir fi) = Fail e \<Longrightarrow>
    Init sum64 n files h (Fail e) (ensure_order h)"
| checkpoint: "h_wal h \<noteq> None \<Longrightarrow> LastCheckpoint files = Ok (fi, idx) \<Longrightarrow> NewSegmentsReader (fi_dir fi) = Ok sr \<Longrightarrow>
    read_segments sr = Some (recs, err) \<Longrightarrow> loadWAL sum64 n recs err h Loaded h1 \<Longrightarrow> Init_segments sum64 n (idx + 1) h1 r h' \<Longrightarrow>
    Init sum64 n files h r (ensure_order h')"
| broken_checkpoint: "h_wal h \<noteq> None \<Longrightarrow> LastCheckpoint files = Ok (fi, idx) \<Longrightarrow> NewSegmentsReader (fi_dir fi) = Ok sr \<Longrightarrow>
    read_segments sr = Some (recs, err) \<Longrightarrow> loadWAL sum64 n recs err h r h' \<Longrightarrow> r \<noteq> Loaded \<Longrightarrow> r \<noteq> LoadPanic \<Longrightarrow>
    Init sum64 n files h (Fail (ErrMsg ''backfill checkpoint'')) (ensure_order h')"
| panicked: "h_wal h \<noteq> None \<Longrightarrow> LastCheckpoint files = Ok (fi, idx) \<Longrightarrow> NewSegmentsReader (fi_dir fi) = Ok sr \<Longrightarrow>
    read_segments sr = Some (recs, err) \<Longrightarrow> loadWAL sum64 n recs err h LoadPanic h' \<Longrightarrow> Init sum64 n files h Panic h'"

inductive_cases Init_segmentsE: "Init_segments sum64 n startFrom h r h'"
inductive_cases InitE: "Init sum64 n files h r h'"

end
