(* ===== verification/Head_Recovery.thy ===== *)
theory Head_Recovery
  imports Head_Init
begin

text \<open>
  Recovery after a crash. A transaction logs what it does to the head before it does it, so replaying the
  log of a head builds a head with the same series and samples.
\<close>

section \<open>Logs where every sample follows its series\<close>

fun log_known :: "(u64 \<rightharpoonup> Labels) \<Rightarrow> entry list \<Rightarrow> bool" where
  "log_known K [] = True"
| "log_known K (SeriesEntry rs # es) \<longleftrightarrow> series_fit K rs \<and> log_known (learn rs K) es"
| "log_known K (SamplesEntry ss # es) \<longleftrightarrow> (\<forall>s \<in> set ss. time_ok (T s) \<and> Ref s \<in> dom K) \<and> log_known K es"
| "log_known K (StonesEntry ts # es) \<longleftrightarrow> log_known K es"

lemma log_known_fits: "log_known K es \<Longrightarrow> log_fits K es"
  by (induction K es rule: log_known.induct) auto

lemma effective_known: "log_known K es \<Longrightarrow> effective K es = es"
  by (induction K es rule: log_known.induct) (auto simp: fresh_series_fit)

lemma learn_append [simp]: "learn (rs @ rs') K = learn rs' (learn rs K)"
  by (simp add: learn_def)

lemma dom_learn: "dom (learn rs K) = dom K \<union> series_Ref ` set rs"
  by (rule known_after_series)

lemma series_fit_append: "series_fit K (rs @ rs') \<longleftrightarrow> series_fit K rs \<and> series_fit (learn rs K) rs'"
  by (induction rs arbitrary: K) auto

lemma log_known_append: "log_known K (es @ es') \<longleftrightarrow> log_known K es \<and> log_known (learn (log_series es) K) es'"
  by (induction K es rule: log_known.induct) auto

lemma replayed_append: "replayed v k (es @ es') x = replayed v k es' (replayed v k es x)"
  by (simp add: replayed_def)

lemma series_labels:
  assumes "series_fit K rs" "map_option fst x = K k"
  shows "map_option fst (fold (ref_series k) rs x) = learn rs K k"
  using assms
proof (induction rs arbitrary: K x)
  case (Cons r rs)
  have "map_option fst (ref_series k r x) = (K(series_Ref r \<mapsto> series_Labels r)) k"
    using Cons.prems by (auto simp: ref_series_def)
  then show ?case using Cons.IH [of "K(series_Ref r \<mapsto> series_Labels r)" "ref_series k r x"] Cons.prems(1) by (simp del: fun_upd_apply)
qed simp

lemma sample_labels: "map_option fst (fold (ref_sample v k) ss x) = map_option fst x"
  by (induction ss arbitrary: x) (auto simp: ref_sample_def option.map_comp comp_def split_def)

lemma labels_learn:
  assumes "\<And>k. head_view h' k = fold (ref_series k) rs (head_view h k)" "series_fit (head_labels h) rs"
  shows "head_labels h' = learn rs (head_labels h)"
  using assms series_labels [OF assms(2)] by (auto simp: fun_eq_iff head_labels_def)

lemma replayed_labels:
  assumes "log_known K es" "map_option fst x = K k"
  shows "map_option fst (replayed v k es x) = learn (log_series es) K k"
  using assms
proof (induction K es arbitrary: x rule: log_known.induct)
  case (2 K rs es)
  from 2 series_labels [of K rs x k] show ?case by (simp add: replayed_def)
next
  case (3 K ss es)
  from 3 sample_labels [of v k ss x] show ?case by (simp add: replayed_def)
qed (simp_all add: replayed_def)

section \<open>Adding to a transaction\<close>

lemma view_extends:
  assumes "head_inv sum64 h" "extends_head h h'" "h_series h' = h_series h"
  shows "head_view h' k = head_view h k"
  using assms head_inv_id(1) [OF assms(1), of k]
  by (cases "getByID (h_series h) k") (auto simp: head_view_def extends_head_def dest: same_idsD)

lemma view_created:
  assumes inv: "head_inv sum64 h" "head_inv sum64 h'" "extends_head h h'" and new: "samples_of sum64 h lset = None" and l: "valid_lset lset"
    and p: "getByID (h_series h') = (getByID (h_series h))(k \<mapsto> p)" "p = length (h_heap h)" "ms_lset (h_heap h' ! p) = lset"
      "read_series (h_heap h' ! p) = Ok []"
  shows "series_fit (head_labels h) [\<lparr>series_Ref = k, series_Labels = lset\<rparr>]"
    "head_view h' x = ref_series x \<lparr>series_Ref = k, series_Labels = lset\<rparr> (head_view h x)"
proof -
  have none: "getByID (h_series h) k = None"
  proof (rule ccontr)
    assume "getByID (h_series h) k \<noteq> None"
    then obtain q where q: "getByID (h_series h) k = Some q" by blast
    moreover from this have "getByID (h_series h') k = Some q" using inv(3) by (force simp: extends_head_def map_le_def)
    ultimately show False using p(1,2) head_inv_id(1) [OF inv(1)] by fastforce
  qed
  have "lset \<notin> ran (head_labels h)"
  proof
    assume "lset \<in> ran (head_labels h)"
    then obtain x xs where "head_view h x = Some (lset, xs)" by (auto simp: ran_def head_labels_def)
    then have "samples_of sum64 h lset = Some (Ok xs)" unfolding samples_of_view [OF inv(1)] by blast
    with new show False by simp
  qed
  moreover have "0 < k" using inv(2) p(1) by (auto simp: head_inv_def)
  moreover have "head_labels h k = None" using none by (simp add: head_labels_def head_view_def)
  ultimately show "series_fit (head_labels h) [\<lparr>series_Ref = k, series_Labels = lset\<rparr>]" using l by simp
  have "getByID (h_series h) x = Some q \<Longrightarrow> ms_lset (h_heap h' ! q) = ms_lset (h_heap h ! q) \<and> read_series (h_heap h' ! q) = read_series (h_heap h ! q)" for q
    using inv(3) head_inv_id(1) [OF inv(1)] by (auto simp: extends_head_def dest: same_idsD)
  then show "head_view h' x = ref_series x \<lparr>series_Ref = k, series_Labels = lset\<rparr> (head_view h x)"
    using none p by (cases "getByID (h_series h) x") (auto simp: head_view_def ref_series_def)
qed

lemma Add_logs:
  assumes inv: "head_inv sum64 h" and tx: "tx_ok h a" and l: "valid_lset lset" and t: "time_ok t" and room: "lastSeriesID h + 1 \<noteq> 0"
    and add: "headAppender_Add sum64 lset t v (h, a) = (r, h', a')"
  shows "\<exists>rs. ha_series a' = ha_series a @ rs \<and> series_fit (head_labels h) rs \<and> series_Labels ` set rs \<subseteq> {lset}
    \<and> (\<forall>k. head_view h' k = fold (ref_series k) rs (head_view h k))"
proof (cases "t < ha_minValidTime a")
  case True
  then show ?thesis using add by (intro exI [of _ "[]"]) (simp add: headAppender_Add_def)
next
  case False
  obtain p created h1 where h1: "getOrCreate (Hash sum64 lset) lset h = ((p, created), h1)" "head_inv sum64 h1" "extends_head h h1"
    "getByID (h_series h1) (ms_ref (h_heap h1 ! p)) = Some p" "ms_lset (h_heap h1 ! p) = lset"
    "created \<longleftrightarrow> samples_of sum64 h lset = None" "created \<longrightarrow> read_series (h_heap h1 ! p) = Ok []" "\<not> created \<longrightarrow> h1 = h"
    "created \<longrightarrow> getByID (h_series h1) = (getByID (h_series h))(ms_ref (h_heap h1 ! p) \<mapsto> p) \<and> p = length (h_heap h)"
    "lastSeriesID h1 = (if created then lastSeriesID h + 1 else lastSeriesID h)"
    by (rule getOrCreate_ok [OF inv l room])
  define rs where "rs = (if created then [\<lparr>series_Ref = ms_ref (h_heap h1 ! p), series_Labels = lset\<rparr>] else [])"
  let ?a = "if created then a\<lparr>ha_series := ha_series a @ [\<lparr>series_Ref = ms_ref (h_heap h1 ! p), series_Labels = lset\<rparr>]\<rparr> else a"
  have tx1: "tx_ok h1 ?a" using tx_ok_extends [OF tx h1(3)] by (simp add: tx_ok_def)
  obtain h2 a2 err where h2: "headAppender_AddFast (ms_ref (h_heap h1 ! p)) t v (h1, ?a) = (err, h2, a2)"
    "extends_head h1 h2" "h_series h2 = h_series h1" "ha_series a2 = ha_series ?a"
    by (rule AddFast_ok [OF h1(2) tx1 t h1(4) refl])
  have eq: "h' = h2" "a' = a2" using add False h1(1) h2(1) by (simp_all add: headAppender_Add_def Let_def)
  have "series_fit (head_labels h) rs \<and> head_view h1 k = fold (ref_series k) rs (head_view h k)" for k
    using view_created [OF inv h1(2,3) _ l _ _ h1(5)] h1(6-9) by (cases created) (auto simp: rs_def)
  moreover have "head_view h2 k = head_view h1 k" for k by (rule view_extends [OF h1(2) h2(2,3)])
  ultimately show ?thesis using h2(4) by (intro exI [of _ rs]) (auto simp: eq rs_def)
qed

lemma Add_all_logs:
  assumes "head_inv sum64 h" "tx_ok h a" "list_all request_ok rs" "unat (lastSeriesID h) + length rs < 2 ^ 64"
    "Add_all sum64 rs (h, a) = (errs, h', a')"
  shows "\<exists>ser. ha_series a' = ha_series a @ ser \<and> series_fit (head_labels h) ser \<and> series_Labels ` set ser \<subseteq> fst ` set rs
    \<and> (\<forall>k. head_view h' k = fold (ref_series k) ser (head_view h k)) \<and> unat (lastSeriesID h') \<le> unat (lastSeriesID h) + length rs"
  using assms
proof (induction rs arbitrary: h a errs)
  case (Cons r rs)
  obtain lset t v where r: "r = (lset, t, v)" by (cases r)
  have ok: "valid_lset lset" "time_ok t" using Cons.prems(3) r by (simp_all add: request_ok_def)
  have "unat (lastSeriesID h) + 1 < 2 ^ 64" using Cons.prems(4) by simp
  then have room: "lastSeriesID h + 1 \<noteq> 0" by (rule id_not_last)
  obtain ref e h1 a1 where h1: "headAppender_Add sum64 lset t v (h, a) = ((ref, e), h1, a1)" "head_inv sum64 h1" "tx_ok h1 a1"
    "unat (lastSeriesID h1) \<le> unat (lastSeriesID h) + 1"
    by (rule Add_ok [OF Cons.prems(1,2) ok room refl])
  obtain errs' where all: "Add_all sum64 rs (h1, a1) = (errs', h', a')" using Cons.prems(5) h1(1) r by (auto split: prod.splits)
  have "unat (lastSeriesID h1) + length rs < 2 ^ 64" using h1(4) Cons.prems(4) by simp
  from Cons.IH [OF h1(2,3) _ this all] Cons.prems(3) obtain ser where ser: "ha_series a' = ha_series a1 @ ser"
    "series_fit (head_labels h1) ser" "series_Labels ` set ser \<subseteq> fst ` set rs" "\<forall>k. head_view h' k = fold (ref_series k) ser (head_view h1 k)"
    "unat (lastSeriesID h') \<le> unat (lastSeriesID h1) + length rs" by auto
  from Add_logs [OF Cons.prems(1,2) ok room h1(1)] obtain ser1 where ser1: "ha_series a1 = ha_series a @ ser1"
    "series_fit (head_labels h) ser1" "series_Labels ` set ser1 \<subseteq> {lset}" "\<forall>k. head_view h1 k = fold (ref_series k) ser1 (head_view h k)" by blast
  have "head_labels h1 = learn ser1 (head_labels h)" by (rule labels_learn [OF ser1(4) [rule_format] ser1(2)])
  then show ?case using ser ser1 r h1(4) by (intro exI [of _ "ser1 @ ser"]) (auto simp: series_fit_append)
qed simp

section \<open>Committing\<close>

lemma fold_ref_sample:
  "fold (ref_sample v k) ss (Some (ls, xs)) =
     Some (ls, foldl accept xs (map (\<lambda>s. (T s, V s)) (filter (\<lambda>s. Ref s = k \<and> v \<le> T s) ss)))"
  by (induction ss arbitrary: xs) (simp_all add: ref_sample_def)

lemma samples_at_ref:
  assumes "head_inv sum64 h" "\<forall>(s, p) \<in> set ps. getByID (h_series h) (Ref s) = Some p" "getByID (h_series h) k = Some p"
  shows "samples_at p ps = map (\<lambda>s. (T s, V s)) (filter (\<lambda>s. Ref s = k) (map fst ps))"
proof -
  have "q = p \<longleftrightarrow> Ref s = k" if "(s, q) \<in> set ps" for s q
  proof -
    have "getByID (h_series h) (Ref s) = Some q" using that assms(2) by auto
    with assms(3) head_inv_id(2) [OF assms(1) this] head_inv_id(2) [OF assms(1,3)] show ?thesis by (metis option.inject)
  qed
  then have "filter (\<lambda>(_, q). q = p) ps = filter (\<lambda>x. Ref (fst x) = k) ps"
    by (intro filter_cong [OF refl]) (simp only: split_paired_all prod.case fst_conv)
  then show ?thesis by (simp add: samples_at_def filter_map comp_def split_def)
qed

text \<open>A commit puts the logged samples into the head as replaying them would.\<close>

lemma Commit_view:
  assumes inv: "head_inv sum64 h" and tx: "tx_ok h a" and ids: "\<forall>(s, p) \<in> set (ha_samples a). getByID (h_series h) (Ref s) = Some p"
    and room: "\<And>k. num_samples h k + samples_for k (map fst (ha_samples a)) \<le> 65535"
  obtains c h' where "headAppender_Commit (h, a) = Ok (c, h')" "head_inv sum64 h'" "h_wal h' = h_wal (headAppender_log a h)"
    "h_chunkRange h' = h_chunkRange h" "lastSeriesID h' = lastSeriesID h"
    "\<forall>k. head_view h' k = fold (ref_sample MinInt64 k) (map fst (ha_samples a)) (head_view h k)"
proof -
  let ?ps = "ha_samples a" and ?w = "h_chunkRange h"
  define xs where "xs p = (case read_series (h_heap h ! p) of Ok ys \<Rightarrow> ys | _ \<Rightarrow> [])" for p
  have hold: "\<forall>p < length (h_heap h). holds_samples ?w (h_heap h ! p) (xs p)"
    using inv store_ok_nth [of ?w "h_heap h"] holds_samples_read [of ?w] by (fastforce simp: head_inv_def xs_def)
  have view: "head_view h k = Some (ms_lset (h_heap h ! p), xs p)" if "getByID (h_series h) k = Some p" for k p
    using that by (simp add: head_view_def xs_def)
  have "length (xs p) + length (samples_at p ?ps) \<le> 65535" if "(s, p) \<in> set ?ps" for s p
  proof -
    have p: "getByID (h_series h) (Ref s) = Some p" using that ids by auto
    then show ?thesis using room [of "Ref s"] samples_at_ref [OF inv ids p] view [OF p] by (simp add: num_samples_def samples_for_def)
  qed
  then have "\<forall>(s, p) \<in> set ?ps. length (xs p) + length (samples_at p ?ps) \<le> 65535" by blast
  from commit_samples_ok [OF _ hold this, of "length ?ps"] tx obtain st c where
    st: "commit_samples ?ps (h_heap h) (length ?ps) = Ok (st, c)" "length st = length (h_heap h)"
      "\<forall>p < length (h_heap h). holds_samples ?w (st ! p) (foldl accept (xs p) (samples_at p ?ps))
         \<and> ms_ref (st ! p) = ms_ref (h_heap h ! p) \<and> ms_lset (st ! p) = ms_lset (h_heap h ! p)"
    by (fastforce simp: tx_ok_def)
  let ?h = "h\<lparr>h_heap := st\<rparr>"
  have "same_ids (h_heap h) st" using st(2,3) by (simp add: same_ids_def)
  then have inv': "head_inv sum64 ?h" using st(2,3) by (intro head_inv_store [OF inv]) (fastforce simp: store_ok_def in_set_conv_nth)+
  have "head_view ?h k = fold (ref_sample MinInt64 k) (map fst ?ps) (head_view h k)" for k
  proof (cases "getByID (h_series h) k")
    case None
    then show ?thesis by (simp add: head_view_def)
  next
    case (Some p)
    have "filter (\<lambda>s. Ref s = k \<and> MinInt64 \<le> T s) (map fst ?ps) = filter (\<lambda>s. Ref s = k) (map fst ?ps)"
      using tx by (intro filter_cong) (auto simp: tx_ok_def time_ok_def)
    then show ?thesis using st(3) head_inv_id(1) [OF inv Some] samples_at_ref [OF inv ids Some] holds_samples_read
      by (simp add: view [OF Some] fold_ref_sample) (fastforce simp: head_view_def Some)
  qed
  moreover have "headAppender_log a h\<lparr>h_heap := st\<rparr> = headAppender_log a ?h"
    by (simp add: headAppender_log_def Let_def split: option.split)
  then have "headAppender_Commit (h, a) = Ok (c, updateMinMaxTime (ha_mint a) (ha_maxt a) (headAppender_log a ?h))"
    using st(1) by (simp add: headAppender_Commit_def Let_def)
  moreover have "head_view (headAppender_log a ?h) = head_view ?h" "lastSeriesID (headAppender_log a ?h) = lastSeriesID ?h"
    "h_wal (headAppender_log a ?h) = h_wal (headAppender_log a h)"
    by (simp_all add: headAppender_log_def Let_def split: option.split)
  ultimately show ?thesis using inv' that
    by (auto simp: updateMinMaxTime_def Let_def)
qed

section \<open>The log of a transaction\<close>

definition tx_records :: "headAppender \<Rightarrow> u8 list list" where
  "tx_records a = (if ha_series a = [] then [] else [Encoder_Series (ha_series a) []])
     @ (if ha_samples a = [] then [] else [Encoder_Samples (map fst (ha_samples a)) []])"

definition tx_entries :: "headAppender \<Rightarrow> entry list" where
  "tx_entries a = (if ha_series a = [] then [] else [SeriesEntry (ha_series a)])
     @ (if ha_samples a = [] then [] else [SamplesEntry (map fst (ha_samples a))])"

lemma tx_entries_simps [simp]:
  "log_series (tx_entries a) = ha_series a" "log_samples (tx_entries a) = map fst (ha_samples a)"
  by (simp_all add: tx_entries_def)

lemma tx_records_decode:
  assumes "\<forall>r \<in> set (ha_series a). series_ok r" "\<forall>x \<in> set (ha_samples a). in_i64 (T (fst x))"
  shows "map decode_record (tx_records a) = map Ok (tx_entries a)"
  using assms by (simp add: tx_records_def tx_entries_def records_decode)

lemma log_writes:
  assumes "h_wal h = Some w" "holds w recs" "settled w" "segment w \<le> int (length recs)"
  shows "\<exists>w'. h_wal (headAppender_log a h) = Some w' \<and> holds w' (recs @ tx_records a) \<and> settled w'
    \<and> segment w' \<le> int (length (recs @ tx_records a))"
proof -
  have one: "holds (if b then Log [rec] w1 else w1) (rs @ (if b then [rec] else [])) \<and> settled (if b then Log [rec] w1 else w1)
      \<and> segment (if b then Log [rec] w1 else w1) \<le> int (length (rs @ (if b then [rec] else [])))"
    if "holds w1 rs" "settled w1" "segment w1 \<le> int (length rs)" for b rec rs w1
  proof (cases b)
    case True
    then show ?thesis using Log_holds [OF that(1), of "[rec]"] that(3) by simp
  qed (use that in simp)
  let ?w = "if ha_series a \<noteq> [] then Log [Encoder_Series (ha_series a) []] w else w"
  let ?w' = "if ha_samples a \<noteq> [] then Log [Encoder_Samples (map fst (ha_samples a)) []] ?w else ?w"
  note w = one [OF assms(2-4), of "ha_series a \<noteq> []" "Encoder_Series (ha_series a) []"]
  note one [OF conjunct1 [OF w] conjunct1 [OF conjunct2 [OF w]] conjunct2 [OF conjunct2 [OF w]],
    of "ha_samples a \<noteq> []" "Encoder_Samples (map fst (ha_samples a)) []"]
  moreover have "h_wal (headAppender_log a h) = Some ?w'" using assms(1) by (simp add: headAppender_log_def Let_def)
  ultimately show ?thesis by (intro exI [of _ ?w']) (auto simp: tx_records_def)
qed

section \<open>Head and log\<close>

text \<open>The log of a head decodes to entries whose replay gives what the head holds.\<close>

definition log_matches :: "(u8 list \<Rightarrow> u64) \<Rightarrow> Head \<Rightarrow> entry list \<Rightarrow> bool" where
  "log_matches sum64 h es \<longleftrightarrow> head_inv sum64 h \<and> log_known Map.empty es \<and> (\<forall>k. head_view h k = replayed MinInt64 k es None)
     \<and> (\<exists>w recs. h_wal h = Some w \<and> holds w recs \<and> settled w \<and> segment w \<le> int (length recs) \<and> map decode_record recs = map Ok es)"

lemma log_matches_labels: "log_matches sum64 h es \<Longrightarrow> head_labels h = learn (log_series es) Map.empty"
  using replayed_labels [of Map.empty es None] by (auto simp: log_matches_def fun_eq_iff head_labels_def)

lemma replayed_tx:
  "replayed v k (tx_entries a) x = fold (ref_sample v k) (map fst (ha_samples a)) (fold (ref_series k) (ha_series a) x)"
  by (simp add: tx_entries_def replayed_def)

text \<open>A head after a transaction, with its records in the log, still matches its log.\<close>

lemma log_matches_tx:
  assumes h: "log_matches sum64 h es" and h': "head_inv sum64 h'" "h_wal h' = h_wal (headAppender_log a h)"
    and view: "\<And>k. head_view h' k = replayed MinInt64 k (tx_entries a) (head_view h k)"
    and ok: "series_fit (head_labels h) (ha_series a)" "\<forall>r \<in> set (ha_series a). series_ok r"
      "\<forall>x \<in> set (ha_samples a). time_ok (T (fst x)) \<and> Ref (fst x) \<in> dom (learn (ha_series a) (head_labels h))"
  shows "log_matches sum64 h' (es @ tx_entries a)"
proof -
  obtain w recs where w: "h_wal h = Some w" "holds w recs" "settled w" "segment w \<le> int (length recs)" "map decode_record recs = map Ok es"
    using h by (auto simp: log_matches_def)
  have "map decode_record (tx_records a) = map Ok (tx_entries a)" using ok by (intro tx_records_decode) auto
  with log_writes [OF w(1-4), of a] w(5) have
    "\<exists>w' recs'. h_wal h' = Some w' \<and> holds w' recs' \<and> settled w' \<and> segment w' \<le> int (length recs') \<and> map decode_record recs' = map Ok (es @ tx_entries a)"
    unfolding h'(2) by (metis map_append)
  moreover have "log_known (learn (log_series es) Map.empty) (tx_entries a)"
    using ok unfolding log_matches_labels [OF h, symmetric] by (auto simp: tx_entries_def)
  ultimately show ?thesis using h h'(1) by (simp add: log_matches_def log_known_append replayed_append view)
qed

section \<open>Transactions of a client\<close>

type_synonym request = "Labels \<times> int \<times> f64"

definition requests_for :: "Labels \<Rightarrow> request list \<Rightarrow> nat" where
  "requests_for ls rs = length (filter (\<lambda>(lset, _). lset = ls) rs)"

text \<open>A request whose labels can be logged.\<close>

definition loggable :: "request \<Rightarrow> bool" where
  "loggable = (\<lambda>(lset, t, v). series_ok \<lparr>series_Ref = 0, series_Labels = lset\<rparr>)"

lemma loggable_series: "list_all loggable rs \<Longrightarrow> series_Labels r \<in> fst ` set rs \<Longrightarrow> series_ok r"
  by (force simp: loggable_def list_all_iff series_ok_def)

text \<open>The samples logged under an id are at most those requested for its labels.\<close>

definition log_bounded :: "Head \<Rightarrow> entry list \<Rightarrow> (Labels \<Rightarrow> nat) \<Rightarrow> bool" where
  "log_bounded h es B \<longleftrightarrow> (\<forall>k ls. head_labels h k = Some ls \<longrightarrow> samples_for k (log_samples es) \<le> B ls)"

lemma log_samples_known:
  "log_known K es \<Longrightarrow> x \<in> set (log_samples es) \<Longrightarrow> Ref x \<in> dom (learn (log_series es) K)"
  by (induction K es rule: log_known.induct) (auto simp: dom_learn)

lemma length_foldl_accept: "length (foldl accept xs ys) \<le> length xs + length ys"
proof (induction ys arbitrary: xs)
  case (Cons y ys)
  from Cons.IH [of "accept xs y"] length_accept [of xs y] show ?case by simp
qed simp

lemma num_samples_logged:
  assumes "log_matches sum64 h es"
  shows "num_samples h k \<le> samples_for k (log_samples es)"
proof -
  have "head_view h k = fold (ref_sample MinInt64 k) (log_samples es) (fold (ref_series k) (log_series es) None)"
    using assms replayed_fits [of Map.empty es k None MinInt64] by (simp add: log_matches_def log_known_fits)
  moreover have "fold (ref_series k) rs None = None \<or> (\<exists>ls. fold (ref_series k) rs None = Some (ls, []))" for rs
  proof (induction rs)
    case (Cons r rs)
    moreover have "ref_series k r None = (if series_Ref r = k then Some (series_Labels r, []) else None)" by (simp add: ref_series_def)
    ultimately show ?case by simp
  qed simp
  then have "fold (ref_series k) (log_series es) None = None \<or> (\<exists>ls. fold (ref_series k) (log_series es) None = Some (ls, []))" .
  ultimately have v: "head_view h k = None \<or> (\<exists>ls. head_view h k = Some (ls, foldl accept []
      (map (\<lambda>s. (T s, V s)) (filter (\<lambda>s. Ref s = k \<and> MinInt64 \<le> T s) (log_samples es)))))"
    by (auto simp: fold_ref_sample)
  have "length (filter (\<lambda>s. Ref s = k \<and> MinInt64 \<le> T s) ss) \<le> length (filter (\<lambda>s. Ref s = k) ss)" for ss
    by (induction ss) auto
  then show ?thesis using v length_foldl_accept [of "[]"] unfolding num_samples_def samples_for_def
    by (fastforce intro: order_trans)
qed

lemma samples_requested:
  assumes inv: "head_inv sum64 h" and ids: "\<forall>(s, p) \<in> set ps. getByID (h_series h) (Ref s) = Some p"
    and adm: "map (\<lambda>(s, _). (T s, V s)) (filter (\<lambda>(_, p). ms_lset (h_heap h ! p) = ls) ps) = admitted sum64 h0 v rs ls"
    and k: "head_labels h k = Some ls"
  shows "samples_for k (map fst ps) \<le> requests_for ls rs"
proof -
  obtain p where p: "getByID (h_series h) k = Some p" "ms_lset (h_heap h ! p) = ls" using k by (auto simp: head_labels_id)
  have "samples_for k (map fst ps) = length (samples_at p ps)" using samples_at_ref [OF inv ids p(1)] by (simp add: samples_for_def)
  also have "\<dots> \<le> length (filter (\<lambda>(_, q). ms_lset (h_heap h ! q) = ls) ps)"
    unfolding samples_at_def using p(2) by (induction ps) auto
  also have "\<dots> = length (admitted sum64 h0 v rs ls)" using arg_cong [OF adm, of length] by simp
  also have "\<dots> \<le> requests_for ls rs" unfolding admitted_def requests_for_def by (induction rs) auto
  finally show ?thesis .
qed

lemma num_samples_series:
  assumes "\<And>k. head_view h' k = fold (ref_series k) ser (head_view h k)"
  shows "num_samples h' k = num_samples h k"
proof -
  have "fold (ref_series k) ser None = None \<or> (\<exists>ls. fold (ref_series k) ser None = Some (ls, []))"
  proof (induction ser)
    case (Cons r rs)
    moreover have "ref_series k r None = (if series_Ref r = k then Some (series_Labels r, []) else None)" by (simp add: ref_series_def)
    ultimately show ?case by simp
  qed simp
  then show ?thesis by (cases "head_view h k") (auto simp: num_samples_def assms)
qed

text \<open>What a batch of \<^verbatim>\<open>Add\<close> calls leaves for the log.\<close>

lemma batch_logs:
  assumes h: "log_matches sum64 h es" "log_bounded h es B" and rs: "list_all request_ok rs" "list_all loggable rs"
    and ids: "unat (lastSeriesID h) + length rs < 2 ^ 64"
  obtains errs h1 a where "Add_all sum64 rs (h, appender h) = (errs, h1, a)" "head_inv sum64 h1" "tx_ok h1 a" "h_wal h1 = h_wal h"
    "h_chunkRange h1 = h_chunkRange h" "unat (lastSeriesID h1) \<le> unat (lastSeriesID h) + length rs"
    "\<forall>(s, p) \<in> set (ha_samples a). getByID (h_series h1) (Ref s) = Some p" "series_fit (head_labels h) (ha_series a)"
    "\<forall>k. head_view h1 k = fold (ref_series k) (ha_series a) (head_view h k)" "\<forall>r \<in> set (ha_series a). series_ok r"
    "\<forall>k ls. head_labels h1 k = Some ls \<longrightarrow> samples_for k (map fst (ha_samples a)) \<le> requests_for ls rs"
proof -
  have inv: "head_inv sum64 h" using h(1) by (simp add: log_matches_def)
  have tx: "tx_ok h (appender h)" by (simp add: tx_ok_def appender_def)
  from Add_all_ok [OF inv tx rs(1) ids] obtain errs h1 a ps where
    h1: "Add_all sum64 rs (h, appender h) = (errs, h1, a)" "head_inv sum64 h1" "tx_ok h1 a" "extends_head h h1"
    and ps: "ha_samples a = ps" "\<forall>(s, p) \<in> set ps. getByID (h_series h1) (Ref s) = Some p"
      "\<And>ls. map (\<lambda>(s, _). (T s, V s)) (filter (\<lambda>(_, p). ms_lset (h_heap h1 ! p) = ls) ps) = admitted sum64 h (ha_minValidTime (appender h)) rs ls"
    by (auto simp: appender_def)
  from Add_all_logs [OF inv tx rs(1) ids h1(1)] obtain ser where ser: "ha_series a = ser" "series_fit (head_labels h) ser"
    "series_Labels ` set ser \<subseteq> fst ` set rs" "\<forall>k. head_view h1 k = fold (ref_series k) ser (head_view h k)"
    "unat (lastSeriesID h1) \<le> unat (lastSeriesID h) + length rs" by (auto simp: appender_def)
  have "\<forall>r \<in> set ser. series_ok r" using ser(3) loggable_series [OF rs(2)] by blast
  moreover have "\<forall>k ls. head_labels h1 k = Some ls \<longrightarrow> samples_for k (map fst ps) \<le> requests_for ls rs"
    using samples_requested [OF h1(2) ps(2) ps(3)] by blast
  ultimately show ?thesis using that [OF h1(1-3)] h1(4) ser ps(1,2) by (simp add: extends_head_def)
qed

lemma log_bounded_tx:
  assumes h: "log_matches sum64 h es" "log_bounded h es B" and h': "head_labels h' = learn (ha_series a) (head_labels h)"
    and new: "\<forall>k ls. head_labels h' k = Some ls \<longrightarrow> samples_for k (log_samples es') \<le> R ls"
    and fit: "series_fit (head_labels h) (ha_series a)"
  shows "log_bounded h' (es @ es') (\<lambda>ls. B ls + R ls)"
  unfolding log_bounded_def
proof (intro allI impI)
  fix k ls assume k: "head_labels h' k = Some ls"
  have old: "samples_for k (log_samples es) \<le> B ls"
  proof (cases "k \<in> dom (head_labels h)")
    case True
    then obtain ls' where ls': "head_labels h k = Some ls'" by blast
    have "learn rs K k = K k" if "series_fit K rs" "K k = Some ls'" for rs K
      using that
    proof (induction rs arbitrary: K)
      case (Cons r rs)
      then have "(K(series_Ref r \<mapsto> series_Labels r)) k = Some ls'" by auto
      with Cons show ?case by (simp del: fun_upd_apply)
    qed simp
    then have "ls' = ls" using k h' ls' fit by fastforce
    then show ?thesis using h(2) ls' by (simp add: log_bounded_def)
  next
    case False
    then have "\<forall>x \<in> set (log_samples es). Ref x \<noteq> k"
      using h(1) log_samples_known [of Map.empty es] unfolding log_matches_labels [OF h(1)] by (auto simp: log_matches_def)
    then have "samples_for k (log_samples es) = 0" by (simp add: samples_for_def filter_empty_conv)
    then show ?thesis by simp
  qed
  then show "samples_for k (log_samples (es @ es')) \<le> B ls + R ls"
    using new k by (simp add: samples_for_def add_mono)
qed

lemma commit_matches:
  assumes h: "log_matches sum64 h es" "log_bounded h es B" and rs: "list_all request_ok rs" "list_all loggable rs"
    and ids: "unat (lastSeriesID h) + length rs < 2 ^ 64" and room: "\<And>ls. B ls + requests_for ls rs \<le> 65535"
  shows "\<exists>errs h1 a c h2 es'. Add_all sum64 rs (h, appender h) = (errs, h1, a) \<and> headAppender_Commit (h1, a) = Ok (c, h2)
    \<and> log_matches sum64 h2 (es @ es') \<and> log_bounded h2 (es @ es') (\<lambda>ls. B ls + requests_for ls rs)
    \<and> unat (lastSeriesID h2) \<le> unat (lastSeriesID h) + length rs"
proof -
  obtain errs h1 a where h1: "Add_all sum64 rs (h, appender h) = (errs, h1, a)" "head_inv sum64 h1" "tx_ok h1 a" "h_wal h1 = h_wal h"
    "h_chunkRange h1 = h_chunkRange h" "unat (lastSeriesID h1) \<le> unat (lastSeriesID h) + length rs"
    "\<forall>(s, p) \<in> set (ha_samples a). getByID (h_series h1) (Ref s) = Some p" "series_fit (head_labels h) (ha_series a)"
    "\<forall>k. head_view h1 k = fold (ref_series k) (ha_series a) (head_view h k)" "\<forall>r \<in> set (ha_series a). series_ok r"
    "\<forall>k ls. head_labels h1 k = Some ls \<longrightarrow> samples_for k (map fst (ha_samples a)) \<le> requests_for ls rs"
    by (rule batch_logs [OF h rs ids])
  have labels: "head_labels h1 = learn (ha_series a) (head_labels h)" by (rule labels_learn [OF h1(9) [rule_format] h1(8)])
  have known: "\<forall>x \<in> set (ha_samples a). time_ok (T (fst x)) \<and> Ref (fst x) \<in> dom (head_labels h1)"
    using h1(3,7) by (fastforce simp: tx_ok_def head_labels_def head_view_def)
  have bounded: "log_bounded h1 (es @ tx_entries a) (\<lambda>ls. B ls + requests_for ls rs)"
    using h1(11) by (intro log_bounded_tx [OF h labels _ h1(8)]) simp
  have "num_samples h1 k + samples_for k (map fst (ha_samples a)) \<le> 65535" for k
  proof (cases "head_labels h1 k")
    case None
    then have "\<forall>x \<in> set (map fst (ha_samples a)). Ref x \<noteq> k" using known by auto
    then have "samples_for k (map fst (ha_samples a)) = 0" by (simp add: samples_for_def filter_empty_conv)
    moreover have "num_samples h1 k = 0" using None by (simp add: num_samples_def head_labels_view)
    ultimately show ?thesis by simp
  next
    case (Some ls)
    have "num_samples h1 k \<le> samples_for k (log_samples es)"
      using num_samples_logged [OF h(1)] num_samples_series [OF h1(9) [rule_format]] by simp
    moreover have "samples_for k (log_samples es) + samples_for k (map fst (ha_samples a)) \<le> B ls + requests_for ls rs"
      using bounded Some by (simp add: log_bounded_def samples_for_def)
    ultimately show ?thesis using room [of ls] by simp
  qed
  then obtain c h2 where h2: "headAppender_Commit (h1, a) = Ok (c, h2)" "head_inv sum64 h2" "h_wal h2 = h_wal (headAppender_log a h1)"
    "h_chunkRange h2 = h_chunkRange h1" "lastSeriesID h2 = lastSeriesID h1"
    "\<forall>k. head_view h2 k = fold (ref_sample MinInt64 k) (map fst (ha_samples a)) (head_view h1 k)"
    by (rule Commit_view [OF h1(2,3,7)])
  have "h_wal h2 = h_wal (headAppender_log a h)" using h2(3) h1(4) by (simp add: headAppender_log_def Let_def split: option.split)
  moreover have "head_view h2 k = replayed MinInt64 k (tx_entries a) (head_view h k)" for k using h2(6) h1(9) by (simp add: replayed_tx)
  ultimately have "log_matches sum64 h2 (es @ tx_entries a)"
    using known h1(8,10) labels by (intro log_matches_tx [OF h(1) h2(2)]) simp_all
  moreover have "head_labels h2 = head_labels h1" using h2(6) by (simp add: fun_eq_iff head_labels_def sample_labels)
  then have "log_bounded h2 (es @ tx_entries a) (\<lambda>ls. B ls + requests_for ls rs)" using bounded by (simp add: log_bounded_def)
  ultimately show ?thesis using h1(1,6) h2(1,5) by auto
qed

lemma rollback_matches:
  assumes h: "log_matches sum64 h es" "log_bounded h es B" and rs: "list_all request_ok rs" "list_all loggable rs"
    and ids: "unat (lastSeriesID h) + length rs < 2 ^ 64"
  shows "\<exists>errs h1 a es'. Add_all sum64 rs (h, appender h) = (errs, h1, a)
    \<and> log_matches sum64 (headAppender_Rollback (h1, a)) (es @ es') \<and> log_bounded (headAppender_Rollback (h1, a)) (es @ es') (\<lambda>ls. B ls + requests_for ls rs)
    \<and> unat (lastSeriesID (headAppender_Rollback (h1, a))) \<le> unat (lastSeriesID h) + length rs"
proof -
  obtain errs h1 a where h1: "Add_all sum64 rs (h, appender h) = (errs, h1, a)" "head_inv sum64 h1" "tx_ok h1 a" "h_wal h1 = h_wal h"
    "h_chunkRange h1 = h_chunkRange h" "unat (lastSeriesID h1) \<le> unat (lastSeriesID h) + length rs"
    "\<forall>(s, p) \<in> set (ha_samples a). getByID (h_series h1) (Ref s) = Some p" "series_fit (head_labels h) (ha_series a)"
    "\<forall>k. head_view h1 k = fold (ref_series k) (ha_series a) (head_view h k)" "\<forall>r \<in> set (ha_series a). series_ok r"
    by (rule batch_logs [OF h rs ids])
  let ?a = "a\<lparr>ha_samples := []\<rparr>" and ?h = "headAppender_Rollback (h1, a)"
  note c = clear_pending_extends [OF h1(2), of "ha_samples a"]
  have inv: "head_inv sum64 ?h" and wal: "h_wal ?h = h_wal (headAppender_log ?a h)" and last: "lastSeriesID ?h = lastSeriesID h1"
    using Rollback_ok [OF h1(2)] h1(4) by (simp_all add: Rollback_eq headAppender_log_def Let_def split: option.split)
  have "head_view ?h = head_view (h1\<lparr>h_heap := clear_pending (ha_samples a) (h_heap h1)\<rparr>)"
    by (simp add: Rollback_eq headAppender_log_def Let_def split: option.split)
  then have view: "head_view ?h k = head_view h1 k" for k using view_extends [OF h1(2) c(2)] by simp
  then have "log_matches sum64 ?h (es @ tx_entries ?a)"
    using h1(8-10) by (intro log_matches_tx [OF h(1) inv wal]) (simp_all add: replayed_tx)
  moreover have "head_labels ?h = learn (ha_series ?a) (head_labels h)"
    using labels_learn [OF h1(9) [rule_format] h1(8)] view by (simp add: fun_eq_iff head_labels_def)
  then have "log_bounded ?h (es @ tx_entries ?a) (\<lambda>ls. B ls + requests_for ls rs)"
    by (intro log_bounded_tx [OF h, of _ ?a]) (use h1(8) in \<open>simp_all add: samples_for_def\<close>)
  ultimately show ?thesis using h1(1,6) last by auto
qed

section \<open>The life of a head\<close>

text \<open>
  A client opens an appender, adds samples, and commits or rolls back. The appender of a head
  without samples takes its time bounds from the first one.
\<close>

datatype head_op = CommitOp "request list" | RollbackOp "request list"

fun op_requests :: "head_op \<Rightarrow> request list" where
  "op_requests (CommitOp rs) = rs"
| "op_requests (RollbackOp rs) = rs"

fun App_all :: "(u8 list \<Rightarrow> u64) \<Rightarrow> request list \<Rightarrow> Head \<times> Appender_impl \<Rightarrow> Head \<times> Appender_impl" where
  "App_all sum64 [] s = s"
| "App_all sum64 ((lset, t, v) # rs) s = App_all sum64 rs (snd (Appender_Add sum64 lset t v s))"

fun head_step :: "(u8 list \<Rightarrow> u64) \<Rightarrow> head_op \<Rightarrow> Head \<Rightarrow> Head outcome" where
  "head_step sum64 (CommitOp rs) h = bind_outcome (Appender_Commit (App_all sum64 rs (h, Head_Appender h))) (\<lambda>(c, h). Ok h)"
| "head_step sum64 (RollbackOp rs) h = Ok (Appender_Rollback (App_all sum64 rs (h, Head_Appender h)))"

fun head_life :: "(u8 list \<Rightarrow> u64) \<Rightarrow> head_op list \<Rightarrow> Head \<Rightarrow> Head outcome" where
  "head_life sum64 [] h = Ok h"
| "head_life sum64 (op # ops) h = bind_outcome (head_step sum64 op h) (head_life sum64 ops)"

lemma App_all_head: "App_all sum64 rs (h, HeadAppender a) = (case Add_all sum64 rs (h, a) of (errs, h, a) \<Rightarrow> (h, HeadAppender a))"
  by (induction rs arbitrary: h a) (auto split: prod.splits)

lemma App_all_init: "App_all sum64 rs (h, InitAppender (Some a)) = (case Add_all sum64 rs (h, a) of (errs, h, a) \<Rightarrow> (h, InitAppender (Some a)))"
  by (induction rs arbitrary: h a) (auto split: prod.splits)

lemma App_all_first:
  "App_all sum64 ((lset, t, v) # rs) (h, InitAppender None) =
     (case Add_all sum64 ((lset, t, v) # rs) (snd (initTime t h), appender (snd (initTime t h))) of (errs, h, a) \<Rightarrow> (h, InitAppender (Some a)))"
  by (simp add: App_all_init Let_def split: prod.splits)

text \<open>The bounds of a fresh head play no part in what it holds and logs.\<close>

lemma initTime_fields:
  "head_inv sum64 (snd (initTime t h)) = head_inv sum64 h" "head_view (snd (initTime t h)) = head_view h"
  "h_wal (snd (initTime t h)) = h_wal h" "lastSeriesID (snd (initTime t h)) = lastSeriesID h"
  by (simp_all add: initTime_def Let_def)

lemma log_matches_initTime: "log_matches sum64 (snd (initTime t h)) es = log_matches sum64 h es" "log_bounded (snd (initTime t h)) es B = log_bounded h es B"
  by (simp_all add: log_matches_def log_bounded_def head_labels_def initTime_fields)

lemma appender_runs:
  obtains h0 where "\<forall>es. log_matches sum64 h0 es = log_matches sum64 h es" "\<forall>es B. log_bounded h0 es B = log_bounded h es B" "lastSeriesID h0 = lastSeriesID h"
    "\<forall>errs h1 a. Add_all sum64 rs (h0, appender h0) = (errs, h1, a) \<longrightarrow> rs = [] \<and> App_all sum64 rs (h, Head_Appender h) = (h, InitAppender None)
       \<or> App_all sum64 rs (h, Head_Appender h) = (h1, HeadAppender a) \<or> App_all sum64 rs (h, Head_Appender h) = (h1, InitAppender (Some a))"
proof (cases "h_minTime h = MaxInt64 \<and> rs \<noteq> []")
  case True
  then obtain lset t v rs' where rs: "rs = (lset, t, v) # rs'" by (cases rs) auto
  show ?thesis by (rule that [of "snd (initTime t h)"])
      (use True in \<open>auto simp: log_matches_initTime initTime_fields Head_Appender_def rs App_all_first simp del: App_all.simps(2) Add_all.simps(2)\<close>)
next
  case False
  then show ?thesis by (intro that [of h]) (auto simp: Head_Appender_def App_all_head)
qed

lemma head_step_matches:
  assumes h: "log_matches sum64 h es" "log_bounded h es B" and rs: "list_all request_ok (op_requests op)" "list_all loggable (op_requests op)"
    and ids: "unat (lastSeriesID h) + length (op_requests op) < 2 ^ 64" and room: "\<And>ls. B ls + requests_for ls (op_requests op) \<le> 65535"
  shows "\<exists>h' es'. head_step sum64 op h = Ok h' \<and> log_matches sum64 h' es' \<and> log_bounded h' es' (\<lambda>ls. B ls + requests_for ls (op_requests op))
    \<and> unat (lastSeriesID h') \<le> unat (lastSeriesID h) + length (op_requests op)"
proof -
  obtain h0 where h0: "\<forall>es. log_matches sum64 h0 es = log_matches sum64 h es" "\<forall>es B. log_bounded h0 es B = log_bounded h es B" "lastSeriesID h0 = lastSeriesID h"
    and all': "\<forall>errs h1 a. Add_all sum64 (op_requests op) (h0, appender h0) = (errs, h1, a) \<longrightarrow>
       op_requests op = [] \<and> App_all sum64 (op_requests op) (h, Head_Appender h) = (h, InitAppender None)
       \<or> App_all sum64 (op_requests op) (h, Head_Appender h) = (h1, HeadAppender a) \<or> App_all sum64 (op_requests op) (h, Head_Appender h) = (h1, InitAppender (Some a))"
    by (rule appender_runs [of sum64 h "op_requests op"])
  note all = all' [rule_format]
  have h': "log_matches sum64 h0 es" "log_bounded h0 es B" "unat (lastSeriesID h0) + length (op_requests op) < 2 ^ 64"
    using h ids h0 by simp_all
  show ?thesis
  proof (cases op)
    case (CommitOp rs')
    from commit_matches [OF h'(1,2) rs h'(3) room] obtain errs h1 a c h2 es' where
      c: "Add_all sum64 (op_requests op) (h0, appender h0) = (errs, h1, a)" "headAppender_Commit (h1, a) = Ok (c, h2)"
        "log_matches sum64 h2 (es @ es')" "log_bounded h2 (es @ es') (\<lambda>ls. B ls + requests_for ls (op_requests op))"
        "unat (lastSeriesID h2) \<le> unat (lastSeriesID h) + length (op_requests op)" unfolding h0(3) by blast
    from all [OF c(1)] show ?thesis
    proof (elim disjE conjE)
      assume "op_requests op = []" "App_all sum64 (op_requests op) (h, Head_Appender h) = (h, InitAppender None)"
      then show ?thesis using h CommitOp by (intro exI [of _ h] exI [of _ es]) (simp add: requests_for_def)
    qed (use c CommitOp in auto)
  next
    case (RollbackOp rs')
    from rollback_matches [OF h'(1,2) rs h'(3)] obtain errs h1 a es' where
      c: "Add_all sum64 (op_requests op) (h0, appender h0) = (errs, h1, a)"
        "log_matches sum64 (headAppender_Rollback (h1, a)) (es @ es')" "log_bounded (headAppender_Rollback (h1, a)) (es @ es') (\<lambda>ls. B ls + requests_for ls (op_requests op))"
        "unat (lastSeriesID (headAppender_Rollback (h1, a))) \<le> unat (lastSeriesID h) + length (op_requests op)" unfolding h0(3) by blast
    from all [OF c(1)] show ?thesis
    proof (elim disjE conjE)
      assume "op_requests op = []" "App_all sum64 (op_requests op) (h, Head_Appender h) = (h, InitAppender None)"
      then show ?thesis using h RollbackOp by (intro exI [of _ h] exI [of _ es]) (simp add: requests_for_def)
    qed (use c RollbackOp in auto)
  qed
qed

definition life_requests :: "head_op list \<Rightarrow> request list" where
  "life_requests ops = concat (map op_requests ops)"

lemma head_life_matches:
  assumes "log_matches sum64 h es" "log_bounded h es B" "list_all request_ok (life_requests ops)" "list_all loggable (life_requests ops)"
    "unat (lastSeriesID h) + length (life_requests ops) < 2 ^ 64" "\<And>ls. B ls + requests_for ls (life_requests ops) \<le> 65535"
  shows "\<exists>h' es'. head_life sum64 ops h = Ok h' \<and> log_matches sum64 h' es' \<and> log_bounded h' es' (\<lambda>ls. B ls + requests_for ls (life_requests ops))"
  using assms
proof (induction ops arbitrary: h es B)
  case Nil
  then show ?case by (auto simp: life_requests_def requests_for_def)
next
  case (Cons op ops)
  have split: "life_requests (op # ops) = op_requests op @ life_requests ops" by (simp add: life_requests_def)
  have count: "requests_for ls (life_requests (op # ops)) = requests_for ls (op_requests op) + requests_for ls (life_requests ops)" for ls
    by (simp add: split requests_for_def)
  have "B ls + requests_for ls (op_requests op) \<le> 65535" for ls using Cons.prems(6) [of ls] by (simp add: count)
  with Cons.prems head_step_matches [OF Cons.prems(1,2), of op] obtain h1 es1 where
    h1: "head_step sum64 op h = Ok h1" "log_matches sum64 h1 es1" "log_bounded h1 es1 (\<lambda>ls. B ls + requests_for ls (op_requests op))"
      "unat (lastSeriesID h1) \<le> unat (lastSeriesID h) + length (op_requests op)"
    by (auto simp: split)
  have "\<exists>h' es'. head_life sum64 ops h1 = Ok h' \<and> log_matches sum64 h' es'
      \<and> log_bounded h' es' (\<lambda>ls. B ls + requests_for ls (op_requests op) + requests_for ls (life_requests ops))"
    by (rule Cons.IH [OF h1(2,3)]) (use Cons.prems(3-6) h1(4) count in \<open>simp_all add: split add.assoc\<close>)
  then show ?case using h1(1) by (simp add: count add.assoc)
qed

section \<open>Reading the log back\<close>

lemma range_loop_from:
  assumes "distinct (map fst d)" "\<forall>k \<in> fst ` set ds. f \<le> k" "set ds \<subseteq> set d"
  shows "range_loop f (- 1) (map fst ds) d ss = ss @ ds"
  using assms(2,3)
proof (induction ds arbitrary: ss)
  case (Cons x ds)
  have "map_of d (fst x) = Some (snd x)" using assms(1) Cons.prems(2) by (simp add: map_of_is_SomeI)
  then show ?case using Cons by auto
qed simp

lemma read_log:
  assumes "holds w recs" "settled w" "\<forall>k \<in> fst ` set (wdir w). f \<le> k"
  shows "\<exists>sr. NewSegmentsRangeReader (wdir w) f (- 1) = Ok sr \<and> read_segments sr = Some (recs, None)"
proof -
  have d: "dir_holds (wdir w) recs" by (rule holds_dir [OF assms(1,2)])
  then have num: "numbered (wdir w) (fst (last (wdir w)))" by (simp add: dir_holds_def)
  have "range_loop f (- 1) (map fst (wdir w)) (wdir w) [] = wdir w"
    using range_loop_from [OF numbered_facts(2) [OF num] assms(3), of "[]"] by simp
  then have "NewSegmentsRangeReader (wdir w) f (- 1) = Ok (newSegmentBufReader (wdir w))"
    using listSegments_numbered [OF num] by (simp add: NewSegmentsRangeReader_def)
  moreover obtain r' where "read_all segments_ReadFull (\<lambda>rec recs. recs @ [rec]) [] (NewReader (newSegmentBufReader (wdir w))) = Some (recs, r')"
    "rerr r' = None"
    using segments_source.read_all_stream [OF dir_stream [OF d] at_new_reader, of "\<lambda>rec recs. recs @ [rec]" "[]"]
    by (auto simp: fold_snoc NewReader_def)
  ultimately show ?thesis by (simp add: read_segments_def Reader_Err_segments_def)
qed

lemma segments_not_negative:
  assumes "holds w recs"
  shows "\<forall>k \<in> fst ` set (wdir w). 0 \<le> k"
proof -
  obtain f k where f: "0 \<le> f" "map fst (wdir w) = [f..k]" using assms by (auto simp: holds_def numbered_def)
  have "fst ` set (wdir w) = {f..k}" using arg_cong [OF f(2), of set] by simp
  then show ?thesis using f(1) by simp
qed

lemma log_matches_new:
  assumes "NewSize [] sz = Ok w" "sz mod pageSize = 0" "NewHead (Some w) r = Ok h" "width_ok r"
  shows "log_matches sum64 h []" "log_bounded h [] B" "lastSeriesID h = 0"
proof -
  have w: "holds w []" "settled w" "segment w = 0" using NewSize_fresh [OF assms(2)] assms(1) by auto
  have h: "h_wal h = Some w" "lastSeriesID h = 0" "getByID (h_series h) k = None" for k
    using assms(3) by (auto simp: NewHead_def getByID_def newStripeSeries_def split: if_splits)
  then show "log_matches sum64 h []" using head_inv_new(1) [OF assms(3,4), of sum64] w
    by (auto simp: log_matches_def head_view_def replayed_def)
  show "log_bounded h [] B" by (simp add: log_bounded_def samples_for_def)
  show "lastSeriesID h = 0" by (rule h)
qed

text \<open>Opening a new head on a log restores what the log's entries give.\<close>

lemma Init_log:
  assumes w: "holds w recs" "settled w" "map decode_record recs = map Ok es" and es: "log_fits Map.empty (effective Map.empty es)" "\<And>k. samples_for k (log_samples es) \<le> 65535"
    and h: "NewHead (Some w) r = Ok h" "width_ok r" and n: "0 < n" "n < 2 ^ 63" and cp: "LastCheckpoint files = Fail ErrNotFound"
  shows "\<exists>res h'. Init sum64 n files h res h'"
    "Init sum64 n files h res h' \<Longrightarrow> res = Ok () \<and> head_inv sum64 h' \<and> times_ok h' \<and> ordered (h_postings h')
       \<and> (\<forall>k. head_view h' k = replayed MinInt64 k (effective Map.empty es) None) \<and> h_tombstones h' = fold (stones_entry MinInt64) es NewMemTombstones"
proof -
  note new = new_head_facts [OF h(1)] and inv = head_inv_new(1) [OF h, of sum64]
  have l: "loadable h es" using es by (simp add: loadable_def new)
  obtain sr where sr: "NewSegmentsRangeReader (wdir w) 0 (- 1) = Ok sr" "read_segments sr = Some (recs, None)"
    using read_log [OF w(1,2) segments_not_negative [OF w(1)]] by blast
  note result = loadWAL_result [OF inv new(6) n w(3) l _ refl]
  obtain lr h1 where h1: "loadWAL sum64 n recs None h lr h1" using loadWAL_returns by blast
  from result [OF h1] have "lr = Loaded" by blast
  with h1 have "Init_segments sum64 n 0 h (Ok ()) h1" using Init_segments.loaded [OF new(1) sr] by blast
  then show "\<exists>res h'. Init sum64 n files h res h'" using Init.no_checkpoint [OF _ cp] new(1) by blast
  assume init: "Init sum64 n files h res h'"
  then obtain h1 where seg: "Init_segments sum64 n 0 h res h1" "h' = ensure_order h1"
    by (rule InitE) (use cp new(1) in auto)
  from seg(1) have h1: "loadWAL sum64 n recs None h Loaded h1 \<and> res = Ok ()"
    by (rule Init_segmentsE) (use new(1) sr result in auto)
  then have r1: "head_inv sum64 h1 \<and> times_ok h1 \<and> (\<forall>k. head_view h1 k = replayed MinInt64 k (effective Map.empty es) None)
    \<and> h_tombstones h1 = fold (stones_entry MinInt64) es NewMemTombstones"
    using result [of Loaded h1] by (simp add: new)
  have fields: "head_view (ensure_order h1) = head_view h1" "h_minTime (ensure_order h1) = h_minTime h1" "h_maxTime (ensure_order h1) = h_maxTime h1"
    "h_tombstones (ensure_order h1) = h_tombstones h1" by (simp_all add: ensure_order_def head_view_def fun_eq_iff)
  show "res = Ok () \<and> head_inv sum64 h' \<and> times_ok h' \<and> ordered (h_postings h')
       \<and> (\<forall>k. head_view h' k = replayed MinInt64 k (effective Map.empty es) None) \<and> h_tombstones h' = fold (stones_entry MinInt64) es NewMemTombstones"
    using h1 r1 head_inv_EnsureOrder [of sum64 h1] fields unfolding seg(2) by (simp add: times_ok_def flip: ensure_order_def)
qed



section \<open>What is lost\<close>

text \<open>The time bounds of the head are set by a worker when it ends, so not before the first channel is closed.\<close>

lemma closed_first:
  assumes "ring_inv n s"
  shows "i \<le> n \<Longrightarrow> ch_closed (rp_chans s ! i) \<Longrightarrow> ch_closed (rp_chans s ! 0)"
proof (induction i)
  case (Suc i)
  then have "w_pc (rp_workers s ! i) = WDone" using assms by (auto simp: ring_inv_def)
  with Suc assms show ?case by (auto simp: ring_inv_def)
qed simp

lemma worker_sample_times:
  assumes "worker_sample v n i x w h = Ok (w', h')"
  shows "h_minTime h' = h_minTime h" "h_maxTime h' = h_maxTime h"
  using assms by (auto simp: worker_sample_def Let_def split: if_splits option.splits)

lemma load_series_times: "h_minTime (load_series sum64 r h) = h_minTime h" "h_maxTime (load_series sum64 r h) = h_maxTime h"
  by (simp_all add: load_series_def getOrCreateWithID_def Let_def split: prod.split)

lemma damaged_run_times:
  assumes "(load_step sum64 v n (Some e))\<^sup>*\<^sup>* (load_start n recs h) s"
  shows "h_minTime (rp_head s) = h_minTime h \<and> h_maxTime (rp_head s) = h_maxTime h \<and> rp_pc s \<noteq> MDone Loaded \<and> rp_pc s \<noteq> MDrain"
  using assms
proof (induction rule: rtranclp_induct)
  case base
  then show ?case by (simp add: load_start_def)
next
  case (step s s')
  from step.hyps(2) show ?case
  proof cases
    case main
    then show ?thesis by (cases rule: main_step_cases) (use step.IH in \<open>simp_all add: load_series_times\<close>)
  next
    case (worker i)
    have ring: "ring_inv n s" using run_room [OF step.hyps(1) worker(2)] by simp
    then have shut: "\<not> ch_closed (rp_chans s ! i)" using closed_first [OF ring, of i] worker(1) step.IH by (auto simp: ring_inv_def)
    from worker(3) show ?thesis
      by (cases rule: worker_step_cases) (use step.IH shut worker_sample_times in auto)
  qed
qed

text \<open>
  C34. A damaged log leaves the head without time bounds. If the reader of the log ends in an error, whatever
  samples have been loaded before it, the minimum and maximum time of the head are what they were before: the
  workers only report them when their channel is closed, which the early return of \<^verbatim>\<open>loadWAL\<close> skips. After
  \<^verbatim>\<open>Init\<close> has repaired the log and returned without an error, a head without blocks still counts as empty.
\<close>

theorem damaged_log_time_bounds:
  assumes "loadWAL sum64 n recs (Some e) h r h'"
  shows "r \<noteq> Loaded \<and> h_minTime h' = h_minTime h \<and> h_maxTime h' = h_maxTime h"
  using assms damaged_run_times [of sum64 "load_minValidTime h" n e recs h] by (auto simp: loadWAL_def)

theorem damaged_log_time_bounds_witness:
  "\<exists>h r h'. NewHead None 100 = Ok h \<and> loadWAL (\<lambda>_. 0) 2 [Encoder_Series [\<lparr>series_Ref = 1, series_Labels = [\<lparr>Name = [97], Value = [98]\<rparr>]\<rparr>] [],
      Encoder_Samples [\<lparr>Ref = 1, T = 250, V = 7\<rparr>] []] (Some \<lparr>ce_Segment = 0, ce_Offset = 100, ce_Err = ErrUnexpectedEOF\<rparr>) h r h'
    \<and> h_minTime h' = MaxInt64 \<and> h_maxTime h' = MinInt64"
proof -
  let ?recs = "[Encoder_Series [\<lparr>series_Ref = 1, series_Labels = [\<lparr>Name = [97], Value = [98]\<rparr>]\<rparr>] [], Encoder_Samples [\<lparr>Ref = 1, T = 250, V = 7\<rparr>] []]"
  obtain h where h: "NewHead None 100 = Ok h" "h_minTime h = MaxInt64" "h_maxTime h = MinInt64" by (simp add: NewHead_def)
  obtain r h' where l: "loadWAL (\<lambda>_. 0) 2 ?recs (Some \<lparr>ce_Segment = 0, ce_Offset = 100, ce_Err = ErrUnexpectedEOF\<rparr>) h r h'"
    using loadWAL_returns by blast
  from damaged_log_time_bounds [OF l] h l show ?thesis by (intro exI [of _ h] exI [of _ r] exI [of _ h']) simp
qed

text \<open>
  C33. Samples of a series that was created again are lost. When the log holds a series under one id and again, after it
  was dropped from memory, under a new one, as long as the first record has not been
  removed by a checkpoint, loading the log registers the labels under the first id only: all samples logged under the
  second id are discarded, and the call reports success.
\<close>

theorem recreated_series_lost:
  assumes "NewHead w c = Ok h" "width_ok c" "0 < n" "n < 2 ^ 63" "k \<noteq> k'" "0 < k" "valid_lset ls"
    and "map decode_record recs = map Ok [SeriesEntry [\<lparr>series_Ref = k, series_Labels = ls\<rparr>],
          SeriesEntry [\<lparr>series_Ref = k', series_Labels = ls\<rparr>], SamplesEntry ss]"
    and "\<forall>s \<in> set ss. Ref s = k' \<and> time_ok (T s)" "length ss \<le> 65535" "loadWAL sum64 n recs None h r h'"
  shows "r = Loaded \<and> head_inv sum64 h' \<and> samples_of sum64 h' ls = Some (Ok [])"
proof -
  let ?es = "[SeriesEntry [\<lparr>series_Ref = k, series_Labels = ls\<rparr>], SeriesEntry [\<lparr>series_Ref = k', series_Labels = ls\<rparr>], SamplesEntry ss]"
  note new = new_head_facts [OF assms(1)] and inv = head_inv_new(1) [OF assms(1,2), of sum64]
  have eff: "effective (head_labels h) ?es = [SeriesEntry [\<lparr>series_Ref = k, series_Labels = ls\<rparr>], SeriesEntry [], SamplesEntry ss]"
    using assms(5) by (simp add: new ran_def)
  have "samples_for x ss \<le> 65535" for x unfolding samples_for_def using assms(10) by (rule order_trans [OF length_filter_le])
  then have l: "loadable h ?es" using assms(6,7,9) by (auto simp: loadable_def eff new)
  from loadWAL_result [OF inv new(6) assms(3,4,8) l assms(11) refl]
  have h': "r = Loaded" "head_inv sum64 h'" "head_view h' x = replayed MinInt64 x (effective (head_labels h) ?es) None" for x
    by (simp_all add: new)
  have "fold (ref_sample MinInt64 k) ss (Some (ls, [])) = Some (ls, [])"
    using assms(5,9) by (induction ss) (auto simp: ref_sample_def)
  then have "head_view h' k = Some (ls, [])" unfolding h'(3) eff by (simp add: replayed_def ref_series_def)
  then show ?thesis using h'(1,2) samples_of_view [OF h'(2)] by blast
qed

theorem recreated_series_lost_witness:
  "\<exists>h r h'. NewHead None 100 = Ok h \<and> loadWAL (\<lambda>_. 0) 2 [Encoder_Series [\<lparr>series_Ref = 1, series_Labels = [\<lparr>Name = [97], Value = [98]\<rparr>]\<rparr>] [],
      Encoder_Series [\<lparr>series_Ref = 2, series_Labels = [\<lparr>Name = [97], Value = [98]\<rparr>]\<rparr>] [],
      Encoder_Samples [\<lparr>Ref = 2, T = 250, V = 7\<rparr>] []] None h r h'
    \<and> r = Loaded \<and> samples_of (\<lambda>_. 0) h' [\<lparr>Name = [97], Value = [98]\<rparr>] = Some (Ok [])"
proof -
  let ?l = "[\<lparr>Name = [97], Value = [98]\<rparr>]"
  let ?recs = "[Encoder_Series [\<lparr>series_Ref = 1, series_Labels = ?l\<rparr>] [], Encoder_Series [\<lparr>series_Ref = 2, series_Labels = ?l\<rparr>] [],
      Encoder_Samples [\<lparr>Ref = 2, T = 250, V = 7\<rparr>] []]"
  obtain h where h: "NewHead None 100 = Ok h" by (simp add: NewHead_def)
  obtain r h' where l: "loadWAL (\<lambda>_. 0) 2 ?recs None h r h'" using loadWAL_returns by blast
  have ok: "series_ok \<lparr>series_Ref = x, series_Labels = ?l\<rparr>" for x by (simp add: series_ok_def wf_labels_def go_len_def)
  have dec: "map decode_record ?recs = map Ok [SeriesEntry [\<lparr>series_Ref = 1, series_Labels = ?l\<rparr>],
      SeriesEntry [\<lparr>series_Ref = 2, series_Labels = ?l\<rparr>], SamplesEntry [\<lparr>Ref = 2, T = 250, V = 7\<rparr>]]"
    by (simp add: records_decode ok in_i64_def)
  have c: "width_ok 100" "(1 :: u64) \<noteq> 2" "valid_lset ?l" by (simp_all add: width_ok_def valid_lset_def)
  have ss: "\<forall>s \<in> set [\<lparr>Ref = 2, T = 250, V = 7\<rparr>]. Ref s = 2 \<and> time_ok (T s)" by (simp add: time_ok_def)
  from recreated_series_lost [OF h c(1) _ _ c(2) _ c(3) dec ss _ l] h l show ?thesis
    by (intro exI [of _ h] exI [of _ r] exI [of _ h']) simp
qed

end
