(* ===== verification/Head_Truncate.thy ===== *)
theory Head_Truncate
  imports Checkpoint_Write Wal_Repair Head_Recovery Head_Gc
begin

text \<open>
  Truncating the head, \<^verbatim>\<open>Head.Truncate\<close> of \<^verbatim>\<open>head.go\<close>: old data is collected from memory, the first third
  of the log is replaced by a checkpoint, and older checkpoints are deleted. What a restart reads afterwards gives the same
  series as before.
\<close>

section \<open>Truncate\<close>

text \<open>Division of Go's integers truncates towards zero.\<close>

definition go_div :: "int \<Rightarrow> int \<Rightarrow> int" where
  "go_div a b = (if a \<ge> 0 then a div b else - ((- a) div b))"

text \<open>The times, with the loop that raises the maximum time to the new minimum.\<close>

definition truncate_times :: "int \<Rightarrow> Head \<Rightarrow> Head" where
  "truncate_times mint h = (let h = h\<lparr>h_minTime := mint\<rparr> in if h_maxTime h < mint then h\<lparr>h_maxTime := mint\<rparr> else h)"

text \<open>
  The part behind the garbage collection: which segments are replaced, the checkpoint, and the removal of what it
  supersedes. Errors of the removal are only logged.
\<close>

definition truncate_log :: "int \<Rightarrow> fileInfo list \<Rightarrow> Head \<Rightarrow> (unit outcome \<times> fileInfo list \<times> Head) option" where
  "truncate_log mint files h =
     (case h_wal h of
        None \<Rightarrow> Some (Ok (), files, h)
      | Some w \<Rightarrow>
          (case Segments (wdir w) of
             Panic \<Rightarrow> Some (Panic, files, h)
           | Fail e \<Rightarrow> Some (Fail e, files, h)
           | Ok (first, final) \<Rightarrow>
               let final = final - 1 in
               if final < 0 then Some (Ok (), files, h)
               else
                 let final = first + go_div (final - first) 3 in
                 if final \<le> first then Some (Ok (), files, h)
                 else Option.bind (Checkpoint (wdir w) files first final (\<lambda>k. getByID (h_series h) k \<noteq> None) mint) (\<lambda>(res, files).
                   case res of
                     Panic \<Rightarrow> Some (Panic, files, h)
                   | Fail e \<Rightarrow> Some (Fail e, files, h)
                   | Ok _ \<Rightarrow>
                       let w = (case Truncate (final + 1) w of Ok w' \<Rightarrow> w' | _ \<Rightarrow> w) in
                       Some (Ok (), DeleteCheckpoints final files, h\<lparr>h_wal := Some w\<rparr>))))"

definition Head_Truncate :: "(u64 \<Rightarrow> u64 list) \<Rightarrow> Label list \<Rightarrow> int \<Rightarrow> fileInfo list \<Rightarrow> Head \<Rightarrow> (unit outcome \<times> fileInfo list \<times> Head) option" where
  "Head_Truncate order keys mint files h =
     (let initialize = (h_minTime h = MaxInt64) in
      if h_minTime h \<ge> mint \<and> \<not> initialize then Some (Ok (), files, h)
      else
        let h = truncate_times mint h in
        if initialize then Some (Ok (), files, h)
        else truncate_log mint files (Head_gc order keys h))"

section \<open>The log as a restart reads it\<close>

text \<open>What \<^verbatim>\<open>Init\<close> reads: the last checkpoint, if there is one, and the segments behind it.\<close>

definition init_records :: "fileInfo list \<Rightarrow> dir \<Rightarrow> u8 list list \<Rightarrow> bool" where
  "init_records files d recs \<longleftrightarrow>
     (case LastCheckpoint files of
        Panic \<Rightarrow> False
      | Fail e \<Rightarrow> e = ErrNotFound \<and> (\<exists>sr. NewSegmentsRangeReader d 0 (- 1) = Ok sr \<and> read_segments sr = Some (recs, None))
      | Ok (fi, idx) \<Rightarrow> (\<exists>sr0 sr recs0 recs1. NewSegmentsReader (fi_dir fi) = Ok sr0 \<and> read_segments sr0 = Some (recs0, None)
          \<and> NewSegmentsRangeReader d (idx + 1) (- 1) = Ok sr \<and> read_segments sr = Some (recs1, None) \<and> recs = recs0 @ recs1))"

definition restart_log :: "fileInfo list \<Rightarrow> WAL \<Rightarrow> entry list \<Rightarrow> bool" where
  "restart_log files w es \<longleftrightarrow>
     (\<exists>f recs0 recs1. holds w recs1 \<and> settled w \<and> 0 \<le> f \<and> map fst (wdir w) = [f..segment w] \<and> segment w < 10 ^ 6
        \<and> checkpoints_ok f files \<and> prev_checkpoint files f recs0
        \<and> map decode_record (recs0 @ recs1) = map Ok es \<and> list_all entry_ok es \<and> length es < 2 ^ 31)"

lemma read_segments_closed: "closed_log d recs \<Longrightarrow> \<exists>sr. NewSegmentsReader d = Ok sr \<and> read_segments sr = Some (recs, None)"
  using closed_log_read [of d recs] closed_log_reader [of d recs] by (auto simp: wal_read_def read_segments_def)

lemma restart_log_reads:
  assumes "restart_log files w es"
  shows "\<exists>recs. init_records files (wdir w) recs \<and> map decode_record recs = map Ok es"
proof -
  obtain f recs0 recs1 where r: "holds w recs1" "settled w" "0 \<le> f" "map fst (wdir w) = [f..segment w]" "prev_checkpoint files f recs0" "map decode_record (recs0 @ recs1) = map Ok es"
    using assms by (auto simp: restart_log_def)
  have "fst ` set (wdir w) = {f..segment w}" using arg_cong [OF r(4), of set] by simp
  then have seg: "\<exists>sr. NewSegmentsRangeReader (wdir w) g (- 1) = Ok sr \<and> read_segments sr = Some (recs1, None)" if "g \<le> f" for g
    using that by (intro read_log [OF r(1,2)]) simp
  consider "LastCheckpoint files = Fail ErrNotFound" "recs0 = []" | fi where "LastCheckpoint files = Ok (fi, f - 1)" "closed_log (fi_dir fi) recs0"
    using r(5) by (auto simp: prev_checkpoint_def)
  then have "init_records files (wdir w) (recs0 @ recs1)"
  proof cases
    case 1
    then show ?thesis using seg [OF r(3)] by (simp add: init_records_def)
  next
    case 2
    then show ?thesis using read_segments_closed [OF 2(2)] seg [of f] by (auto simp: init_records_def)
  qed
  then show ?thesis using r(6) by blast
qed

section \<open>Removing segments\<close>

text \<open>A log falls into its first segments and the rest, which is a log again.\<close>

lemma holds_split:
  assumes h: "holds w recs" and d: "map fst (wdir w) = [f..segment w]" "0 \<le> f" "f \<le> t" "t < segment w"
  obtains ss ds rss recs2 where "wdir w = ss @ ds" "map fst ss = [f..t]" "map fst ds = [t + 1..segment w]" "closed_segments ss rss"
    "recs = concat rss @ recs2" "holds (w\<lparr>wdir := ds\<rparr>) recs2"
proof -
  define n where "n = nat (t - f + 1)"
  let ?ss = "take n (wdir w)" and ?rest = "drop n (wdir w)"
  obtain rss rs where r: "page_inv w" "room w" "closed_segments (butlast (wdir w)) rss" "Wal_Laws.stream 0 (active w) rs" "recs = concat rss @ rs"
    using h by (auto simp: holds_def)
  have len: "length (wdir w) = nat (segment w - f + 1)" using arg_cong [OF d(1), of length] by simp
  then have n: "n < length (wdir w)" using d(3,4) by (simp add: n_def)
  have up: "[f..segment w] = [f..t] @ [t + 1..segment w]" using d(3,4) by (intro upto_split2) simp_all
  have fst: "map fst ?ss = [f..t]" "map fst ?rest = [t + 1..segment w]"
    unfolding take_map [symmetric] drop_map [symmetric] d(1) up using d(3) by (simp_all add: n_def)
  have last: "last ?rest = last (wdir w)" "?rest \<noteq> []" using n by simp_all
  have tb: "take n (butlast (wdir w)) = ?ss" using n by (simp add: take_butlast)
  have cl: "closed_segments ?ss (take n rss)" "closed_segments (butlast ?rest) (drop n rss)"
    using r(3) list_all2_takeI [of _ "butlast (wdir w)" rss n] by (simp_all add: closed_segments_def butlast_drop list_all2_dropI tb)
  have "active (w\<lparr>wdir := ?rest\<rparr>) = active w" using last by (simp add: active_def)
  moreover have "fst ` set (butlast ?rest) \<subseteq> fst ` set (butlast (wdir w))" by (auto simp: butlast_drop dest: in_set_dropD)
  ultimately have "page_inv (w\<lparr>wdir := ?rest\<rparr>)" "room (w\<lparr>wdir := ?rest\<rparr>)" using r(1,2) last by (auto simp: page_inv_def room_def)
  moreover have "numbered ?rest (segment w)" using fst(2) d(2-4) by (auto simp: numbered_def intro!: exI [of _ "t + 1"])
  ultimately have "holds (w\<lparr>wdir := ?rest\<rparr>) (concat (drop n rss) @ rs)"
    using cl(2) r(4) \<open>active (w\<lparr>wdir := ?rest\<rparr>) = active w\<close> by (auto simp: holds_def)
  moreover have "recs = concat (take n rss) @ concat (drop n rss) @ rs"
    using r(5) by (metis append_take_drop_id append.assoc concat_append)
  ultimately show ?thesis using that [of ?ss ?rest "take n rss"] fst cl(1) by simp
qed

lemma Truncate_split:
  assumes "holds w recs" "wdir w = ss @ ds" "map fst ss = [f..t]" "map fst ds = [t + 1..segment w]"
  shows "Truncate (t + 1) w = Ok (w\<lparr>wdir := ds\<rparr>)"
proof -
  have num: "numbered (wdir w) (segment w)" using assms(1) by (simp add: holds_def)
  then have sorted: "sorted (map fst (wdir w))" by (auto simp: numbered_def)
  have "fst ` set ss = {f..t}" "fst ` set ds = {t + 1..segment w}" using arg_cong [OF assms(3), of set] arg_cong [OF assms(4), of set] by simp_all
  then have s: "\<forall>x \<in> set ss. fst x \<le> t" and r: "\<forall>x \<in> set ds. t < fst x" by force+
  have "filter (\<lambda>(k, c). \<not> (k \<in> set (map fst (wdir w)) \<and> k < t + 1)) (wdir w) = ds"
  proof -
    have "filter (\<lambda>(k, c). \<not> (k \<in> set (map fst (wdir w)) \<and> k < t + 1)) ss = []" using s unfolding assms(2) by (force simp: filter_empty_conv)
    moreover have "filter (\<lambda>(k, c). \<not> (k \<in> set (map fst (wdir w)) \<and> k < t + 1)) ds = ds" using r by (intro filter_True) auto
    ultimately show ?thesis unfolding assms(2) by simp
  qed
  then show ?thesis using listSegments_numbered [OF num] truncate_loop_filter [OF sorted] by (simp add: Truncate_def)
qed

lemma Segments_numbered:
  assumes "holds w recs" "map fst (wdir w) = [f..segment w]"
  shows "Segments (wdir w) = Ok (f, segment w)"
proof -
  have num: "numbered (wdir w) (segment w)" using assms(1) by (simp add: holds_def)
  then have le: "f \<le> segment w" using assms(2) by (auto simp: numbered_def) (metis not_le upto_Nil upto_empty)
  then have "length [f..segment w] = nat (segment w - f + 1)" by simp
  then show ?thesis using listSegments_numbered [OF num] le unfolding assms(2) by (simp add: Segments_def)
qed

lemma DeleteCheckpoints_new:
  assumes "0 \<le> t" "t < 10 ^ 6" "fi_Name fi = checkpoint_name t"
  shows "DeleteCheckpoints t (files @ [fi]) = DeleteCheckpoints t files @ [fi]"
  using checkpoint_name_index [OF assms] by (simp add: DeleteCheckpoints_def)

lemma checkpoints_ok_delete: "checkpoints_ok t files \<Longrightarrow> checkpoints_ok t (DeleteCheckpoints i files)"
  by (simp add: checkpoints_ok_def DeleteCheckpoints_def)

lemma checkpoints_ok_later: "checkpoints_ok f files \<Longrightarrow> f \<le> t \<Longrightarrow> checkpoints_ok t files"
  unfolding checkpoints_ok_def by (meson order_less_le_trans)

section \<open>Truncation keeps what a restart restores\<close>

text \<open>Two logs that restore the same series, of those the head still has, and the same tombstones.\<close>

definition same_replay :: "Head \<Rightarrow> int \<Rightarrow> entry list \<Rightarrow> entry list \<Rightarrow> bool" where
  "same_replay h mint es es' \<longleftrightarrow> (\<forall>v k x. mint \<le> v \<and> getByID (h_series h) k \<noteq> None \<longrightarrow> replayed v k es' x = replayed v k es x)
     \<and> (\<forall>v t. mint \<le> v \<longrightarrow> fold (stones_entry v) es' t = fold (stones_entry v) es t)"

lemma same_replay_refl: "same_replay h mint es es"
  by (simp add: same_replay_def)

lemma same_replay_kept: "same_replay h mint (es1 @ es2) (kept_entries (\<lambda>k. getByID (h_series h) k \<noteq> None) mint es1 @ es2)"
proof -
  let ?keep = "\<lambda>k. getByID (h_series h) k \<noteq> None"
  have "replayed v k (kept_entries ?keep mint es1 @ es2) x = replayed v k (es1 @ es2) x" if "mint \<le> v" "getByID (h_series h) k \<noteq> None" for v k x
    using replayed_kept [of mint v ?keep k es1 x] that by (simp add: replayed_append)
  then show ?thesis using stones_kept [of mint] by (simp add: same_replay_def)
qed

text \<open>The new log: the checkpoint holds what is kept of the first segments.\<close>

lemma truncated_restart_log:
  assumes "restart_log files w es" "map fst (wdir w) = [f..segment w]" "f < t" "t < segment w"
  shows "\<exists>stats fi ds es'. Checkpoint (wdir w) files f t (\<lambda>k. getByID (h_series h) k \<noteq> None) mint = Some (Ok stats, files @ [fi])
    \<and> Truncate (t + 1) w = Ok (w\<lparr>wdir := ds\<rparr>) \<and> restart_log (DeleteCheckpoints t (files @ [fi])) (w\<lparr>wdir := ds\<rparr>) es' \<and> same_replay h mint es es'"
proof -
  let ?keep = "\<lambda>k. getByID (h_series h) k \<noteq> None"
  obtain f' recs0 recs1 where r: "holds w recs1" "settled w" "0 \<le> f'" "map fst (wdir w) = [f'..segment w]" "segment w < 10 ^ 6" "checkpoints_ok f' files"
    "prev_checkpoint files f' recs0" "map decode_record (recs0 @ recs1) = map Ok es" "list_all entry_ok es" "length es < 2 ^ 31"
    using assms(1) by (auto simp: restart_log_def)
  have "[f'..segment w] = f # [f + 1..segment w]" using r(4) assms(2-4) upto_rec1 [of f "segment w"] by simp
  then have "f' = f" by (cases "f' \<le> segment w") (simp_all add: upto_rec1)
  note r = r [unfolded this]
  have le: "f \<le> t" "0 \<le> t" "t < 10 ^ 6" using assms(3,4) r(3,5) by simp_all
  obtain ss ds rss recs2 where d: "wdir w = ss @ ds" "map fst ss = [f..t]" "map fst ds = [t + 1..segment w]" "closed_segments ss rss"
    "recs1 = concat rss @ recs2" "holds (w\<lparr>wdir := ds\<rparr>) recs2" by (rule holds_split [OF r(1,4,3) le(1) assms(4)])
  have "map decode_record ((recs0 @ concat rss) @ recs2) = map Ok es" using r(8) d(5) by simp
  then obtain es1 es2 where es: "es = es1 @ es2" "map decode_record (recs0 @ concat rss) = map Ok es1" "map decode_record recs2 = map Ok es2"
    unfolding map_append [of _ "recs0 @ concat rss" recs2] by (auto simp: append_eq_map_conv simp del: map_append)
  let ?es = "kept_entries ?keep mint es1"
  have num: "numbered (ss @ ds) (segment w)" using r(1) d(1) by (simp add: holds_def)
  have ok: "checkpoints_ok t files" by (rule checkpoints_ok_later [OF r(6) le(1)])
  obtain stats fi where c: "Checkpoint (ss @ ds) files f t ?keep mint = Some (Ok stats, files @ [fi])" "fi_Name fi = checkpoint_name t" "fi_IsDir fi"
    "closed_log (fi_dir fi) (map encode_entry ?es)" by (rule Checkpoint_new [OF num d(2) r(3) le(1,3) d(4) ok r(7) es(2)]) (use r(10) es(1) in simp)
  let ?files = "DeleteCheckpoints t files @ [fi]" and ?w = "w\<lparr>wdir := ds\<rparr>"
  note del = checkpoints_ok_delete [OF ok, of t]
  have "prev_checkpoint ?files (t + 1) (map encode_entry ?es)"
    using LastCheckpoint_new [OF del le(2,3) c(2,3)] c(4) by (simp add: prev_checkpoint_def)
  moreover have "length ?es \<le> length es1" by (simp add: kept_entries_def)
  moreover have "map decode_record (map encode_entry ?es @ recs2) = map Ok (?es @ es2)" "list_all entry_ok (?es @ es2)"
    using kept_entries_decode [of es1 ?keep mint] r(9) es(1,3) by simp_all
  ultimately have "restart_log ?files ?w (?es @ es2)" unfolding restart_log_def
    using d(3,6) r(2,5,10) le es(1) checkpoints_ok_new [OF del le(2) c(2,3)]
    by (intro exI [of _ "t + 1"] exI [of _ "map encode_entry ?es"] exI [of _ recs2]) (simp add: settled_def)
  then show ?thesis using c(1) Truncate_split [OF r(1) d(1-3)] same_replay_kept [of h mint es1 es2] DeleteCheckpoints_new [OF le(2,3) c(2), of files]
    unfolding es(1) d(1) by (intro exI [of _ stats] exI [of _ fi] exI [of _ ds] exI [of _ "?es @ es2"]) simp
qed

lemma truncate_log_keeps:
  assumes "h_wal h = Some w" "restart_log files w es"
  shows "\<exists>files' w' es'. truncate_log mint files h = Some (Ok (), files', h\<lparr>h_wal := Some w'\<rparr>) \<and> restart_log files' w' es' \<and> same_replay h mint es es'"
proof -
  obtain f recs1 where f: "holds w recs1" "map fst (wdir w) = [f..segment w]" using assms(2) by (auto simp: restart_log_def)
  note seg = Segments_numbered [OF f]
  let ?t = "f + go_div (segment w - 1 - f) 3"
  have same: "h\<lparr>h_wal := Some w\<rparr> = h" using assms(1) by (cases h) simp
  show ?thesis
  proof (cases "segment w - 1 < 0 \<or> ?t \<le> f")
    case True
    then have "truncate_log mint files h = Some (Ok (), files, h\<lparr>h_wal := Some w\<rparr>)" using assms(1) seg same by (auto simp: truncate_log_def Let_def)
    then show ?thesis using assms(2) same_replay_refl by blast
  next
    case False
    then have t: "f < ?t" "?t < segment w" by (auto simp: go_div_def split: if_splits)
    obtain stats fi ds es' where c: "Checkpoint (wdir w) files f ?t (\<lambda>k. getByID (h_series h) k \<noteq> None) mint = Some (Ok stats, files @ [fi])"
      "Truncate (?t + 1) w = Ok (w\<lparr>wdir := ds\<rparr>)" "restart_log (DeleteCheckpoints ?t (files @ [fi])) (w\<lparr>wdir := ds\<rparr>) es'" "same_replay h mint es es'"
      using truncated_restart_log [OF assms(2) f(2) t] by blast
    then have "truncate_log mint files h = Some (Ok (), DeleteCheckpoints ?t (files @ [fi]), h\<lparr>h_wal := Some (w\<lparr>wdir := ds\<rparr>)\<rparr>)"
      using assms(1) seg False by (simp add: truncate_log_def)
    then show ?thesis using c(3,4) by blast
  qed
qed

text \<open>Neither the log nor the time bounds matter to the series of a head.\<close>

lemma truncated_fields:
  "head_inv sum64 (h\<lparr>h_wal := x\<rparr>) = head_inv sum64 h" "samples_of sum64 (h\<lparr>h_wal := x\<rparr>) = samples_of sum64 h"
  "head_inv sum64 (truncate_times mint h) = head_inv sum64 h" "samples_of sum64 (truncate_times mint h) = samples_of sum64 h"
  "h_minTime (truncate_times mint h) = mint" "h_wal (truncate_times mint h) = h_wal h" "h_series (truncate_times mint h) = h_series h"
  "h_heap (truncate_times mint h) = h_heap h" "h_postings (truncate_times mint h) = h_postings h"
  by (auto simp: truncate_times_def Let_def head_inv_def values_ok_def values_sound_def labels_known_def live_def samples_of_def fun_eq_iff)

text \<open>
  C10. Truncating the head loses nothing that is still needed, in memory or in the log. Take a consistent head with a log that a restart can
  read, the last checkpoint with the segments behind it, each in order and no attempt at a checkpoint left over. Truncation up to
  \<open>mint\<close> then succeeds. No sample at or after \<open>mint\<close> is gone from memory and those before it only from the
  front of a series. The new directory is again one a restart can read, and replaying what it reads, from any minimum time not below \<open>mint\<close>,
  gives every series the head still has, and all tombstones, just as replaying the log before.
\<close>

theorem truncate_keeps_log:
  assumes "head_inv sum64 h" "order_ok order (h_series h)"
    and "enumerates_keys keys (MemPostings_Delete (h_postings h) (gc_deleted (stripeSeries_gc order mint (h_heap h) (h_series h))))"
    and "h_wal h = Some w" "restart_log files w es"
  shows "\<exists>files' h' w' es' recs. Head_Truncate order keys mint files h = Some (Ok (), files', h') \<and> h_wal h' = Some w' \<and> restart_log files' w' es'
    \<and> init_records files' (wdir w') recs \<and> map decode_record recs = map Ok es' \<and> same_replay h' mint es es' \<and> head_inv sum64 h'
    \<and> (\<forall>ls xs. samples_of sum64 h ls = Some (Ok xs) \<longrightarrow> (\<exists>zs. suffix zs xs \<and> (\<forall>x \<in> set xs. mint \<le> fst x \<longrightarrow> x \<in> set zs)
        \<and> (samples_of sum64 h' ls = Some (Ok zs) \<or> samples_of sum64 h' ls = None \<and> zs = [])))"
proof -
  let ?h = "truncate_times mint h"
  have "Head_Truncate order keys mint files h = Some (Ok (), files, h) \<or> Head_Truncate order keys mint files h = Some (Ok (), files, ?h)
    \<or> Head_Truncate order keys mint files h = truncate_log mint files (Head_gc order keys ?h)" by (simp add: Head_Truncate_def Let_def)
  then consider "Head_Truncate order keys mint files h = Some (Ok (), files, h)" | "Head_Truncate order keys mint files h = Some (Ok (), files, ?h)"
    | "Head_Truncate order keys mint files h = truncate_log mint files (Head_gc order keys ?h)" by blast
  then show ?thesis
  proof cases
    case 3
    let ?g = "Head_gc order keys ?h"
    have i: "head_inv sum64 ?h" "order_ok order (h_series ?h)" using assms(1,2) by (simp_all add: truncated_fields)
    have inv: "head_inv sum64 ?g" by (rule Head_gc_inv [OF i refl]) (use assms(3) in \<open>simp add: truncated_fields\<close>)
    have wal: "h_wal ?g = Some w" unfolding Head_gc_eq [OF refl refl] using assms(4) by (simp add: truncated_fields)
    obtain files' w' es' where t: "truncate_log mint files ?g = Some (Ok (), files', ?g\<lparr>h_wal := Some w'\<rparr>)" "restart_log files' w' es'" "same_replay ?g mint es es'"
      using truncate_log_keeps [OF wal assms(5)] by blast
    obtain recs where "init_records files' (wdir w') recs" "map decode_record recs = map Ok es'" using restart_log_reads [OF t(2)] by blast
    moreover have "same_replay (?g\<lparr>h_wal := Some w'\<rparr>) mint es es'" using t(3) by (simp add: same_replay_def)
    moreover note Head_gc_samples [OF i refl inv, unfolded truncated_fields]
    ultimately show ?thesis using 3 t(1,2) inv
      by (intro exI [of _ files'] exI [of _ "?g\<lparr>h_wal := Some w'\<rparr>"] exI [of _ w'] exI [of _ es'] exI [of _ recs]) (simp add: truncated_fields)
  qed (use assms restart_log_reads [OF assms(5)] same_replay_refl suffix_order.refl in \<open>force simp: truncated_fields\<close>)+
qed

theorem truncate_keeps_log_witness:
  "\<exists>w h0 h files' h'. NewSize [] pageSize = Ok w \<and> NewHead (Some ((nextSegment ^^ 5) w)) 100 = Ok h0 \<and> h = snd (initTime 5 h0)
    \<and> Head_Truncate (\<lambda>_. []) [] 10 [] h = Some (Ok (), files', h') \<and> head_inv (\<lambda>_. 0) h'"
proof -
  obtain w where w: "NewSize [] pageSize = Ok w" "holds w []" "segment w = 0" using NewSize_fresh [of pageSize] by auto
  let ?w = "(nextSegment ^^ 5) w"
  have n: "holds ((nextSegment ^^ n) w) [] \<and> segment ((nextSegment ^^ n) w) = int n" for n
    using w(2,3) by (induction n) (auto simp: nextSegment_holds)
  have "?w = nextSegment ((nextSegment ^^ 4) w)" by (simp add: numeral_nat)
  then have seg: "holds ?w []" "settled ?w" "segment ?w = 5" using n [of 5] n [of 4] nextSegment_holds(3) by auto
  obtain h0 where h0: "NewHead (Some ?w) 100 = Ok h0" by (simp add: NewHead_def)
  let ?h = "snd (initTime 5 h0)"
  have inv: "head_inv (\<lambda>_. 0) ?h" using head_inv_new(1) [OF h0, of "\<lambda>_. 0"] by (simp add: initTime_fields width_ok_def)
  have fields: "h_wal ?h = Some ?w" "h_heap ?h = []" "h_series ?h = newStripeSeries" "h_postings ?h = NewUnorderedMemPostings"
    using h0 by (auto simp: NewHead_def initTime_def Let_def)
  have ord: "order_ok (\<lambda>_. []) (h_series ?h)" by (simp add: fields order_ok_def newStripeSeries_def)
  have keys: "enumerates_keys [] (MemPostings_Delete (h_postings ?h) (gc_deleted (stripeSeries_gc (\<lambda>_. []) 10 (h_heap ?h) (h_series ?h))))"
    by (auto simp: fields enumerates_keys_def MemPostings_Delete_def NewUnorderedMemPostings_def dom_def)
  obtain f where f: "0 \<le> f" "map fst (wdir ?w) = [f..segment ?w]" using seg(1) by (auto simp: holds_def numbered_def)
  have "restart_log [] ?w []" unfolding restart_log_def
    using seg f by (intro exI [of _ f] exI [of _ "[]"]) (simp add: checkpoints_ok_def prev_checkpoint_def LastCheckpoint_def)
  from truncate_keeps_log [OF inv ord keys fields(1) this] show ?thesis using w(1) h0 by blast
qed

end
