(* ===== verification/Chunk_Files.thy ===== *)
theory Chunk_Files
  imports File_Names Encbuf Series_Iter
begin

text \<open>
  The files of the chunks of a block, \<^verbatim>\<open>chunks/chunks.go\<close>: a writer that appends chunks to a sequence of segment
  files and gives each a reference, and a reader that finds a chunk by its reference.
\<close>

section \<open>Files\<close>

text \<open>A file of a directory: its name, its bytes and the offset of the handle it was last opened with.\<close>

record segFile =
  sf_name :: gostring
  sf_data :: "u8 list"
  sf_off :: nat

definition on_file :: "gostring \<Rightarrow> (segFile \<Rightarrow> segFile) \<Rightarrow> segFile list \<Rightarrow> segFile list" where
  "on_file n f fs = map (\<lambda>sf. if sf_name sf = n then f sf else sf) fs"

definition file_write :: "u8 list \<Rightarrow> segFile \<Rightarrow> segFile" where
  "file_write b f = f\<lparr>sf_data := take (sf_off f) (sf_data f) @ b @ drop (sf_off f + length b) (sf_data f), sf_off := sf_off f + length b\<rparr>"

text \<open>Opening for writing keeps the contents of a file that exists.\<close>

definition open_file :: "gostring \<Rightarrow> segFile list \<Rightarrow> segFile list" where
  "open_file n fs =
     (if n \<in> set (map sf_name fs) then on_file n (sf_off_update (\<lambda>_. 0)) fs else fs @ [\<lparr>sf_name = n, sf_data = [], sf_off = 0\<rparr>])"

definition preallocate :: "nat \<Rightarrow> segFile \<Rightarrow> segFile" where
  "preallocate sz f = f\<lparr>sf_data := sf_data f @ replicate (sz - length (sf_data f)) 0\<rparr>"

text \<open>The last number in the order of the names counts.\<close>

definition nextSequenceFile :: "segFile list \<Rightarrow> gostring" where
  "nextSequenceFile fs =
     (let i = fold (\<lambda>n i. case ParseUint n of None \<Rightarrow> i | Some j \<Rightarrow> j) (sort (map sf_name fs)) 0 in pad6 (unat (i + 1)))"

definition sequenceFiles :: "segFile list \<Rightarrow> segFile list" where
  "sequenceFiles fs = filter (\<lambda>f. ParseUint (sf_name f) \<noteq> None) (sort_key sf_name fs)"

section \<open>The writer\<close>

text \<open>
  The handles in \<^verbatim>\<open>files\<close> are the names of the open files. The buffered writer is what has not been
  flushed; when its buffer is full it flushes earlier, which nobody sees.
\<close>

record chunkWriter =
  cw_dir :: "segFile list"
  cw_files :: "gostring list"
  cw_wbuf :: "u8 list option"
  cw_n :: nat
  cw_segmentSize :: nat

definition MagicChunks :: u32 where
  "MagicChunks = 0x85BD40DD"

definition defaultChunkSegmentSize :: nat where
  "defaultChunkSegmentSize = 512 * 1024 * 1024"

definition chunksFormatV1 :: u8 where
  "chunksFormatV1 = 1"

definition NewWriter :: "segFile list \<Rightarrow> chunkWriter" where
  "NewWriter fs = \<lparr>cw_dir = fs, cw_files = [], cw_wbuf = None, cw_n = 0, cw_segmentSize = defaultChunkSegmentSize\<rparr>"

definition cw_tail :: "chunkWriter \<Rightarrow> gostring option" where
  "cw_tail w = (if length (cw_files w) = 0 then None else Some (cw_files w ! (length (cw_files w) - 1)))"

definition finalizeTail :: "chunkWriter \<Rightarrow> chunkWriter outcome" where
  "finalizeTail w =
     (case cw_tail w of
        None \<Rightarrow> Ok w
      | Some tf \<Rightarrow>
          (case cw_wbuf w of
             None \<Rightarrow> Panic
           | Some buf \<Rightarrow>
               let d = on_file tf (file_write buf) (cw_dir w);
                   d = on_file tf (\<lambda>f. f\<lparr>sf_data := take (sf_off f) (sf_data f)\<rparr>) d
               in Ok (w\<lparr>cw_dir := d, cw_wbuf := Some []\<rparr>)))"

definition chunk_metab :: "u8 list" where
  "chunk_metab = PutUint32 MagicChunks @ [chunksFormatV1, 0, 0, 0]"

definition cw_cut :: "chunkWriter \<Rightarrow> chunkWriter outcome" where
  "cw_cut w =
     bind_outcome (finalizeTail w) (\<lambda>w.
       let p = nextSequenceFile (cw_dir w);
           d = on_file p (preallocate (cw_segmentSize w)) (open_file p (cw_dir w));
           d = on_file p (file_write chunk_metab) d
       in Ok (w\<lparr>cw_dir := d, cw_files := cw_files w @ [p], cw_wbuf := Some [], cw_n := 8\<rparr>))"

definition cw_write :: "chunkWriter \<Rightarrow> u8 list \<Rightarrow> chunkWriter outcome" where
  "cw_write w b = (case cw_wbuf w of None \<Rightarrow> Panic | Some buf \<Rightarrow> Ok (w\<lparr>cw_wbuf := Some (buf @ b), cw_n := cw_n w + length b\<rparr>))"

definition MaxVarintLen32 :: nat where
  "MaxVarintLen32 = 5"

definition cw_maxLen :: "XORChunk ChunkMeta list \<Rightarrow> nat" where
  "cw_maxLen chks = fold (\<lambda>c l. l + (MaxVarintLen32 + 1) + length (Bytes (cm_Chunk c))) chks MaxVarintLen32"

text \<open>The byte of \<^verbatim>\<open>EncXOR\<close>, and the bytes that \<^verbatim>\<open>writeHash\<close> feeds to the hash.\<close>

definition encXOR_byte :: u8 where
  "encXOR_byte = 1"

definition Meta_writeHash :: "XORChunk \<Rightarrow> u8 list" where
  "Meta_writeHash c = [encXOR_byte] @ Bytes c"

text \<open>One turn of the loop over the chunks. \<^verbatim>\<open>PutUvarint\<close> panics when the length does not fit the buffer.\<close>

definition write_chunk :: "u64 \<Rightarrow> chunkWriter \<Rightarrow> XORChunk ChunkMeta \<Rightarrow> (chunkWriter \<times> XORChunk ChunkMeta) outcome" where
  "write_chunk seq w chk =
     (let ref = seq OR of_nat (cw_n w); lenb = PutUvarint (of_nat (length (Bytes (cm_Chunk chk)))) in
      if length lenb > MaxVarintLen32 then Panic
      else
        bind_outcome (cw_write w lenb) (\<lambda>w.
        bind_outcome (cw_write w [encXOR_byte]) (\<lambda>w.
        bind_outcome (cw_write w (Bytes (cm_Chunk chk))) (\<lambda>w.
        bind_outcome (cw_write w (PutUint32 (crc32_checksum (Meta_writeHash (cm_Chunk chk))))) (\<lambda>w.
          Ok (w, chk\<lparr>Meta_Ref := ref\<rparr>))))))"

fun write_chunks :: "u64 \<Rightarrow> chunkWriter \<Rightarrow> XORChunk ChunkMeta list \<Rightarrow> (chunkWriter \<times> XORChunk ChunkMeta list) outcome" where
  "write_chunks seq w [] = Ok (w, [])"
| "write_chunks seq w (chk # chks) =
     bind_outcome (write_chunk seq w chk) (\<lambda>(w, chk).
     bind_outcome (write_chunks seq w chks) (\<lambda>(w, chks). Ok (w, chk # chks)))"

definition cw_seq :: "chunkWriter \<Rightarrow> int" where
  "cw_seq w = int (length (cw_files w)) - 1"

definition WriteChunks :: "chunkWriter \<Rightarrow> XORChunk ChunkMeta list \<Rightarrow> (chunkWriter \<times> XORChunk ChunkMeta list) outcome" where
  "WriteChunks w chks =
     (let maxLen = cw_maxLen chks; newsz = cw_n w + maxLen in
      bind_outcome
        (if cw_wbuf w = None \<or> cw_n w > cw_segmentSize w \<or> newsz > cw_segmentSize w \<and> maxLen \<le> cw_segmentSize w then cw_cut w else Ok w) (\<lambda>w.
        write_chunks (push_bit 32 (of_int (cw_seq w))) w chks))"

definition cw_Close :: "chunkWriter \<Rightarrow> chunkWriter outcome" where
  "cw_Close w = finalizeTail w"

section \<open>The reader\<close>

text \<open>A slice of a mapped file, whose capacity is its length.\<close>

definition byteSlice_Range :: "u8 list \<Rightarrow> nat \<Rightarrow> nat \<Rightarrow> u8 list outcome" where
  "byteSlice_Range b i j = (if i \<le> j \<and> j \<le> length b then Ok (take (j - i) (drop i b)) else Panic)"

fun newChunkReader :: "u8 list list \<Rightarrow> unit outcome" where
  "newChunkReader [] = Ok ()"
| "newChunkReader (b # bs) =
     (if length b < 4 then Fail (ErrMsg ''invalid size'')
      else bind_outcome (byteSlice_Range b 0 4) (\<lambda>r. bind_outcome (Uint32 r) (\<lambda>magic.
        if magic \<noteq> MagicChunks then Fail (ErrMsg ''invalid magic number'') else newChunkReader bs)))"

definition NewDirReader :: "segFile list \<Rightarrow> u8 list list outcome" where
  "NewDirReader fs = (let bs = map sf_data (sequenceFiles fs) in bind_outcome (newChunkReader bs) (\<lambda>_. Ok bs))"

definition pool_Get :: "u8 \<Rightarrow> u8 list \<Rightarrow> XORChunk outcome" where
  "pool_Get e b =
     (case encoding_of_byte e of
        EncXOR \<Rightarrow> Ok \<lparr>chunk_b = \<lparr>stream = b, count = 0\<rparr>\<rparr>
      | _ \<Rightarrow> Fail (ErrMsg ''invalid encoding''))"

text \<open>
  The second range holds the encoding and all but the last byte of the data; the data is sliced from it up to
  one byte behind its end, which the capacity of the mapped file allows.
\<close>

definition chunkReader_Chunk :: "u8 list list \<Rightarrow> u64 \<Rightarrow> XORChunk outcome" where
  "chunkReader_Chunk bs ref =
     (let seq = unat (drop_bit 32 ref); off = unat (drop_bit 32 (push_bit 32 ref)) in
      if seq \<ge> length bs then Fail (ErrMsg ''reference sequence out of range'')
      else
        let b = bs ! seq in
        if off \<ge> length b then Fail (ErrMsg ''offset beyond data size'')
        else
          bind_outcome (byteSlice_Range b off (off + MaxVarintLen32)) (\<lambda>r.
            case Uvarint r of (l, n) \<Rightarrow>
              if n \<le> 0 then Fail (ErrMsg ''reading chunk length failed'')
              else if sint l < 0 then Panic
              else
                let start = off + nat n in
                bind_outcome (byteSlice_Range b start (start + unat l)) (\<lambda>r.
                  if r = [] then Panic
                  else bind_outcome (byteSlice_Range b (start + 1) (start + 1 + unat l)) (\<lambda>d. pool_Get (r ! 0) d))))"

section \<open>What the writer has written\<close>

definition chunk_record :: "XORChunk \<Rightarrow> u8 list" where
  "chunk_record c = PutUvarint (of_nat (length (Bytes c))) @ [encXOR_byte] @ Bytes c @ PutUint32 (crc32_checksum (Meta_writeHash c))"

definition seq_names :: "nat \<Rightarrow> gostring list" where
  "seq_names k = map pad6 [1..<Suc k]"

text \<open>
  The files of a writer with the contents they will have after a flush: all but the last one are complete.
\<close>

definition contents :: "chunkWriter \<Rightarrow> u8 list list \<Rightarrow> bool" where
  "contents w vs \<longleftrightarrow> cw_files w = seq_names (length vs) \<and> map sf_name (cw_dir w) = seq_names (length vs)
     \<and> map sf_data (butlast (cw_dir w)) = butlast vs
     \<and> (if vs = [] then cw_wbuf w = None
        else \<exists>buf f. cw_wbuf w = Some buf \<and> f = last (cw_dir w) \<and> sf_off f \<le> length (sf_data f)
          \<and> last vs = take (sf_off f) (sf_data f) @ buf \<and> cw_n w = length (last vs))"

lemma seq_names_Suc [simp]: "seq_names (Suc k) = seq_names k @ [pad6 (Suc k)]"
  by (simp add: seq_names_def)

lemma seq_names_0 [simp]: "seq_names 0 = []"
  by (simp add: seq_names_def)

lemma length_seq_names [simp]: "length (seq_names k) = k"
  by (simp add: seq_names_def)

lemma seq_names_sorted: "k < 10 ^ 6 \<Longrightarrow> sorted_wrt (<) (seq_names k)"
  unfolding seq_names_def sorted_wrt_map
  by (rule sorted_wrt_mono_rel [OF _ sorted_wrt_upt]) (auto intro!: pad6_less)

lemma seq_names_distinct: "k < 10 ^ 6 \<Longrightarrow> distinct (seq_names k)"
  using seq_names_sorted strict_sorted_iff by blast

lemma last_sequence_number:
  "k < 10 ^ 6 \<Longrightarrow> fold (\<lambda>n i. case ParseUint n of None \<Rightarrow> i | Some j \<Rightarrow> j) (seq_names k) 0 = of_nat k"
  by (cases k) (simp_all add: ParseUint_pad6)

lemma nextSequenceFile_seq:
  assumes "map sf_name fs = seq_names k" "Suc k < 10 ^ 6"
  shows "nextSequenceFile fs = pad6 (Suc k)"
proof -
  have "sort (map sf_name fs) = seq_names k"
    unfolding assms(1) using seq_names_sorted [of k] assms(2) by (simp add: sorted_sort_id strict_sorted_imp_sorted)
  moreover have "unat (of_nat (Suc k) :: u64) = Suc k" using assms(2) by (simp add: unat_of_nat del: of_nat_Suc)
  ultimately show ?thesis using last_sequence_number [of k] assms(2) by (simp add: nextSequenceFile_def Let_def add.commute)
qed

lemma on_file_last:
  assumes "map sf_name fs = seq_names (Suc k)" "Suc k < 10 ^ 6"
  shows "on_file (pad6 (Suc k)) f fs = butlast fs @ [f (last fs)]"
proof -
  obtain gs g where fs: "fs = gs @ [g]" "map sf_name gs = seq_names k" "sf_name g = pad6 (Suc k)"
    using assms(1) by (cases fs rule: rev_cases) auto
  have "pad6 (Suc k) \<notin> set (seq_names k)" using seq_names_distinct [OF assms(2)] by simp
  then have "sf_name h \<noteq> pad6 (Suc k)" if "h \<in> set gs" for h using that fs(2) by (metis in_set_conv_nth length_map nth_map nth_mem)
  then show ?thesis using fs by (auto simp: on_file_def map_idI)
qed


text \<open>How the contents change: cutting, writing, closing.\<close>

lemma contents_snoc:
  assumes "contents w (vs @ [v])"
  obtains gs g buf where "cw_dir w = gs @ [g]" "cw_files w = seq_names (Suc (length vs))" "map sf_name gs = seq_names (length vs)" "sf_name g = pad6 (Suc (length vs))"
    "map sf_data gs = vs" "cw_wbuf w = Some buf" "sf_off g \<le> length (sf_data g)" "v = take (sf_off g) (sf_data g) @ buf" "cw_n w = length v"
proof -
  have n: "map sf_name (cw_dir w) = seq_names (Suc (length vs))" using assms by (simp add: contents_def)
  then obtain gs g where "cw_dir w = gs @ [g]" by (cases "cw_dir w" rule: rev_cases) auto
  with n assms show ?thesis by (auto simp: contents_def intro!: that)
qed

lemma finalizeTail_contents:
  assumes "contents w vs" "length vs < 10 ^ 6"
  shows "\<exists>w'. finalizeTail w = Ok w' \<and> contents w' vs \<and> map sf_data (cw_dir w') = vs \<and> cw_n w' = cw_n w \<and> cw_segmentSize w' = cw_segmentSize w \<and> cw_files w' = cw_files w"
proof (cases vs rule: rev_cases)
  case Nil
  then show ?thesis using assms(1) by (simp add: finalizeTail_def cw_tail_def contents_def)
next
  case (snoc us v)
  obtain gs g buf where c: "cw_dir w = gs @ [g]" "cw_files w = seq_names (Suc (length us))" "map sf_name gs = seq_names (length us)" "sf_name g = pad6 (Suc (length us))"
    "map sf_data gs = us" "cw_wbuf w = Some buf" "sf_off g \<le> length (sf_data g)" "v = take (sf_off g) (sf_data g) @ buf" "cw_n w = length v"
    using contents_snoc [of w us v] assms(1) snoc by blast
  define g' where "g' = g\<lparr>sf_data := v, sf_off := length v\<rparr>"
  have len: "Suc (length us) < 10 ^ 6" using assms(2) snoc by simp
  have names: "map sf_name (gs @ [h]) = seq_names (Suc (length us))" if "sf_name h = sf_name g" for h using c(3,4) that by simp
  have "on_file (pad6 (Suc (length us))) (\<lambda>f. f\<lparr>sf_data := take (sf_off f) (sf_data f)\<rparr>) (on_file (pad6 (Suc (length us))) (file_write buf) (gs @ [g])) = gs @ [g']"
    using c(7,8) by (simp add: on_file_last [OF names len] file_write_def g'_def)
  then have "finalizeTail w = Ok (w\<lparr>cw_dir := gs @ [g'], cw_wbuf := Some []\<rparr>)"
    using c by (simp add: finalizeTail_def cw_tail_def nth_append Let_def)
  then show ?thesis using c snoc by (simp add: contents_def g'_def)
qed

lemma length_chunk_metab [simp]: "length chunk_metab = 8"
  by (simp add: chunk_metab_def)

lemma cut_contents:
  assumes "contents w vs" "Suc (length vs) < 10 ^ 6"
  shows "\<exists>w'. cw_cut w = Ok w' \<and> contents w' (vs @ [chunk_metab]) \<and> cw_segmentSize w' = cw_segmentSize w"
proof -
  obtain w1 where w1: "finalizeTail w = Ok w1" "contents w1 vs" "map sf_data (cw_dir w1) = vs" "cw_segmentSize w1 = cw_segmentSize w"
    using finalizeTail_contents [OF assms(1)] assms(2) by auto
  let ?p = "pad6 (Suc (length vs))"
  have names: "map sf_name (cw_dir w1) = seq_names (length vs)" using w1(2) by (simp add: contents_def)
  have p: "nextSequenceFile (cw_dir w1) = ?p" by (rule nextSequenceFile_seq [OF names assms(2)])
  have "?p \<notin> set (map sf_name (cw_dir w1))" using seq_names_distinct [OF assms(2)] unfolding names by simp
  then have open': "open_file ?p (cw_dir w1) = cw_dir w1 @ [\<lparr>sf_name = ?p, sf_data = [], sf_off = 0\<rparr>]" by (simp add: open_file_def)
  have last: "on_file ?p f (cw_dir w1 @ [g]) = cw_dir w1 @ [f g]" if "sf_name g = ?p" for f g
    using on_file_last [of "cw_dir w1 @ [g]" "length vs"] names that assms(2) by simp
  let ?g = "file_write chunk_metab (preallocate (cw_segmentSize w1) \<lparr>sf_name = ?p, sf_data = [], sf_off = 0\<rparr>)"
  have "cw_cut w = Ok (w1\<lparr>cw_dir := cw_dir w1 @ [?g], cw_files := cw_files w1 @ [?p], cw_wbuf := Some [], cw_n := 8\<rparr>)"
    using w1(1) p open' by (simp add: cw_cut_def Let_def last preallocate_def)
  then show ?thesis using w1 names by (simp add: contents_def file_write_def preallocate_def)
qed

lemma write_contents:
  assumes "contents w (vs @ [v])"
  shows "\<exists>w'. cw_write w b = Ok w' \<and> contents w' (vs @ [v @ b]) \<and> cw_segmentSize w' = cw_segmentSize w \<and> cw_files w' = cw_files w"
  by (rule contents_snoc [OF assms]) (use assms in \<open>simp add: cw_write_def contents_def\<close>)


text \<open>A chunk in the contents, at its reference.\<close>

definition chunk_at :: "u8 list list \<Rightarrow> u64 \<Rightarrow> XORChunk \<Rightarrow> bool" where
  "chunk_at vs ref c \<longleftrightarrow> (\<exists>k pre post. k < length vs \<and> vs ! k = pre @ chunk_record c @ post \<and> ref = push_bit 32 (of_nat k) OR of_nat (length pre)
     \<and> k < 10 ^ 6 \<and> length pre < 2 ^ 32)"

lemma chunk_at_mono:
  assumes "chunk_at vs ref c" "length vs \<le> length us" "\<forall>k < length vs. prefix (vs ! k) (us ! k)"
  shows "chunk_at us ref c"
proof -
  obtain k pre post where k: "k < length vs" "vs ! k = pre @ chunk_record c @ post" "ref = push_bit 32 (of_nat k) OR of_nat (length pre)" "k < 10 ^ 6" "length pre < 2 ^ 32"
    using assms(1) by (auto simp: chunk_at_def)
  then obtain rest where "us ! k = (pre @ chunk_record c @ post) @ rest" using assms(3) by (metis prefixE)
  then show ?thesis using k assms(2) unfolding chunk_at_def by (intro exI [of _ k] exI [of _ pre] exI [of _ "post @ rest"]) auto
qed

text \<open>The size of a batch on disk, with room for the longest length prefix.\<close>

definition batch_size :: "XORChunk ChunkMeta list \<Rightarrow> nat" where
  "batch_size chks = sum_list (map (\<lambda>c. length (Bytes (cm_Chunk c)) + 10) chks)"

lemma length_PutUvarint_small: "unat x < 2 ^ (7 * n) \<Longrightarrow> n > 0 \<Longrightarrow> length (PutUvarint x) \<le> n"
proof (induction n arbitrary: x)
  case (Suc n)
  show ?case
  proof (cases "0x80 \<le> x")
    case True
    have "unat (drop_bit 7 x) < 2 ^ (7 * n)" using Suc.prems(1) by (simp add: drop_bit_eq_div unat_div power_add less_mult_imp_div_less mult.commute)
    moreover have "n > 0" using True Suc.prems(1) by (cases n) (auto simp: word_le_nat_alt)
    ultimately show ?thesis using Suc.IH True by (simp add: PutUvarint_big)
  qed (simp add: PutUvarint_small not_le)
qed simp

lemma chunk_record_length:
  assumes "length (Bytes c) < 2 ^ 31"
  shows "length (PutUvarint (of_nat (length (Bytes c)))) \<le> MaxVarintLen32" "length (chunk_record c) \<le> length (Bytes c) + 10" "6 \<le> length (chunk_record c)"
proof -
  have "unat (of_nat (length (Bytes c)) :: u64) < 2 ^ (7 * 5)" using assms by (simp add: unat_of_nat)
  then show l: "length (PutUvarint (of_nat (length (Bytes c)))) \<le> MaxVarintLen32"
    unfolding MaxVarintLen32_def by (rule length_PutUvarint_small) simp
  then show "length (chunk_record c) \<le> length (Bytes c) + 10" by (simp add: chunk_record_def MaxVarintLen32_def)
  have "length (PutUvarint (of_nat (length (Bytes c)))) > 0" by simp
  then show "6 \<le> length (chunk_record c)" unfolding chunk_record_def by (simp del: length_greater_0_conv)
qed

lemma write_chunk_contents:
  assumes "contents w (vs @ [v])" "length (Bytes (cm_Chunk chk)) < 2 ^ 31"
  shows "\<exists>w'. write_chunk seq w chk = Ok (w', chk\<lparr>Meta_Ref := seq OR of_nat (length v)\<rparr>) \<and> contents w' (vs @ [v @ chunk_record (cm_Chunk chk)])
    \<and> cw_segmentSize w' = cw_segmentSize w \<and> cw_files w' = cw_files w"
proof -
  have n: "cw_n w = length v" by (rule contents_snoc [OF assms(1)])
  let ?c = "cm_Chunk chk"
  obtain w1 where w1: "cw_write w (PutUvarint (of_nat (length (Bytes ?c)))) = Ok w1" "contents w1 (vs @ [v @ PutUvarint (of_nat (length (Bytes ?c)))])" "cw_segmentSize w1 = cw_segmentSize w" "cw_files w1 = cw_files w"
    using write_contents [OF assms(1)] by blast
  obtain w2 where w2: "cw_write w1 [encXOR_byte] = Ok w2" "contents w2 (vs @ [(v @ PutUvarint (of_nat (length (Bytes ?c)))) @ [encXOR_byte]])" "cw_segmentSize w2 = cw_segmentSize w1" "cw_files w2 = cw_files w1"
    using write_contents [OF w1(2)] by blast
  obtain w3 where w3: "cw_write w2 (Bytes ?c) = Ok w3" "contents w3 (vs @ [((v @ PutUvarint (of_nat (length (Bytes ?c)))) @ [encXOR_byte]) @ Bytes ?c])" "cw_segmentSize w3 = cw_segmentSize w2" "cw_files w3 = cw_files w2"
    using write_contents [OF w2(2)] by blast
  obtain w4 where w4: "cw_write w3 (PutUint32 (crc32_checksum (Meta_writeHash ?c))) = Ok w4"
    "contents w4 (vs @ [(((v @ PutUvarint (of_nat (length (Bytes ?c)))) @ [encXOR_byte]) @ Bytes ?c) @ PutUint32 (crc32_checksum (Meta_writeHash ?c))])" "cw_segmentSize w4 = cw_segmentSize w3" "cw_files w4 = cw_files w3"
    using write_contents [OF w3(2)] by blast
  show ?thesis using w1 w2 w3 w4 n chunk_record_length(1) [OF assms(2)] by (simp add: write_chunk_def Let_def chunk_record_def)
qed

lemma write_chunks_contents:
  assumes "contents w (vs @ [v])" "length vs < 10 ^ 6" "length v + batch_size chks < 2 ^ 32" "\<forall>c \<in> set chks. length (Bytes (cm_Chunk c)) < 2 ^ 31"
  shows "\<exists>w' u metas. write_chunks (push_bit 32 (of_nat (length vs))) w chks = Ok (w', metas) \<and> contents w' (vs @ [v @ u]) \<and> cw_segmentSize w' = cw_segmentSize w
    \<and> length u \<le> batch_size chks \<and> list_all2 (\<lambda>c m. chunk_at (vs @ [v @ u]) (Meta_Ref m) (cm_Chunk c) \<and> MinTime m = MinTime c \<and> MaxTime m = MaxTime c) chks metas"
  using assms
proof (induction chks arbitrary: w v)
  case Nil
  then show ?case by (intro exI [of _ w] exI [of _ "[]"]) simp
next
  case (Cons chk chks)
  let ?seq = "push_bit 32 (of_nat (length vs)) :: u64" and ?r = "chunk_record (cm_Chunk chk)"
  have len: "length ?r \<le> length (Bytes (cm_Chunk chk)) + 10" using chunk_record_length(2) Cons.prems(4) by simp
  obtain w1 where w1: "write_chunk ?seq w chk = Ok (w1, chk\<lparr>Meta_Ref := ?seq OR of_nat (length v)\<rparr>)" "contents w1 (vs @ [v @ ?r])" "cw_segmentSize w1 = cw_segmentSize w"
    using write_chunk_contents [OF Cons.prems(1), of chk ?seq] Cons.prems(4) by auto
  have "length (v @ ?r) + batch_size chks < 2 ^ 32" using Cons.prems(3) len by (simp add: batch_size_def)
  from Cons.IH [OF w1(2) Cons.prems(2) this] Cons.prems(4) obtain w' u metas where
    w': "write_chunks ?seq w1 chks = Ok (w', metas)" "contents w' (vs @ [(v @ ?r) @ u])" "cw_segmentSize w' = cw_segmentSize w1" "length u \<le> batch_size chks"
      "list_all2 (\<lambda>c m. chunk_at (vs @ [(v @ ?r) @ u]) (Meta_Ref m) (cm_Chunk c) \<and> MinTime m = MinTime c \<and> MaxTime m = MaxTime c) chks metas" by auto
  have "chunk_at (vs @ [(v @ ?r) @ u]) (?seq OR of_nat (length v)) (cm_Chunk chk)"
    unfolding chunk_at_def using Cons.prems(2,3) by (intro exI [of _ "length vs"] exI [of _ v] exI [of _ u]) simp
  then show ?case using w1 w' len by (intro exI [of _ w'] exI [of _ "?r @ u"] exI [of _ "chk\<lparr>Meta_Ref := ?seq OR of_nat (length v)\<rparr> # metas"]) (auto simp: batch_size_def)
qed


lemma WriteChunks_contents:
  assumes "contents w vs" "Suc (length vs) < 10 ^ 6" "cw_segmentSize w < 2 ^ 31" "batch_size chks < 2 ^ 31"
  shows "\<exists>w' us metas. WriteChunks w chks = Ok (w', metas) \<and> contents w' us \<and> cw_segmentSize w' = cw_segmentSize w
    \<and> length vs \<le> length us \<and> length us \<le> Suc (length vs) \<and> (\<forall>k < length vs. prefix (vs ! k) (us ! k)) \<and> ((\<forall>v \<in> set vs. prefix chunk_metab v) \<longrightarrow> (\<forall>v \<in> set us. prefix chunk_metab v))
    \<and> list_all2 (\<lambda>c m. chunk_at us (Meta_Ref m) (cm_Chunk c) \<and> MinTime m = MinTime c \<and> MaxTime m = MaxTime c) chks metas"
proof -
  let ?cut = "cw_wbuf w = None \<or> cw_n w > cw_segmentSize w \<or> cw_n w + cw_maxLen chks > cw_segmentSize w \<and> cw_maxLen chks \<le> cw_segmentSize w"
  have small: "\<forall>c \<in> set chks. length (Bytes (cm_Chunk c)) < 2 ^ 31"
    using assms(4) member_le_sum_list [of _ "map (\<lambda>c. length (Bytes (cm_Chunk c)) + 10) chks"] by (fastforce simp: batch_size_def)
  have "\<exists>w1 ws v. (if ?cut then cw_cut w else Ok w) = Ok w1 \<and> contents w1 (ws @ [v]) \<and> cw_segmentSize w1 = cw_segmentSize w
      \<and> (ws @ [v] = vs \<or> ws = vs \<and> v = chunk_metab) \<and> length v < 2 ^ 31"
  proof (cases ?cut)
    case True
    obtain w1 where "cw_cut w = Ok w1" "contents w1 (vs @ [chunk_metab])" "cw_segmentSize w1 = cw_segmentSize w" using cut_contents [OF assms(1,2)] by blast
    then show ?thesis using True by (intro exI [of _ w1] exI [of _ vs] exI [of _ chunk_metab]) simp
  next
    case False
    then have "vs \<noteq> []" using assms(1) by (auto simp: contents_def split: if_splits)
    then obtain ws v where vs: "vs = ws @ [v]" by (metis append_butlast_last_id)
    then have "cw_n w = length v" using assms(1) contents_snoc by metis
    then have "length v < 2 ^ 31" using False assms(3) by auto
    then show ?thesis using False assms(1) vs by (auto simp: not_le)
  qed
  then obtain w1 ws v where w1: "(if ?cut then cw_cut w else Ok w) = Ok w1" "contents w1 (ws @ [v])" "cw_segmentSize w1 = cw_segmentSize w"
    "ws @ [v] = vs \<or> ws = vs \<and> v = chunk_metab" "length v < 2 ^ 31" by blast
  have "cw_files w1 = seq_names (Suc (length ws))" by (rule contents_snoc [OF w1(2)])
  then have seq: "of_int (cw_seq w1) = (of_nat (length ws) :: u64)" by (simp add: cw_seq_def)
  have "length ws < 10 ^ 6" using w1(4) assms(2) by auto
  moreover have "length v + batch_size chks < 2 ^ 32" using w1(5) assms(4) by simp
  ultimately obtain w' u metas where w': "write_chunks (push_bit 32 (of_nat (length ws))) w1 chks = Ok (w', metas)" "contents w' (ws @ [v @ u])"
    "cw_segmentSize w' = cw_segmentSize w1"
    "list_all2 (\<lambda>c m. chunk_at (ws @ [v @ u]) (Meta_Ref m) (cm_Chunk c) \<and> MinTime m = MinTime c \<and> MaxTime m = MaxTime c) chks metas"
    using write_chunks_contents [OF w1(2) _ _ small] by blast
  have "WriteChunks w chks = Ok (w', metas)" unfolding WriteChunks_def Let_def w1(1) using w'(1) seq by simp
  moreover have "prefix (vs ! k) ((ws @ [v @ u]) ! k)" if "k < length vs" for k
    using w1(4) that by (auto simp: nth_append less_Suc_eq)
  moreover have "(\<forall>v \<in> set vs. prefix chunk_metab v) \<longrightarrow> (\<forall>v \<in> set (ws @ [v @ u]). prefix chunk_metab v)" using w1(4) by auto
  moreover have "length vs \<le> length (ws @ [v @ u])" "length (ws @ [v @ u]) \<le> Suc (length vs)" using w1(4) by auto
  ultimately show ?thesis using w'(2-4) w1(3) by (intro exI [of _ w'] exI [of _ "ws @ [v @ u]"] exI [of _ metas]) simp
qed

text \<open>A run of the writer.\<close>

fun write_batches :: "chunkWriter \<Rightarrow> XORChunk ChunkMeta list list \<Rightarrow> (chunkWriter \<times> XORChunk ChunkMeta list list) outcome" where
  "write_batches w [] = Ok (w, [])"
| "write_batches w (b # bs) =
     bind_outcome (WriteChunks w b) (\<lambda>(w, metas).
     bind_outcome (write_batches w bs) (\<lambda>(w, mss). Ok (w, metas # mss)))"

lemma write_batches_contents:
  assumes "contents w vs" "length vs + length batches < 10 ^ 6" "cw_segmentSize w < 2 ^ 31" "\<forall>b \<in> set batches. batch_size b < 2 ^ 31" "\<forall>v \<in> set vs. prefix chunk_metab v"
  shows "\<exists>w' us mss. write_batches w batches = Ok (w', mss) \<and> contents w' us \<and> length vs \<le> length us \<and> length us \<le> length vs + length batches
    \<and> (\<forall>k < length vs. prefix (vs ! k) (us ! k)) \<and> (\<forall>v \<in> set us. prefix chunk_metab v)
    \<and> list_all2 (list_all2 (\<lambda>c m. chunk_at us (Meta_Ref m) (cm_Chunk c) \<and> MinTime m = MinTime c \<and> MaxTime m = MaxTime c)) batches mss"
  using assms
proof (induction batches arbitrary: w vs)
  case Nil
  then show ?case by (intro exI [of _ w] exI [of _ vs]) simp
next
  case (Cons b batches)
  obtain w1 us ms where w1: "WriteChunks w b = Ok (w1, ms)" "contents w1 us" "cw_segmentSize w1 = cw_segmentSize w" "length vs \<le> length us" "length us \<le> Suc (length vs)"
    "\<forall>k < length vs. prefix (vs ! k) (us ! k)" "\<forall>v \<in> set us. prefix chunk_metab v"
    "list_all2 (\<lambda>c m. chunk_at us (Meta_Ref m) (cm_Chunk c) \<and> MinTime m = MinTime c \<and> MaxTime m = MaxTime c) b ms"
    using WriteChunks_contents [OF Cons.prems(1) _ Cons.prems(3), of b] Cons.prems(2,4,5) by auto
  have "length us + length batches < 10 ^ 6" "cw_segmentSize w1 < 2 ^ 31" "\<forall>b \<in> set batches. batch_size b < 2 ^ 31" using w1(3,5) Cons.prems(2-4) by auto
  from Cons.IH [OF w1(2) this w1(7)] obtain w' xs mss where w': "write_batches w1 batches = Ok (w', mss)" "contents w' xs" "length us \<le> length xs"
    "length xs \<le> length us + length batches" "\<forall>k < length us. prefix (us ! k) (xs ! k)" "\<forall>v \<in> set xs. prefix chunk_metab v"
    "list_all2 (list_all2 (\<lambda>c m. chunk_at xs (Meta_Ref m) (cm_Chunk c) \<and> MinTime m = MinTime c \<and> MaxTime m = MaxTime c)) batches mss" by blast
  have "list_all2 (\<lambda>c m. chunk_at xs (Meta_Ref m) (cm_Chunk c) \<and> MinTime m = MinTime c \<and> MaxTime m = MaxTime c) b ms"
    using w1(8) chunk_at_mono [OF _ w'(3,5)] by (auto elim!: list.rel_mono_strong)
  moreover have "prefix (vs ! k) (xs ! k)" if "k < length vs" for k
    using w1(4,6) w'(5) that by (meson order_less_le_trans prefix_order.trans)
  ultimately show ?case using w1(1,4,5) w' by (intro exI [of _ w'] exI [of _ xs] exI [of _ "ms # mss"]) simp
qed

section \<open>Reading\<close>

lemma byteSlice_Range_append: "byteSlice_Range (pre @ mid @ post) (length pre) (length pre + length mid) = Ok mid"
  by (simp add: byteSlice_Range_def)

text \<open>The checksum is skipped: any four bytes in its place will do.\<close>

lemma Chunk_reads:
  assumes "k < length bs" "bs ! k = pre @ PutUvarint (of_nat (length d)) @ [e] @ d @ crc @ post" "length crc = 4" "d \<noteq> []" "length d < 2 ^ 31"
    and "k < 10 ^ 6" "length pre < 2 ^ 32"
  shows "chunkReader_Chunk bs (push_bit 32 (of_nat k) OR of_nat (length pre)) = pool_Get e d"
proof -
  let ?ref = "push_bit 32 (of_nat k) OR of_nat (length pre) :: u64" and ?b = "bs ! k" and ?l = "PutUvarint (of_nat (length d))"
  have k: "unat (of_nat k :: u64) = k" and p: "unat (of_nat (length pre) :: u64) = length pre"
    using assms(6,7) by (simp_all add: unat_of_nat)
  have "unat (of_nat k :: u64) < 2 ^ (LENGTH(64) - 32)" "unat (of_nat (length pre) :: u64) < 2 ^ 32" using k p assms(6,7) by simp_all
  note ref = packed_word [OF this]
  have seq: "drop_bit 32 ?ref = of_nat k" and off: "drop_bit 32 (push_bit 32 ?ref) = of_nat (length pre)" using ref by simp_all
  have l: "length ?l \<le> 5" "length ?l > 0" using chunk_record_length(1) [of "\<lparr>chunk_b = \<lparr>stream = d, count = 0\<rparr>\<rparr>"] assms(5) by (simp_all add: Bytes_def MaxVarintLen32_def)
  define tl5 where "tl5 = take (5 - length ?l) ([e] @ d @ crc @ post)"
  have "length ([e] @ d @ crc @ post) \<ge> 5 - length ?l" using assms(3,4) by (cases d) auto
  then have t5: "length (?l @ tl5) = 5" "take 5 (drop (length pre) ?b) = ?l @ tl5" using l by (simp_all add: assms(2) tl5_def)
  have r1: "byteSlice_Range ?b (length pre) (length pre + 5) = Ok (?l @ tl5)"
    using t5 assms(2-4) l by (cases d) (simp_all add: byteSlice_Range_def)
  have uv: "Uvarint (?l @ tl5) = (of_nat (length d), int (length ?l))" by (rule Uvarint_PutUvarint)
  have ul: "unat (of_nat (length d) :: u64) = length d" using assms(5) by (simp add: unat_of_nat)
  have sl: "sint (of_nat (length d) :: u64) = int (length d)" using assms(5) by (intro sint_of_nat_small) simp
  have b: "?b = (pre @ ?l) @ (e # butlast d) @ [last d] @ crc @ post" "?b = (pre @ ?l @ [e]) @ d @ crc @ post" using assms(2,4) by simp_all
  have r2: "byteSlice_Range ?b (length pre + length ?l) (length pre + length ?l + length d) = Ok (e # butlast d)"
    using byteSlice_Range_append [of "pre @ ?l" "e # butlast d" "[last d] @ crc @ post"] assms(4) unfolding b(1) by simp
  have r3: "byteSlice_Range ?b (length pre + length ?l + 1) (length pre + length ?l + 1 + length d) = Ok d"
    using byteSlice_Range_append [of "pre @ ?l @ [e]" d "crc @ post"] unfolding b(2) by simp
  have in': "length pre < length ?b" using l by (simp add: assms(2))
  show ?thesis using assms(1) in' r1 r2 r3 unfolding chunkReader_Chunk_def Let_def seq off k p MaxVarintLen32_def
    by (simp add: uv ul sl not_le)
qed


lemma chunk_at_reads:
  assumes "chunk_at vs ref c" "Bytes c \<noteq> []" "length (Bytes c) < 2 ^ 31"
  shows "chunkReader_Chunk vs ref = Ok \<lparr>chunk_b = \<lparr>stream = Bytes c, count = 0\<rparr>\<rparr>"
proof -
  obtain k pre post where "k < length vs" "vs ! k = pre @ chunk_record c @ post" "ref = push_bit 32 (of_nat k) OR of_nat (length pre)" "k < 10 ^ 6" "length pre < 2 ^ 32"
    using assms(1) by (auto simp: chunk_at_def)
  then have "chunkReader_Chunk vs ref = pool_Get encXOR_byte (Bytes c)"
    using Chunk_reads [of k vs pre "Bytes c" encXOR_byte "PutUint32 (crc32_checksum (Meta_writeHash c))" post] assms(2,3) by (simp add: chunk_record_def)
  then show ?thesis by (simp add: pool_Get_def encXOR_byte_def encoding_of_byte_def)
qed

lemma newChunkReader_ok: "\<forall>v \<in> set vs. prefix chunk_metab v \<Longrightarrow> newChunkReader vs = Ok ()"
proof (induction vs)
  case (Cons v vs)
  then obtain rest where v: "v = PutUint32 MagicChunks @ [chunksFormatV1, 0, 0, 0] @ rest" by (auto simp: chunk_metab_def prefix_def)
  then have "byteSlice_Range v 0 4 = Ok (PutUint32 MagicChunks)" using byteSlice_Range_append [of "[]" "PutUint32 MagicChunks"] by simp
  then show ?case using Cons v Uint32_PutUint32 [of MagicChunks "[]"] by simp
qed simp

lemma sorted_sort_key: "sorted (map f xs) \<Longrightarrow> sort_key f xs = xs"
  by (induction xs) (auto simp: insort_is_Cons)

lemma NewDirReader_contents:
  assumes "contents w vs" "map sf_data (cw_dir w) = vs" "length vs < 10 ^ 6" "\<forall>v \<in> set vs. prefix chunk_metab v"
  shows "NewDirReader (cw_dir w) = Ok vs"
proof -
  have names: "map sf_name (cw_dir w) = seq_names (length vs)" using assms(1) by (simp add: contents_def)
  have "sorted (map sf_name (cw_dir w))" unfolding names using seq_names_sorted [OF assms(3)] by (rule strict_sorted_imp_sorted)
  then have "sort_key sf_name (cw_dir w) = cw_dir w" by (rule sorted_sort_key)
  moreover have "ParseUint n \<noteq> None" if "n \<in> set (seq_names (length vs))" for n
    using that assms(3) by (auto simp: seq_names_def ParseUint_pad6)
  then have "ParseUint (sf_name f) \<noteq> None" if "f \<in> set (cw_dir w)" for f using that names by (metis image_eqI set_map)
  ultimately have "sequenceFiles (cw_dir w) = cw_dir w" by (simp add: sequenceFiles_def filter_id_conv)
  then show ?thesis using assms(2,4) newChunkReader_ok by (simp add: NewDirReader_def Let_def)
qed

section \<open>Properties\<close>

text \<open>
  C4. Chunk files: whatever batches of chunks are written to an empty directory, across segment files, a reader opened on it after
  the writer is closed finds every chunk under the reference the writer gave it, with the same bytes, so that
  it iterates over the same samples. Segments and batches are smaller than 2 GB and there are fewer than a million batches.
\<close>

theorem chunk_files_round_trip:
  assumes "sz < 2 ^ 31" "length batches < 10 ^ 6" "\<forall>b \<in> set batches. batch_size b < 2 ^ 31" "\<forall>b \<in> set batches. \<forall>c \<in> set b. Bytes (cm_Chunk c) \<noteq> []"
  shows "\<exists>w mss w' bs. write_batches ((NewWriter [])\<lparr>cw_segmentSize := sz\<rparr>) batches = Ok (w, mss) \<and> cw_Close w = Ok w' \<and> NewDirReader (cw_dir w') = Ok bs
    \<and> list_all2 (list_all2 (\<lambda>c m. MinTime m = MinTime c \<and> MaxTime m = MaxTime c
        \<and> (\<exists>c'. chunkReader_Chunk bs (Meta_Ref m) = Ok c' \<and> Bytes c' = Bytes (cm_Chunk c) \<and> iterator c' = iterator (cm_Chunk c)))) batches mss"
proof -
  let ?w0 = "(NewWriter [])\<lparr>cw_segmentSize := sz\<rparr>"
  have "contents ?w0 []" by (simp add: contents_def NewWriter_def)
  from write_batches_contents [OF this, of batches] assms(1-3) obtain w us mss where w: "write_batches ?w0 batches = Ok (w, mss)" "contents w us" "length us \<le> length batches"
    "\<forall>v \<in> set us. prefix chunk_metab v" "list_all2 (list_all2 (\<lambda>c m. chunk_at us (Meta_Ref m) (cm_Chunk c) \<and> MinTime m = MinTime c \<and> MaxTime m = MaxTime c)) batches mss"
    by auto
  have len: "length us < 10 ^ 6" using w(3) assms(2) by simp
  obtain w' where w': "cw_Close w = Ok w'" "contents w' us" "map sf_data (cw_dir w') = us"
    using finalizeTail_contents [OF w(2) len] by (auto simp: cw_Close_def)
  have r: "NewDirReader (cw_dir w') = Ok us" by (rule NewDirReader_contents [OF w'(2,3) len w(4)])
  have "length (Bytes (cm_Chunk c)) < 2 ^ 31" if "b \<in> set batches" "c \<in> set b" for b c
    using assms(3) that member_le_sum_list [of "length (Bytes (cm_Chunk c)) + 10" "map (\<lambda>c. length (Bytes (cm_Chunk c)) + 10) b"] by (fastforce simp: batch_size_def)
  then have "\<exists>c'. chunkReader_Chunk us ref = Ok c' \<and> Bytes c' = Bytes (cm_Chunk c) \<and> iterator c' = iterator (cm_Chunk c)"
    if "b \<in> set batches" "c \<in> set b" "chunk_at us ref (cm_Chunk c)" for b c ref
    using chunk_at_reads [OF that(3)] assms(4) that by (auto simp: Bytes_def iterator_def)
  then have "list_all2 (list_all2 (\<lambda>c m. MinTime m = MinTime c \<and> MaxTime m = MaxTime c
        \<and> (\<exists>c'. chunkReader_Chunk us (Meta_Ref m) = Ok c' \<and> Bytes c' = Bytes (cm_Chunk c) \<and> iterator c' = iterator (cm_Chunk c)))) batches mss"
    using w(5) by (auto elim!: list.rel_mono_strong)
  then show ?thesis using w(1) w'(1) r by blast
qed

theorem chunk_files_round_trip_witness:
  "\<exists>w m1 m2 w' bs c1 c2. write_batches ((NewWriter [])\<lparr>cw_segmentSize := 20\<rparr>)
      [[\<lparr>Meta_Ref = 0, MinTime = 1, MaxTime = 2, cm_Chunk = \<lparr>chunk_b = \<lparr>stream = [0, 1, 7], count = 3\<rparr>\<rparr>\<rparr>],
       [\<lparr>Meta_Ref = 0, MinTime = 3, MaxTime = 4, cm_Chunk = \<lparr>chunk_b = \<lparr>stream = [0, 2, 8], count = 0\<rparr>\<rparr>\<rparr>]] = Ok (w, [[m1], [m2]])
    \<and> cw_Close w = Ok w' \<and> NewDirReader (cw_dir w') = Ok bs
    \<and> chunkReader_Chunk bs (Meta_Ref m1) = Ok c1 \<and> Bytes c1 = [0, 1, 7] \<and> chunkReader_Chunk bs (Meta_Ref m2) = Ok c2 \<and> Bytes c2 = [0, 2, 8]"
  using chunk_files_round_trip [of 20 "[[\<lparr>Meta_Ref = 0, MinTime = 1, MaxTime = 2, cm_Chunk = \<lparr>chunk_b = \<lparr>stream = [0, 1, 7], count = 3\<rparr>\<rparr>\<rparr>],
       [\<lparr>Meta_Ref = 0, MinTime = 3, MaxTime = 4, cm_Chunk = \<lparr>chunk_b = \<lparr>stream = [0, 2, 8], count = 0\<rparr>\<rparr>\<rparr>]]"]
  by (auto simp: list_all2_Cons1 batch_size_def Bytes_def)

text \<open>
  C37. The checksum of a chunk is written and never read: with any four bytes in its place the reader returns the chunk
  without an error.
\<close>

theorem chunk_checksum_ignored:
  assumes "k < length bs" "k < 10 ^ 6" "length pre < 2 ^ 32" "Bytes c \<noteq> []" "length (Bytes c) < 2 ^ 31" "length crc = 4"
    and "bs ! k = pre @ PutUvarint (of_nat (length (Bytes c))) @ [encXOR_byte] @ Bytes c @ crc @ post"
  shows "\<exists>c'. chunkReader_Chunk bs (push_bit 32 (of_nat k) OR of_nat (length pre)) = Ok c' \<and> Bytes c' = Bytes c"
  using Chunk_reads [OF assms(1,7,6,4,5,2,3)] by (simp add: pool_Get_def encXOR_byte_def encoding_of_byte_def Bytes_def)

theorem chunk_checksum_ignored_witness:
  "\<exists>c'. chunkReader_Chunk [chunk_metab @ [3, encXOR_byte, 0, 1, 7] @ [0, 0, 0, 0]] (push_bit 32 (of_nat 0) OR of_nat 8) = Ok c' \<and> Bytes c' = [0, 1, 7]
   \<and> PutUint32 (crc32_checksum (Meta_writeHash c')) \<noteq> [0, 0, 0, 0]"
proof -
  let ?c = "\<lparr>chunk_b = \<lparr>stream = [0, 1, 7], count = 0\<rparr>\<rparr>"
  have "PutUvarint 3 = [3]" by (subst PutUvarint_small) simp_all
  then obtain c' where c': "chunkReader_Chunk [chunk_metab @ [3, encXOR_byte, 0, 1, 7] @ [0, 0, 0, 0]] (push_bit 32 (of_nat 0) OR of_nat 8) = Ok c'" "Bytes c' = [0, 1, 7]"
    using chunk_checksum_ignored [of 0 "[chunk_metab @ [3, encXOR_byte, 0, 1, 7] @ [0, 0, 0, 0]]" chunk_metab ?c "[0, 0, 0, 0]" "[]"] by (auto simp: Bytes_def)
  have "PutUint32 (crc32_checksum ([encXOR_byte] @ [0, 1, 7])) \<noteq> [0, 0, 0, 0]" by code_simp
  then show ?thesis using c' by (auto simp: Meta_writeHash_def)
qed

end
