(* ===== verification/Spec2Isabelle.thy ===== *)
theory Spec2Isabelle
  imports Xor Labels Tombstones Wal_Record MemPostings Buffer Wal_Repair Db_Query Head_Truncate Chunk_Files
begin

text \<open>
  \<^bold>\<open>A verification development of the Prometheus time series database \<^verbatim>\<open>tsdb\<close>.\<close>

  \<^bold>\<open>The program.\<close> Samples, pairs of a timestamp and a value, are appended to series named by label
  sets. Recent samples live in the \<^emph>\<open>head\<close> (\<^verbatim>\<open>head.go\<close>): each series is a list of compressed
  chunks (\<^verbatim>\<open>chunkenc/\<close>), found by id, by hash of the labels, and through an inverted index of
  postings (\<^verbatim>\<open>index/postings.go\<close>). Writers use transactions, which are logged to a write ahead
  log (\<^verbatim>\<open>wal/wal.go\<close>, with the records of \<^verbatim>\<open>record.go\<close>) before they change the head. Deletions are intervals kept
  beside the data (\<^verbatim>\<open>tombstones.go\<close>). Queries (\<^verbatim>\<open>querier.go\<close>) select series by label matchers and
  iterate over their chunks. Old data is cut from the head by garbage collection and written to
  blocks (\<^verbatim>\<open>compact.go\<close>, \<^verbatim>\<open>block.go\<close>, \<^verbatim>\<open>index/index.go\<close>, \<^verbatim>\<open>chunks/chunks.go\<close>), which \<^verbatim>\<open>db.go\<close> manages.

  \<^bold>\<open>Conventions.\<close> Machine words are values of \<^verbatim>\<open>HOL-Library.Word\<close>; timestamps are integers with the
  wrap-around of \<^verbatim>\<open>int64\<close> written out (\<open>i64\<close>), floats are their 64 bits. A Go slice is the list of its elements, a string or file the
  list of its bytes, a map a function to options. A call returns \<open>Ok\<close>, \<open>Fail\<close> with an error, or
  \<open>Panic\<close> (type \<open>outcome\<close>). Loops are total functions with a termination proof wherever every run
  ends; the others are partial functions into options, where \<open>None\<close> is a call that does not return, and the
  theorems show that a value is returned. There is no fuel. Shared objects (the series of the head) live in an
  explicit store. Locks make their operations single steps; what runs concurrently is interleaved
  by calls, and where goroutines share the work of one call, by their steps. Writing to files does not fail.

  \<^bold>\<open>Theories.\<close>
  \<^item> \<^verbatim>\<open>Prelude\<close>: outcomes, bit lists and words, sorting with a comparison. \<^verbatim>\<open>Binary\<close>: big-endian
    integers and varints of \<^verbatim>\<open>encoding/binary\<close>.
  \<^item> \<^verbatim>\<open>Bstream\<close>, \<^verbatim>\<open>Xor\<close>: \<^verbatim>\<open>chunkenc/bstream.go\<close> and \<^verbatim>\<open>xor.go\<close>. A chunk gives back the samples
    appended to it bit by bit, also through an appender opened again.
  \<^item> \<^verbatim>\<open>Labels\<close>: \<^verbatim>\<open>labels/\<close>, label sets, their order and matchers.
  \<^item> \<^verbatim>\<open>Encbuf\<close>, \<^verbatim>\<open>Wal_Record\<close>: \<^verbatim>\<open>encoding_helpers.go\<close> and \<^verbatim>\<open>record.go\<close>; records decode to what was encoded.
  \<^item> \<^verbatim>\<open>Tombstones\<close>: \<^verbatim>\<open>tombstones.go\<close>, interval sets and the tombstone file.
  \<^item> \<^verbatim>\<open>Postings\<close>, \<^verbatim>\<open>Postings_Laws\<close>, \<^verbatim>\<open>MemPostings\<close>: \<^verbatim>\<open>index/postings.go\<close>. The locale of a postings iterator says what
    \<^verbatim>\<open>Next\<close> and \<^verbatim>\<open>Seek\<close> promise; every iterator type is an interpretation of it, and
    the combinators deliver intersection, union and difference.
  \<^item> \<^verbatim>\<open>Wal\<close>, \<^verbatim>\<open>Wal_Laws\<close>, \<^verbatim>\<open>Wal_Writer\<close>, \<^verbatim>\<open>Wal_Repair\<close>: \<^verbatim>\<open>wal/wal.go\<close>. What is logged is read back, across
    segments and restarts; truncation and repair keep what they should.
  \<^item> \<^verbatim>\<open>Buffer\<close>: the look-back ring of \<^verbatim>\<open>tsdbutil/buffer.go\<close> as a queue.
  \<^item> \<^verbatim>\<open>MemSeries\<close>: \<^verbatim>\<open>memSeries\<close> of \<^verbatim>\<open>head.go\<close>; along every run of appends and truncations the samples
    stay readable and chunks inside their range.
  \<^item> \<^verbatim>\<open>Head\<close>, \<^verbatim>\<open>Head_Laws\<close>, \<^verbatim>\<open>Head_Gc\<close>, \<^verbatim>\<open>Head_Reader\<close>: the head with its invariant \<open>head_inv\<close>, transactions
    (\<open>samples_of\<close> is what a client can read), garbage collection, index and chunk readers.
  \<^item> \<^verbatim>\<open>Querier\<close>, \<^verbatim>\<open>Head_Query\<close>: from matchers to postings against any index reader that keeps the contract of the
    locale \<open>index_reader\<close>, which the head's does.
  \<^item> \<^verbatim>\<open>Series_Iter\<close>, \<^verbatim>\<open>Block_Query\<close>: the iterators over chunks with tombstones, and a query of the head from
    matchers to samples. \<^verbatim>\<open>Merged_Query\<close>, \<^verbatim>\<open>Db_Query\<close>: merged sets and chained series, and the querier of the
    whole database, whose answer is the join of the answers of the blocks and the head.
  \<^item> \<^verbatim>\<open>Head_Load\<close>: \<^verbatim>\<open>loadWAL\<close> and \<^verbatim>\<open>processWALSamples\<close> of \<^verbatim>\<open>head.go\<close>, the ring of goroutines that replays the
    log, as a step relation over all interleavings. \<^verbatim>\<open>Head_Replay\<close>, \<^verbatim>\<open>Load_Ring\<close>, \<^verbatim>\<open>Load_Live\<close>, \<^verbatim>\<open>Load_Data\<close>: it always
    returns, and the head holds what replaying the records in order gives.
  \<^item> \<^verbatim>\<open>Checkpoint\<close>, \<^verbatim>\<open>Head_Init\<close>, \<^verbatim>\<open>Head_Recovery\<close>: \<^verbatim>\<open>checkpoint.go\<close> and \<^verbatim>\<open>Head.Init\<close>; after a crash the head
    has all that was committed. \<^verbatim>\<open>Checkpoint_Write\<close>, \<^verbatim>\<open>Head_Truncate\<close>: writing a checkpoint and truncating the head; what a
    restart then reads restores the remaining series as the old log would.
  \<^item> \<^verbatim>\<open>File_Names\<close>, \<^verbatim>\<open>Chunk_Files\<close>: the numbered segment files of chunks, \<^verbatim>\<open>chunks/chunks.go\<close>; every chunk is read back
    under the reference it was written with.
  \<^item> \<^verbatim>\<open>Compact\<close>, \<^verbatim>\<open>Db\<close>: the planner of \<^verbatim>\<open>compact.go\<close> and the management of blocks of \<^verbatim>\<open>db.go\<close> (\<^verbatim>\<open>reload\<close>, the
    sequence of blocks, \<^verbatim>\<open>compact\<close>). Writing a block is a parameter of the loop.

  \<^bold>\<open>Not modelled.\<close> The index file (\<^verbatim>\<open>index/index.go\<close>), the files of a
  block and the merging of series when one is written (\<^verbatim>\<open>block.go\<close>, the rest of \<^verbatim>\<open>compact.go\<close>), the log format of old releases (\<^verbatim>\<open>wal.go\<close>) and its migration, and the repair of old blocks
  (\<^verbatim>\<open>repair.go\<close>) are left for now. File locks, memory mapping, directory syncing (\<^verbatim>\<open>fileutil/\<close>), metrics, logging, the
  command line tool and test helpers have no logic of the database in them.
\<close>

end
